(* ===== verification/PBus_Prelude.thy ===== *)
theory PBus_Prelude
  imports Main "HOL-Library.Word" "HOL-Library.Monad_Syntax" "HOL-Library.While_Combinator"
begin

unbundle bit_operations_syntax

text \<open>
  Shared vocabulary of the development: the machine integers of the C++ sources, bounded memory
  access, big-endian field access, and a loop combinator with its termination and divergence rules.

  Memory is a list of bytes. Reading or writing outside it is undefined behaviour in C++, so every
  access is checked and an access outside the list is the value \<open>None\<close>: a theorem that a
  routine returns \<open>Some\<close> says that the routine touches only the memory it was given. Positions
  inside a buffer (\<open>uint32_t\<close>, \<open>size_t\<close>) are natural numbers; where the source's arithmetic on
  them can wrap, the reduction modulo \<open>2^32\<close> is written out. Field values are words of their width.
\<close>

type_synonym u8 = "8 word"
type_synonym u16 = "16 word"
type_synonym u32 = "32 word"
type_synonym u64 = "64 word"
type_synonym bytes = "u8 list"

named_theorems access_simps \<open>evaluation of checked memory accesses\<close>
named_theorems filled_simps \<open>writes at the frontier of a buffer that is filled from the front\<close>
named_theorems codec_simps \<open>round trips of the big-endian codecs\<close>

declare length_greater_0_conv [simp del] \<comment> \<open>keeps \<open>0 < length buf\<close> within linear arithmetic\<close>

lemma xor_eq_0_iff_eq: "a XOR b = 0 \<longleftrightarrow> a = (b :: 'a :: len word)"
  by (metis xor.assoc xor.left_neutral xor_self_eq)

lemma ucast_ucast_widen [simp]:
  "LENGTH('a) \<le> LENGTH('b) \<Longrightarrow> ucast (ucast (x :: 'a :: len word) :: 'b :: len word) = x"
  by (rule bit_word_eqI) (auto simp: bit_simps)

lemma unat_ucast_widen [simp]:
  "LENGTH('a) \<le> LENGTH('b) \<Longrightarrow> unat (ucast (x :: 'a :: len word) :: 'b :: len word) = unat x"
  using less_le_trans [OF unsigned_less [of x], of "2 ^ LENGTH('b) :: nat"]
  by (simp add: unsigned_ucast_eq take_bit_nat_eq_self)

lemma word_of_unat: "unat (w :: 'a :: len word) = n \<Longrightarrow> w = of_nat n"
  by auto

lemma bit_byte_high: "8 \<le> n \<Longrightarrow> \<not> bit (b :: u8) n"
  using bit_imp_le_length [of b n] by auto

subsection \<open>Checked memory access\<close>

definition rd :: "bytes \<Rightarrow> nat \<Rightarrow> u8 option" where
  "rd buf i = (if i < length buf then Some (buf ! i) else None)"

definition rds :: "bytes \<Rightarrow> nat \<Rightarrow> nat \<Rightarrow> bytes option" where
  "rds buf i n = (if i + n \<le> length buf then Some (take n (drop i buf)) else None)"

definition patch :: "bytes \<Rightarrow> nat \<Rightarrow> bytes \<Rightarrow> bytes" where
  "patch buf i xs = take i buf @ xs @ drop (i + length xs) buf"

definition wrs :: "bytes \<Rightarrow> nat \<Rightarrow> bytes \<Rightarrow> bytes option" where
  "wrs buf i xs = (if i + length xs \<le> length buf then Some (patch buf i xs) else None)"

definition wr :: "bytes \<Rightarrow> nat \<Rightarrow> u8 \<Rightarrow> bytes option" where
  "wr buf i v = (if i < length buf then Some (buf[i := v]) else None)"

lemma rd_Some [access_simps, simp]: "i < length buf \<Longrightarrow> rd buf i = Some (buf ! i)"
  by (simp add: rd_def)

lemma rd_eq_None [simp]: "rd buf i = None \<longleftrightarrow> length buf \<le> i"
  by (auto simp: rd_def)

lemma rds_Some [access_simps, simp]: "i + n \<le> length buf \<Longrightarrow> rds buf i n = Some (take n (drop i buf))"
  by (simp add: rds_def)

lemma rd_drop: "k \<le> length buf \<Longrightarrow> rd (drop k buf) i = rd buf (k + i)"
  by (auto simp: rd_def)

lemma length_patch [simp]: "i + length xs \<le> length buf \<Longrightarrow> length (patch buf i xs) = length buf"
  by (simp add: patch_def)

lemma nth_patch:
  assumes "i + length xs \<le> length buf" and "j < length buf"
  shows "patch buf i xs ! j = (if i \<le> j \<and> j < i + length xs then xs ! (j - i) else buf ! j)"
  using assms by (auto simp: patch_def nth_append min_def)

lemma wrs_Some [access_simps]: "i + length xs \<le> length buf \<Longrightarrow> wrs buf i xs = Some (patch buf i xs)"
  by (simp add: wrs_def)

lemma wr_eq_wrs: "wr buf i v = wrs buf i [v]"
  by (auto simp: wr_def wrs_def patch_def upd_conv_take_nth_drop)

lemma take_drop_patch_same:
  "i + length xs \<le> length buf \<Longrightarrow> take (length xs) (drop i (patch buf i xs)) = xs"
  by (simp add: patch_def)

lemma take_drop_patch_other:
  assumes "i + length xs \<le> length buf" and "j + n \<le> i \<or> i + length xs \<le> j"
  shows "take n (drop j (patch buf i xs)) = take n (drop j buf)"
  using assms by (intro nth_equalityI) (auto simp: nth_patch)

subsection \<open>Big-endian codecs\<close>

definition be16 :: "u8 \<Rightarrow> u8 \<Rightarrow> u16" where
  "be16 a b = push_bit 8 (ucast a) OR ucast b"

definition be32 :: "u8 \<Rightarrow> u8 \<Rightarrow> u8 \<Rightarrow> u8 \<Rightarrow> u32" where
  "be32 a b c d = push_bit 24 (ucast a) OR push_bit 16 (ucast b) OR push_bit 8 (ucast c) OR ucast d"

definition put16 :: "u16 \<Rightarrow> bytes" where
  "put16 v = [ucast (drop_bit 8 v), ucast v]"

definition put32 :: "u32 \<Rightarrow> bytes" where
  "put32 v = [ucast (drop_bit 24 v), ucast (drop_bit 16 v), ucast (drop_bit 8 v), ucast v]"

lemma length_put16 [simp]: "length (put16 v) = 2"
  by (simp add: put16_def)

lemma length_put32 [simp]: "length (put32 v) = 4"
  by (simp add: put32_def)

lemma be16_put16: "be16 (ucast (drop_bit 8 v)) (ucast v) = v"
  unfolding be16_def by (rule bit_word_eqI) (auto simp: bit_simps)

lemma be32_put32:
  "be32 (ucast (drop_bit 24 v)) (ucast (drop_bit 16 v)) (ucast (drop_bit 8 v)) (ucast v) = v"
proof (rule bit_word_eqI)
  fix n :: nat
  assume "n < LENGTH(32)"
  then consider "n < 8" | "8 \<le> n" "n < 16" | "16 \<le> n" "n < 24" | "24 \<le> n" "n < 32" by fastforce
  then show "bit (be32 (ucast (drop_bit 24 v)) (ucast (drop_bit 16 v)) (ucast (drop_bit 8 v)) (ucast v)) n
      = bit v n"
    by cases (auto simp: be32_def bit_simps)
qed

lemma put32_put16: "put32 v = put16 (ucast (drop_bit 16 v)) @ put16 (ucast v)"
  unfolding put32_def put16_def by (auto intro!: bit_word_eqI simp: bit_simps)

lemma put16_be16: "put16 (be16 a b) = [a, b]"
  unfolding put16_def be16_def by (auto intro!: bit_word_eqI simp: bit_simps bit_byte_high)

subsection \<open>Fields at an offset\<close>

definition get_u16 :: "bytes \<Rightarrow> nat \<Rightarrow> u16 option" where
  "get_u16 buf i = do { a \<leftarrow> rd buf i; b \<leftarrow> rd buf (i + 1); Some (be16 a b) }"

definition get_u32 :: "bytes \<Rightarrow> nat \<Rightarrow> u32 option" where
  "get_u32 buf i = do { a \<leftarrow> rd buf i; b \<leftarrow> rd buf (i + 1); c \<leftarrow> rd buf (i + 2); d \<leftarrow> rd buf (i + 3);
     Some (be32 a b c d) }"

definition get_u64 :: "bytes \<Rightarrow> nat \<Rightarrow> u64 option" where
  "get_u64 buf i = do { h \<leftarrow> get_u32 buf i; l \<leftarrow> get_u32 buf (i + 4); Some (push_bit 32 (ucast h) OR ucast l) }"

definition put_u16 :: "bytes \<Rightarrow> nat \<Rightarrow> u16 \<Rightarrow> bytes option" where
  "put_u16 buf i v = wrs buf i (put16 v)"

definition put_u32 :: "bytes \<Rightarrow> nat \<Rightarrow> u32 \<Rightarrow> bytes option" where
  "put_u32 buf i v = wrs buf i (put32 v)"

lemma get_u16_Some [access_simps, simp]:
  "i + 2 \<le> length buf \<Longrightarrow> get_u16 buf i = Some (be16 (buf ! i) (buf ! (i + 1)))"
  by (simp add: get_u16_def)

lemma get_u32_Some [access_simps, simp]:
  "i + 4 \<le> length buf \<Longrightarrow>
   get_u32 buf i = Some (be32 (buf ! i) (buf ! (i + 1)) (buf ! (i + 2)) (buf ! (i + 3)))"
  by (simp add: get_u32_def)

lemma put_u16_Some [access_simps]:
  "i + 2 \<le> length buf \<Longrightarrow> put_u16 buf i v = Some (patch buf i (put16 v))"
  by (simp add: put_u16_def wrs_def)

lemma put_u32_Some [access_simps]:
  "i + 4 \<le> length buf \<Longrightarrow> put_u32 buf i v = Some (patch buf i (put32 v))"
  by (simp add: put_u32_def wrs_def)

lemma wr_Some [access_simps]: "i < length buf \<Longrightarrow> wr buf i v = Some (patch buf i [v])"
  by (simp add: wr_eq_wrs wrs_def)

subsection \<open>Memory seen as a concatenation of fields\<close>

text \<open>
  \<open>filled pre buf\<close> is \<open>buf\<close> with its first bytes overwritten by \<open>pre\<close>: the state of a routine that
  writes its output field by field from the front.
\<close>

definition filled :: "bytes \<Rightarrow> bytes \<Rightarrow> bytes" where
  "filled pre buf = pre @ drop (length pre) buf"

lemma filled_Nil: "filled [] buf = buf"
  by (simp add: filled_def)

lemma length_filled [simp]: "length pre \<le> length buf \<Longrightarrow> length (filled pre buf) = length buf"
  by (simp add: filled_def)

lemma wrs_filled [filled_simps]:
  "i = length pre \<Longrightarrow> length pre + length xs \<le> length buf \<Longrightarrow>
   wrs (filled pre buf) i xs = Some (filled (pre @ xs) buf)"
  by (simp add: filled_def wrs_def patch_def add.commute)

lemma wr_filled [filled_simps]:
  "i = length pre \<Longrightarrow> length pre < length buf \<Longrightarrow> wr (filled pre buf) i v = Some (filled (pre @ [v]) buf)"
  by (simp only: wr_eq_wrs) (simp add: wrs_filled)

lemma put_u16_filled [filled_simps]:
  "i = length pre \<Longrightarrow> length pre + 2 \<le> length buf \<Longrightarrow>
   put_u16 (filled pre buf) i v = Some (filled (pre @ put16 v) buf)"
  by (simp add: put_u16_def wrs_filled)

lemma put_u32_filled [filled_simps]:
  "i = length pre \<Longrightarrow> length pre + 4 \<le> length buf \<Longrightarrow>
   put_u32 (filled pre buf) i v = Some (filled (pre @ put32 v) buf)"
  by (simp add: put_u32_def wrs_filled)

lemma rd_append: "i = length a \<Longrightarrow> rd (a @ x # c) i = Some x"
  by (simp add: rd_def nth_append)

lemma rds_prefix: "n = length a \<Longrightarrow> rds (a @ c) 0 n = Some a"
  by (simp add: rds_def)

lemma rds_append: "i = length a \<Longrightarrow> n = length b \<Longrightarrow> rds (a @ b @ c) i n = Some b"
  by (simp add: rds_def)

lemma wrs_append: "i = length a \<Longrightarrow> length xs = length b \<Longrightarrow> wrs (a @ b @ c) i xs = Some (a @ xs @ c)"
  by (simp add: wrs_def patch_def)

lemma wr_append: "i = length a \<Longrightarrow> wr (a @ x # c) i v = Some (a @ v # c)"
  using wrs_append [of i a "[v]" "[x]" c] by (simp add: wr_eq_wrs)

lemma get_u16_append [codec_simps]: "i = length a \<Longrightarrow> get_u16 (a @ put16 v @ c) i = Some v"
  by (simp add: get_u16_def rd_def nth_append put16_def be16_put16)

lemma get_u32_append [codec_simps]: "i = length a \<Longrightarrow> get_u32 (a @ put32 v @ c) i = Some v"
  by (simp add: get_u32_def rd_def nth_append put32_def be32_put32)

subsection \<open>Numbers and text\<close>

text \<open>The conversions of \<open>std::format\<close> the sources use: \<open>{}\<close> and \<open>{:0w}\<close> of an unsigned number.\<close>

fun dec :: "nat \<Rightarrow> string" where
  "dec n = (if n < 10 then [char_of (48 + n)] else dec (n div 10) @ [char_of (48 + n mod 10)])"

declare dec.simps [simp del]

definition dec_padded :: "nat \<Rightarrow> nat \<Rightarrow> string" where
  "dec_padded w n = replicate (w - length (dec n)) CHR ''0'' @ dec n"

definition ascii :: "string \<Rightarrow> bytes" where
  "ascii s = map of_char s"

text \<open>An option of the command line, used if it is given.\<close>

definition given :: "'a option \<Rightarrow> ('a \<Rightarrow> 's \<Rightarrow> 's) \<Rightarrow> 's \<Rightarrow> 's" where
  "given x f s = (case x of None \<Rightarrow> s | Some v \<Rightarrow> f v s)"

subsection \<open>Loops with early exits\<close>

text \<open>
  A loop whose body either continues with a new state (\<open>Inl\<close>) or leaves with a result (\<open>Inr\<close>).
  A loop that never leaves is \<open>None\<close>.
\<close>

definition run_loop :: "('s \<Rightarrow> 's + 'r) \<Rightarrow> 's \<Rightarrow> 'r option" where
  "run_loop step s = map_option projr (while_option isl (\<lambda>x. step (projl x)) (Inl s))"

lemma run_loop_unfold [code]:
  "run_loop step s = (case step s of Inl s' \<Rightarrow> run_loop step s' | Inr r \<Rightarrow> Some r)"
proof -
  have "while_option isl (\<lambda>x. step (projl x)) (Inl s) = while_option isl (\<lambda>x. step (projl x)) (step s)"
    by (subst while_option_unfold) simp
  then show ?thesis
    by (cases "step s") (simp_all add: run_loop_def while_option_unfold)
qed

lemma run_loop_Inl: "step s = Inl s' \<Longrightarrow> run_loop step s = run_loop step s'"
  by (subst run_loop_unfold) simp

lemma run_loop_Inr: "step s = Inr r \<Longrightarrow> run_loop step s = Some r"
  by (subst run_loop_unfold) simp

lemma run_loop_induct [consumes 1, case_names exit continue]:
  fixes step :: "'s \<Rightarrow> 's + 'r"
  assumes "run_loop step s = Some r"
    and "\<And>s r. step s = Inr r \<Longrightarrow> P s r"
    and "\<And>s s' r. step s = Inl s' \<Longrightarrow> run_loop step s' = Some r \<Longrightarrow> P s' r \<Longrightarrow> P s r"
  shows "P s r"
proof -
  let ?c = "\<lambda>x :: 's + 'r. step (projl x)"
  from assms(1) obtain t where t: "while_option isl ?c (Inl s) = Some t" and r: "r = projr t"
    by (auto simp: run_loop_def)
  from while_option_stop2 [OF t] obtain k where k: "t = (?c ^^ k) (Inl s)" by blast
  have stop: "\<not> isl t" by (rule while_option_stop [OF t])
  have "\<not> isl ((?c ^^ k) x) \<Longrightarrow> isl x \<Longrightarrow> run_loop step (projl x) = Some (projr ((?c ^^ k) x))
     \<Longrightarrow> P (projl x) (projr ((?c ^^ k) x))" for k and x :: "'s + 'r"
  proof (induction k arbitrary: x)
    case 0
    then show ?case by simp
  next
    case (Suc k)
    show ?case
    proof (cases "step (projl x)")
      case (Inl s')
      then have x': "(?c ^^ Suc k) x = (?c ^^ k) (Inl s')" by (simp only: funpow_Suc_right o_def)
      from Suc.prems Inl have "run_loop step s' = Some (projr ((?c ^^ k) (Inl s')))"
        by (simp only: x' run_loop_Inl)
      with Suc.IH [of "Inl s'"] Suc.prems show ?thesis
        by (simp only: x') (auto intro: assms(3) [OF Inl])
    next
      case (Inr r')
      with Suc.prems have "projr ((?c ^^ Suc k) x) = r'" by (simp only: run_loop_Inr option.inject)
      with Inr show ?thesis by (simp only: assms(2))
    qed
  qed
  from this [of k "Inl s"] show ?thesis using assms(1) stop by (simp add: k r)
qed

text \<open>
  Nested outcomes: a routine that may run forever and may leave its buffer has a result of type
  \<open>'a option option\<close>: the outer \<open>None\<close> is divergence, the inner one an access outside the buffer.
  \<open>and_then\<close> composes such routines, \<open>into_loop\<close> uses one inside a loop body.
\<close>

definition and_then :: "'a option option \<Rightarrow> ('a \<Rightarrow> 'b option option) \<Rightarrow> 'b option option" where
  "and_then x f = (case x of None \<Rightarrow> None | Some None \<Rightarrow> Some None | Some (Some v) \<Rightarrow> f v)"

definition into_loop :: "'a option option \<Rightarrow> ('a \<Rightarrow> 's + 'r option option) \<Rightarrow> 's + 'r option option" where
  "into_loop x f = (case x of None \<Rightarrow> Inr None | Some None \<Rightarrow> Inr (Some None) | Some (Some v) \<Rightarrow> f v)"

definition run_nested :: "('s \<Rightarrow> 's + 'r option option) \<Rightarrow> 's \<Rightarrow> 'r option option" where
  "run_nested step s = (case run_loop step s of None \<Rightarrow> None | Some r \<Rightarrow> r)"

lemma and_then_simps [simp]:
  "and_then None f = None" "and_then (Some None) f = Some None" "and_then (Some (Some v)) f = f v"
  by (simp_all add: and_then_def)

lemma into_loop_simps [simp]:
  "into_loop None f = Inr None" "into_loop (Some None) f = Inr (Some None)" "into_loop (Some (Some v)) f = f v"
  by (simp_all add: into_loop_def)

lemma run_nested_Inl: "step s = Inl s' \<Longrightarrow> run_nested step s = run_nested step s'"
  by (simp add: run_nested_def run_loop_Inl)

lemma run_nested_Inr: "step s = Inr r \<Longrightarrow> run_nested step s = r"
  by (simp add: run_nested_def run_loop_Inr)

lemma run_nested_unfold [code]:
  "run_nested step s = (case step s of Inl s' \<Rightarrow> run_nested step s' | Inr r \<Rightarrow> r)"
  by (simp add: run_nested_Inl run_nested_Inr split: sum.split)

text \<open>Divergence: an invariant under which the body always continues.\<close>

lemma run_loop_diverges:
  assumes "I s" and "\<And>s. I s \<Longrightarrow> \<exists>s'. step s = Inl s' \<and> I s'"
  shows "run_loop step s = None"
proof (rule ccontr)
  assume "run_loop step s \<noteq> None"
  then obtain r where "run_loop step s = Some r" by auto
  then have "I s \<longrightarrow> False"
    by (induction rule: run_loop_induct) (use assms(2) in fastforce)+
  with assms(1) show False by simp
qed

text \<open>Total correctness: an invariant, a decreasing measure and a postcondition of the exits.\<close>

lemma run_loop_total:
  assumes "I s"
    and "\<And>s s'. I s \<Longrightarrow> step s = Inl s' \<Longrightarrow> I s' \<and> (m s' :: nat) < m s"
    and "\<And>s r. I s \<Longrightarrow> step s = Inr r \<Longrightarrow> Q r"
  shows "\<exists>r. run_loop step s = Some r \<and> Q r"
  using assms(1)
proof (induction "m s" arbitrary: s rule: less_induct)
  case less
  show ?case
  proof (cases "step s")
    case (Inl s')
    from assms(2) [OF less.prems Inl] have "I s'" "m s' < m s" by auto
    with less.hyps Inl show ?thesis by (simp add: run_loop_Inl)
  next
    case (Inr r)
    with assms(3) [OF less.prems] show ?thesis by (simp add: run_loop_Inr)
  qed
qed

text \<open>Simulation: two loops whose bodies stay related have related outcomes, divergence included.\<close>

lemma run_loop_sim_Some:
  assumes "run_loop f s = Some r" and "R s t"
    and "\<And>s t. R s t \<Longrightarrow> rel_sum R Q (f s) (g t)"
  shows "\<exists>r'. run_loop g t = Some r' \<and> Q r r'"
  using assms(1,2)
proof (induction arbitrary: t rule: run_loop_induct)
  case (exit s r)
  from assms(3) [OF exit(2)] exit(1) obtain r' where "g t = Inr r'" "Q r r'"
    by (cases "g t") auto
  then show ?case by (simp add: run_loop_Inr)
next
  case (continue s s' r)
  from assms(3) [OF continue(4)] continue(1) obtain t' where "g t = Inl t'" "R s' t'"
    by (cases "g t") auto
  with continue(3) show ?case by (simp add: run_loop_Inl)
qed

lemma run_loop_sim:
  assumes "R s t" and step: "\<And>s t. R s t \<Longrightarrow> rel_sum R Q (f s) (g t)"
  shows "rel_option Q (run_loop f s) (run_loop g t)"
proof (cases "run_loop f s")
  case (Some r)
  from run_loop_sim_Some [where R = R and Q = Q and g = g, OF this assms(1) step] obtain r' where "run_loop g t = Some r'" "Q r r'"
    by blast
  with Some show ?thesis by simp
next
  case None
  have conv: "rel_sum R\<inverse>\<inverse> Q\<inverse>\<inverse> (g t) (f s)" if "R\<inverse>\<inverse> t s" for s t
    using step [of s t] that by (cases "f s"; cases "g t") auto
  have "run_loop g t = None"
  proof (rule ccontr)
    assume "run_loop g t \<noteq> None"
    then obtain r where "run_loop g t = Some r" by auto
    from run_loop_sim_Some [OF this, of "R\<inverse>\<inverse>" s "Q\<inverse>\<inverse>" f] assms(1) conv None show False by auto
  qed
  with None show ?thesis by simp
qed

lemma run_nested_total:
  assumes "I s"
    and "\<And>s s'. I s \<Longrightarrow> step s = Inl s' \<Longrightarrow> I s' \<and> (m s' :: nat) < m s"
    and "\<And>s r. I s \<Longrightarrow> step s = Inr r \<Longrightarrow> Q r"
  shows "Q (run_nested step s)"
proof -
  have "\<exists>r. run_loop step s = Some r \<and> Q r" by (rule run_loop_total [of I s step m Q]) (use assms in auto)
  then show ?thesis by (auto simp: run_nested_def)
qed

lemma run_nested_diverges:
  assumes "I s" and "\<And>s. I s \<Longrightarrow> \<exists>s'. step s = Inl s' \<and> I s'"
  shows "run_nested step s = None"
  using run_loop_diverges [of I s step, OF assms] by (simp add: run_nested_def)

end
