(* ===== verification/R_Session.thy ===== *)
theory R_Session
  imports PBus_Prelude
begin

text \<open>
  The IEC 61850-90-5 session envelope (common/r_session.hpp, common/r_session.cpp) and the
  backend-neutral half of the crypto class (common/r_session_crypto_common.cpp): the protocol
  constants and offsets, \<open>build\<close>, \<open>seal\<close>, \<open>parse_session\<close>, \<open>unseal\<close>, \<open>parse_payload\<close>, \<open>parse\<close>,
  \<open>DeriveIV\<close> and \<open>VerifyHMAC\<close>. The primitives of the crypto backend (mbedtls or OpenSSL) are not
  code of the repository: they are the fields of the record \<open>Crypto\<close>, a parameter of the model.

  The lemmas show that no routine leaves the memory it is given, that a built envelope parses back
  to its parameters, and that a sealed frame unseals to the plaintext it was sealed from.
\<close>

datatype SecurityMode = SEC_NONE | SEC_HMAC | SEC_GCM

subsection \<open>Protocol constants and offsets\<close>

abbreviation (input) CLTP_LI :: u8 where "CLTP_LI \<equiv> 0x01"
abbreviation (input) CLTP_UD :: u8 where "CLTP_UD \<equiv> 0x40"
abbreviation (input) SI_R_GOOSE :: u8 where "SI_R_GOOSE \<equiv> 0xA1"
abbreviation (input) SI_R_SV :: u8 where "SI_R_SV \<equiv> 0xA2"
abbreviation (input) SESSION_HDR_LI :: u8 where "SESSION_HDR_LI \<equiv> 24"
abbreviation (input) PI_COMMON_HDR :: u8 where "PI_COMMON_HDR \<equiv> 0x80"
abbreviation (input) COMMON_HDR_LI2 :: u8 where "COMMON_HDR_LI2 \<equiv> 18"
abbreviation (input) SESSION_VERSION :: u16 where "SESSION_VERSION \<equiv> 2"
abbreviation (input) PAYLOAD_TYPE_GOOSE :: u8 where "PAYLOAD_TYPE_GOOSE \<equiv> 0x81"
abbreviation (input) PAYLOAD_TYPE_SV :: u8 where "PAYLOAD_TYPE_SV \<equiv> 0x82"
abbreviation (input) SIGNATURE_TAG :: u8 where "SIGNATURE_TAG \<equiv> 0x85"
abbreviation (input) UDP_DST_PORT :: u16 where "UDP_DST_PORT \<equiv> 102"
abbreviation (input) KEY_ID :: u32 where "KEY_ID \<equiv> 1"
abbreviation (input) IV_LEN_NONE :: u8 where "IV_LEN_NONE \<equiv> 0"
abbreviation (input) IV_LEN_GCM :: u8 where "IV_LEN_GCM \<equiv> 12"
abbreviation (input) TAG_SIZE :: nat where "TAG_SIZE \<equiv> 16"
abbreviation (input) TRAILER_SIZE :: nat where "TRAILER_SIZE \<equiv> 2 + TAG_SIZE"

abbreviation (input) OFF_CLTP_LI :: nat where "OFF_CLTP_LI \<equiv> 0"
abbreviation (input) OFF_CLTP_UD :: nat where "OFF_CLTP_UD \<equiv> 1"
abbreviation (input) OFF_SI :: nat where "OFF_SI \<equiv> 2"
abbreviation (input) OFF_SESSION_LI :: nat where "OFF_SESSION_LI \<equiv> 3"
abbreviation (input) OFF_PI :: nat where "OFF_PI \<equiv> 4"
abbreviation (input) OFF_LI2 :: nat where "OFF_LI2 \<equiv> 5"
abbreviation (input) OFF_SPDU_LENGTH :: nat where "OFF_SPDU_LENGTH \<equiv> 6"
abbreviation (input) OFF_SPDU_NUMBER :: nat where "OFF_SPDU_NUMBER \<equiv> 10"
abbreviation (input) OFF_VERSION :: nat where "OFF_VERSION \<equiv> 14"
abbreviation (input) OFF_TIME_CUR_KEY :: nat where "OFF_TIME_CUR_KEY \<equiv> 16"
abbreviation (input) OFF_TIME_NEXT_KEY :: nat where "OFF_TIME_NEXT_KEY \<equiv> 20"
abbreviation (input) OFF_KEY_ID :: nat where "OFF_KEY_ID \<equiv> 22"
abbreviation (input) OFF_IV_LENGTH :: nat where "OFF_IV_LENGTH \<equiv> 26"
abbreviation (input) OFF_IV :: nat where "OFF_IV \<equiv> 27"

abbreviation (input) SESSION_FIXED_SIZE :: nat where "SESSION_FIXED_SIZE \<equiv> 27"
abbreviation (input) PAYLOAD_HDR_SIZE :: nat where "PAYLOAD_HDR_SIZE \<equiv> 10"
abbreviation (input) PAYLOAD_ELEM_SIZE :: nat where "PAYLOAD_ELEM_SIZE \<equiv> 6"
abbreviation (input) ETH_IP_UDP_SIZE :: nat where "ETH_IP_UDP_SIZE \<equiv> 14 + 20 + 8"

definition iv_length :: "SecurityMode \<Rightarrow> u8" where
  "iv_length mode = (if mode = SEC_GCM then IV_LEN_GCM else IV_LEN_NONE)"

definition payload_hdr_offset :: "u8 \<Rightarrow> nat" where
  "payload_hdr_offset ivLen = SESSION_FIXED_SIZE + unat ivLen"

definition apdu_offset :: "u8 \<Rightarrow> nat" where
  "apdu_offset ivLen = payload_hdr_offset ivLen + PAYLOAD_HDR_SIZE"

definition trailer_size :: "SecurityMode \<Rightarrow> nat" where
  "trailer_size mode = (if mode = SEC_NONE then 0 else TRAILER_SIZE)"

definition udp_payload_size :: "SecurityMode \<Rightarrow> nat \<Rightarrow> nat" where
  "udp_payload_size mode apduLength = apdu_offset (iv_length mode) + apduLength + trailer_size mode"

definition appid_offset :: "u8 \<Rightarrow> nat" where
  "appid_offset ivLen = payload_hdr_offset ivLen + 4 + 1 + 1"

subsection \<open>Headers, errors, build parameters\<close>

text \<open>The pointer \<open>iv\<close> is the offset of the IV in the frame, \<open>None\<close> for the null pointer.\<close>

record SessionHeader =
  sh_si :: u8
  sh_spduLength :: u32
  sh_spduNumber :: u32
  sh_version :: u16
  sh_timeOfCurrentKey :: u32
  sh_timeToNextKey :: u16
  sh_keyId :: u32
  sh_ivLength :: u8
  sh_iv :: "nat option"
  sh_payloadLength :: u32

record PayloadHeader =
  ph_payloadType :: u8
  ph_simulation :: u8
  ph_appid :: u16
  ph_apduLength :: u16
  ph_apduSize :: u32

datatype ParseError = ERR_TOO_SHORT | ERR_BAD_CLTP | ERR_BAD_SI | ERR_BAD_PI | ERR_BAD_VERSION
  | ERR_BAD_PAYLOAD_LEN | ERR_BAD_PAYLOAD_TYPE | ERR_NO_TRAILER | ERR_AUTH_FAILED

primrec parse_error_code :: "ParseError \<Rightarrow> int" where
  "parse_error_code ERR_TOO_SHORT = -1"
| "parse_error_code ERR_BAD_CLTP = -2"
| "parse_error_code ERR_BAD_SI = -3"
| "parse_error_code ERR_BAD_PI = -4"
| "parse_error_code ERR_BAD_VERSION = -5"
| "parse_error_code ERR_BAD_PAYLOAD_LEN = -6"
| "parse_error_code ERR_BAD_PAYLOAD_TYPE = -7"
| "parse_error_code ERR_NO_TRAILER = -8"
| "parse_error_code ERR_AUTH_FAILED = -9"

record BuildParams =
  bp_si :: u8
  bp_payloadType :: u8
  bp_mode :: SecurityMode
  bp_spduNumber :: u32
  bp_keyId :: u32
  bp_appid :: u16
  bp_apduLength :: u16
  bp_simulation :: bool

subsection \<open>Security mode names\<close>

text \<open>\<open>Inl\<close> is the text of the \<open>std::invalid_argument\<close> thrown.\<close>

definition parse_security_mode :: "string \<Rightarrow> string + SecurityMode" where
  "parse_security_mode txt =
     (if txt = ''none'' then Inr SEC_NONE
      else if txt = ''hmac'' then Inr SEC_HMAC
      else if txt = ''gcm'' then Inr SEC_GCM
      else Inl (''Unknown R security mode '' @ [CHR 0x27] @ txt @ [CHR 0x27] @ '', expected none|hmac|gcm''))"

fun security_mode_to_string :: "SecurityMode \<Rightarrow> string" where
  "security_mode_to_string SEC_NONE = ''none''"
| "security_mode_to_string SEC_HMAC = ''hmac-sha256-128''"
| "security_mode_to_string SEC_GCM = ''aes-128-gcm''"

subsection \<open>Crypto\<close>

text \<open>
  \<open>HMAC\<close> gives the tag it writes, or \<open>None\<close> when it returns false and writes none. \<open>Encrypt\<close> takes
  IV, additional data and plaintext and gives its verdict with what it leaves in the data and tag
  buffers; \<open>Decrypt\<close> takes IV, additional data, ciphertext and tag and gives its verdict with what
  it leaves in the data buffer.
\<close>

record Crypto =
  c_HMAC :: "bytes \<Rightarrow> bytes option"
  c_Encrypt :: "bytes \<Rightarrow> bytes \<Rightarrow> bytes \<Rightarrow> bool \<times> bytes \<times> bytes"
  c_Decrypt :: "bytes \<Rightarrow> bytes \<Rightarrow> bytes \<Rightarrow> bytes \<Rightarrow> bool \<times> bytes"

definition DeriveIV :: "u32 \<Rightarrow> u32 \<Rightarrow> bytes" where
  "DeriveIV keyId spduNumber =
     [ucast (drop_bit 24 keyId), ucast (drop_bit 16 keyId), ucast (drop_bit 8 keyId), ucast keyId,
      0, 0, 0, 0,
      ucast (drop_bit 24 spduNumber), ucast (drop_bit 16 spduNumber), ucast (drop_bit 8 spduNumber),
      ucast spduNumber]"

text \<open>The constant-time comparison: \<open>diff\<close> accumulates the differences of all bytes.\<close>

definition tag_diff :: "bytes \<Rightarrow> bytes \<Rightarrow> u8" where
  "tag_diff expected tag = fold (\<lambda>i diff. diff OR (expected ! i XOR tag ! i)) [0..<TAG_SIZE] 0"

definition VerifyHMAC :: "Crypto \<Rightarrow> bytes \<Rightarrow> bytes \<Rightarrow> bool" where
  "VerifyHMAC crypto data tag =
     (case c_HMAC crypto data of None \<Rightarrow> False | Some expected \<Rightarrow> tag_diff expected tag = 0)"

subsection \<open>build\<close>

definition build :: "bytes \<Rightarrow> BuildParams \<Rightarrow> (bytes \<times> nat) option" where
  "build buf params = do {
     let ivLen = iv_length (bp_mode params);
     let payloadLength = (of_nat PAYLOAD_ELEM_SIZE + ucast (bp_apduLength params) :: u32);
     buf \<leftarrow> wr buf OFF_CLTP_LI CLTP_LI;
     buf \<leftarrow> wr buf OFF_CLTP_UD CLTP_UD;
     buf \<leftarrow> wr buf OFF_SI (bp_si params);
     buf \<leftarrow> wr buf OFF_SESSION_LI SESSION_HDR_LI;
     buf \<leftarrow> wr buf OFF_PI PI_COMMON_HDR;
     buf \<leftarrow> wr buf OFF_LI2 COMMON_HDR_LI2;
     buf \<leftarrow> put_u32 buf OFF_SPDU_LENGTH (20 + payloadLength);
     buf \<leftarrow> put_u32 buf OFF_SPDU_NUMBER (bp_spduNumber params);
     buf \<leftarrow> put_u16 buf OFF_VERSION SESSION_VERSION;
     buf \<leftarrow> put_u32 buf OFF_TIME_CUR_KEY 0;
     buf \<leftarrow> put_u16 buf OFF_TIME_NEXT_KEY 0;
     buf \<leftarrow> put_u32 buf OFF_KEY_ID (bp_keyId params);
     buf \<leftarrow> wr buf OFF_IV_LENGTH ivLen;
     buf \<leftarrow> (if 0 < ivLen then wrs buf OFF_IV (replicate (unat ivLen) 0) else Some buf);
     let phdr = payload_hdr_offset ivLen;
     buf \<leftarrow> put_u32 buf phdr payloadLength;
     buf \<leftarrow> wr buf (phdr + 4) (bp_payloadType params);
     buf \<leftarrow> wr buf (phdr + 5) (if bp_simulation params then 1 else 0);
     buf \<leftarrow> put_u16 buf (phdr + 6) (bp_appid params);
     buf \<leftarrow> put_u16 buf (phdr + 8) (bp_apduLength params);
     Some (buf, apdu_offset ivLen) }"

subsection \<open>seal and unseal\<close>

definition seal :: "bytes \<Rightarrow> SecurityMode \<Rightarrow> Crypto \<Rightarrow> (bool \<times> bytes) option" where
  "seal buf mode crypto =
     (if mode = SEC_NONE then Some (True, buf)
      else do {
        ivLen \<leftarrow> rd buf OFF_IV_LENGTH;
        let phOff = payload_hdr_offset ivLen;
        payloadLength \<leftarrow> get_u32 buf phOff;
        let payloadStart = phOff + 4;
        let payloadEnd = payloadStart + unat payloadLength;
        buf \<leftarrow> wr buf payloadEnd SIGNATURE_TAG;
        buf \<leftarrow> wr buf (payloadEnd + 1) (of_nat TAG_SIZE);
        let tag = payloadEnd + 2;
        if mode = SEC_HMAC then do {
          data \<leftarrow> rds buf 0 payloadEnd;
          (case c_HMAC crypto data of
             None \<Rightarrow> Some (False, buf)
           | Some t \<Rightarrow> do { buf \<leftarrow> wrs buf tag t; Some (True, buf) }) }
        else do {
          keyId \<leftarrow> get_u32 buf OFF_KEY_ID;
          spduNumber \<leftarrow> get_u32 buf OFF_SPDU_NUMBER;
          buf \<leftarrow> wrs buf OFF_IV (DeriveIV keyId spduNumber);
          iv \<leftarrow> rds buf OFF_IV (unat ivLen);
          aad \<leftarrow> rds buf 0 payloadStart;
          data \<leftarrow> rds buf payloadStart (unat payloadLength);
          (case c_Encrypt crypto iv aad data of (ok, data', t) \<Rightarrow> do {
             buf \<leftarrow> wrs buf payloadStart data';
             buf \<leftarrow> wrs buf tag t;
             Some (ok, buf) }) } })"

definition unseal :: "bytes \<Rightarrow> nat \<Rightarrow> SecurityMode \<Rightarrow> SessionHeader \<Rightarrow> Crypto \<Rightarrow> (bool \<times> bytes) option" where
  "unseal buf sz mode session crypto =
     (if mode = SEC_NONE then Some (True, buf)
      else let phOff = payload_hdr_offset (sh_ivLength session);
               payloadStart = phOff + 4;
               payloadEnd = payloadStart + unat (sh_payloadLength session)
        in if sz < payloadEnd + TRAILER_SIZE then Some (False, buf)
           else do {
             sigTag \<leftarrow> rd buf payloadEnd;
             if sigTag \<noteq> SIGNATURE_TAG then Some (False, buf)
             else if mode = SEC_HMAC then do {
               data \<leftarrow> rds buf 0 payloadEnd;
               tag \<leftarrow> rds buf (payloadEnd + 2) TAG_SIZE;
               Some (VerifyHMAC crypto data tag, buf) }
             else case sh_iv session of
               None \<Rightarrow> Some (False, buf)
             | Some ivOff \<Rightarrow>
                 if sh_ivLength session \<noteq> IV_LEN_GCM then Some (False, buf)
                 else do {
                   tagSize \<leftarrow> rd buf (payloadEnd + 1);
                   if unat tagSize \<noteq> TAG_SIZE then Some (False, buf)
                   else do {
                     iv \<leftarrow> rds buf ivOff (unat (sh_ivLength session));
                     aad \<leftarrow> rds buf 0 payloadStart;
                     data \<leftarrow> rds buf payloadStart (unat (sh_payloadLength session));
                     tag \<leftarrow> rds buf (payloadEnd + 2) (unat tagSize);
                     (case c_Decrypt crypto iv aad data tag of (ok, data') \<Rightarrow> do {
                        buf \<leftarrow> wrs buf payloadStart data';
                        Some (ok, buf) }) } } })"

subsection \<open>parse\<close>

text \<open>
  \<open>Inl\<close> is the error returned; the header is an output parameter, which the callers read only on
  success. \<open>Inr\<close> carries the returned offset with the header.
\<close>

definition parse_session :: "bytes \<Rightarrow> nat \<Rightarrow> (ParseError + nat \<times> SessionHeader) option" where
  "parse_session buf sz =
     (if sz < SESSION_FIXED_SIZE + 4 then Some (Inl ERR_TOO_SHORT)
      else do {
        li \<leftarrow> rd buf OFF_CLTP_LI;
        ud \<leftarrow> rd buf OFF_CLTP_UD;
        if li \<noteq> CLTP_LI \<or> ud \<noteq> CLTP_UD then Some (Inl ERR_BAD_CLTP)
        else do {
          si \<leftarrow> rd buf OFF_SI;
          if si \<noteq> SI_R_GOOSE \<and> si \<noteq> SI_R_SV then Some (Inl ERR_BAD_SI)
          else do {
            pi \<leftarrow> rd buf OFF_PI;
            if pi \<noteq> PI_COMMON_HDR then Some (Inl ERR_BAD_PI)
            else do {
              version \<leftarrow> get_u16 buf OFF_VERSION;
              if version \<noteq> SESSION_VERSION then Some (Inl ERR_BAD_VERSION)
              else do {
                spduLength \<leftarrow> get_u32 buf OFF_SPDU_LENGTH;
                spduNumber \<leftarrow> get_u32 buf OFF_SPDU_NUMBER;
                timeOfCurrentKey \<leftarrow> get_u32 buf OFF_TIME_CUR_KEY;
                timeToNextKey \<leftarrow> get_u16 buf OFF_TIME_NEXT_KEY;
                keyId \<leftarrow> get_u32 buf OFF_KEY_ID;
                ivLength \<leftarrow> rd buf OFF_IV_LENGTH;
                let phOff = payload_hdr_offset ivLength;
                if sz < phOff + PAYLOAD_HDR_SIZE then Some (Inl ERR_TOO_SHORT)
                else do {
                  payloadLength \<leftarrow> get_u32 buf phOff;
                  if unat payloadLength < PAYLOAD_ELEM_SIZE \<or> sz < phOff + 4 + unat payloadLength
                  then Some (Inl ERR_BAD_PAYLOAD_LEN)
                  else Some (Inr (phOff,
                    \<lparr> sh_si = si, sh_spduLength = spduLength, sh_spduNumber = spduNumber,
                      sh_version = version, sh_timeOfCurrentKey = timeOfCurrentKey,
                      sh_timeToNextKey = timeToNextKey, sh_keyId = keyId, sh_ivLength = ivLength,
                      sh_iv = (if 0 < ivLength then Some OFF_IV else None),
                      sh_payloadLength = payloadLength \<rparr>)) } } } } } })"

definition parse_payload :: "bytes \<Rightarrow> nat \<Rightarrow> SessionHeader \<Rightarrow> (ParseError + nat \<times> PayloadHeader) option" where
  "parse_payload buf sz session =
     (let phOff = payload_hdr_offset (sh_ivLength session)
      in if sz < phOff + PAYLOAD_HDR_SIZE then Some (Inl ERR_TOO_SHORT)
         else do {
           payloadType \<leftarrow> rd buf (phOff + 4);
           if payloadType \<noteq> PAYLOAD_TYPE_GOOSE \<and> payloadType \<noteq> PAYLOAD_TYPE_SV
           then Some (Inl ERR_BAD_PAYLOAD_TYPE)
           else do {
             simulation \<leftarrow> rd buf (phOff + 5);
             appid \<leftarrow> get_u16 buf (phOff + 6);
             apduLength \<leftarrow> get_u16 buf (phOff + 8);
             Some (Inr (phOff + PAYLOAD_HDR_SIZE,
               \<lparr> ph_payloadType = payloadType, ph_simulation = simulation, ph_appid = appid,
                 ph_apduLength = apduLength,
                 ph_apduSize = sh_payloadLength session - of_nat PAYLOAD_ELEM_SIZE \<rparr>)) } })"

definition parse :: "bytes \<Rightarrow> nat \<Rightarrow> (ParseError + nat \<times> SessionHeader \<times> PayloadHeader) option" where
  "parse buf sz = do {
     r \<leftarrow> parse_session buf sz;
     (case r of Inl e \<Rightarrow> Some (Inl e)
      | Inr (phOff, session) \<Rightarrow> do {
          q \<leftarrow> parse_payload buf sz session;
          (case q of Inl e \<Rightarrow> Some (Inl e)
           | Inr (off, payload) \<Rightarrow> Some (Inr (off, session, payload))) }) }"

subsection \<open>The wire image\<close>

text \<open>
  Reference definitions: the envelope as a concatenation of fields. \<open>session_image\<close> is the session
  header up to and including the PayloadLength field, \<open>payload_elem\<close> the payload header element.
\<close>

definition payload_len :: "BuildParams \<Rightarrow> u32" where
  "payload_len p = of_nat PAYLOAD_ELEM_SIZE + ucast (bp_apduLength p)"

definition session_image :: "BuildParams \<Rightarrow> bytes \<Rightarrow> bytes" where
  "session_image p iv =
     [CLTP_LI, CLTP_UD, bp_si p, SESSION_HDR_LI, PI_COMMON_HDR, COMMON_HDR_LI2]
     @ put32 (20 + payload_len p) @ put32 (bp_spduNumber p) @ put16 SESSION_VERSION @ put32 0 @ put16 0
     @ put32 (bp_keyId p) @ [of_nat (length iv)] @ iv @ put32 (payload_len p)"

definition payload_elem :: "BuildParams \<Rightarrow> bytes" where
  "payload_elem p = [bp_payloadType p, if bp_simulation p then 1 else 0]
     @ put16 (bp_appid p) @ put16 (bp_apduLength p)"

definition session_of :: "BuildParams \<Rightarrow> bytes \<Rightarrow> SessionHeader" where
  "session_of p iv = \<lparr> sh_si = bp_si p, sh_spduLength = 20 + payload_len p,
     sh_spduNumber = bp_spduNumber p, sh_version = SESSION_VERSION, sh_timeOfCurrentKey = 0,
     sh_timeToNextKey = 0, sh_keyId = bp_keyId p, sh_ivLength = of_nat (length iv),
     sh_iv = (if iv = [] then None else Some OFF_IV), sh_payloadLength = payload_len p \<rparr>"

definition payload_of :: "BuildParams \<Rightarrow> PayloadHeader" where
  "payload_of p = \<lparr> ph_payloadType = bp_payloadType p, ph_simulation = (if bp_simulation p then 1 else 0),
     ph_appid = bp_appid p, ph_apduLength = bp_apduLength p, ph_apduSize = ucast (bp_apduLength p) \<rparr>"

text \<open>The parameters the callers pass: a session identifier and a payload type the receiver knows.\<close>

definition valid_params :: "BuildParams \<Rightarrow> bool" where
  "valid_params p \<longleftrightarrow> bp_si p \<in> {SI_R_GOOSE, SI_R_SV} \<and> bp_payloadType p \<in> {PAYLOAD_TYPE_GOOSE, PAYLOAD_TYPE_SV}"

lemma unat_payload_len [simp]: "unat (payload_len p) = 6 + unat (bp_apduLength p)"
proof -
  have "unat (bp_apduLength p) < 2 ^ 16" using unsigned_less [of "bp_apduLength p"] by simp
  then show ?thesis by (simp add: payload_len_def unat_word_ariths unsigned_ucast_eq take_bit_nat_def)
qed

lemma length_payload_elem [simp]: "length (payload_elem p) = 6"
  by (simp add: payload_elem_def)

lemma length_session_image [simp]: "length (session_image p iv) = 31 + length iv"
  by (simp add: session_image_def)

lemma unat_iv_length: "unat (iv_length m) = (if m = SEC_GCM then 12 else 0)"
  by (simp add: iv_length_def)

lemma iv_length_pos: "0 < iv_length m \<longleftrightarrow> m = SEC_GCM"
  by (simp add: iv_length_def)

lemmas layout_defs = payload_hdr_offset_def apdu_offset_def unat_iv_length trailer_size_def
  udp_payload_size_def

subsection \<open>build writes the image\<close>

lemma build_image:
  assumes "apdu_offset (iv_length (bp_mode p)) \<le> length buf"
  shows "build buf p = Some (filled (session_image p (replicate (unat (iv_length (bp_mode p))) 0) @ payload_elem p) buf,
     apdu_offset (iv_length (bp_mode p)))"
proof -
  have len: "37 + unat (iv_length (bp_mode p)) \<le> length buf" and ne: "buf \<noteq> []"
    using assms by (auto simp: layout_defs)
  have "build (filled [] buf) p = Some (filled (session_image p (replicate (unat (iv_length (bp_mode p))) 0)
      @ payload_elem p) buf, apdu_offset (iv_length (bp_mode p)))"
    using len ne by (simp add: build_def filled_simps session_image_def payload_elem_def payload_len_def
        Let_def layout_defs iv_length_pos iv_length_def)
  then show ?thesis by (simp only: filled_Nil)
qed

subsection \<open>Parsing the image\<close>

text \<open>The fixed part of the header, byte by byte.\<close>

definition session_fixed :: "BuildParams \<Rightarrow> nat \<Rightarrow> bytes" where
  "session_fixed p ivLen =
     [CLTP_LI, CLTP_UD, bp_si p, SESSION_HDR_LI, PI_COMMON_HDR, COMMON_HDR_LI2]
     @ put32 (20 + payload_len p) @ put32 (bp_spduNumber p) @ put16 SESSION_VERSION @ put32 0 @ put16 0
     @ put32 (bp_keyId p) @ [of_nat ivLen]"

lemma length_session_fixed [simp]: "length (session_fixed p n) = 27"
  by (simp add: session_fixed_def)

lemma session_image_fixed: "session_image p iv = session_fixed p (length iv) @ iv @ put32 (payload_len p)"
  by (simp add: session_image_def session_fixed_def)

lemma session_fixed_reads:
  "rd (session_fixed p n @ rest) OFF_CLTP_LI = Some CLTP_LI"
  "rd (session_fixed p n @ rest) OFF_CLTP_UD = Some CLTP_UD"
  "rd (session_fixed p n @ rest) OFF_SI = Some (bp_si p)"
  "rd (session_fixed p n @ rest) OFF_PI = Some PI_COMMON_HDR"
  "get_u16 (session_fixed p n @ rest) OFF_VERSION = Some SESSION_VERSION"
  "get_u32 (session_fixed p n @ rest) OFF_SPDU_LENGTH = Some (20 + payload_len p)"
  "get_u32 (session_fixed p n @ rest) OFF_SPDU_NUMBER = Some (bp_spduNumber p)"
  "get_u32 (session_fixed p n @ rest) OFF_TIME_CUR_KEY = Some 0"
  "get_u16 (session_fixed p n @ rest) OFF_TIME_NEXT_KEY = Some 0"
  "get_u32 (session_fixed p n @ rest) OFF_KEY_ID = Some (bp_keyId p)"
  "rd (session_fixed p n @ rest) OFF_IV_LENGTH = Some (of_nat n)"
  by (simp_all add: session_fixed_def put32_def put16_def be32_put32 be16_put16)
     (simp_all add: be32_def be16_def)

lemma parse_session_image:
  assumes si: "bp_si p \<in> {SI_R_GOOSE, SI_R_SV}" and iv: "length iv < 256"
    and sz: "37 + length iv + unat (bp_apduLength p) \<le> sz" "sz \<le> 31 + length iv + length rest"
  shows "parse_session (session_image p iv @ rest) sz = Some (Inr (27 + length iv, session_of p iv))"
proof -
  have pl: "get_u32 (session_fixed p (length iv) @ iv @ put32 (payload_len p) @ rest) (27 + length iv)
      = Some (payload_len p)"
    using get_u32_append [of "27 + length iv" "session_fixed p (length iv) @ iv" "payload_len p" rest]
    by simp
  have ivl: "unat (of_nat (length iv) :: u8) = length iv"
    using iv by (simp add: unat_of_nat take_bit_nat_def)
  then have ivp: "(0 :: u8) < of_nat (length iv) \<longleftrightarrow> iv \<noteq> []"
    by (simp add: word_less_nat_alt length_greater_0_conv)
  show ?thesis
    using si sz
    by (auto simp: parse_session_def session_image_fixed session_fixed_reads
        session_fixed_reads(2) [unfolded One_nat_def] pl payload_hdr_offset_def ivl ivp Let_def
        session_of_def simp del: rd_Some)
qed

lemma parse_payload_image:
  assumes ty: "bp_payloadType p \<in> {PAYLOAD_TYPE_GOOSE, PAYLOAD_TYPE_SV}" and iv: "length iv < 256"
    and sz: "37 + length iv \<le> sz"
  shows "parse_payload (session_image p iv @ payload_elem p @ rest) sz (session_of p iv)
     = Some (Inr (37 + length iv, payload_of p))"
proof -
  let ?pre = "session_image p iv"
  have ivl: "unat (of_nat (length iv) :: u8) = length iv"
    using iv by (simp add: unat_of_nat take_bit_nat_def)
  have reads: "rd (?pre @ payload_elem p @ rest) (31 + length iv) = Some (bp_payloadType p)"
    "rd (?pre @ payload_elem p @ rest) (32 + length iv) = Some (if bp_simulation p then 1 else 0)"
    "get_u16 (?pre @ payload_elem p @ rest) (33 + length iv) = Some (bp_appid p)"
    "get_u16 (?pre @ payload_elem p @ rest) (35 + length iv) = Some (bp_apduLength p)"
    by (simp_all add: payload_elem_def nth_append put16_def be16_put16)
  have size: "payload_len p - of_nat PAYLOAD_ELEM_SIZE = ucast (bp_apduLength p)"
    by (simp add: payload_len_def)
  show ?thesis
    using ty sz reads size
    by (auto simp: parse_payload_def payload_hdr_offset_def session_of_def ivl Let_def payload_of_def
        ac_simps)
qed

subsection \<open>Bounds: every access stays inside the frame\<close>

lemma parse_session_bounded: "sz \<le> length buf \<Longrightarrow> parse_session buf sz \<noteq> None"
  by (auto simp: parse_session_def Let_def)

lemma parse_session_sizes:
  assumes "parse_session buf sz = Some (Inr (phOff, session))"
  shows "phOff = payload_hdr_offset (sh_ivLength session)"
    and "PAYLOAD_ELEM_SIZE \<le> unat (sh_payloadLength session)"
    and "phOff + 4 + unat (sh_payloadLength session) \<le> sz"
    and "sh_si session = SI_R_GOOSE \<or> sh_si session = SI_R_SV"
    and "sh_iv session = (if sh_ivLength session = 0 then None else Some OFF_IV)"
  using assms
  by (auto simp: parse_session_def Let_def bind_eq_Some_conv word_gt_0 split: if_splits)

lemma parse_payload_bounded: "sz \<le> length buf \<Longrightarrow> parse_payload buf sz session \<noteq> None"
  by (auto simp: parse_payload_def Let_def)

lemma parse_bounded: "sz \<le> length buf \<Longrightarrow> parse buf sz \<noteq> None"
proof -
  assume "sz \<le> length buf"
  then obtain r where r: "parse_session buf sz = Some r" and q: "\<And>s. \<exists>q. parse_payload buf sz s = Some q"
    using parse_session_bounded parse_payload_bounded by blast
  show ?thesis
  proof (cases r)
    case (Inr ps)
    obtain off s where "ps = (off, s)" by fastforce
    moreover obtain q' where "parse_payload buf sz s = Some q'" using q by blast
    ultimately show ?thesis using r Inr by (simp add: parse_def split: sum.splits prod.splits)
  qed (simp add: parse_def r)
qed

text \<open>What the code relies on of \<open>Decrypt\<close> for memory safety: it works in place.\<close>

definition decrypts_in_place :: "Crypto \<Rightarrow> bool" where
  "decrypts_in_place crypto \<longleftrightarrow> (\<forall>iv aad data tag. length (snd (c_Decrypt crypto iv aad data tag)) = length data)"

lemma decrypts_in_placeD:
  "decrypts_in_place crypto \<Longrightarrow> c_Decrypt crypto iv aad data tag = (ok, data') \<Longrightarrow> length data' = length data"
  unfolding decrypts_in_place_def by (metis snd_conv)

lemma unseal_bounded:
  assumes "sz \<le> length buf" and "parse_session buf sz = Some (Inr (phOff, session))"
    and "decrypts_in_place crypto"
  shows "\<exists>ok buf'. unseal buf sz mode session crypto = Some (ok, buf') \<and> length buf' = length buf"
  using assms(1) parse_session_sizes [OF assms(2)]
  by (auto simp: unseal_def Let_def payload_hdr_offset_def wrs_def
      dest!: decrypts_in_placeD [OF assms(3)] split: option.splits if_splits prod.splits)

subsection \<open>Tag comparison\<close>

lemma fold_or_eq_0:
  "fold (\<lambda>i d. d OR f i) is (d :: 'a :: len word) = 0 \<longleftrightarrow> d = 0 \<and> (\<forall>i \<in> set is. f i = 0)"
  by (induction "is" arbitrary: d) (auto simp: or_eq_0_iff)

lemma tag_diff_eq_0: "tag_diff expected tag = 0 \<longleftrightarrow> (\<forall>i < TAG_SIZE. expected ! i = tag ! i)"
  unfolding tag_diff_def fold_or_eq_0 by (auto simp: xor_eq_0_iff_eq)

lemma VerifyHMAC_iff:
  assumes "c_HMAC crypto data = Some expected" and "length expected = TAG_SIZE" and "length tag = TAG_SIZE"
  shows "VerifyHMAC crypto data tag \<longleftrightarrow> tag = expected"
  using assms by (auto simp: VerifyHMAC_def tag_diff_eq_0 list_eq_iff_nth_eq)

subsection \<open>Sealing and unsealing\<close>

text \<open>What the code relies on of a working backend (RFC 2104, NIST SP 800-38D).\<close>

definition hmac_works :: "Crypto \<Rightarrow> bool" where
  "hmac_works crypto \<longleftrightarrow> (\<forall>data. \<exists>t. c_HMAC crypto data = Some t \<and> length t = TAG_SIZE)"

definition gcm_works :: "Crypto \<Rightarrow> bool" where
  "gcm_works crypto \<longleftrightarrow> (\<forall>iv aad data. length iv = unat IV_LEN_GCM \<longrightarrow>
     (case c_Encrypt crypto iv aad data of (ok, data', t) \<Rightarrow>
        ok \<and> length data' = length data \<and> length t = TAG_SIZE \<and>
        c_Decrypt crypto iv aad data' t = (True, data)))"

lemma gcm_worksE:
  assumes "gcm_works crypto" and "length iv = 12"
  obtains data' t where "c_Encrypt crypto iv aad data = (True, data', t)" and "length data' = length data"
    and "length t = 16" and "c_Decrypt crypto iv aad data' t = (True, data)"
proof -
  obtain ok data' t where e: "c_Encrypt crypto iv aad data = (ok, data', t)"
    by (metis prod_cases3)
  from assms(1) have "\<forall>iv aad data. length iv = 12 \<longrightarrow> (case c_Encrypt crypto iv aad data of (ok, data', t) \<Rightarrow>
      ok \<and> length data' = length data \<and> length t = 16 \<and> c_Decrypt crypto iv aad data' t = (True, data))"
    by (simp add: gcm_works_def)
  from this [THEN spec [of _ iv], THEN spec [of _ aad], THEN spec [of _ data]] assms(2) e
  have "ok \<and> length data' = length data \<and> length t = 16 \<and> c_Decrypt crypto iv aad data' t = (True, data)"
    by simp
  with e that show thesis by auto
qed

lemma length_DeriveIV [simp]: "length (DeriveIV k n) = 12"
  by (simp add: DeriveIV_def)

text \<open>
  A finished frame in memory: the image, the payload (header element and APDU, \<open>data\<close>) and the
  18 bytes reserved for the trailer.
\<close>

lemma image_reads:
  assumes "length iv < 256"
  shows "rd (session_image p iv @ rest) OFF_IV_LENGTH = Some (of_nat (length iv))"
    and "get_u32 (session_image p iv @ rest) (27 + length iv) = Some (payload_len p)"
    and "get_u32 (session_image p iv @ rest) OFF_KEY_ID = Some (bp_keyId p)"
    and "get_u32 (session_image p iv @ rest) OFF_SPDU_NUMBER = Some (bp_spduNumber p)"
    and "payload_hdr_offset (of_nat (length iv)) = 27 + length iv"
proof -
  show "rd (session_image p iv @ rest) OFF_IV_LENGTH = Some (of_nat (length iv))"
    and "get_u32 (session_image p iv @ rest) OFF_KEY_ID = Some (bp_keyId p)"
    and "get_u32 (session_image p iv @ rest) OFF_SPDU_NUMBER = Some (bp_spduNumber p)"
    using session_fixed_reads by (simp_all only: session_image_fixed append_assoc)
  show "get_u32 (session_image p iv @ rest) (27 + length iv) = Some (payload_len p)"
    using get_u32_append [of "27 + length iv" "session_fixed p (length iv) @ iv" "payload_len p" rest]
    by (simp only: session_image_fixed append_assoc length_append length_session_fixed)
  show "payload_hdr_offset (of_nat (length iv)) = 27 + length iv"
    using assms by (simp add: payload_hdr_offset_def unat_of_nat take_bit_nat_def)
qed

lemma image_iv_access:
  assumes "length iv = length iv'"
  shows "wrs (session_image p iv @ rest) OFF_IV iv' = Some (session_image p iv' @ rest)"
    and "rds (session_image p iv' @ rest) OFF_IV (length iv') = Some iv'"
proof -
  show "wrs (session_image p iv @ rest) OFF_IV iv' = Some (session_image p iv' @ rest)"
    unfolding session_image_fixed append_assoc assms by (rule wrs_append) (simp_all add: assms)
  show "rds (session_image p iv' @ rest) OFF_IV (length iv') = Some iv'"
    unfolding session_image_fixed append_assoc by (rule rds_append) simp_all
qed

text \<open>The trailer area after \<open>pre\<close> (envelope and payload): signature tag, tag length, tag.\<close>

lemma trailer_access:
  assumes "n = length pre"
  shows "wr (pre @ a # b # rest) n v = Some (pre @ v # b # rest)"
    and "wr (pre @ a # b # rest) (n + 1) v = Some (pre @ a # v # rest)"
    and "length space = length t \<Longrightarrow> wrs (pre @ a # b # space @ rest) (n + 2) t = Some (pre @ a # b # t @ rest)"
    and "rd (pre @ a # b # rest) n = Some a"
    and "rd (pre @ a # b # rest) (n + 1) = Some b"
    and "rds (pre @ a # b # t @ rest) (n + 2) (length t) = Some t"
    and "rds (pre @ rest) 0 n = Some pre"
  using assms wr_append [of n pre a "b # rest" v] wr_append [of "n + 1" "pre @ [a]" b rest v]
    wrs_append [of "n + 2" "pre @ [a, b]" t space rest] rd_append [of n pre a "b # rest"]
    rd_append [of "n + 1" "pre @ [a]" b rest] rds_append [of "n + 2" "pre @ [a, b]" "length t" t rest]
    rds_prefix [of n pre rest]
  by (simp_all only: append_assoc append_Cons append_Nil length_append list.size) simp_all

lemma trailer_split:
  assumes "18 \<le> length xs"
  obtains a b space rest where "xs = a # b # space @ rest" and "length space = 16"
proof -
  obtain a b ys where xs: "xs = a # b # ys" using assms by (cases xs; cases "tl xs") auto
  with assms have "16 \<le> length ys" by simp
  then show thesis using that [of a b "take 16 ys" "drop 16 ys"] xs by simp
qed

lemma seal_hmac_image:
  assumes data: "length data = 6 + unat (bp_apduLength p)" and space: "length space = length t"
    and hmac: "c_HMAC crypto (session_image p [] @ data) = Some t"
  shows "seal (session_image p [] @ data @ a # b # space @ rest) SEC_HMAC crypto
     = Some (True, session_image p [] @ data @ SIGNATURE_TAG # of_nat TAG_SIZE # t @ rest)"
proof -
  define n where "n = 37 + unat (bp_apduLength p)"
  have n: "n = length (session_image p [] @ data)" using data by (simp add: n_def)
  note trailer = trailer_access [OF n, unfolded append_assoc]
  note image = image_reads [where iv = "[]", simplified list.size of_nat_0 add_0_right]
  have "seal (session_image p [] @ data @ a # b # space @ rest) SEC_HMAC crypto
    = do {
        buf \<leftarrow> wr (session_image p [] @ data @ a # b # space @ rest) n SIGNATURE_TAG;
        buf \<leftarrow> wr buf (n + 1) (of_nat TAG_SIZE);
        data \<leftarrow> rds buf 0 n;
        (case c_HMAC crypto data of
           None \<Rightarrow> Some (False, buf)
         | Some t \<Rightarrow> do { buf \<leftarrow> wrs buf (n + 2) t; Some (True, buf) }) }"
    unfolding seal_def Let_def n_def
    by (simp add: image payload_hdr_offset_def cong: option.case_cong del: rd_Some get_u32_Some rds_Some)
  also have "\<dots> = Some (True, session_image p [] @ data @ SIGNATURE_TAG # of_nat TAG_SIZE # t @ rest)"
    by (simp only: trailer hmac space Option.bind.simps option.case)
  finally show ?thesis .
qed

lemma seal_gcm_image:
  assumes iv: "length iv = 12" and data: "length data = 6 + unat (bp_apduLength p)"
    and iv': "iv' = DeriveIV (bp_keyId p) (bp_spduNumber p)"
    and enc: "c_Encrypt crypto iv' (session_image p iv') data = (ok, data', t)"
    and len: "length data' = length data" "length space = length t"
  shows "seal (session_image p iv @ data @ a # b # space @ rest) SEC_GCM crypto
     = Some (ok, session_image p iv' @ data' @ SIGNATURE_TAG # of_nat TAG_SIZE # t @ rest)"
proof -
  define n where "n = 49 + unat (bp_apduLength p)"
  have n: "n = length (session_image p iv @ data)" "n = length (session_image p iv' @ data')"
    using data iv iv' len by (simp_all add: n_def)
  have l12: "length iv' = 12" "length iv = length iv'" using iv iv' by simp_all
  note trailer = trailer_access [OF n(1), unfolded append_assoc]
  note trailer' = trailer_access [OF n(2), unfolded append_assoc]
  note image = image_reads [where iv = iv, unfolded iv] image_reads [where iv = iv', unfolded l12]
  note ivs = image_iv_access [OF l12(2), unfolded l12]
  have pl: "get_u32 (session_image p iv @ r) 39 = Some (payload_len p)" for r
    using image_reads(2) [of iv p r] iv by simp
  have p43: "(43::nat) = length (session_image p iv')" using l12 by simp
  have "seal (session_image p iv @ data @ a # b # space @ rest) SEC_GCM crypto
    = do {
        buf \<leftarrow> wr (session_image p iv @ data @ a # b # space @ rest) n SIGNATURE_TAG;
        buf \<leftarrow> wr buf (n + 1) (of_nat TAG_SIZE);
        keyId \<leftarrow> get_u32 buf OFF_KEY_ID;
        spduNumber \<leftarrow> get_u32 buf OFF_SPDU_NUMBER;
        buf \<leftarrow> wrs buf OFF_IV (DeriveIV keyId spduNumber);
        iv \<leftarrow> rds buf OFF_IV 12;
        aad \<leftarrow> rds buf 0 43;
        data \<leftarrow> rds buf 43 (length data);
        (case c_Encrypt crypto iv aad data of (ok, data', t) \<Rightarrow> do {
           buf \<leftarrow> wrs buf 43 data';
           buf \<leftarrow> wrs buf (n + 2) t;
           Some (ok, buf) }) }"
    unfolding seal_def Let_def n_def data
    by (simp add: image pl payload_hdr_offset_def cong: prod.case_cong del: rd_Some get_u32_Some rds_Some)
  also have "\<dots> = Some (ok, session_image p iv' @ data' @ SIGNATURE_TAG # of_nat TAG_SIZE # t @ rest)"
    by (simp only: trailer trailer' image iv' [symmetric] ivs rds_prefix [OF p43] rds_append [OF p43]
        wrs_append [OF p43 len(1)] enc len(2) Option.bind.simps prod.case)
  finally show ?thesis .
qed

lemma unseal_hmac_image:
  assumes data: "length data = 6 + unat (bp_apduLength p)" and sz: "37 + unat (bp_apduLength p) + TRAILER_SIZE \<le> sz"
    and hmac: "c_HMAC crypto (session_image p [] @ data) = Some t" and len: "length t = TAG_SIZE" "length tag = TAG_SIZE"
  shows "unseal (session_image p [] @ data @ SIGNATURE_TAG # x # tag @ rest) sz SEC_HMAC (session_of p []) crypto
     = Some (tag = t, session_image p [] @ data @ SIGNATURE_TAG # x # tag @ rest)"
proof -
  let ?buf = "session_image p [] @ data @ SIGNATURE_TAG # x # tag @ rest"
  define n where "n = 37 + unat (bp_apduLength p)"
  have n: "n = length (session_image p [] @ data)" using data by (simp add: n_def)
  note trailer = trailer_access [OF n, unfolded append_assoc]
  have tag16: "rds ?buf (n + 2) 16 = Some tag" using trailer(6) [where t = tag] len by simp
  have "unseal ?buf sz SEC_HMAC (session_of p []) crypto
    = do {
        sigTag \<leftarrow> rd ?buf n;
        if sigTag \<noteq> SIGNATURE_TAG then Some (False, ?buf)
        else do {
          data \<leftarrow> rds ?buf 0 n;
          tag \<leftarrow> rds ?buf (n + 2) TAG_SIZE;
          Some (VerifyHMAC crypto data tag, ?buf) } }"
    using sz unfolding unseal_def Let_def n_def
    by (simp add: session_of_def payload_hdr_offset_def cong: if_cong del: rd_Some rds_Some)
  also have "\<dots> = Some (VerifyHMAC crypto (session_image p [] @ data) tag, ?buf)"
    by (simp only: trailer(4,7) tag16 Option.bind.simps simp_thms if_False)
  also have "\<dots> = Some (tag = t, ?buf)"
    using VerifyHMAC_iff [OF hmac len] by simp
  finally show ?thesis .
qed

lemma unseal_gcm_image:
  assumes iv: "length iv = 12" and data: "length data = 6 + unat (bp_apduLength p)"
    and sz: "49 + unat (bp_apduLength p) + TRAILER_SIZE \<le> sz"
    and tag: "length tag = TAG_SIZE"
    and dec: "c_Decrypt crypto iv (session_image p iv) data tag = (ok, data')" "length data' = length data"
  shows "unseal (session_image p iv @ data @ SIGNATURE_TAG # of_nat TAG_SIZE # tag @ rest) sz SEC_GCM
       (session_of p iv) crypto
     = Some (ok, session_image p iv @ data' @ SIGNATURE_TAG # of_nat TAG_SIZE # tag @ rest)"
proof -
  let ?buf = "session_image p iv @ data @ SIGNATURE_TAG # of_nat TAG_SIZE # tag @ rest"
  define n where "n = 49 + unat (bp_apduLength p)"
  have n: "n = length (session_image p iv @ data)" using data iv by (simp add: n_def)
  note trailer = trailer_access [OF n, unfolded append_assoc]
  have tag16: "rds ?buf (n + 2) 16 = Some tag" using trailer(6) [where t = tag] tag by simp
  have iv12: "rds ?buf 27 12 = Some iv" using image_iv_access(2) [OF refl, of p iv] iv by simp
  have p43: "(43::nat) = length (session_image p iv)" using iv by simp
  have "unseal ?buf sz SEC_GCM (session_of p iv) crypto
    = do {
        sigTag \<leftarrow> rd ?buf n;
        if sigTag \<noteq> SIGNATURE_TAG then Some (False, ?buf)
        else do {
          tagSize \<leftarrow> rd ?buf (n + 1);
          if unat tagSize \<noteq> TAG_SIZE then Some (False, ?buf)
          else do {
            iv \<leftarrow> rds ?buf 27 12;
            aad \<leftarrow> rds ?buf 0 43;
            data \<leftarrow> rds ?buf 43 (length data);
            tag \<leftarrow> rds ?buf (n + 2) (unat tagSize);
            (case c_Decrypt crypto iv aad data tag of (ok, data') \<Rightarrow> do {
               buf \<leftarrow> wrs ?buf 43 data';
               Some (ok, buf) }) } } }"
    using sz iv unfolding unseal_def Let_def n_def data
    by (auto simp: session_of_def payload_hdr_offset_def cong: prod.case_cong if_cong simp del: rd_Some rds_Some)
  also have "\<dots> = Some (ok, session_image p iv @ data' @ SIGNATURE_TAG # of_nat TAG_SIZE # tag @ rest)"
    using tag16 by (simp only: trailer(4,5) iv12 rds_prefix [OF p43] rds_append [OF p43]
        Option.bind.simps simp_thms if_False) (simp add: dec wrs_append [OF p43 dec(2)])
  finally show ?thesis .
qed

subsection \<open>A sealed PDU\<close>

text \<open>Reference definition: the session PDU as a working backend leaves it, trailer included.\<close>

definition sealed_pdu :: "Crypto \<Rightarrow> BuildParams \<Rightarrow> bytes \<Rightarrow> bytes" where
  "sealed_pdu crypto p apdu =
     (let data = payload_elem p @ apdu
      in case bp_mode p of
        SEC_NONE \<Rightarrow> session_image p [] @ data
      | SEC_HMAC \<Rightarrow> session_image p [] @ data @ SIGNATURE_TAG # of_nat TAG_SIZE # the (c_HMAC crypto (session_image p [] @ data))
      | SEC_GCM \<Rightarrow> let iv = DeriveIV (bp_keyId p) (bp_spduNumber p)
          in case c_Encrypt crypto iv (session_image p iv) data of
            (ok, data', t) \<Rightarrow> session_image p iv @ data' @ SIGNATURE_TAG # of_nat TAG_SIZE # t)"

text \<open>What the receiver relies on in a PDU in front of \<open>r\<close>, and what it gets back from it.\<close>

definition pdu_opens :: "Crypto \<Rightarrow> BuildParams \<Rightarrow> bytes \<Rightarrow> bytes \<Rightarrow> bool" where
  "pdu_opens crypto p apdu pdu \<longleftrightarrow> length pdu = udp_payload_size (bp_mode p) (length apdu) \<and>
     (\<exists>iv tail. length iv = unat (iv_length (bp_mode p)) \<and> length tail = trailer_size (bp_mode p) \<and> take (31 + length iv) pdu = session_image p iv \<and>
        (\<forall>r sz. length pdu \<le> sz \<longrightarrow> unseal (pdu @ r) sz (bp_mode p) (session_of p iv) crypto =
           Some (True, session_image p iv @ payload_elem p @ apdu @ tail @ r)))"

lemma trailer_space:
  assumes "length space = trailer_size m" and "m \<noteq> SEC_NONE"
  obtains a b space' where "space = a # b # space'" and "length space' = 16"
proof -
  have len: "length space = 18" using assms by (simp add: trailer_size_def)
  then obtain a b s rest where s: "space = a # b # s @ rest" "length s = 16" by (metis trailer_split order_refl)
  with len have "rest = []" by simp
  with s that show thesis by simp
qed

lemma seal_pdu:
  assumes apdu: "length apdu = unat (bp_apduLength p)" and crypto: "hmac_works crypto" "gcm_works crypto"
    and iv: "length iv = unat (iv_length (bp_mode p))" and space: "length space = trailer_size (bp_mode p)"
  shows "seal (session_image p iv @ payload_elem p @ apdu @ space @ r) (bp_mode p) crypto = Some (True, sealed_pdu crypto p apdu @ r)"
    and "pdu_opens crypto p apdu (sealed_pdu crypto p apdu)"
proof -
  let ?data = "payload_elem p @ apdu"
  have d: "length ?data = 6 + unat (bp_apduLength p)" using apdu by simp
  have "seal (session_image p iv @ ?data @ space @ r) (bp_mode p) crypto = Some (True, sealed_pdu crypto p apdu @ r) \<and>
      pdu_opens crypto p apdu (sealed_pdu crypto p apdu)"
  proof (cases "bp_mode p")
    case SEC_NONE
    then show ?thesis using iv space
      by (auto simp: seal_def sealed_pdu_def pdu_opens_def unseal_def layout_defs intro!: exI [of _ "[]"])
  next
    case SEC_HMAC
    obtain a b space' where s: "space = a # b # space'" "length space' = 16"
      using trailer_space [OF space] SEC_HMAC by auto
    obtain t where t: "c_HMAC crypto (session_image p [] @ ?data) = Some t" and len: "length t = 16"
      using crypto(1) unfolding hmac_works_def by blast
    have iv0: "iv = []" using iv by (simp add: SEC_HMAC iv_length_def)
    have pdu: "sealed_pdu crypto p apdu = session_image p [] @ ?data @ SIGNATURE_TAG # of_nat TAG_SIZE # t"
      using t by (simp add: sealed_pdu_def SEC_HMAC)
    have "unseal ((session_image p [] @ ?data @ SIGNATURE_TAG # of_nat TAG_SIZE # t) @ r) sz SEC_HMAC (session_of p []) crypto =
        Some (True, session_image p [] @ payload_elem p @ apdu @ (SIGNATURE_TAG # of_nat TAG_SIZE # t) @ r)"
      if "length (sealed_pdu crypto p apdu) \<le> sz" for r sz
    proof -
      have "37 + unat (bp_apduLength p) + TRAILER_SIZE \<le> sz" using that len apdu by (simp add: pdu)
      from unseal_hmac_image [OF d this t len len] show ?thesis by simp
    qed
    then have "pdu_opens crypto p apdu (sealed_pdu crypto p apdu)"
      unfolding pdu_opens_def SEC_HMAC
      by (intro conjI exI [of _ "[]"] exI [of _ "SIGNATURE_TAG # of_nat TAG_SIZE # t"])
        (simp_all add: pdu len iv_length_def layout_defs apdu)
    moreover have "length space' = length t" using s(2) len by simp
    from seal_hmac_image [OF d this t, of a b r] have "seal (session_image p iv @ ?data @ space @ r) SEC_HMAC crypto = Some (True, sealed_pdu crypto p apdu @ r)"
      by (simp add: iv0 s(1) pdu)
    ultimately show ?thesis by (simp add: SEC_HMAC)
  next
    case SEC_GCM
    let ?iv = "DeriveIV (bp_keyId p) (bp_spduNumber p)"
    obtain a b space' where s: "space = a # b # space'" "length space' = 16"
      using trailer_space [OF space] SEC_GCM by auto
    obtain ct t where enc: "c_Encrypt crypto ?iv (session_image p ?iv) ?data = (True, ct, t)"
      and len: "length ct = length ?data" "length t = 16"
      and dec: "c_Decrypt crypto ?iv (session_image p ?iv) ct t = (True, ?data)"
      using gcm_worksE [OF crypto(2) length_DeriveIV] by blast
    have iv12: "length iv = 12" using iv by (simp add: SEC_GCM iv_length_def)
    have pdu: "sealed_pdu crypto p apdu = session_image p ?iv @ ct @ SIGNATURE_TAG # of_nat TAG_SIZE # t"
      using enc by (simp add: sealed_pdu_def SEC_GCM)
    have dl: "length ct = 6 + unat (bp_apduLength p)" using d len by simp
    have "unseal ((session_image p ?iv @ ct @ SIGNATURE_TAG # of_nat TAG_SIZE # t) @ r) sz SEC_GCM (session_of p ?iv) crypto =
        Some (True, session_image p ?iv @ payload_elem p @ apdu @ (SIGNATURE_TAG # of_nat TAG_SIZE # t) @ r)"
      if "length (sealed_pdu crypto p apdu) \<le> sz" for r sz
    proof -
      have "49 + unat (bp_apduLength p) + TRAILER_SIZE \<le> sz" using that len dl by (simp add: pdu)
      from unseal_gcm_image [OF length_DeriveIV dl this len(2) dec len(1) [symmetric]] show ?thesis by simp
    qed
    then have "pdu_opens crypto p apdu (sealed_pdu crypto p apdu)"
      unfolding pdu_opens_def SEC_GCM
      by (intro conjI exI [of _ ?iv] exI [of _ "SIGNATURE_TAG # of_nat TAG_SIZE # t"])
        (simp_all add: pdu len iv_length_def layout_defs apdu)
    moreover have "length space' = length t" using s(2) len by simp
    from seal_gcm_image [OF iv12 d refl enc len(1) this, of a b r] have "seal (session_image p iv @ ?data @ space @ r) SEC_GCM crypto = Some (True, sealed_pdu crypto p apdu @ r)"
      by (simp add: s(1) pdu)
    ultimately show ?thesis by (simp add: SEC_GCM)
  qed
  then show "seal (session_image p iv @ payload_elem p @ apdu @ space @ r) (bp_mode p) crypto = Some (True, sealed_pdu crypto p apdu @ r)"
    "pdu_opens crypto p apdu (sealed_pdu crypto p apdu)" by simp_all
qed

text \<open>The receiver's three steps on a PDU that opens.\<close>

lemma pdu_accepted:
  assumes "pdu_opens crypto p apdu pdu" and "valid_params p" and "length apdu = unat (bp_apduLength p)"
    and "sz = length pdu" and "off = apdu_offset (iv_length (bp_mode p))"
  obtains iv buf where "length iv = unat (iv_length (bp_mode p))"
    "parse_session (pdu @ r) sz = Some (Inr (payload_hdr_offset (iv_length (bp_mode p)), session_of p iv))"
    "unseal (pdu @ r) sz (bp_mode p) (session_of p iv) crypto = Some (True, buf)"
    "parse_payload buf sz (session_of p iv) = Some (Inr (off, payload_of p))"
    "rds buf off (length apdu) = Some apdu" "length buf = length (pdu @ r)"
proof -
  have si: "bp_si p \<in> {SI_R_GOOSE, SI_R_SV}" "bp_payloadType p \<in> {PAYLOAD_TYPE_GOOSE, PAYLOAD_TYPE_SV}"
    using assms(2) by (simp_all add: valid_params_def)
  obtain iv tail where iv: "length iv = unat (iv_length (bp_mode p))" "take (31 + length iv) pdu = session_image p iv"
    and u: "\<forall>r sz. length pdu \<le> sz \<longrightarrow> unseal (pdu @ r) sz (bp_mode p) (session_of p iv) crypto =
           Some (True, session_image p iv @ payload_elem p @ apdu @ tail @ r)"
    and len: "length pdu = udp_payload_size (bp_mode p) (length apdu)" "length tail = trailer_size (bp_mode p)"
    using assms(1) unfolding pdu_opens_def by blast
  have pdu: "pdu @ r = session_image p iv @ (drop (31 + length iv) pdu @ r)" using iv(2) by (metis append_assoc append_take_drop_id)
  have sz: "37 + length iv + length apdu \<le> sz" using assms(4) len iv(1) by (simp add: layout_defs)
  have iv256: "length iv < 256" using iv(1) by (simp add: unat_iv_length)
  let ?buf = "session_image p iv @ payload_elem p @ apdu @ tail @ r"
  show thesis
  proof (rule that [of iv ?buf, OF iv(1)])
    show "parse_session (pdu @ r) sz = Some (Inr (payload_hdr_offset (iv_length (bp_mode p)), session_of p iv))"
      unfolding pdu using parse_session_image [OF si(1) iv256, of sz "drop (31 + length iv) pdu @ r"] assms(3,4) sz iv(1)
      by (simp add: layout_defs)
    show "unseal (pdu @ r) sz (bp_mode p) (session_of p iv) crypto = Some (True, ?buf)" using u assms(4) by simp
    show "parse_payload ?buf sz (session_of p iv) = Some (Inr (off, payload_of p))"
      using parse_payload_image [OF si(2) iv256, of sz "apdu @ tail @ r"] sz iv(1) by (simp add: assms(5) layout_defs)
    show "rds ?buf off (length apdu) = Some apdu"
      using rds_append [of off "session_image p iv @ payload_elem p" "length apdu" apdu "tail @ r"] iv(1)
      by (simp add: assms(5) layout_defs)
    show "length ?buf = length (pdu @ r)" using len iv(1) by (simp add: layout_defs)
  qed
qed

text \<open>
  A frame written by \<open>build\<close>, filled with its APDU and sealed is accepted by the receiver: the
  session header parses to the parameters, the trailer verifies, and the payload header and the APDU
  come back unchanged, in each of the three security modes.
\<close>

lemma sealed_frame_accepted:
  assumes p: "valid_params p" and apdu: "length apdu = unat (bp_apduLength p)"
    and crypto: "hmac_works crypto" "gcm_works crypto"
    and sz: "sz = udp_payload_size (bp_mode p) (length apdu)" "sz \<le> length buf"
  obtains iv buf1 buf2 buf3 buf4 where
    "build buf p = Some (buf1, apdu_offset (iv_length (bp_mode p)))"
    "wrs buf1 (apdu_offset (iv_length (bp_mode p))) apdu = Some buf2"
    "seal buf2 (bp_mode p) crypto = Some (True, buf3)"
    "length iv = unat (iv_length (bp_mode p))"
    "parse_session buf3 sz = Some (Inr (payload_hdr_offset (iv_length (bp_mode p)), session_of p iv))"
    "unseal buf3 sz (bp_mode p) (session_of p iv) crypto = Some (True, buf4)"
    "parse_payload buf4 sz (session_of p iv) = Some (Inr (apdu_offset (iv_length (bp_mode p)), payload_of p))"
    "rds buf4 (apdu_offset (iv_length (bp_mode p))) (length apdu) = Some apdu"
    "length buf3 = length buf" "length buf4 = length buf"
proof -
  let ?m = "bp_mode p"
  let ?blank = "replicate (unat (iv_length ?m)) (0 :: u8)"
  let ?off = "apdu_offset (iv_length ?m)"
  define rest where "rest = drop (?off + length apdu) buf"
  let ?space = "take (trailer_size ?m) rest" and ?r = "drop (trailer_size ?m) rest"
  have off: "?off = length (session_image p ?blank @ payload_elem p)" by (simp add: layout_defs)
  have buf: "?off + length apdu + trailer_size ?m \<le> length buf"
    using sz by (simp add: udp_payload_size_def)
  then have space: "length ?space = trailer_size ?m" by (simp add: rest_def)
  have b: "build buf p = Some (filled (session_image p ?blank @ payload_elem p) buf, ?off)"
    by (rule build_image) (use buf in simp)
  have w: "wrs (filled (session_image p ?blank @ payload_elem p) buf) ?off apdu
      = Some (session_image p ?blank @ payload_elem p @ apdu @ ?space @ ?r)"
    using buf off by (simp add: wrs_filled) (simp add: filled_def rest_def add.assoc)
  have blank: "length ?blank = unat (iv_length ?m)" by simp
  note s = seal_pdu [OF apdu crypto blank space]
  have len: "length (sealed_pdu crypto p apdu) = sz" using s(2) sz(1) by (simp add: pdu_opens_def)
  then have "length (sealed_pdu crypto p apdu @ ?r) = length buf"
    using sz buf by (simp add: rest_def udp_payload_size_def)
  moreover obtain iv buf4 where "length iv = unat (iv_length ?m)"
    "parse_session (sealed_pdu crypto p apdu @ ?r) sz = Some (Inr (payload_hdr_offset (iv_length ?m), session_of p iv))"
    "unseal (sealed_pdu crypto p apdu @ ?r) sz ?m (session_of p iv) crypto = Some (True, buf4)"
    "parse_payload buf4 sz (session_of p iv) = Some (Inr (?off, payload_of p))" "rds buf4 ?off (length apdu) = Some apdu"
    "length buf4 = length (sealed_pdu crypto p apdu @ ?r)"
    by (rule pdu_accepted [OF s(2) p apdu len [symmetric] refl])
  ultimately show thesis using that [OF b w s(1)] by simp
qed

lemma unseal_hmac_sound:
  assumes "unseal buf sz SEC_HMAC session crypto = Some (True, buf')"
  shows "buf' = buf"
    and "\<exists>data tag. rds buf 0 (payload_hdr_offset (sh_ivLength session) + 4 + unat (sh_payloadLength session)) = Some data \<and>
      rds buf (payload_hdr_offset (sh_ivLength session) + 6 + unat (sh_payloadLength session)) TAG_SIZE = Some tag \<and>
      VerifyHMAC crypto data tag"
  using assms by (auto simp: unseal_def Let_def bind_eq_Some_conv add_ac split: if_splits)

lemma xor_bytes_involutive: "map ((\<lambda>x. x XOR (k :: u8)) \<circ> (\<lambda>x. x XOR k)) xs = xs"
  by (induction xs) (simp_all add: xor.assoc)

text \<open>A crypto instance for the witnesses: it meets what the code relies on and evaluates.\<close>

definition xor_crypto :: Crypto where
  "xor_crypto = \<lparr> c_HMAC = (\<lambda>data. Some (take TAG_SIZE (data @ replicate TAG_SIZE 0))),
     c_Encrypt = (\<lambda>iv aad data. (True, map (\<lambda>x. x XOR 0x5A) data, replicate TAG_SIZE 0x11)),
     c_Decrypt = (\<lambda>iv aad data tag. (tag = replicate TAG_SIZE 0x11, map (\<lambda>x. x XOR 0x5A) data)) \<rparr>"

lemma xor_crypto_works: "hmac_works xor_crypto" "gcm_works xor_crypto" "decrypts_in_place xor_crypto"
  by (auto simp: hmac_works_def gcm_works_def decrypts_in_place_def xor_crypto_def
      xor_bytes_involutive)

subsection \<open>Properties\<close>

text \<open>
  C1: a frame written by \<open>build\<close>, filled with its APDU and sealed is accepted by the receiver, in each
  of the three security modes: the session header parses to the parameters, the trailer verifies, and
  the payload header and the APDU come back unchanged.
\<close>

theorem session_roundtrip:
  assumes "valid_params p" and "length apdu = unat (bp_apduLength p)"
    and "hmac_works crypto" and "gcm_works crypto"
    and "sz = udp_payload_size (bp_mode p) (length apdu)" and "sz \<le> length buf"
  shows "\<exists>off iv buf1 buf2 buf3 buf4.
     build buf p = Some (buf1, off) \<and> wrs buf1 off apdu = Some buf2 \<and>
     seal buf2 (bp_mode p) crypto = Some (True, buf3) \<and>
     parse_session buf3 sz = Some (Inr (payload_hdr_offset (iv_length (bp_mode p)), session_of p iv)) \<and>
     unseal buf3 sz (bp_mode p) (session_of p iv) crypto = Some (True, buf4) \<and>
     parse_payload buf4 sz (session_of p iv) = Some (Inr (off, payload_of p)) \<and>
     rds buf4 off (length apdu) = Some apdu"
  by (rule sealed_frame_accepted [OF assms]) blast

definition sample_params :: "SecurityMode \<Rightarrow> BuildParams" where
  "sample_params mode = \<lparr> bp_si = SI_R_SV, bp_payloadType = PAYLOAD_TYPE_SV, bp_mode = mode,
     bp_spduNumber = 7, bp_keyId = KEY_ID, bp_appid = 5, bp_apduLength = 3, bp_simulation = False \<rparr>"

theorem session_roundtrip_witness:
  "\<exists>off iv buf1 buf2 buf3 buf4.
     build (replicate 80 0) (sample_params SEC_GCM) = Some (buf1, off) \<and> wrs buf1 off [1, 2, 3] = Some buf2 \<and>
     seal buf2 SEC_GCM xor_crypto = Some (True, buf3) \<and>
     parse_session buf3 70 = Some (Inr (39, session_of (sample_params SEC_GCM) iv)) \<and>
     unseal buf3 70 SEC_GCM (session_of (sample_params SEC_GCM) iv) xor_crypto = Some (True, buf4) \<and>
     parse_payload buf4 70 (session_of (sample_params SEC_GCM) iv) = Some (Inr (off, payload_of (sample_params SEC_GCM))) \<and>
     rds buf4 off 3 = Some [1, 2, 3]"
proof -
  have "valid_params (sample_params SEC_GCM)" "length [1, 2, 3 :: u8] = unat (bp_apduLength (sample_params SEC_GCM))"
    "70 = udp_payload_size (bp_mode (sample_params SEC_GCM)) (length [1, 2, 3 :: u8])"
    "bp_mode (sample_params SEC_GCM) = SEC_GCM" "payload_hdr_offset (iv_length SEC_GCM) = 39"
    by (simp_all add: valid_params_def sample_params_def layout_defs)
  note inst = this
  show ?thesis
    using session_roundtrip [OF inst(1,2) xor_crypto_works(1,2) inst(3), of "replicate 80 0"]
    by (simp add: inst(4,5) numeral_3_eq_3)
qed

text \<open>
  C2: every access of the receiver to a session PDU stays inside the received bytes: for any content
  and any declared size up to the buffer's, parsing the session header, unsealing in any mode and
  parsing the payload header give a result.
\<close>

theorem session_parser_bounded:
  assumes "sz \<le> length buf" and "decrypts_in_place crypto"
  shows "(\<exists>e. parse_session buf sz = Some (Inl e)) \<or>
     (\<exists>phOff session ok buf' r. parse_session buf sz = Some (Inr (phOff, session)) \<and>
        unseal buf sz mode session crypto = Some (ok, buf') \<and> length buf' = length buf \<and>
        parse_payload buf' sz session = Some r)"
proof -
  obtain r where r: "parse_session buf sz = Some r"
    using parse_session_bounded [OF assms(1)] by blast
  show ?thesis
  proof (cases r)
    case (Inr q)
    then obtain phOff session where q: "parse_session buf sz = Some (Inr (phOff, session))"
      using r by (cases q) auto
    obtain ok buf' where u: "unseal buf sz mode session crypto = Some (ok, buf')" "length buf' = length buf"
      using unseal_bounded [OF assms(1) q assms(2)] by blast
    obtain pr where "parse_payload buf' sz session = Some pr"
      using parse_payload_bounded [of sz buf'] assms(1) u(2) by auto
    with q u show ?thesis by blast
  qed (use r in blast)
qed

theorem session_parser_bounded_witness:
  "(\<exists>e. parse_session (replicate 50 1) 50 = Some (Inl e)) \<or>
     (\<exists>phOff session ok buf' r. parse_session (replicate 50 1) 50 = Some (Inr (phOff, session)) \<and>
        unseal (replicate 50 1) 50 SEC_GCM session xor_crypto = Some (ok, buf') \<and>
        length buf' = length (replicate 50 (1 :: u8)) \<and> parse_payload buf' 50 session = Some r)"
  by (rule session_parser_bounded) (simp_all add: xor_crypto_works)

text \<open>
  In HMAC mode a frame is accepted only if its 16-byte tag is the HMAC of the whole session PDU in
  front of the trailer, whatever the frame holds, and unsealing leaves the frame as it was.
\<close>

theorem unseal_hmac_authentic:
  assumes "unseal buf sz SEC_HMAC session crypto = Some (True, buf')" and "hmac_works crypto"
  shows "buf' = buf \<and>
    (\<exists>data tag. rds buf 0 (payload_hdr_offset (sh_ivLength session) + 4 + unat (sh_payloadLength session)) = Some data \<and>
      rds buf (payload_hdr_offset (sh_ivLength session) + 6 + unat (sh_payloadLength session)) TAG_SIZE = Some tag \<and>
      c_HMAC crypto data = Some tag)"
proof -
  obtain data tag where d: "rds buf 0 (payload_hdr_offset (sh_ivLength session) + 4 + unat (sh_payloadLength session)) = Some data"
    and t: "rds buf (payload_hdr_offset (sh_ivLength session) + 6 + unat (sh_payloadLength session)) TAG_SIZE = Some tag"
    and v: "VerifyHMAC crypto data tag"
    using unseal_hmac_sound(2) [OF assms(1)] by blast
  obtain e where "c_HMAC crypto data = Some e" "length e = TAG_SIZE"
    using assms(2) unfolding hmac_works_def by blast
  moreover have "length tag = TAG_SIZE" using t by (auto simp: rds_def split: if_splits)
  ultimately have "c_HMAC crypto data = Some tag" using v VerifyHMAC_iff by fastforce
  with d t unseal_hmac_sound(1) [OF assms(1)] show ?thesis by blast
qed

theorem unseal_hmac_authentic_witness:
  "\<exists>session buf. unseal buf 49 SEC_HMAC session xor_crypto = Some (True, buf) \<and>
    (\<exists>data tag. rds buf 0 31 = Some data \<and> rds buf 33 TAG_SIZE = Some tag \<and> c_HMAC xor_crypto data = Some tag)"
proof -
  let ?session = "\<lparr> sh_si = SI_R_SV, sh_spduLength = 0, sh_spduNumber = 0, sh_version = 2,
    sh_timeOfCurrentKey = 0, sh_timeToNextKey = 0, sh_keyId = 1, sh_ivLength = 0, sh_iv = None, sh_payloadLength = 0 \<rparr>"
  let ?buf = "replicate 31 0 @ [SIGNATURE_TAG, 16] @ replicate 16 0 :: bytes"
  have ok: "unseal ?buf 49 SEC_HMAC ?session xor_crypto = Some (True, ?buf)"
    by (simp add: unseal_def payload_hdr_offset_def VerifyHMAC_def tag_diff_def xor_crypto_def
        numeral_eq_Suc Let_def)
  show ?thesis
    using ok unseal_hmac_authentic [OF ok xor_crypto_works(1)]
    by (intro exI [of _ ?session] exI [of _ ?buf]) (simp add: payload_hdr_offset_def)
qed

end
