(* ===== verification/Mac_Addr.thy ===== *)
theory Mac_Addr
  imports PBus_Prelude
begin

text \<open>
  The class \<open>MAC\<close> of \<open>src/common/mac_addr.hpp\<close>: an Ethernet address of six bytes, its construction
  from raw bytes and from text, and its printed and numeric forms. The text form goes through the
  conversion \<open>%2x\<close> of \<open>sscanf\<close>, whose behaviour (leading white space, an optional sign, at most two
  characters) is written out in \<open>scan_2x\<close>.
\<close>

datatype MAC = MAC u8 u8 u8 u8 u8 u8

primrec mac_data :: "MAC \<Rightarrow> bytes" where
  "mac_data (MAC a b c d e f) = [a, b, c, d, e, f]"

definition mac_zero :: MAC where
  "mac_zero = MAC 0 0 0 0 0 0"

text \<open>\<open>MAC(const uint8_t bytes[6])\<close> at offset \<open>p\<close> of a buffer.\<close>

definition mac_at :: "bytes \<Rightarrow> nat \<Rightarrow> MAC option" where
  "mac_at buf p = do {
     a \<leftarrow> rd buf p; b \<leftarrow> rd buf (p + 1); c \<leftarrow> rd buf (p + 2);
     d \<leftarrow> rd buf (p + 3); e \<leftarrow> rd buf (p + 4); f \<leftarrow> rd buf (p + 5);
     Some (MAC a b c d e f) }"

text \<open>\<open>operator[]\<close> on the array of six: an index outside it is undefined.\<close>

definition mac_index :: "MAC \<Rightarrow> nat \<Rightarrow> u8 option" where
  "mac_index m idx = rd (mac_data m) idx"

definition toU64 :: "MAC \<Rightarrow> u64" where
  "toU64 m = (case m of MAC a b c d e f \<Rightarrow>
     push_bit 40 (ucast a) OR push_bit 32 (ucast b) OR push_bit 24 (ucast c) OR
     push_bit 16 (ucast d) OR push_bit 8 (ucast e) OR ucast f)"

subsection \<open>Text form\<close>

definition hex_digit :: "nat \<Rightarrow> char" where
  "hex_digit n = ''0123456789ABCDEF'' ! n"

text \<open>The format \<open>{:02X}\<close> of a byte.\<close>

definition hex2 :: "u8 \<Rightarrow> string" where
  "hex2 b = [hex_digit (unat b div 16), hex_digit (unat b mod 16)]"

definition toString :: "MAC \<Rightarrow> char \<Rightarrow> string" where
  "toString m separator = (case m of MAC a b c d e f \<Rightarrow>
     hex2 a @ separator # hex2 b @ separator # hex2 c @ separator #
     hex2 d @ separator # hex2 e @ separator # hex2 f)"

definition hex_value :: "char \<Rightarrow> nat option" where
  "hex_value c = (let n = of_char c :: nat in
     if 48 \<le> n \<and> n \<le> 57 then Some (n - 48)
     else if 65 \<le> n \<and> n \<le> 70 then Some (n - 55)
     else if 97 \<le> n \<and> n \<le> 102 then Some (n - 87)
     else None)"

definition is_space :: "char \<Rightarrow> bool" where
  "is_space c = (let n = of_char c :: nat in n = 32 \<or> (9 \<le> n \<and> n \<le> 13))"

text \<open>
  \<open>%2x\<close>: the value stored in the \<open>unsigned\<close> and the rest of the input, or \<open>None\<close> on a matching
  failure. A sign takes one of the two characters, and the prefix \<open>0x\<close> alone is no number.
\<close>

definition scan_2x :: "string \<Rightarrow> (u32 \<times> string) option" where
  "scan_2x s = (case dropWhile is_space s of
       [] \<Rightarrow> None
     | c # cs \<Rightarrow>
         if c = CHR ''+'' \<or> c = CHR ''-'' then
           (case cs of [] \<Rightarrow> None
            | d # ds \<Rightarrow> (case hex_value d of None \<Rightarrow> None
                | Some v \<Rightarrow> Some (if c = CHR ''-'' then - of_nat v else of_nat v, ds)))
         else (case hex_value c of None \<Rightarrow> None
            | Some v \<Rightarrow> (case cs of [] \<Rightarrow> Some (of_nat v, [])
                | d # ds \<Rightarrow> (case hex_value d of
                      Some w \<Rightarrow> Some (of_nat (16 * v + w), ds)
                    | None \<Rightarrow> if c = CHR ''0'' \<and> (d = CHR ''x'' \<or> d = CHR ''X'') then None
                              else Some (of_nat v, d # ds)))))"

definition scan_lit :: "char \<Rightarrow> string \<Rightarrow> string option" where
  "scan_lit c s = (case s of [] \<Rightarrow> None | d # ds \<Rightarrow> if c = d then Some ds else None)"

text \<open>
  The whole format, as the list of the converted fields: \<open>None\<close> when fewer than six convert. The
  input after the sixth field is not looked at.
\<close>

definition scan_mac :: "string \<Rightarrow> u32 list option" where
  "scan_mac s = do {
     (a, s) \<leftarrow> scan_2x s; s \<leftarrow> scan_lit CHR '':'' s;
     (b, s) \<leftarrow> scan_2x s; s \<leftarrow> scan_lit CHR '':'' s;
     (c, s) \<leftarrow> scan_2x s; s \<leftarrow> scan_lit CHR '':'' s;
     (d, s) \<leftarrow> scan_2x s; s \<leftarrow> scan_lit CHR '':'' s;
     (e, s) \<leftarrow> scan_2x s; s \<leftarrow> scan_lit CHR '':'' s;
     (f, s) \<leftarrow> scan_2x s;
     Some [a, b, c, d, e, f] }"

text \<open>\<open>MAC(const std::string_view str)\<close>: \<open>Inl\<close> is the text of the exception.\<close>

definition mac_of_string :: "string \<Rightarrow> string + MAC" where
  "mac_of_string str =
     (if length str \<noteq> 17 then Inl ''Invalid MAC address length''
      else case scan_mac str of
        None \<Rightarrow> Inl ''Invalid MAC address format''
      | Some b \<Rightarrow> if \<exists>v \<in> set b. 0xFF < v then Inl ''Invalid byte value''
          else Inr (MAC (ucast (b ! 0)) (ucast (b ! 1)) (ucast (b ! 2))
                        (ucast (b ! 3)) (ucast (b ! 4)) (ucast (b ! 5))))"

subsection \<open>Lemmas\<close>

lemma length_mac_data [simp]: "length (mac_data m) = 6"
  by (cases m) simp

lemma mac_at_Some: "p + 6 \<le> length buf \<Longrightarrow> \<exists>m. mac_at buf p = Some m"
  by (simp add: mac_at_def)

lemma mac_at_data: "mac_at (a @ mac_data m @ c) (length a) = Some m"
  by (cases m) (simp add: mac_at_def rd_def nth_append)

lemma mac_data_inject: "mac_data m = mac_data n \<longleftrightarrow> m = n"
  by (cases m; cases n) simp

lemma hex_digit_facts:
  assumes "n < 16"
  shows "hex_value (hex_digit n) = Some n" "\<not> is_space (hex_digit n)"
    "hex_digit n \<noteq> CHR ''+''" "hex_digit n \<noteq> CHR ''-''"
proof -
  have "n \<in> set [0..<16]" using assms by simp
  then show "hex_value (hex_digit n) = Some n" "\<not> is_space (hex_digit n)"
    "hex_digit n \<noteq> CHR ''+''" "hex_digit n \<noteq> CHR ''-''"
    by (simp_all add: upt_rec hex_digit_def hex_value_def is_space_def) (elim disjE; simp)+
qed

lemma scan_2x_hex2 [simp]: "scan_2x (hex2 b @ s) = Some (ucast b, s)"
proof -
  have "unat b < 256" using unsigned_less [of b] by simp
  then have "unat b div 16 < 16" "unat b mod 16 < 16" by (simp_all add: div_less)
  moreover have "of_nat (16 * (unat b div 16) + unat b mod 16) = (ucast b :: u32)"
    by (simp add: unsigned_of_nat word_eq_iff_unsigned)
  ultimately show ?thesis by (simp add: scan_2x_def hex2_def hex_digit_facts)
qed

lemma scan_2x_hex2_end [simp]: "scan_2x (hex2 b) = Some (ucast b, [])"
  using scan_2x_hex2 [of b "[]"] by simp

lemma byte_not_above: "\<not> 0xFF < (ucast (b :: u8) :: u32)"
proof -
  have "unat b < 256" using unsigned_less [of b] by simp
  then show ?thesis by (simp add: word_less_nat_alt unsigned_ucast_eq take_bit_nat_def)
qed

text \<open>The text form round-trips, and the numeric form determines the address.\<close>

lemma mac_toString_roundtrip: "mac_of_string (toString m CHR '':'') = Inr m"
proof (cases m)
  case (MAC a b c d e f)
  have "length (toString m CHR '':'') = 17" by (simp add: MAC toString_def hex2_def)
  moreover have "scan_mac (toString m CHR '':'') =
      Some [ucast a, ucast b, ucast c, ucast d, ucast e, ucast f]"
    by (simp add: MAC toString_def scan_mac_def scan_lit_def)
  ultimately show ?thesis
    by (simp add: MAC mac_of_string_def byte_not_above)
qed

lemma toU64_bytes:
  fixes a b c d e f :: u8
  defines "m \<equiv> toU64 (MAC a b c d e f)"
  shows "ucast (drop_bit 40 m) = a" "ucast (drop_bit 32 m) = b" "ucast (drop_bit 24 m) = c"
    "ucast (drop_bit 16 m) = d" "ucast (drop_bit 8 m) = e" "ucast m = f"
  unfolding m_def toU64_def by (rule bit_word_eqI; simp add: bit_simps bit_byte_high)+

lemma toU64_inject: "toU64 m = toU64 n \<longleftrightarrow> m = n"
proof
  assume eq: "toU64 m = toU64 n"
  obtain a b c d e f where m: "m = MAC a b c d e f" by (cases m)
  obtain a' b' c' d' e' f' where n: "n = MAC a' b' c' d' e' f'" by (cases n)
  show "m = n"
    using toU64_bytes [of a b c d e f] toU64_bytes [of a' b' c' d' e' f'] eq by (simp add: m n)
qed simp

end
