(* ===== verification/R_Frame.thy ===== *)
theory R_Frame
  imports R_Session Mac_Addr
begin

text \<open>
  \<open>src/common/r_frame_builder.{hpp,cpp}\<close>: the Ethernet/IPv4/UDP prefix of a routable frame, the
  IPv4 header checksum, the multicast address mapping, the per-group destination fields, and the
  dotted-quad parser of the command line. The lemmas show the bytes of a built prefix, that its
  checksum verifies, and that patching the destination fields gives the prefix built for that group.
\<close>

abbreviation (input) R_DEFAULT_DST_IP :: u32 where "R_DEFAULT_DST_IP \<equiv> 0xEFC00101"
abbreviation (input) R_DEFAULT_SRC_IP :: u32 where "R_DEFAULT_SRC_IP \<equiv> 0xC0A80A01"

record RFrameConfig =
  rf_srcIP :: u32
  rf_dstIP :: u32
  rf_dstPort :: u16
  rf_ttl :: u8
  rf_srcMAC :: MAC
  rf_mode :: SecurityMode

definition RFrameConfig_init :: RFrameConfig where
  "RFrameConfig_init = \<lparr> rf_srcIP = R_DEFAULT_SRC_IP, rf_dstIP = R_DEFAULT_DST_IP, rf_dstPort = UDP_DST_PORT,
     rf_ttl = 64, rf_srcMAC = MAC 0xF0 0xF1 0xF2 0xF3 0xF4 0xF5, rf_mode = SEC_NONE \<rparr>"

abbreviation (input) OFF_ETH_DMAC :: nat where "OFF_ETH_DMAC \<equiv> 0"
abbreviation (input) OFF_ETH_SMAC :: nat where "OFF_ETH_SMAC \<equiv> 6"
abbreviation (input) OFF_ETH_TYPE :: nat where "OFF_ETH_TYPE \<equiv> 12"
abbreviation (input) OFF_IP :: nat where "OFF_IP \<equiv> 14"
abbreviation (input) OFF_IP_CSUM :: nat where "OFF_IP_CSUM \<equiv> 24"
abbreviation (input) OFF_IP_DST :: nat where "OFF_IP_DST \<equiv> 30"
abbreviation (input) OFF_UDP_SRC_PORT :: nat where "OFF_UDP_SRC_PORT \<equiv> 34"
abbreviation (input) OFF_UDP_DST_PORT :: nat where "OFF_UDP_DST_PORT \<equiv> 36"
abbreviation (input) OFF_UDP_LENGTH :: nat where "OFF_UDP_LENGTH \<equiv> 38"
abbreviation (input) OFF_UDP_CSUM :: nat where "OFF_UDP_CSUM \<equiv> 40"
abbreviation (input) OFF_UDP_PAYLOAD :: nat where "OFF_UDP_PAYLOAD \<equiv> 42"

definition multicast_mac :: "u32 \<Rightarrow> MAC" where
  "multicast_mac dstIP = MAC 0x01 0x00 0x5E
     (ucast (drop_bit 16 dstIP AND 0x7F)) (ucast (drop_bit 8 dstIP AND 0xFF)) (ucast (dstIP AND 0xFF))"

abbreviation (input) R_DST_SPREAD :: u32 where "R_DST_SPREAD \<equiv> 128"

definition stream_dst_ip :: "u32 \<Rightarrow> u32 \<Rightarrow> u32" where
  "stream_dst_ip base idx = base + (idx AND (R_DST_SPREAD - 1))"

subsection \<open>Header checksum\<close>

text \<open>The sum of the ten header words at \<open>p\<close>, in a \<open>uint32_t\<close>.\<close>

definition ipv4_sum :: "bytes \<Rightarrow> nat \<Rightarrow> u32 option" where
  "ipv4_sum buf p = fold (\<lambda>i acc. do { s \<leftarrow> acc; w \<leftarrow> get_u16 buf (p + i); Some (s + ucast w) })
     [0, 2, 4, 6, 8, 10, 12, 14, 16, 18] (Some 0)"

text \<open>The loop \<open>while (sum >> 16) sum = (sum & 0xFFFF) + (sum >> 16)\<close>; it ends because each round shrinks the sum.\<close>

lemma unat_low16: "unat (s AND 0xFFFF) = unat (s :: u32) mod 65536"
proof -
  have "s AND 0xFFFF = take_bit 16 s" by (simp add: take_bit_eq_mask mask_eq_exp_minus_1)
  then show ?thesis by (simp add: take_bit_eq_mod unat_mod_distrib)
qed

lemma unat_high16: "unat (drop_bit 16 (s :: u32)) = unat s div 65536"
  by (simp add: drop_bit_eq_div unat_div_distrib)

lemma high16_eq_0: "drop_bit 16 (s :: u32) = 0 \<longleftrightarrow> unat s < 65536"
  by (metis unat_high16 div_eq_0_iff unat_eq_zero zero_neq_numeral unsigned_0)

lemma unat_carry_step:
  "unat ((s AND 0xFFFF) + drop_bit 16 (s :: u32)) = unat s mod 65536 + unat s div 65536"
proof -
  have "unat s < 4294967296" using unsigned_less [of s] by simp
  then have "unat s div 65536 < 65536" by (simp add: less_mult_imp_div_less)
  moreover have "unat s mod 65536 < 65536" by simp
  ultimately have "unat (s AND 0xFFFF) + unat (drop_bit 16 s) < 2 ^ 32"
    unfolding unat_low16 unat_high16 by simp
  then show ?thesis by (simp only: unat_word_ariths unat_low16 unat_high16) simp
qed

lemma carry_step_less: "65536 \<le> s \<Longrightarrow> s mod 65536 + s div 65536 < (s :: nat)"
proof -
  assume "65536 \<le> s"
  then have "1 \<le> s div 65536" by (simp add: div_greater_zero_iff Suc_le_eq)
  moreover have "s = 65536 * (s div 65536) + s mod 65536" by simp
  ultimately show ?thesis by linarith
qed

function csum_fold :: "u32 \<Rightarrow> u32" where
  "csum_fold s = (if drop_bit 16 s = 0 then s else csum_fold ((s AND 0xFFFF) + drop_bit 16 s))"
  by pat_completeness auto

termination csum_fold
  by (relation "measure unat") (auto simp: unat_carry_step carry_step_less high16_eq_0)

declare csum_fold.simps [simp del]

definition ipv4_checksum :: "bytes \<Rightarrow> nat \<Rightarrow> u16 option" where
  "ipv4_checksum buf header = do { s \<leftarrow> ipv4_sum buf header; Some (ucast (NOT (csum_fold s))) }"

subsection \<open>build_prefix and make_dst_fields\<close>

definition build_prefix :: "bytes \<Rightarrow> RFrameConfig \<Rightarrow> nat \<Rightarrow> (bytes \<times> nat) option" where
  "build_prefix buf cfg udpPayloadSize = do {
     buf \<leftarrow> wrs buf OFF_ETH_DMAC (mac_data (multicast_mac (rf_dstIP cfg)));
     buf \<leftarrow> wrs buf OFF_ETH_SMAC (mac_data (rf_srcMAC cfg));
     buf \<leftarrow> put_u16 buf OFF_ETH_TYPE 0x0800;
     let ip = OFF_IP;
     buf \<leftarrow> wr buf ip 0x45;
     buf \<leftarrow> wr buf (ip + 1) 0x00;
     buf \<leftarrow> put_u16 buf (ip + 2) (of_nat (20 + 8 + udpPayloadSize));
     buf \<leftarrow> put_u16 buf (ip + 4) 0;
     buf \<leftarrow> put_u16 buf (ip + 6) 0x4000;
     buf \<leftarrow> wr buf (ip + 8) (rf_ttl cfg);
     buf \<leftarrow> wr buf (ip + 9) 17;
     buf \<leftarrow> put_u16 buf (ip + 10) 0;
     buf \<leftarrow> put_u32 buf (ip + 12) (rf_srcIP cfg);
     buf \<leftarrow> put_u32 buf (ip + 16) (rf_dstIP cfg);
     csum \<leftarrow> ipv4_checksum buf ip;
     buf \<leftarrow> put_u16 buf (ip + 10) csum;
     buf \<leftarrow> put_u16 buf OFF_UDP_SRC_PORT 0;
     buf \<leftarrow> put_u16 buf OFF_UDP_DST_PORT (rf_dstPort cfg);
     buf \<leftarrow> put_u16 buf OFF_UDP_LENGTH (of_nat (8 + udpPayloadSize));
     buf \<leftarrow> put_u16 buf OFF_UDP_CSUM 0;
     Some (buf, OFF_UDP_PAYLOAD) }"

text \<open>The fields \<open>dstIP_be\<close> and \<open>ipCsum_be\<close> are memory images in wire order, hence byte lists.\<close>

record DstFields =
  df_dmac :: bytes
  df_dstIP_be :: bytes
  df_ipCsum_be :: bytes

definition make_dst_fields :: "bytes \<Rightarrow> u32 \<Rightarrow> DstFields option" where
  "make_dst_fields skeleton dstIP = do {
     ip \<leftarrow> rds skeleton OFF_IP 20;
     ip \<leftarrow> put_u32 ip 16 dstIP;
     ip \<leftarrow> put_u16 ip 10 0;
     csum \<leftarrow> ipv4_checksum ip 0;
     Some \<lparr> df_dmac = mac_data (multicast_mac dstIP), df_dstIP_be = put32 dstIP, df_ipCsum_be = put16 csum \<rparr> }"

subsection \<open>parse_ipv4\<close>

definition dec_value :: "char \<Rightarrow> nat option" where
  "dec_value c = (let n = of_char c :: nat in if 48 \<le> n \<and> n \<le> 57 then Some (n - 48) else None)"

text \<open>The longest run of decimal digits: its value and the rest.\<close>

fun scan_digits :: "nat \<Rightarrow> string \<Rightarrow> nat \<times> string" where
  "scan_digits acc [] = (acc, [])"
| "scan_digits acc (c # cs) = (case dec_value c of None \<Rightarrow> (acc, c # cs) | Some d \<Rightarrow> scan_digits (10 * acc + d) cs)"

text \<open>
  \<open>%u\<close>: white space, an optional sign and decimal digits. The outer \<open>None\<close> is a number that \<open>unsigned\<close>
  cannot represent, whose conversion C leaves undefined; the inner one is a matching failure.
\<close>

definition scan_u :: "string \<Rightarrow> (u32 \<times> string) option option" where
  "scan_u s = (let s = dropWhile is_space s;
       neg = (case s of c # _ \<Rightarrow> c = CHR ''-'' | [] \<Rightarrow> False);
       s = (case s of c # cs \<Rightarrow> if c = CHR ''-'' \<or> c = CHR ''+'' then cs else s | [] \<Rightarrow> s)
     in case s of
          [] \<Rightarrow> Some None
        | c # _ \<Rightarrow> if dec_value c = None then Some None
            else (case scan_digits 0 s of (n, rest) \<Rightarrow>
              if n < 2 ^ 32 then Some (Some (if neg then - of_nat n else of_nat n, rest)) else None))"

text \<open>One field of the format \<open>%u.%u.%u.%u%c\<close> after the first, with the dot in front of it.\<close>

definition scan_dot_u :: "string \<Rightarrow> (u32 \<times> string) option option" where
  "scan_dot_u s = (case scan_lit CHR ''.'' s of None \<Rightarrow> Some None | Some s \<Rightarrow> scan_u s)"

text \<open>The inner result is the address, \<open>None\<close> for the return value false.\<close>

definition parse_ipv4 :: "string \<Rightarrow> u32 option option" where
  "parse_ipv4 txt =
     and_then (scan_u txt) (\<lambda>(b0, s). and_then (scan_dot_u s) (\<lambda>(b1, s). and_then (scan_dot_u s) (\<lambda>(b2, s).
     and_then (scan_dot_u s) (\<lambda>(b3, s).
       if s \<noteq> [] then Some None
       else if 255 < b0 \<or> 255 < b1 \<or> 255 < b2 \<or> 255 < b3 then Some None
       else Some (Some (push_bit 24 b0 OR push_bit 16 b1 OR push_bit 8 b2 OR b3))))))"

text \<open>The dotted form the passports print.\<close>

definition format_ip :: "u32 \<Rightarrow> string" where
  "format_ip dstIP = dec (unat (drop_bit 24 dstIP AND 0xFF)) @ ''.'' @ dec (unat (drop_bit 16 dstIP AND 0xFF)) @ ''.''
     @ dec (unat (drop_bit 8 dstIP AND 0xFF)) @ ''.'' @ dec (unat (dstIP AND 0xFF))"

subsection \<open>The checksum completes the header\<close>

lemma csum_fold_nat: "unat (csum_fold s) = (if s = 0 then 0 else (unat s - 1) mod 65535 + 1)"
proof (induction s rule: csum_fold.induct)
  case (1 s)
  show ?case
  proof (cases "unat s < 65536")
    case True
    then show ?thesis using unat_gt_0 [of s] by (subst csum_fold.simps) (auto simp: high16_eq_0)
  next
    case False
    let ?t = "(s AND 0xFFFF) + drop_bit 16 s"
    have d: "drop_bit 16 s \<noteq> 0" using False high16_eq_0 by blast
    have p: "1 \<le> unat s div 65536" using False by (simp add: div_greater_zero_iff Suc_le_eq)
    then have t: "?t \<noteq> 0" using unat_carry_step [of s] by (metis add_is_0 not_one_le_zero unsigned_0)
    have "(unat ?t - 1) mod 65535 = (unat s - 1) mod 65535"
    proof -
      let ?q = "unat s div 65536" and ?r = "unat s mod 65536"
      have "unat s = 65536 * ?q + ?r" by simp
      then have "unat s - 1 = 65535 * ?q + (?r + ?q - 1)" using p by linarith
      then have "(unat s - 1) mod 65535 = (?r + ?q - 1) mod 65535" by (simp only: mod_mult_self4)
      then show ?thesis by (simp only: unat_carry_step)
    qed
    moreover have "csum_fold s = csum_fold ?t" using d by (subst csum_fold.simps) simp
    moreover have "s \<noteq> 0" using False by auto
    ultimately show ?thesis using 1 [OF d] t by simp
  qed
qed

lemma unat_not16: "unat (NOT (g :: u16)) = 65535 - unat g"
proof -
  have "NOT g = -1 - g" by (simp add: not_eq_complement)
  moreover have "unat (-1 - g) = unat (-1 :: u16) - unat g" by (rule unat_sub) simp
  ultimately show ?thesis by (simp add: unsigned_minus_1_eq_mask mask_eq_exp_minus_1)
qed
lemma unat_ucast_not: assumes "unat F \<le> 65535" shows "unat (ucast (NOT (F::u32)) :: u16) = 65535 - unat F"
proof -
  have "(ucast (NOT F) :: u16) = NOT (ucast F)" by (rule bit_word_eqI) (auto simp: bit_simps)
  moreover have "unat (ucast F :: u16) = unat F" using assms by (simp add: unsigned_ucast_eq take_bit_nat_def)
  ultimately show ?thesis by (simp add: unat_not16)
qed
lemma checksum_completes:
  assumes "unat S < 2 ^ 31"
  shows "csum_fold (S + ucast (ucast (NOT (csum_fold S)) :: u16)) = 0xFFFF"
proof -
  let ?c = "ucast (NOT (csum_fold S)) :: u16" and ?F = "unat (csum_fold S)"
  have le: "?F \<le> 65535" using mod_less_divisor [of 65535 "unat S - 1"] unfolding csum_fold_nat by auto
  have c: "unat ?c = 65535 - ?F" by (rule unat_ucast_not [OF le])
  have u: "unat (ucast ?c :: u32) = 65535 - ?F" using unat_ucast_widen [of ?c, where 'b = 32] c by simp
  have s: "unat (S + ucast ?c) = unat S + (65535 - ?F)"
    using assms by (simp add: unat_word_ariths u)
  have "(unat S + (65535 - ?F) - 1) mod 65535 = 65534 \<and> 0 < unat S + (65535 - ?F)"
  proof (cases "S = 0")
    case False
    let ?n = "unat S - 1"
    have "unat S = Suc ?n" using unat_gt_0 [of S] False by simp
    moreover have "?F = ?n mod 65535 + 1" using False by (simp add: csum_fold_nat)
    moreover have "?n = 65535 * (?n div 65535) + ?n mod 65535" by simp
    moreover have "?n mod 65535 < 65535" by simp
    ultimately have "unat S + (65535 - ?F) - 1 = 65535 * (?n div 65535) + 65534" "0 < unat S + (65535 - ?F)" 
      by linarith+
    then show ?thesis by (simp only: mod_mult_self4) simp
  qed (simp add: csum_fold_nat)
  then have "unat (csum_fold (S + ucast ?c)) = 65535"
    by (simp add: csum_fold_nat s flip: unat_eq_zero)
  from word_of_unat [OF this] show ?thesis by simp
qed
subsection \<open>The bytes of the prefix\<close>

text \<open>A header of ten words with the given checksum.\<close>

definition ip_words :: "RFrameConfig \<Rightarrow> nat \<Rightarrow> u16 \<Rightarrow> u16 list" where
  "ip_words cfg n csum = [0x4500, of_nat (28 + n), 0, 0x4000, be16 (rf_ttl cfg) 17, csum,
     ucast (drop_bit 16 (rf_srcIP cfg)), ucast (rf_srcIP cfg), ucast (drop_bit 16 (rf_dstIP cfg)), ucast (rf_dstIP cfg)]"

definition ip_header :: "RFrameConfig \<Rightarrow> nat \<Rightarrow> u16 \<Rightarrow> bytes" where
  "ip_header cfg n csum = concat (map put16 (ip_words cfg n csum))"

definition words_sum :: "u16 list \<Rightarrow> u32" where
  "words_sum ws = sum_list (map ucast ws)"

definition ip_csum :: "RFrameConfig \<Rightarrow> nat \<Rightarrow> u16" where
  "ip_csum cfg n = ucast (NOT (csum_fold (words_sum (ip_words cfg n 0))))"

lemma length_ip_header [simp]: "length (ip_header cfg n csum) = 20"
  by (simp add: ip_header_def ip_words_def)

lemma ip_header_bytes:
  "ip_header cfg n csum = [0x45, 0] @ put16 (of_nat (28 + n)) @ put16 0 @ put16 0x4000 @ [rf_ttl cfg, 17] @
     put16 csum @ put32 (rf_srcIP cfg) @ put32 (rf_dstIP cfg)"
proof -
  have "put16 (0x4500) = [0x45, 0]" by (simp add: put16_def)
  then show ?thesis by (simp add: ip_header_def ip_words_def put32_put16 put16_be16)
qed

lemma length_ip_words [simp]: "length (ip_words cfg n csum) = 10"
  by (simp add: ip_words_def)

lemma ipv4_sum_words:
  assumes "length ws = 10" and "i = length a"
  shows "ipv4_sum (a @ concat (map put16 ws) @ c) i = Some (words_sum ws)"
proof -
  obtain w0 w1 w2 w3 w4 w5 w6 w7 w8 w9 where ws: "ws = [w0, w1, w2, w3, w4, w5, w6, w7, w8, w9]"
    using assms(1) by (auto simp: length_Suc_conv numeral_eq_Suc)
  show ?thesis
    by (simp add: ws assms(2) ipv4_sum_def get_u16_def rd_def nth_append put16_def be16_put16 words_sum_def
        ac_simps)
qed

lemma words_sum_bound: "unat (words_sum ws) \<le> length ws * 65535"
proof (induction ws)
  case (Cons w ws)
  have "unat w < 65536" using unsigned_less [of w] by simp
  moreover have "unat (words_sum (w # ws)) \<le> unat w + unat (words_sum ws)"
  proof -
    have "words_sum (w # ws) = ucast w + words_sum ws" by (simp add: words_sum_def)
    moreover have "unat (ucast w :: u32) = unat w" by simp
    ultimately show ?thesis by (simp only: unat_word_ariths mod_less_eq_dividend)
  qed
  ultimately show ?case using Cons.IH by simp
qed (simp add: words_sum_def)

lemma words_sum_csum: "words_sum (ip_words cfg n csum) = words_sum (ip_words cfg n 0) + ucast csum"
  by (simp only: words_sum_def ip_words_def list.map sum_list.Cons sum_list.Nil add_ac unsigned_0 add_0_right add_0_left)

lemma ip_words_complete: "csum_fold (words_sum (ip_words cfg n (ip_csum cfg n))) = 0xFFFF"
proof -
  have "unat (words_sum (ip_words cfg n 0)) \<le> 10 * 65535"
    using words_sum_bound [of "ip_words cfg n 0"] by (simp add: ip_words_def)
  then show ?thesis
    using checksum_completes [of "words_sum (ip_words cfg n 0)"]
    by (subst words_sum_csum) (simp add: ip_csum_def)
qed

text \<open>The prefix with the UDP source port \<open>port\<close>; \<open>build_prefix\<close> leaves it at zero.\<close>

definition udp_prefix :: "RFrameConfig \<Rightarrow> nat \<Rightarrow> u16 \<Rightarrow> bytes" where
  "udp_prefix cfg n port = mac_data (multicast_mac (rf_dstIP cfg)) @ mac_data (rf_srcMAC cfg) @ put16 0x0800 @
     ip_header cfg n (ip_csum cfg n) @ put16 port @ put16 (rf_dstPort cfg) @ put16 (of_nat (8 + n)) @ put16 0"

abbreviation prefix_image :: "RFrameConfig \<Rightarrow> nat \<Rightarrow> bytes" where
  "prefix_image cfg n \<equiv> udp_prefix cfg n 0"

lemma length_udp_prefix [simp]: "length (udp_prefix cfg n port) = 42"
  by (simp add: udp_prefix_def)

lemma put_src_port: "put_u16 (udp_prefix cfg n old @ rest) 34 port = Some (udp_prefix cfg n port @ rest)"
proof -
  let ?A = "mac_data (multicast_mac (rf_dstIP cfg)) @ mac_data (rf_srcMAC cfg) @ put16 0x0800 @ ip_header cfg n (ip_csum cfg n)"
  have f: "udp_prefix cfg n a @ rest = ?A @ put16 a @ (put16 (rf_dstPort cfg) @ put16 (of_nat (8 + n)) @ put16 0 @ rest)" for a
    by (simp add: udp_prefix_def)
  show ?thesis unfolding f put_u16_def by (rule wrs_append) simp_all
qed

lemma ipv4_checksum_header:
  "i = length a \<Longrightarrow> ipv4_checksum (a @ ip_header cfg n 0 @ c) i = Some (ip_csum cfg n)"
  using ipv4_sum_words [of "ip_words cfg n 0"] by (simp add: ipv4_checksum_def ip_header_def ip_csum_def)

lemma build_prefix_image:
  assumes "42 \<le> length buf"
  shows "build_prefix buf cfg n = Some (filled (prefix_image cfg n) buf, OFF_UDP_PAYLOAD)"
proof -
  let ?eth = "mac_data (multicast_mac (rf_dstIP cfg)) @ mac_data (rf_srcMAC cfg) @ put16 0x0800"
  have ne: "buf \<noteq> []" using assms by auto
  have 1: "ipv4_checksum (filled (?eth @ ip_header cfg n 0) buf) OFF_IP = Some (ip_csum cfg n)"
    using ipv4_checksum_header [of 14 ?eth cfg n] by (simp add: filled_def)
  have 2: "put_u16 (filled (?eth @ ip_header cfg n 0) buf) 24 csum = Some (filled (?eth @ ip_header cfg n csum) buf)"
    for csum
    using wrs_append [of 24 "?eth @ take 10 (ip_header cfg n 0)" "put16 csum" "put16 0"
        "drop 12 (ip_header cfg n 0) @ drop 34 buf"]
    by (simp add: put_u16_def filled_def ip_header_bytes)
  have "build_prefix (filled [] buf) cfg n = Some (filled (prefix_image cfg n) buf, OFF_UDP_PAYLOAD)"
    using assms ne 1 2
    by (simp add: build_prefix_def filled_simps udp_prefix_def ip_header_bytes)
  then show ?thesis by (simp only: filled_Nil)
qed
subsection \<open>Destination fields\<close>

lemma make_dst_fields_image:
  "make_dst_fields (udp_prefix cfg n port @ rest) dstIP =
     Some \<lparr> df_dmac = mac_data (multicast_mac dstIP), df_dstIP_be = put32 dstIP,
       df_ipCsum_be = put16 (ip_csum (cfg\<lparr> rf_dstIP := dstIP \<rparr>) n) \<rparr>"
proof -
  let ?eth = "mac_data (multicast_mac (rf_dstIP cfg)) @ mac_data (rf_srcMAC cfg) @ put16 0x0800"
  let ?cfg = "cfg\<lparr> rf_dstIP := dstIP \<rparr>"
  have 1: "rds (udp_prefix cfg n port @ rest) OFF_IP 20 = Some (ip_header cfg n (ip_csum cfg n))"
    using rds_append [of 14 ?eth 20 "ip_header cfg n (ip_csum cfg n)"] by (simp add: udp_prefix_def)
  have 2: "put_u32 (ip_header cfg n csum) 16 dstIP = Some (ip_header ?cfg n csum)" for csum
    using wrs_append [of 16 "take 16 (ip_header cfg n csum)" "put32 dstIP" "put32 (rf_dstIP cfg)" "[]"]
    by (simp add: put_u32_def ip_header_bytes)
  have 3: "put_u16 (ip_header ?cfg n csum) 10 0 = Some (ip_header ?cfg n 0)" for csum
    using wrs_append [of 10 "take 10 (ip_header ?cfg n csum)" "put16 0" "put16 csum" "drop 12 (ip_header ?cfg n csum)"]
    by (simp add: put_u16_def ip_header_bytes)
  have 4: "ipv4_checksum (ip_header ?cfg n 0) 0 = Some (ip_csum ?cfg n)"
    using ipv4_checksum_header [of 0 "[]" ?cfg n "[]"] by simp
  show ?thesis by (simp add: make_dst_fields_def 1 2 3 4)
qed

text \<open>The three fields written into a frame of another group, in any of the orders.\<close>

lemma patch_dst_fields:
  defines "d \<equiv> \<lambda>dstIP cfg. cfg\<lparr> rf_dstIP := dstIP \<rparr>"
  shows "do { buf \<leftarrow> wrs (udp_prefix cfg n port @ rest) OFF_ETH_DMAC (mac_data (multicast_mac dstIP));
       buf \<leftarrow> wrs buf OFF_IP_DST (put32 dstIP);
       wrs buf OFF_IP_CSUM (put16 (ip_csum (d dstIP cfg) n)) } = Some (udp_prefix (d dstIP cfg) n port @ rest)"
proof -
  let ?c = "d dstIP cfg"
  let ?m = "mac_data (rf_srcMAC cfg) @ put16 0x0800" and ?h = "ip_header cfg n (ip_csum cfg n)"
  let ?t = "put16 port @ put16 (rf_dstPort cfg) @ put16 (of_nat (8 + n)) @ put16 0 @ rest"
  have 1: "wrs (udp_prefix cfg n port @ rest) 0 (mac_data (multicast_mac dstIP)) =
      Some (mac_data (multicast_mac dstIP) @ ?m @ ?h @ ?t)"
    using wrs_append [of 0 "[]" "mac_data (multicast_mac dstIP)" "mac_data (multicast_mac (rf_dstIP cfg))"]
    by (simp add: udp_prefix_def)
  have 2: "wrs (mac_data (multicast_mac dstIP) @ ?m @ ?h @ ?t) 30 (put32 dstIP) =
      Some (mac_data (multicast_mac dstIP) @ ?m @ ip_header ?c n (ip_csum cfg n) @ ?t)"
    using wrs_append [of 30 "mac_data (multicast_mac dstIP) @ ?m @ take 16 ?h" "put32 dstIP" "put32 (rf_dstIP cfg)" ?t]
    by (simp add: ip_header_bytes d_def)
  have 3: "wrs (mac_data (multicast_mac dstIP) @ ?m @ ip_header ?c n (ip_csum cfg n) @ ?t) 24 (put16 csum) =
      Some (mac_data (multicast_mac dstIP) @ ?m @ ip_header ?c n csum @ ?t)" for csum
    using wrs_append [of 24 "mac_data (multicast_mac dstIP) @ ?m @ take 10 ?h" "put16 csum" "put16 (ip_csum cfg n)"
        "put32 (rf_srcIP cfg) @ put32 dstIP @ ?t"]
    by (simp add: ip_header_bytes d_def)
  show ?thesis by (simp only: 1 2 3 Option.bind.simps) (simp add: udp_prefix_def d_def)
qed

subsection \<open>Group addresses\<close>

lemma multicast_mac_take_bit:
  "multicast_mac ip = MAC 0x01 0x00 0x5E (ucast (take_bit 7 (drop_bit 16 ip))) (ucast (drop_bit 8 ip)) (ucast ip)"
proof -
  have m: "x AND 0x7F = take_bit 7 x" "x AND 0xFF = take_bit 8 x" for x :: u32
    by (simp_all add: take_bit_eq_mask mask_eq_exp_minus_1)
  have "ucast (take_bit 8 x) = (ucast x :: u8)" for x :: u32
    by (rule bit_word_eqI) (auto simp: bit_simps)
  then show ?thesis unfolding multicast_mac_def m by simp
qed

lemma multicast_mac_eq_iff: "multicast_mac a = multicast_mac b \<longleftrightarrow> take_bit 23 a = take_bit 23 b"
proof
  assume eq: "multicast_mac a = multicast_mac b"
  show "take_bit 23 a = take_bit 23 b"
  proof (rule bit_word_eqI)
    fix n assume "n < LENGTH(32)"
    have eqs: "ucast (take_bit 7 (drop_bit 16 a)) = (ucast (take_bit 7 (drop_bit 16 b)) :: u8)"
      "ucast (drop_bit 8 a) = (ucast (drop_bit 8 b) :: u8)" "ucast a = (ucast b :: u8)"
      using eq by (simp_all add: multicast_mac_take_bit)
    consider "n < 8" | "8 \<le> n" "n < 16" | "16 \<le> n" "n < 23" | "23 \<le> n" by linarith
    then show "bit (take_bit 23 a) n = bit (take_bit 23 b) n"
    proof cases
      case 1
      then show ?thesis using arg_cong [OF eqs(3), of "\<lambda>w. bit w n"] by (simp add: bit_simps)
    next
      case 2
      then have "n - 8 < 8" by linarith
      then show ?thesis using 2 arg_cong [OF eqs(2), of "\<lambda>w. bit w (n - 8)"] by (simp add: bit_simps)
    next
      case 3
      then have "n - 16 < 7" by linarith
      then show ?thesis using 3 arg_cong [OF eqs(1), of "\<lambda>w. bit w (n - 16)"] by (simp add: bit_simps)
    qed (simp add: bit_simps)
  qed
next
  assume "take_bit 23 a = take_bit 23 b"
  then have "bit a n = bit b n" if "n < 23" for n using that by (metis bit_take_bit_iff)
  then show "multicast_mac a = multicast_mac b" unfolding multicast_mac_take_bit
    by (auto intro!: bit_word_eqI simp: bit_simps)
qed

lemma take_bit_add_cancel:
  assumes "take_bit n (b + x) = take_bit n (b + y :: 'a :: len word)" and "n \<le> LENGTH('a)"
  shows "take_bit n x = take_bit n y"
proof -
  have "take_bit n (uint b + uint x) = take_bit n (uint b + uint y)"
    using arg_cong [OF assms(1), of uint] assms(2)
    by (simp add: unsigned_take_bit_eq uint_word_ariths flip: take_bit_eq_mod)
  then have "take_bit n (uint x) = take_bit n (uint y)" by (metis add_diff_cancel_left' take_bit_diff)
  then show ?thesis by (intro word_uint_eqI) (simp add: unsigned_take_bit_eq)
qed

lemma stream_dst_ip_mac:
  assumes "multicast_mac (stream_dst_ip base i) = multicast_mac (stream_dst_ip base j)"
  shows "stream_dst_ip base i = stream_dst_ip base j"
proof -
  have low: "x AND (R_DST_SPREAD - 1) = take_bit 7 x" for x :: u32
    by (simp add: take_bit_eq_mask mask_eq_exp_minus_1)
  have "take_bit 23 (take_bit 7 i) = take_bit 23 (take_bit 7 j)"
    using assms unfolding multicast_mac_eq_iff stream_dst_ip_def low by (rule take_bit_add_cancel) simp
  then show ?thesis by (simp only: stream_dst_ip_def low take_bit_take_bit) simp
qed
subsection \<open>Dotted quads\<close>

lemma dec_digit:
  assumes "n < (10 :: nat)"
  shows "dec_value (char_of (48 + n)) = Some n" "\<not> is_space (char_of (48 + n))"
    "char_of (48 + n) \<noteq> CHR ''-''" "char_of (48 + n) \<noteq> CHR ''+''"
  using assms by (simp_all add: dec_value_def is_space_def char_of_eq_iff take_bit_eq_mod Let_def)

lemma scan_digits_dec: "scan_digits acc (dec n @ s) = scan_digits (acc * 10 ^ length (dec n) + n) s"
proof (induction n arbitrary: acc s rule: dec.induct)
  case (1 n)
  show ?case
  proof (cases "n < 10")
    case True
    then show ?thesis by (simp add: dec.simps [of n] dec_digit mult.commute)
  next
    case False
    have "10 * (acc * 10 ^ k + n div 10) + n mod 10 = acc * (10 * 10 ^ k) + n" for k
      by (simp add: algebra_simps)
    then show ?thesis using False 1 by (simp add: dec.simps [of n] dec_digit del: distrib_left_numeral)
  qed
qed

lemma dec_head: "\<exists>d ds. dec n = char_of (48 + d :: nat) # ds \<and> d < 10"
proof (induction n rule: dec.induct)
  case (1 n)
  show ?case
  proof (cases "n < 10")
    case True
    then have "dec n = char_of (48 + n) # []" by (simp add: dec.simps [of n])
    with True show ?thesis by blast
  next
    case False
    with 1 obtain d ds where "dec (n div 10) = char_of (48 + d :: nat) # ds" "d < 10" by blast
    with False have "dec n = char_of (48 + d) # ds @ [char_of (48 + n mod 10)]" by (simp add: dec.simps [of n])
    with \<open>d < 10\<close> show ?thesis by blast
  qed
qed

lemma scan_u_dec:
  assumes "n < 2 ^ 32" and "s = [] \<or> dec_value (hd s) = None"
  shows "scan_u (dec n @ s) = Some (Some (of_nat n, s))"
proof -
  obtain d ds where d: "dec n = char_of (48 + d :: nat) # ds" "d < 10" using dec_head by blast
  have "scan_digits 0 (dec n @ s) = (n, s)"
    unfolding scan_digits_dec using assms(2) by (cases s) auto
  then show ?thesis using assms(1) d(2) by (simp add: scan_u_def d(1) dec_digit)
qed

lemma ip_octets:
  "push_bit 24 (drop_bit 24 a AND 0xFF) OR push_bit 16 (drop_bit 16 a AND 0xFF) OR
   push_bit 8 (drop_bit 8 a AND 0xFF) OR (a AND 0xFF) = (a :: u32)"
proof (rule bit_word_eqI)
  fix n :: nat
  have m: "x AND 0xFF = take_bit 8 x" for x :: u32
    by (simp add: take_bit_eq_mask mask_eq_exp_minus_1)
  assume "n < LENGTH(32)"
  then consider "n < 8" | "8 \<le> n" "n < 16" | "16 \<le> n" "n < 24" | "24 \<le> n" "n < 32" by fastforce
  then show "bit (push_bit 24 (drop_bit 24 a AND 0xFF) OR push_bit 16 (drop_bit 16 a AND 0xFF) OR
      push_bit 8 (drop_bit 8 a AND 0xFF) OR (a AND 0xFF)) n = bit a n"
    unfolding m by cases (auto simp: bit_simps)
qed

lemma unat_octet: "unat (x AND 0xFF :: u32) < 256"
proof -
  have "x AND 0xFF \<le> 0xFF" by (rule word_and_le1)
  then show ?thesis by (simp add: word_le_nat_alt)
qed

lemma parse_format_ip: "parse_ipv4 (format_ip a) = Some (Some a)"
proof -
  have s: "scan_u (dec (unat (x AND 0xFF :: u32)) @ s) = Some (Some (x AND 0xFF, s))"
    if "s = [] \<or> dec_value (hd s) = None" for x s
    using scan_u_dec [OF _ that, of "unat (x AND 0xFF)"] unat_octet [of x] by simp
  have s0: "scan_u (dec (unat (x AND 0xFF :: u32))) = Some (Some (x AND 0xFF, []))" for x
    using s [of "[]" x] by simp
  have "dec_value CHR ''.'' = None" by (simp add: dec_value_def)
  moreover have "\<not> 255 < (x AND 0xFF :: u32)" for x
    using unat_octet [of x] by (simp add: word_less_nat_alt)
  ultimately have "parse_ipv4 (format_ip a) = Some (Some
      (push_bit 24 (drop_bit 24 a AND 0xFF) OR push_bit 16 (drop_bit 16 a AND 0xFF) OR
       push_bit 8 (drop_bit 8 a AND 0xFF) OR (a AND 0xFF)))"
    by (simp add: parse_ipv4_def format_ip_def and_then_def scan_dot_u_def scan_lit_def s s0)
  then show ?thesis by (simp only: ip_octets)
qed
subsection \<open>Properties\<close>

text \<open>
  C21: the precomputed destination fields are what a rebuilt prefix would hold: writing the MAC, the
  address and the checksum of \<open>make_dst_fields\<close> into a skeleton built for one group gives exactly the
  prefix \<open>build_prefix\<close> writes for the other group, checksum included.
\<close>

theorem dst_fields_equal_rebuild:
  assumes "42 \<le> length buf" and "build_prefix buf cfg n = Some (skeleton, off)"
  shows "\<exists>df frame. make_dst_fields skeleton dstIP = Some df \<and>
    do { f \<leftarrow> wrs skeleton OFF_ETH_DMAC (df_dmac df);
         f \<leftarrow> wrs f OFF_IP_DST (df_dstIP_be df);
         wrs f OFF_IP_CSUM (df_ipCsum_be df) } = Some frame \<and>
    build_prefix buf (cfg\<lparr> rf_dstIP := dstIP \<rparr>) n = Some (frame, off)"
proof -
  have sk: "skeleton = prefix_image cfg n @ drop 42 buf" "off = OFF_UDP_PAYLOAD"
    using assms by (simp_all add: build_prefix_image filled_def)
  show ?thesis
    unfolding sk make_dst_fields_image
    by (simp add: patch_dst_fields build_prefix_image assms(1) filled_def)
qed

theorem dst_fields_equal_rebuild_witness:
  "\<exists>skeleton off df frame. build_prefix (replicate 60 0) RFrameConfig_init 18 = Some (skeleton, off) \<and>
    make_dst_fields skeleton 0xEFC00105 = Some df \<and>
    do { f \<leftarrow> wrs skeleton OFF_ETH_DMAC (df_dmac df);
         f \<leftarrow> wrs f OFF_IP_DST (df_dstIP_be df);
         wrs f OFF_IP_CSUM (df_ipCsum_be df) } = Some frame \<and>
    build_prefix (replicate 60 0) (RFrameConfig_init\<lparr> rf_dstIP := 0xEFC00105 \<rparr>) 18 = Some (frame, off)"
proof -
  have len: "42 \<le> length (replicate 60 (0 :: u8))" by simp
  then obtain skeleton off where b: "build_prefix (replicate 60 0) RFrameConfig_init 18 = Some (skeleton, off)"
    by (simp add: build_prefix_image)
  from dst_fields_equal_rebuild [OF len b, of "0xEFC00105"] b show ?thesis by blast
qed

text \<open>
  The group addresses of a run keep apart on the wire: two streams whose frames carry the same
  destination MAC publish to the same IPv4 group, for every base address (the RFC 1112 mapping keeps
  23 bits, and the spread uses 7).
\<close>

theorem group_mac_determines_group:
  assumes "multicast_mac (stream_dst_ip base i) = multicast_mac (stream_dst_ip base j)"
  shows "stream_dst_ip base i = stream_dst_ip base j"
  using assms by (rule stream_dst_ip_mac)

theorem group_mac_determines_group_witness:
  "multicast_mac (stream_dst_ip R_DEFAULT_DST_IP 3) = multicast_mac (stream_dst_ip R_DEFAULT_DST_IP 131) \<and>
   stream_dst_ip R_DEFAULT_DST_IP 3 = stream_dst_ip R_DEFAULT_DST_IP 131"
proof -
  have "multicast_mac (stream_dst_ip R_DEFAULT_DST_IP 3) = multicast_mac (stream_dst_ip R_DEFAULT_DST_IP 131)"
    by (simp add: stream_dst_ip_def)
  with group_mac_determines_group show ?thesis by blast
qed

text \<open>The printed form of every IPv4 address is accepted by \<open>parse_ipv4\<close> and gives that address back.\<close>

theorem ipv4_text_roundtrip: "parse_ipv4 (format_ip a) = Some (Some a)"
  by (rule parse_format_ip)

end
