(* ===== verification/BER.thy ===== *)
theory BER
  imports PBus_Prelude
begin

text \<open>
  The ASN.1 BER primitives in the anonymous namespace of \<open>src/bus_processor/process_bus_parser.cpp\<close>:
  the unbounded length decoder of the GOOSE walk, the number decoder, the bounded length decoder and
  the TLV reader of the SV walk, and the recursive count of the entries of \<open>allData\<close>.

  Positions of the unbounded routines are \<open>uint32_t\<close> values whose additions wrap; the additions go
  through \<open>add32\<close>. A length of the unbounded decoder is an \<open>int\<close>, kept as its 32 bits and read with
  \<open>sint\<close>; shifting it left wraps, as C++20 defines. The bounded routines test \<open>pos\<close> against \<open>end\<close>
  before every step, so \<open>pos \<le> end\<close> throughout and nothing in them can wrap.
\<close>

definition add32 :: "nat \<Rightarrow> nat \<Rightarrow> nat" where
  "add32 a b = (a + b) mod 2 ^ 32"

lemma add32_small [simp]: "a + b < 4294967296 \<Longrightarrow> add32 a b = a + b"
  by (simp add: add32_def)

subsection \<open>Unbounded length\<close>

text \<open>The loop over \<open>n\<close> length octets.\<close>

primrec len_octets :: "bytes \<Rightarrow> nat \<Rightarrow> u32 \<Rightarrow> nat \<Rightarrow> (u32 \<times> nat) option" where
  "len_octets buffer 0 len p = Some (len, p)"
| "len_octets buffer (Suc n) len p = do {
     b \<leftarrow> rd buffer p;
     len_octets buffer n (push_bit 8 len OR ucast b) (add32 p 1) }"

text \<open>The returned \<open>int\<close> and the position left behind.\<close>

definition decode_asn1_len :: "bytes \<Rightarrow> nat \<Rightarrow> (u32 \<times> nat) option" where
  "decode_asn1_len buffer pos = do {
     lenByte \<leftarrow> rd buffer pos;
     let p = add32 pos 1;
     if lenByte AND 0x80 = 0 then Some (ucast lenByte, p)
     else if lenByte AND 0x7F = 1 then do { b \<leftarrow> rd buffer p; Some (ucast b, add32 p 1) }
     else if lenByte AND 0x7F = 2 then do {
       b0 \<leftarrow> rd buffer p; b1 \<leftarrow> rd buffer (add32 p 1); Some (ucast (be16 b0 b1), add32 p 2) }
     else len_octets buffer (unat (lenByte AND 0x7F)) 0 p }"

definition decode_asn1_number :: "bytes \<Rightarrow> nat \<Rightarrow> u32 \<Rightarrow> u32 option" where
  "decode_asn1_number buffer p sz =
     (if sz = 1 then do { a \<leftarrow> rd buffer p; Some (ucast a) }
      else if sz = 2 then do { a \<leftarrow> rd buffer p; b \<leftarrow> rd buffer (p + 1); Some (push_bit 8 (ucast a) OR ucast b) }
      else if sz = 3 then do { a \<leftarrow> rd buffer p; b \<leftarrow> rd buffer (p + 1); c \<leftarrow> rd buffer (p + 2);
        Some (push_bit 16 (ucast a) OR push_bit 8 (ucast b) OR ucast c) }
      else if sz = 4 then get_u32 buffer p
      else Some 0)"

subsection \<open>allData\<close>

text \<open>
  One iteration of the loop over \<open>[pos, end)\<close> with \<open>num\<close> entries counted; \<open>nested\<close> is the call for
  the next depth. The results of the loop: no value when it never ends, \<open>None\<close> for an access outside
  the buffer, and the returned \<open>int\<close>.
\<close>

definition alldata_step ::
    "(nat \<Rightarrow> nat \<Rightarrow> int option option) \<Rightarrow> bytes \<Rightarrow> nat \<Rightarrow> nat \<times> int \<Rightarrow> nat \<times> int + int option option" where
  "alldata_step nested buffer end s = (case s of (pos, num) \<Rightarrow>
     if end \<le> pos then Inr (Some (Some num))
     else into_loop (Some (rd buffer pos)) (\<lambda>tag.
       let pos = add32 pos 1
       in if end \<le> pos then Inr (Some (Some (-1)))
       else into_loop (Some (decode_asn1_len buffer pos)) (\<lambda>(itemSize, pos).
         if sint itemSize < 0 \<or> end < add32 pos (unat itemSize) then Inr (Some (Some (-1)))
         else let next = Inl (add32 pos (unat itemSize), num + 1)
           in if tag = 0xA1 \<or> tag = 0xA2
              then into_loop (nested pos (add32 pos (unat itemSize)))
                     (\<lambda>n. if n < 0 then Inr (Some (Some (-1))) else next)
              else next)))"

text \<open>
  \<open>d\<close> is the number of depths left: a call at \<open>depth\<close> runs with \<open>d = MAX_DATA_DEPTH + 1 - depth\<close>, and
  none left is the test \<open>depth > MAX_DATA_DEPTH\<close>.
\<close>

abbreviation (input) MAX_DATA_DEPTH :: nat where "MAX_DATA_DEPTH \<equiv> 8"

primrec parse_alldata_depth :: "nat \<Rightarrow> bytes \<Rightarrow> nat \<Rightarrow> nat \<Rightarrow> int option option" where
  "parse_alldata_depth 0 buffer pos end = Some (Some (-1))"
| "parse_alldata_depth (Suc d) buffer pos end =
     run_nested (alldata_step (parse_alldata_depth d buffer) buffer end) (pos, 0)"

definition parse_alldata :: "bytes \<Rightarrow> nat \<Rightarrow> nat \<Rightarrow> nat \<Rightarrow> int option option" where
  "parse_alldata buffer pos end depth = parse_alldata_depth (MAX_DATA_DEPTH + 1 - depth) buffer pos end"

subsection \<open>Bounded length and TLV\<close>

primrec len_octets_bounded :: "bytes \<Rightarrow> nat \<Rightarrow> u32 \<Rightarrow> nat \<Rightarrow> (u32 \<times> nat) option" where
  "len_octets_bounded buffer 0 len p = Some (len, p)"
| "len_octets_bounded buffer (Suc n) len p = do {
     b \<leftarrow> rd buffer p;
     len_octets_bounded buffer n (push_bit 8 len OR ucast b) (p + 1) }"

text \<open>The inner \<open>None\<close> is the return value false.\<close>

definition decode_asn1_len_bounded :: "bytes \<Rightarrow> nat \<Rightarrow> nat \<Rightarrow> (nat \<times> nat) option option" where
  "decode_asn1_len_bounded buffer end pos =
     (if end \<le> pos then Some None
      else do {
        first \<leftarrow> rd buffer pos;
        let pos = pos + 1;
        if first AND 0x80 = 0 then Some (Some (unat first, pos))
        else let octets = unat (first AND 0x7F)
          in if octets = 0 \<or> 4 < octets \<or> end - pos < octets then Some None
             else do { (len, pos) \<leftarrow> len_octets_bounded buffer octets 0 pos; Some (Some (unat len, pos)) } })"

text \<open>On success the position of the value and its end.\<close>

definition take_tlv :: "bytes \<Rightarrow> nat \<Rightarrow> nat \<Rightarrow> u8 \<Rightarrow> (nat \<times> nat) option option" where
  "take_tlv buffer end pos expectedTag =
     (if end \<le> pos then Some None
      else do {
        tag \<leftarrow> rd buffer pos;
        let pos = pos + 1;
        if tag \<noteq> expectedTag then Some None
        else do {
          r \<leftarrow> decode_asn1_len_bounded buffer end pos;
          (case r of None \<Rightarrow> Some None
           | Some (len, pos) \<Rightarrow> if end - pos < len then Some None else Some (Some (pos, pos + len))) } })"

subsection \<open>Safety of the bounded routines\<close>

lemma len_octets_bounded_Some:
  "p + n \<le> length buffer \<Longrightarrow> \<exists>len'. len_octets_bounded buffer n len p = Some (len', p + n)"
proof (induction n arbitrary: len p)
  case (Suc n)
  from Suc.IH [of "p + 1"] Suc.prems show ?case by simp
qed simp

lemma decode_asn1_len_bounded_cases:
  assumes "end \<le> length buffer"
  obtains "decode_asn1_len_bounded buffer end pos = Some None"
  | len pos' where "decode_asn1_len_bounded buffer end pos = Some (Some (len, pos'))"
      "pos < pos'" "pos' \<le> end"
proof (cases "end \<le> pos")
  case True
  then show ?thesis using that(1) by (simp add: decode_asn1_len_bounded_def)
next
  case False
  note result = that
  let ?f = "buffer ! pos" and ?o = "unat (buffer ! pos AND 0x7F)"
  have rd: "rd buffer pos = Some ?f" using False assms by simp
  show ?thesis
  proof (cases "?f AND 0x80 = 0")
    case True
    with False rd show ?thesis
      by (intro result(2) [of "unat ?f" "pos + 1"]) (simp_all add: decode_asn1_len_bounded_def)
  next
    case long: False
    show ?thesis
    proof (cases "?o = 0 \<or> 4 < ?o \<or> end - (pos + 1) < ?o")
      case True
      with False rd long show ?thesis
        by (intro result(1)) (simp add: decode_asn1_len_bounded_def Let_def)
    next
      case ok: False
      then have "pos + 1 + ?o \<le> length buffer" using assms False by linarith
      from len_octets_bounded_Some [OF this, of 0] obtain len where
        "len_octets_bounded buffer ?o 0 (pos + 1) = Some (len, pos + 1 + ?o)" by blast
      moreover have "pos + 1 + ?o \<le> end" using ok False by linarith
      ultimately show ?thesis using False rd long ok
        by (intro result(2) [of "unat len" "pos + 1 + ?o"])
          (simp_all add: decode_asn1_len_bounded_def Let_def)
    qed
  qed
qed

lemma take_tlv_cases:
  assumes "end \<le> length buffer"
  obtains "take_tlv buffer end pos tag = Some None"
  | vpos vend where "take_tlv buffer end pos tag = Some (Some (vpos, vend))"
      "pos < vpos" "vpos \<le> vend" "vend \<le> end"
proof (cases "end \<le> pos \<or> buffer ! pos \<noteq> tag")
  case True
  then show ?thesis using that(1) assms by (auto simp: take_tlv_def Let_def)
next
  case False
  note result = that
  have rd: "rd buffer pos = Some tag" "pos < end" using False assms by simp_all
  show ?thesis
  proof (rule decode_asn1_len_bounded_cases [OF assms, of "pos + 1"])
    assume "decode_asn1_len_bounded buffer end (pos + 1) = Some None"
    with rd show ?thesis by (intro result(1)) (simp add: take_tlv_def)
  next
    fix len p
    assume d: "decode_asn1_len_bounded buffer end (pos + 1) = Some (Some (len, p))" "pos + 1 < p" "p \<le> end"
    show ?thesis
    proof (cases "end - p < len")
      case True
      with rd d show ?thesis by (intro result(1)) (simp add: take_tlv_def)
    next
      case False
      with rd d show ?thesis by (intro result(2) [of p "p + len"]) (simp_all add: take_tlv_def)
    qed
  qed
qed

subsection \<open>Encoded lengths\<close>

text \<open>The definite-length forms an encoder writes below 65536.\<close>

definition enc_len :: "nat \<Rightarrow> bytes" where
  "enc_len n = (if n < 128 then [of_nat n] else if n < 256 then [0x81, of_nat n] else 0x82 # put16 (of_nat n))"

definition tlv :: "u8 \<Rightarrow> bytes \<Rightarrow> bytes" where
  "tlv tag v = tag # enc_len (length v) @ v"

lemma length_enc_len: "1 \<le> length (enc_len n)" "length (enc_len n) \<le> 3"
  by (simp_all add: enc_len_def)

lemma length_tlv [simp]: "length (tlv tag v) = 1 + length (enc_len (length v)) + length v"
  by (simp add: tlv_def)

lemma byte_high_bit: "(b :: u8) AND 0x80 = 0 \<longleftrightarrow> unat b < 128"
proof -
  have "bit b 7 \<longleftrightarrow> 128 \<le> unat b"
  proof -
    have "bit b 7 = bit (unat b) 7" by (simp add: bit_unsigned_iff)
    also have "\<dots> = odd (unat b div 128)" by (simp add: bit_iff_odd)
    finally have "bit b 7 = odd (unat b div 128)" .
    moreover have "unat b < 256" using unsigned_less [of b] by simp
    ultimately show ?thesis
      by (cases "unat b < 128") (auto simp: div_eq_0_iff div_if)
  qed
  moreover have "b AND 0x80 = 0 \<longleftrightarrow> \<not> bit b 7"
    using and_exp_eq_0_iff_not_bit [of b 7] by simp
  ultimately show ?thesis by auto
qed

lemma enc_len_first:
  "n < 128 \<Longrightarrow> unat (of_nat n :: u8) = n" "n < 128 \<Longrightarrow> (of_nat n :: u8) AND 0x80 = 0"
proof -
  show u: "unat (of_nat n :: u8) = n" if "n < 128" using that by (simp add: unsigned_of_nat take_bit_nat_eq_self)
  show "(of_nat n :: u8) AND 0x80 = 0" if "n < 128" using u [OF that] that by (simp add: byte_high_bit)
qed

lemma ucast_of_nat_small:
  "n < 256 \<Longrightarrow> ucast (of_nat n :: u8) = (of_nat n :: u32)"
  "n < 65536 \<Longrightarrow> ucast (of_nat n :: u16) = (of_nat n :: u32)"
  by (simp_all add: unsigned_of_nat take_bit_nat_eq_self)

lemma decode_asn1_len_enc:
  assumes "n < 65536" and "p = length a" and "length a + 4 < 2 ^ 32"
  shows "decode_asn1_len (a @ enc_len n @ c) p = Some (of_nat n, length a + length (enc_len n))"
proof -
  consider "n < 128" | "128 \<le> n" "n < 256" | "256 \<le> n" by linarith
  then show ?thesis
  proof cases
    case 1
    then show ?thesis using assms
      by (simp add: decode_asn1_len_def enc_len_def rd_def nth_append enc_len_first ucast_of_nat_small)
  next
    case 2
    then show ?thesis using assms
      by (simp add: decode_asn1_len_def enc_len_def rd_def nth_append ucast_of_nat_small)
  next
    case 3
    then show ?thesis using assms
      by (simp add: decode_asn1_len_def enc_len_def rd_def nth_append put16_def be16_put16 ucast_of_nat_small)
  qed
qed

lemma len_octets_bounded_short:
  "len_octets_bounded buffer 1 len p = do { a \<leftarrow> rd buffer p; Some (push_bit 8 len OR ucast a, p + 1) }"
  "len_octets_bounded buffer 2 len p = do { a \<leftarrow> rd buffer p; b \<leftarrow> rd buffer (p + 1);
     Some (push_bit 8 (push_bit 8 len OR ucast a) OR ucast b, p + 2) }"
  by (simp_all add: numeral_2_eq_2)

lemma decode_asn1_len_bounded_enc:
  assumes "n < 65536" and "p = length a" and "p + length (enc_len n) \<le> end"
  shows "decode_asn1_len_bounded (a @ enc_len n @ c) end p = Some (Some (n, length a + length (enc_len n)))"
proof -
  consider "n < 128" | "128 \<le> n" "n < 256" | "256 \<le> n" by linarith
  then show ?thesis
  proof cases
    case 1
    then show ?thesis using assms
      by (simp add: decode_asn1_len_bounded_def enc_len_def rd_def nth_append enc_len_first)
  next
    case 2
    then have "unat (of_nat n :: u32) = n" by (simp add: unsigned_of_nat take_bit_nat_eq_self)
    then show ?thesis using assms 2
      by (simp add: decode_asn1_len_bounded_def enc_len_def rd_def nth_append ucast_of_nat_small)
  next
    case 3
    have b: "push_bit 8 (ucast (x :: u8)) OR ucast y = (ucast (be16 x y) :: u32)" for x y
      unfolding be16_def by (rule bit_word_eqI) (auto simp: bit_simps dest: bit_imp_le_length)
    have "unat (of_nat n :: u16) = n" using assms(1) by (simp add: unsigned_of_nat take_bit_nat_eq_self)
    moreover have "\<not> end - Suc (length a) < 2" using assms 3 by (simp add: enc_len_def)
    ultimately show ?thesis using assms 3
      by (simp add: decode_asn1_len_bounded_def enc_len_def rd_def nth_append put16_def b be16_put16 len_octets_bounded_short)
  qed
qed

lemma take_tlv_enc:
  assumes "length v < 65536" and "p = length a" and "p + length (tlv tag v) \<le> end"
  shows "take_tlv (a @ tlv tag v @ c) end p tag =
    Some (Some (p + 1 + length (enc_len (length v)), p + length (tlv tag v)))"
proof -
  let ?l = "enc_len (length v)"
  have "decode_asn1_len_bounded (a @ tlv tag v @ c) end (p + 1) =
      Some (Some (length v, p + 1 + length ?l))"
    using decode_asn1_len_bounded_enc [of "length v" "p + 1" "a @ [tag]" "end" "v @ c"] assms
    by (simp add: tlv_def)
  moreover have "rd (a @ tlv tag v @ c) p = Some tag" using assms(2) by (simp add: tlv_def rd_append)
  ultimately show ?thesis using assms(3) by (simp add: take_tlv_def)
qed

subsection \<open>Entries of allData\<close>

text \<open>The data values of a dataset: primitive ones, and arrays and structures of values.\<close>

datatype data = Prim u8 bytes | Constr u8 "data list"

fun data_tlv :: "data \<Rightarrow> bytes" where
  "data_tlv (Prim tag v) = tlv tag v"
| "data_tlv (Constr tag ds) = tlv tag (concat (map data_tlv ds))"

fun data_depth :: "data \<Rightarrow> nat" where
  "data_depth (Prim tag v) = 0"
| "data_depth (Constr tag ds) = Suc (fold max (map data_depth ds) 0)"

text \<open>What an encoder may produce: the tags of arrays and structures mark constructed values.\<close>

fun data_ok :: "data \<Rightarrow> bool" where
  "data_ok (Prim tag v) \<longleftrightarrow> tag \<noteq> 0xA1 \<and> tag \<noteq> 0xA2 \<and> length v < 65536"
| "data_ok (Constr tag ds) \<longleftrightarrow> (tag = 0xA1 \<or> tag = 0xA2) \<and> length (concat (map data_tlv ds)) < 65536 \<and>
     (\<forall>d \<in> set ds. data_ok d)"

lemma data_tlv_shape: "\<exists>tag v. data_tlv d = tlv tag v"
  by (cases d) auto

lemma sint_small: "n < 2147483648 \<Longrightarrow> \<not> sint (of_nat n :: u32) < 0"
  by (simp add: sint_uint signed_take_bit_eq_if_positive bit_simps bit_iff_odd [of n])


lemma alldata_item:
  assumes "length v < 65536" and "pos = length a" and "pos + length (tlv tag v) \<le> end" and "end + 4 < 2 ^ 32"
  shows "alldata_step nested (a @ tlv tag v @ c) end (pos, num) =
    (let vpos = pos + 1 + length (enc_len (length v)); next = Inl (pos + length (tlv tag v), num + 1)
     in if tag = 0xA1 \<or> tag = 0xA2
        then into_loop (nested vpos (pos + length (tlv tag v)))
               (\<lambda>n. if n < 0 then Inr (Some (Some (-1))) else next)
        else next)"
proof -
  let ?l = "enc_len (length v)"
  have "length v < 4294967296" using assms(1) by simp
  then have u: "unat (of_nat (length v) :: u32) = length v" by (simp add: unsigned_of_nat take_bit_nat_eq_self)
  have d: "decode_asn1_len (a @ tlv tag v @ c) (pos + 1) = Some (of_nat (length v), pos + 1 + length ?l)"
    using decode_asn1_len_enc [of "length v" "pos + 1" "a @ [tag]" "v @ c"] assms by (simp add: tlv_def)
  have r: "rd (a @ tlv tag v @ c) pos = Some tag" using assms(2) by (simp add: tlv_def rd_append)
  have s: "\<not> sint (of_nat (length v) :: u32) < 0" using assms(1) by (intro sint_small) simp
  have e: "\<not> end \<le> pos" "\<not> end \<le> pos + 1" "\<not> end < pos + length (tlv tag v)"
    "pos + length (tlv tag v) < 4294967296"
    using assms(3,4) length_enc_len(1) [of "length v"] by auto
  have a: "add32 pos 1 = pos + 1" "add32 (pos + 1 + length ?l) (length v) = pos + length (tlv tag v)"
    using e(4) by (auto simp: add_ac)
  show ?thesis
    by (simp only: alldata_step_def prod.case into_loop_simps Let_def a u d r s e if_False simp_thms)
qed

lemma alldata_loop:
  assumes "buf = a @ concat (map data_tlv ds) @ c" and "pos = length a"
    and "end = pos + length (concat (map data_tlv ds))" and "end + 4 < 2 ^ 32"
    and "\<forall>d \<in> set ds. data_ok d"
    and "\<And>tag xs a' c'. Constr tag xs \<in> set ds \<Longrightarrow> buf = a' @ data_tlv (Constr tag xs) @ c' \<Longrightarrow>
      length a' + length (data_tlv (Constr tag xs)) \<le> end \<Longrightarrow>
      nested (length a' + 1 + length (enc_len (length (concat (map data_tlv xs)))))
        (length a' + length (data_tlv (Constr tag xs))) = Some (Some (int (length xs)))"
  shows "run_nested (alldata_step nested buf end) (pos, num) = Some (Some (num + int (length ds)))"
  using assms
proof (induction ds arbitrary: a pos num)
  case Nil
  then show ?case by (intro run_nested_Inr) (simp add: alldata_step_def)
next
  case (Cons d ds)
  let ?rest = "concat (map data_tlv ds)"
  have buf: "buf = a @ data_tlv d @ ?rest @ c" using Cons.prems(1) by simp
  have fit: "pos + length (data_tlv d) \<le> end" using Cons.prems(3) by simp
  have step: "alldata_step nested buf end (pos, num) = Inl (pos + length (data_tlv d), num + 1)"
  proof (cases d)
    case (Prim tag v)
    then show ?thesis
      using alldata_item [of v pos a tag "end" nested "?rest @ c" num] fit Cons.prems(2,4,5) buf
      by (simp add: Let_def del: length_tlv)
  next
    case (Constr tag xs)
    let ?v = "concat (map data_tlv xs)"
    have "nested (pos + 1 + length (enc_len (length ?v))) (pos + length (tlv tag ?v)) =
        Some (Some (int (length xs)))"
      using Cons.prems(6) [of tag xs a "?rest @ c"] Constr buf fit Cons.prems(2) by simp
    then show ?thesis
      using alldata_item [of ?v pos a tag "end" nested "?rest @ c" num] fit Cons.prems(2,4,5) buf Constr
      by (simp add: Let_def del: length_tlv)
  qed
  have "run_nested (alldata_step nested buf end) (pos + length (data_tlv d), num + 1) =
      Some (Some (num + 1 + int (length ds)))"
  proof (rule Cons.IH [of "a @ data_tlv d"])
    fix tag xs a' c'
    assume x: "Constr tag xs \<in> set ds" and b: "buf = a' @ data_tlv (Constr tag xs) @ c'"
      and e: "length a' + length (data_tlv (Constr tag xs)) \<le> end"
    have "Constr tag xs \<in> set (d # ds)" using x by simp
    from Cons.prems(6) [OF this b e]
    show "nested (length a' + 1 + length (enc_len (length (concat (map data_tlv xs)))))
        (length a' + length (data_tlv (Constr tag xs))) = Some (Some (int (length xs)))" .
  qed (use Cons.prems(2-5) buf in auto)
  then show ?case
    using run_nested_Inl [of "alldata_step nested buf end" "(pos, num)", OF step] by simp
qed

lemma fold_max_le: "x \<in> set xs \<Longrightarrow> x \<le> fold max xs (m :: nat)"
proof (induction xs arbitrary: m)
  case (Cons y ys)
  have "k \<le> fold max ys k" for k :: nat by (induction ys arbitrary: k) (auto intro: order_trans [OF max.cobounded2])
  with Cons show ?case by (auto intro: order_trans [OF max.cobounded1])
qed simp

text \<open>The parser counts the entries of a dataset whose nesting stays within the limit.\<close>

lemma parse_alldata_depth_counts:
  assumes "\<forall>x \<in> set ds. data_ok x \<and> data_depth x < d" and "pos = length a"
    and "end = pos + length (concat (map data_tlv ds))" and "end + 4 < 2 ^ 32" and "0 < d"
  shows "parse_alldata_depth d (a @ concat (map data_tlv ds) @ c) pos end = Some (Some (int (length ds)))"
  using assms
proof (induction d arbitrary: a c ds pos "end")
  case (Suc d)
  let ?buf = "a @ concat (map data_tlv ds) @ c"
  have "run_nested (alldata_step (parse_alldata_depth d ?buf) ?buf end) (pos, 0) =
      Some (Some (0 + int (length ds)))"
  proof (rule alldata_loop [OF refl])
    fix tag xs a' c'
    assume x: "Constr tag xs \<in> set ds" and b: "?buf = a' @ data_tlv (Constr tag xs) @ c'"
      and e: "length a' + length (data_tlv (Constr tag xs)) \<le> end"
    let ?v = "concat (map data_tlv xs)" and ?l = "enc_len (length (concat (map data_tlv xs)))"
    have deep: "data_depth (Constr tag xs) < Suc d" "data_ok (Constr tag xs)" using Suc.prems(1) x by auto
    have "\<forall>y \<in> set xs. data_ok y \<and> data_depth y < d"
      using deep fold_max_le [of _ "map data_depth xs" 0] by fastforce
    moreover have "0 < d" using deep(1) by simp
    moreover have "?buf = (a' @ tag # ?l) @ ?v @ c'" by (simp add: b tlv_def)
    ultimately show "parse_alldata_depth d ?buf (length a' + 1 + length ?l)
        (length a' + length (data_tlv (Constr tag xs))) = Some (Some (int (length xs)))"
      using Suc.IH [of xs "length a' + 1 + length ?l" "a' @ tag # ?l" "length a' + length (data_tlv (Constr tag xs))" c'] e Suc.prems(4)
      by (simp add: add_ac)
  qed (use Suc.prems in auto)
  then show ?case by simp
qed simp
subsection \<open>Progress and reach of the unbounded routines\<close>

lemma len_octets_pos:
  assumes "len_octets buffer n len p = Some (len', p')" and "length buffer < 2 ^ 32" and "p \<le> length buffer"
  shows "p' = p + n \<and> p' \<le> length buffer"
  using assms
proof (induction n arbitrary: len p)
  case (Suc n)
  then have p: "p < length buffer" by (auto simp: rd_def bind_eq_Some_conv split: if_splits)
  then have "add32 p 1 = p + 1" using Suc.prems(2) by (intro add32_small) simp
  with p Suc.IH [of "push_bit 8 len OR ucast (buffer ! p)" "p + 1"] Suc.prems show ?case by simp
qed simp

lemma decode_asn1_len_pos:
  assumes "decode_asn1_len buffer pos = Some (len, p)" and "length buffer < 2 ^ 32"
  shows "pos < p" "p \<le> length buffer" "p \<le> pos + 128"
proof -
  obtain b where b: "rd buffer pos = Some b" using assms(1) by (auto simp: decode_asn1_len_def bind_eq_Some_conv)
  then have pos: "pos < length buffer" by (auto simp: rd_def split: if_splits)
  then have i: "add32 pos (Suc 0) = Suc pos" using assms(2) by simp
  have n: "unat (b AND 0x7F) \<le> 127"
    using word_and_le1 [of b "0x7F"] by (simp add: word_le_nat_alt)
  have small: "rd buffer q = Some x \<Longrightarrow> q < 4294967296 \<and> q < length buffer" for q x
    using assms(2) by (auto simp: rd_def split: if_splits)
  note d = assms(1) [unfolded decode_asn1_len_def, simplified b i Let_def, simplified i]
  have "pos < p \<and> p \<le> length buffer \<and> p \<le> pos + 128"
  proof (cases "b AND 0x80 = 0")
    case True
    then show ?thesis using d pos i by auto
  next
    case long: False
    consider "b AND 0x7F = 1" | "b AND 0x7F = 2" | "b AND 0x7F \<noteq> 1" "b AND 0x7F \<noteq> 2" by blast
    then show ?thesis
    proof cases
      case 1
      with d long obtain x where x: "rd buffer (Suc pos) = Some x" "p = add32 (Suc pos) (Suc 0)"
        by (auto simp: bind_eq_Some_conv i)
      from small [OF x(1)] x(2) assms(2) show ?thesis by simp
    next
      case 2
      with d long obtain x y where x: "rd buffer (Suc pos) = Some x"
          "rd buffer (add32 (Suc pos) (Suc 0)) = Some y" "p = add32 (Suc pos) 2"
        by (auto simp: bind_eq_Some_conv i)
      from small [OF x(1)] have a: "add32 (Suc pos) (Suc 0) = pos + 2" using assms(2) by simp
      from small [OF x(2)] x(3) assms(2) show ?thesis by (simp add: a)
    next
      case 3
      with d long have "len_octets buffer (unat (b AND 0x7F)) 0 (Suc pos) = Some (len, p)" by (simp add: i)
      from len_octets_pos [OF this assms(2)] pos n 3 show ?thesis by auto
    qed
  qed
  then show "pos < p" "p \<le> length buffer" "p \<le> pos + 128" by blast+
qed

lemma decode_asn1_len_Some:
  assumes "pos + 128 \<le> length buffer" and "length buffer < 2 ^ 32"
  shows "\<exists>len p. decode_asn1_len buffer pos = Some (len, p)"
proof -
  have oct: "p + n \<le> length buffer \<Longrightarrow> \<exists>len' p'. len_octets buffer n len p = Some (len', p')" for n len p
  proof (induction n arbitrary: len p)
    case (Suc n)
    then have "add32 p 1 = p + 1" using assms(2) by (intro add32_small) simp
    with Suc.IH [of "p + 1"] Suc.prems show ?case by simp
  qed simp
  have n: "unat (buffer ! pos AND 0x7F) \<le> 127"
    using word_and_le1 [of "buffer ! pos" "0x7F"] by (simp add: word_le_nat_alt)
  have "add32 pos (Suc 0) = Suc pos" "add32 (Suc pos) (Suc 0) = Suc (Suc pos)" using assms by simp_all
  then show ?thesis using assms n oct [of "Suc pos" "unat (buffer ! pos AND 0x7F)" 0]
    by (simp add: decode_asn1_len_def Let_def)
qed

lemma sint_nonneg_bound: 
  assumes "\<not> sint (w :: u32) < 0" shows "unat w < 2 ^ 31"
proof -
  have "\<not> bit w 31" using assms bit_last_iff [of w] by simp
  then have "\<not> bit (unat w) 31" by (simp add: bit_unsigned_iff)
  then have "even (unat w div 2 ^ 31)" by (simp only: bit_iff_odd) simp
  moreover have "unat w div 2 ^ 31 < 2" using unsigned_less [where 'a = nat, of w] by (simp add: less_mult_imp_div_less)
  ultimately have "unat w div 2 ^ 31 = 0" by (metis less_2_cases odd_one One_nat_def)
  then show ?thesis by (simp add: div_eq_0_iff)
qed

lemma alldata_step_progress:
  assumes "alldata_step nested buffer end (pos, num) = Inl (pos', num')" and "length buffer < 2 ^ 31"
  shows "pos < pos' \<and> pos' \<le> end \<and> num' = num + 1"
proof -
  obtain tag itemSize p where p: "rd buffer pos = Some tag" "decode_asn1_len buffer (add32 pos 1) = Some (itemSize, p)"
    "\<not> sint itemSize < 0" "\<not> end < add32 p (unat itemSize)" "pos' = add32 p (unat itemSize)" "num' = num + 1"
    using assms(1) by (auto simp: alldata_step_def Let_def simp: into_loop_def split: if_splits option.splits prod.splits)
  have "pos < length buffer" using p(1) by (auto simp: rd_def split: if_splits)
  then have "add32 pos 1 = pos + 1" using assms(2) by (intro add32_small) simp
  then have q: "pos + 1 < p" "p \<le> length buffer" using decode_asn1_len_pos [OF p(2)] assms(2) by auto
  have "unat itemSize < 2 ^ 31" by (rule sint_nonneg_bound [OF p(3)])
  with q p(4-6) assms(2) show ?thesis by simp
qed

text \<open>On buffers below \<open>2^31\<close> bytes the loop ends, at every depth.\<close>

lemma parse_alldata_depth_total:
  assumes "length buffer < 2 ^ 31"
  shows "parse_alldata_depth d buffer pos end \<noteq> None"
proof (induction d arbitrary: pos "end")
  case (Suc d)
  let ?step = "alldata_step (parse_alldata_depth d buffer) buffer end"
  have "run_nested ?step (pos, 0) \<noteq> None"
  proof (rule run_nested_total [where Q = "\<lambda>r. r \<noteq> None" and I = "\<lambda>_. True" and m = "\<lambda>s. end - fst s"])
    fix s s' assume "?step s = Inl s'"
    then show "True \<and> end - fst s' < end - fst s"
      using alldata_step_progress [of _ buffer "end" "fst s" "snd s" "fst s'" "snd s'"] assms by fastforce
  next
    fix s r assume "?step s = Inr r"
    then show "r \<noteq> None" using Suc.IH unfolding alldata_step_def Let_def
      by (auto simp del: not_None_eq simp: into_loop_def split: if_splits option.splits prod.splits)
  qed simp
  then show ?case by auto
qed simp
text \<open>
  A length field may reach past \<open>end\<close>, but by no more than its 127 octets: with that many bytes behind
  \<open>end\<close> every access is inside the buffer.
\<close>

lemma parse_alldata_depth_safe:
  assumes "length buffer < 2 ^ 31" and "end + 128 \<le> length buffer"
  shows "\<exists>n. parse_alldata_depth d buffer pos end = Some (Some n)"
  using assms(2)
proof (induction d arbitrary: pos "end")
  case (Suc d)
  let ?step = "alldata_step (parse_alldata_depth d buffer) buffer end"
  have exits: "\<exists>n. r = Some (Some n)" if "?step s = Inr r" for s r
  proof -
    obtain pos num where s: "s = (pos, num)" by (cases s)
    show ?thesis
    proof (cases "end \<le> pos \<or> end \<le> pos + 1")
      case True
      then have "\<not> end \<le> pos \<Longrightarrow> rd buffer pos \<noteq> None" "\<not> end \<le> pos \<Longrightarrow> add32 pos (Suc 0) = Suc pos"
        using Suc.prems assms(1) by simp_all
      then show ?thesis using that True s
        by (cases "end \<le> pos") (auto simp: alldata_step_def Let_def into_loop_def split: option.splits)
    next
      case False
      then have r: "rd buffer pos = Some (buffer ! pos)" "add32 pos 1 = pos + 1"
        using Suc.prems assms(1) by (simp, intro add32_small, simp)
      obtain len p where d: "decode_asn1_len buffer (pos + 1) = Some (len, p)"
        using decode_asn1_len_Some [of "pos + 1" buffer] False Suc.prems assms(1) by auto
      have nested: "\<exists>n. parse_alldata_depth d buffer q e = Some (Some n)" if "e \<le> end" for q e
        using Suc.IH [of e q] Suc.prems that by simp
      have e: "\<not> end < add32 p (unat len) \<Longrightarrow> add32 p (unat len) \<le> end" by simp
      show ?thesis
        using that False nested [OF e, of p] unfolding s alldata_step_def prod.case
        by (auto simp: r d Let_def simp del: One_nat_def simp: into_loop_def split: if_splits option.splits)
    qed
  qed
  have "\<exists>n. run_nested ?step (pos, 0) = Some (Some n)"
  proof (rule run_nested_total [where Q = "\<lambda>r. \<exists>n. r = Some (Some n)" and I = "\<lambda>_. True" and m = "\<lambda>s. end - fst s"])
    fix s s' assume "?step s = Inl s'"
    then show "True \<and> end - fst s' < end - fst s"
      using alldata_step_progress [of _ buffer "end" "fst s" "snd s" "fst s'" "snd s'"] assms by fastforce
  qed (use exits in auto)
  then show ?case by auto
qed simp

end
