(* ===== verification/AppId_Container.thy ===== *)
theory AppId_Container
  imports PBus_Prelude
begin

text \<open>
  The template \<open>AppIdContainer\<close> of \<open>src/bus_processor/appid_container.hpp\<close>: a vector of key/value
  pairs and a register with one slot per 16-bit APPID that holds an index into the vector or
  \<open>SIZE_MAX\<close>. The template's requirements on its key (a field \<open>appid\<close> and \<open>operator==\<close>) are the
  parameters \<open>appid\<close> and \<open>eq\<close>; the default value \<open>TValue()\<close> is the parameter \<open>dflt\<close>.

  The locale \<open>appid_key\<close> states what the template relies on in its key type; its lemmas show that
  the container implements a map from APPIDs, which the function \<open>slot\<close> reads off. The locale
  \<open>registry\<close> is the interface the receiver pipeline uses (look up, then update in place), with the
  lemma that each stream evolves only by its own messages.
\<close>

record ('k, 'v) AppIdContainer =
  m_register :: "u16 \<Rightarrow> nat"
  m_values :: "('k \<times> 'v) list"

abbreviation (input) SIZE_MAX :: nat where "SIZE_MAX \<equiv> 2 ^ 64 - 1"

definition container_new :: "('k, 'v) AppIdContainer" where
  "container_new = \<lparr> m_register = (\<lambda>_. SIZE_MAX), m_values = [] \<rparr>"

definition container_empty :: "('k, 'v) AppIdContainer \<Rightarrow> bool" where
  "container_empty c = (m_values c = [])"

text \<open>\<open>find\<close>: the iterator is an index, \<open>end()\<close> is \<open>None\<close>.\<close>

definition container_find ::
    "('k \<Rightarrow> u16) \<Rightarrow> ('k \<Rightarrow> 'k \<Rightarrow> bool) \<Rightarrow> ('k, 'v) AppIdContainer \<Rightarrow> 'k \<Rightarrow> nat option" where
  "container_find appid eq c key =
     (let idx = m_register c (appid key)
      in if idx < length (m_values c) \<and> eq (fst (m_values c ! idx)) key then Some idx else None)"

definition container_insert ::
    "('k \<Rightarrow> u16) \<Rightarrow> ('k, 'v) AppIdContainer \<Rightarrow> 'k \<Rightarrow> 'v \<Rightarrow> ('k, 'v) AppIdContainer" where
  "container_insert appid c key value =
     c\<lparr> m_register := (m_register c)(appid key := length (m_values c)),
        m_values := m_values c @ [(key, value)] \<rparr>"

text \<open>\<open>operator[]\<close>: the container afterwards and the index of the value referred to.\<close>

definition container_subscript ::
    "('k \<Rightarrow> u16) \<Rightarrow> 'v \<Rightarrow> ('k, 'v) AppIdContainer \<Rightarrow> 'k \<Rightarrow> ('k, 'v) AppIdContainer \<times> nat" where
  "container_subscript appid dflt c key =
     (let idx = m_register c (appid key)
      in if length (m_values c) \<le> idx
         then let c' = container_insert appid c key dflt in (c', m_register c' (appid key))
         else (c, idx))"

text \<open>Writing through an iterator or a reference: the key of the entry stays.\<close>

definition container_modify ::
    "('k, 'v) AppIdContainer \<Rightarrow> nat \<Rightarrow> ('v \<Rightarrow> 'v) \<Rightarrow> ('k, 'v) AppIdContainer" where
  "container_modify c idx f =
     c\<lparr> m_values := (m_values c)[idx := (fst (m_values c ! idx), f (snd (m_values c ! idx)))] \<rparr>"

text \<open>The statement \<open>container[key] = value\<close>.\<close>

definition container_assign ::
    "('k \<Rightarrow> u16) \<Rightarrow> 'v \<Rightarrow> ('k, 'v) AppIdContainer \<Rightarrow> 'k \<Rightarrow> 'v \<Rightarrow> ('k, 'v) AppIdContainer" where
  "container_assign appid dflt c key value =
     (case container_subscript appid dflt c key of (c', idx) \<Rightarrow> container_modify c' idx (\<lambda>_. value))"

subsection \<open>Abstraction and invariant\<close>

text \<open>The map from APPIDs that the container represents.\<close>

definition slot :: "('k, 'v) AppIdContainer \<Rightarrow> u16 \<Rightarrow> ('k \<times> 'v) option" where
  "slot c a = (if m_register c a < length (m_values c) then Some (m_values c ! m_register c a) else None)"

text \<open>
  Every entry is the one its APPID is registered with, every registered index leads to an entry with
  that APPID, and a slot that is not registered holds \<open>SIZE_MAX\<close>.
\<close>

definition container_ok :: "('k \<Rightarrow> u16) \<Rightarrow> ('k, 'v) AppIdContainer \<Rightarrow> bool" where
  "container_ok appid c \<longleftrightarrow>
     (\<forall>i < length (m_values c). m_register c (appid (fst (m_values c ! i))) = i) \<and>
     (\<forall>a. m_register c a < length (m_values c) \<longrightarrow> appid (fst (m_values c ! m_register c a)) = a) \<and>
     (\<forall>a. length (m_values c) \<le> m_register c a \<longrightarrow> m_register c a = SIZE_MAX)"

text \<open>At most one entry per APPID, so the index \<open>SIZE_MAX\<close> is never reached.\<close>

lemma container_ok_length: 
  assumes "container_ok appid c"
  shows "length (m_values c) \<le> 65536"
proof -
  let ?a = "\<lambda>i. appid (fst (m_values c ! i))"
  have "inj_on ?a {..< length (m_values c)}"
    using assms by (auto simp: container_ok_def inj_on_def) metis
  then have "card (?a ` {..< length (m_values c)}) = length (m_values c)" by (simp add: card_image)
  moreover have "card (?a ` {..< length (m_values c)}) \<le> card (UNIV :: u16 set)"
    by (rule card_mono) simp_all
  ultimately show ?thesis by (simp add: card_word)
qed

lemma register_not_length:
  assumes "container_ok appid c" shows "m_register c a \<noteq> length (m_values c)"
proof
  assume "m_register c a = length (m_values c)"
  moreover from this have "m_register c a = SIZE_MAX"
    using assms unfolding container_ok_def by (metis le_refl)
  ultimately show False using container_ok_length [OF assms] by simp
qed

lemma container_ok_new: "container_ok appid container_new"
  by (simp add: container_ok_def container_new_def)

lemma container_ok_modify:
  assumes "container_ok appid c" shows "container_ok appid (container_modify c i f)"
proof -
  have "fst (m_values (container_modify c i f) ! j) = fst (m_values c ! j)"
    if "j < length (m_values c)" for j
    using that by (cases "j = i") (simp_all add: container_modify_def)
  with assms show ?thesis by (auto simp: container_ok_def container_modify_def)
qed

lemma container_ok_insert:
  assumes ok: "container_ok appid c" and free: "slot c (appid k) = None"
  shows "container_ok appid (container_insert appid c k v)"
proof -
  let ?n = "length (m_values c)"
  have n: "?n \<le> m_register c (appid k)" using free by (auto simp: slot_def split: if_splits)
  have other: "appid (fst (m_values c ! i)) \<noteq> appid k" if "i < ?n" for i
    using ok n that by (auto simp: container_ok_def)
  show ?thesis
    using ok other register_not_length [OF ok] unfolding container_ok_def container_insert_def
    by (auto simp: nth_append less_Suc_eq)
qed

lemma container_ok_assign:
  assumes "container_ok appid c" shows "container_ok appid (container_assign appid dflt c k v)"
  using assms
  by (auto simp: container_assign_def container_subscript_def Let_def slot_def
      intro!: container_ok_modify container_ok_insert)

subsection \<open>The container as a map from APPIDs\<close>

lemma slot_new [simp]: "slot container_new a = None"
  by (simp add: slot_def container_new_def)

lemma slot_modify:
  "container_ok appid c \<Longrightarrow> i < length (m_values c) \<Longrightarrow>
   slot (container_modify c i f) a =
     (if a = appid (fst (m_values c ! i)) then Some (fst (m_values c ! i), f (snd (m_values c ! i)))
      else slot c a)"
  by (auto simp: slot_def container_modify_def container_ok_def nth_list_update)

lemma slot_insert:
  assumes "container_ok appid c" and "slot c (appid k) = None"
  shows "slot (container_insert appid c k v) a = (if a = appid k then Some (k, v) else slot c a)"
  using register_not_length [OF assms(1), of a]
  by (auto simp: slot_def container_insert_def nth_append)

text \<open>
  An assignment to a key whose APPID is already registered replaces the value and keeps the old key,
  whatever the rest of the new key says.
\<close>

lemma slot_assign:
  assumes "container_ok appid c"
  shows "slot (container_assign appid dflt c k v) a =
    (if a = appid k then Some (case slot c (appid k) of None \<Rightarrow> k | Some (k', _) \<Rightarrow> k', v) else slot c a)"
proof (cases "slot c (appid k)")
  case None
  let ?c = "container_insert appid c k dflt" and ?n = "length (m_values c)"
  have "container_assign appid dflt c k v = container_modify ?c ?n (\<lambda>_. v)"
    using None by (auto simp: container_assign_def container_subscript_def slot_def Let_def
        container_insert_def split: if_splits)
  moreover have "m_values ?c ! ?n = (k, dflt)" "?n < length (m_values ?c)"
    by (simp_all add: container_insert_def)
  ultimately show ?thesis
    using slot_modify [OF container_ok_insert [OF assms None], of ?n dflt] slot_insert [OF assms None] None
    by auto
next
  case (Some kv)
  then have r: "m_register c (appid k) < length (m_values c)" "m_values c ! m_register c (appid k) = kv"
    by (auto simp: slot_def split: if_splits)
  then have "container_assign appid dflt c k v = container_modify c (m_register c (appid k)) (\<lambda>_. v)"
    by (simp add: container_assign_def container_subscript_def)
  moreover have "appid (fst kv) = appid k" using assms r by (auto simp: container_ok_def)
  ultimately show ?thesis using slot_modify [OF assms r(1)] r(2) Some by (cases kv) auto
qed

lemma find_slot:
  "container_find appid eq c k = Some i \<longleftrightarrow>
   (\<exists>k' v. slot c (appid k) = Some (k', v) \<and> eq k' k \<and> i = m_register c (appid k))"
  by (cases "m_values c ! m_register c (appid k)") (auto simp: container_find_def slot_def Let_def)

lemma find_modify: "container_find appid eq (container_modify c i f) k = container_find appid eq c k"
  by (cases "i = m_register c (appid k)") (auto simp: container_find_def container_modify_def Let_def)

lemma find_modify_value:
  "container_find appid eq c k = Some i \<Longrightarrow>
   snd (m_values (container_modify c i f) ! j) =
     (if j = i then f (snd (m_values c ! i)) else snd (m_values c ! j))"
  by (auto simp: container_find_def container_modify_def Let_def nth_list_update split: if_splits)

subsection \<open>Keys\<close>

text \<open>What the container relies on in its key type: \<open>operator==\<close> is an equivalence that includes the APPID.\<close>

locale appid_key =
  fixes appid :: "'k \<Rightarrow> u16" and eq :: "'k \<Rightarrow> 'k \<Rightarrow> bool"
  assumes eq_refl: "eq k k"
    and eq_sym: "eq k k' \<Longrightarrow> eq k' k"
    and eq_trans: "eq k k' \<Longrightarrow> eq k' k'' \<Longrightarrow> eq k k''"
    and eq_appid: "eq k k' \<Longrightarrow> appid k = appid k'"
begin

lemma find_sound:
  assumes "container_find appid eq c k = Some i"
  shows "i < length (m_values c)" and "eq (fst (m_values c ! i)) k"
  using assms by (auto simp: container_find_def Let_def split: if_splits)

lemma find_iff:
  assumes "container_ok appid c"
  shows "container_find appid eq c k = Some i \<longleftrightarrow>
    i < length (m_values c) \<and> eq (fst (m_values c ! i)) k"
proof
  assume r: "i < length (m_values c) \<and> eq (fst (m_values c ! i)) k"
  then have "m_register c (appid k) = i"
    using assms eq_appid [of "fst (m_values c ! i)" k] unfolding container_ok_def by metis
  with r show "container_find appid eq c k = Some i" by (simp add: container_find_def)
qed (use find_sound in blast)

text \<open>A search hits at most one entry, and equal keys find the same one.\<close>

lemma find_cong: "eq k k' \<Longrightarrow> container_find appid eq c k = container_find appid eq c k'"
proof -
  assume k: "eq k k'"
  have "eq x k \<longleftrightarrow> eq x k'" for x using eq_trans [of x k k'] eq_trans [of x k' k] eq_sym [OF k] k by auto
  then show ?thesis by (simp add: container_find_def eq_appid [OF k])
qed

lemma find_assign_new:
  assumes "container_ok appid c" and "slot c (appid k) = None"
  shows "\<exists>i. container_find appid eq (container_assign appid dflt c k v) k = Some i \<and>
    m_values (container_assign appid dflt c k v) ! i = (k, v)"
proof -
  have s: "slot (container_assign appid dflt c k v) (appid k) = Some (k, v)"
    using assms by (simp add: slot_assign)
  then have "container_find appid eq (container_assign appid dflt c k v) k =
      Some (m_register (container_assign appid dflt c k v) (appid k))"
    by (auto simp: find_slot eq_refl)
  with s show ?thesis by (auto simp: slot_def split: if_splits)
qed

lemma find_assign_slot:
  assumes "container_ok appid c" and "slot c (appid k) = Some (k', v')" and "\<not> eq k' k"
  shows "container_find appid eq (container_assign appid dflt c k v) k = None"
  using assms by (auto simp: not_Some_eq [symmetric] find_slot slot_assign simp del: not_Some_eq)

text \<open>Registering streams with pairwise different APPIDs: each is found with its own value.\<close>

definition register_all :: "'v \<Rightarrow> ('k, 'v) AppIdContainer \<Rightarrow> ('k \<times> 'v) list \<Rightarrow> ('k, 'v) AppIdContainer" where
  "register_all dflt c kvs = foldl (\<lambda>c (k, v). container_assign appid dflt c k v) c kvs"

lemma register_all_ok: "container_ok appid c \<Longrightarrow> container_ok appid (register_all dflt c kvs)"
  by (induction kvs arbitrary: c) (auto simp: register_all_def container_ok_assign)

lemma register_all_slot_other:
  "container_ok appid c \<Longrightarrow> a \<notin> appid ` fst ` set kvs \<Longrightarrow> slot (register_all dflt c kvs) a = slot c a"
  by (induction kvs arbitrary: c) (auto simp: register_all_def container_ok_assign slot_assign)

lemma register_all_slot:
  assumes "container_ok appid c" and "distinct (map (appid \<circ> fst) kvs)"
    and "\<forall>kv \<in> set kvs. slot c (appid (fst kv)) = None" and "(k, v) \<in> set kvs"
  shows "slot (register_all dflt c kvs) (appid k) = Some (k, v)"
  using assms
proof (induction kvs arbitrary: c)
  case Nil
  then show ?case by simp
next
  case (Cons kv kvs)
  obtain k0 v0 where kv: "kv = (k0, v0)" by (cases kv)
  let ?c = "container_assign appid dflt c k0 v0"
  have ok: "container_ok appid ?c" using Cons.prems(1) by (rule container_ok_assign)
  have step: "register_all dflt c (kv # kvs) = register_all dflt ?c kvs"
    by (simp add: register_all_def kv)
  have fresh: "\<forall>kv \<in> set kvs. appid (fst kv) \<noteq> appid k0" using Cons.prems(2) kv by force
  show ?case
  proof (cases "(k, v) \<in> set kvs")
    case True
    have "\<forall>kv \<in> set kvs. slot ?c (appid (fst kv)) = None"
      using Cons.prems(1,3) fresh by (simp add: slot_assign)
    with Cons.IH [OF ok] Cons.prems(2) True show ?thesis by (simp add: step)
  next
    case False
    with Cons.prems(4) kv have "k = k0" "v = v0" by auto
    moreover have "appid k0 \<notin> appid ` fst ` set kvs" using fresh by auto
    ultimately show ?thesis
      using register_all_slot_other [OF ok, of "appid k0" kvs dflt] Cons.prems(1,3) kv step
      by (simp add: slot_assign)
  qed
qed

text \<open>The key an APPID was first registered with stays, whatever is assigned to it later.\<close>

lemma register_all_key_stays:
  "container_ok appid c \<Longrightarrow> slot c a = Some (k, v) \<Longrightarrow> \<exists>v'. slot (register_all dflt c kvs) a = Some (k, v')"
proof (induction kvs arbitrary: c v)
  case (Cons kv kvs)
  obtain k0 v0 where kv: "kv = (k0, v0)" by (cases kv)
  let ?c = "container_assign appid dflt c k0 v0"
  have "\<exists>v1. slot ?c a = Some (k, v1)" using Cons.prems by (auto simp: slot_assign)
  then show ?case using Cons.IH [of ?c] container_ok_assign [OF Cons.prems(1)] by (auto simp: register_all_def kv)
qed (simp add: register_all_def)

lemma find_key:
  assumes "slot c (appid k) = Some (k', v)"
  shows "container_find appid eq c k = (if eq k' k then Some (m_register c (appid k)) else None)"
    and "m_values c ! m_register c (appid k) = (k', v)"
  using assms by (auto simp: container_find_def slot_def Let_def split: if_splits)

lemma register_all_finds:
  assumes "container_ok appid c" and "distinct (map (appid \<circ> fst) kvs)"
    and "\<forall>kv \<in> set kvs. slot c (appid (fst kv)) = None" and "(k, v) \<in> set kvs"
  shows "\<exists>i. container_find appid eq (register_all dflt c kvs) k = Some i \<and> m_values (register_all dflt c kvs) ! i = (k, v)"
  using find_key [OF register_all_slot [OF assms, of dflt]] eq_refl by simp

end

subsection \<open>Streams looked up and updated in place\<close>

text \<open>
  The interface of the receiver stages: a lookup gives an index, the value there is updated. The
  client lemma: a run over a list of messages changes each stream by its own messages alone, in their
  order, whatever the other streams receive.
\<close>

locale registry =
  fixes lookup :: "'c \<Rightarrow> 'k \<Rightarrow> nat option"
    and val :: "'c \<Rightarrow> nat \<Rightarrow> 'v"
    and modify :: "'c \<Rightarrow> nat \<Rightarrow> ('v \<Rightarrow> 'v) \<Rightarrow> 'c"
  assumes lookup_modify: "lookup (modify c i f) k = lookup c k"
    and val_modify: "lookup c k = Some i \<Longrightarrow>
      val (modify c i f) j = (if j = i then f (val c i) else val c j)"
begin

definition deliver :: "('k \<Rightarrow> 'm \<Rightarrow> 'v \<Rightarrow> 'v) \<Rightarrow> 'c \<Rightarrow> 'k \<times> 'm \<Rightarrow> 'c" where
  "deliver f c msg = (case lookup c (fst msg) of None \<Rightarrow> c | Some i \<Rightarrow> modify c i (f (fst msg) (snd msg)))"

lemma lookup_deliver: "lookup (deliver f c msg) k = lookup c k"
  by (simp add: deliver_def lookup_modify split: option.split)

lemma lookup_deliver_all: "lookup (foldl (deliver f) c msgs) k = lookup c k"
  by (induction msgs arbitrary: c) (simp_all add: lookup_deliver)

lemma val_deliver_all:
  "val (foldl (deliver f) c msgs) i =
   foldl (\<lambda>v (k, m). f k m v) (val c i) (filter (\<lambda>(k, m). lookup c k = Some i) msgs)"
proof (induction msgs arbitrary: c)
  case (Cons msg msgs)
  have "val (deliver f c msg) i =
      (if lookup c (fst msg) = Some i then f (fst msg) (snd msg) (val c i) else val c i)"
    by (auto simp: deliver_def val_modify split: option.split)
  then show ?case using Cons.IH [of "deliver f c msg"] by (cases msg) (simp add: lookup_deliver)
qed simp

end

end
