(* ===== verification/Sequence_Tracking.thy ===== *)
theory Sequence_Tracking
  imports PBus_Prelude
begin

text \<open>
  The contract shared by the sequence trackers of the receiver (\<open>ProcessState\<close> and
  \<open>ProcessSessionState\<close> of \<open>GooseSource\<close> and \<open>SVStreamSource\<close>): a tracker remembers the position of
  the last message and adds one to a 32-bit error counter for each message that does not continue it.
  The lemmas of the locale relate the counter to the number of gaps in the messages delivered.
\<close>

primrec gap_count :: "('p \<Rightarrow> 'm \<Rightarrow> bool) \<Rightarrow> ('m \<Rightarrow> 'p) \<Rightarrow> 'p \<Rightarrow> 'm list \<Rightarrow> nat" where
  "gap_count gap at p [] = 0"
| "gap_count gap at p (m # ms) = (if gap p m then 1 else 0) + gap_count gap at (at m) ms"

text \<open>The messages form a run without a gap from position \<open>p\<close>.\<close>

primrec gapless :: "('p \<Rightarrow> 'm \<Rightarrow> bool) \<Rightarrow> ('m \<Rightarrow> 'p) \<Rightarrow> 'p \<Rightarrow> 'm list \<Rightarrow> bool" where
  "gapless gap at p [] = True"
| "gapless gap at p (m # ms) = (\<not> gap p m \<and> gapless gap at (at m) ms)"

lemma gap_count_le: "gap_count gap at p ms \<le> length ms"
  by (induction ms arbitrary: p) (simp_all add: le_SucI)

lemma gap_count_eq_0: "gap_count gap at p ms = 0 \<longleftrightarrow> gapless gap at p ms"
  by (induction ms arbitrary: p) simp_all

lemma gapless_append:
  "gapless gap at p (xs @ ys) \<longleftrightarrow> gapless gap at p xs \<and> gapless gap at (if xs = [] then p else at (last xs)) ys"
  by (induction xs arbitrary: p) auto

locale seq_tracker =
  fixes track :: "'s \<Rightarrow> 'm \<Rightarrow> 's"
    and pos :: "'s \<Rightarrow> 'p"
    and errs :: "'s \<Rightarrow> u32"
    and gap :: "'p \<Rightarrow> 'm \<Rightarrow> bool"
    and at :: "'m \<Rightarrow> 'p"
  assumes pos_track: "pos (track s m) = at m"
    and errs_track: "errs (track s m) = errs s + (if gap (pos s) m then 1 else 0)"
begin

lemma pos_run: "pos (foldl track s ms) = (if ms = [] then pos s else at (last ms))"
  by (induction ms arbitrary: s) (simp_all add: pos_track)

text \<open>The counter is the number of gaps, modulo its width.\<close>

lemma errs_run: "errs (foldl track s ms) = errs s + of_nat (gap_count gap at (pos s) ms)"
  by (induction ms arbitrary: s) (simp_all add: pos_track errs_track add.assoc)

text \<open>A gapless run is silent, and below \<open>2^32\<close> messages only a gapless run is.\<close>

lemma errs_gapless: "gapless gap at (pos s) ms \<Longrightarrow> errs (foldl track s ms) = errs s"
  by (simp add: errs_run flip: gap_count_eq_0)

lemma errs_silent_iff:
  assumes "length ms < 2 ^ 32"
  shows "errs (foldl track s ms) = errs s \<longleftrightarrow> gapless gap at (pos s) ms"
proof -
  let ?n = "gap_count gap at (pos s) ms"
  have "?n < 2 ^ 32" using assms gap_count_le [of gap at "pos s" ms] by linarith
  then have "(of_nat ?n :: u32) = 0 \<longleftrightarrow> ?n = 0"
    using nat_dvd_not_less [of ?n "2 ^ 32"] by (auto simp: word_of_nat_eq_0_iff)
  then show ?thesis by (simp add: errs_run gap_count_eq_0)
qed

lemma errs_run_exact:
  assumes "unat (errs s) + length ms < 2 ^ 32"
  shows "unat (errs (foldl track s ms)) = unat (errs s) + gap_count gap at (pos s) ms"
proof -
  let ?n = "gap_count gap at (pos s) ms"
  have "unat (errs s) + ?n < 2 ^ 32" using assms gap_count_le [of gap at "pos s" ms] by linarith
  then show ?thesis by (simp add: errs_run unat_word_ariths unsigned_of_nat take_bit_nat_def)
qed

end

end
