(* ===== verification/Goose_Container.thy ===== *)
theory Goose_Container
  imports Mac_Addr AppId_Container Sequence_Tracking
begin

text \<open>
  \<open>src/common/goose_container.hpp\<close>: the passport that identifies a GOOSE stream, the state a frame
  carries, the registered source with its sequence tracking, and the container of the sources.

  Strings and string views are byte lists. A \<open>GooseSource::ptr\<close> is the source itself: \<open>Init\<close> puts
  every source it allocates into one entry of the container and keeps no other reference to it.
\<close>

record GoosePassport =
  gp_dmac :: MAC
  gp_appid :: u16
  gp_num :: u16
  gp_foundEntries :: u32
  gp_crev :: u32
  gp_dstIP :: u32
  gp_goid :: bytes
  gp_dataset :: bytes
  gp_gocbref :: bytes
  gp_allDataOffset :: u16

definition GoosePassport_init :: GoosePassport where
  "GoosePassport_init = \<lparr> gp_dmac = mac_zero, gp_appid = 0, gp_num = 0, gp_foundEntries = 0, gp_crev = 0,
     gp_dstIP = 0, gp_goid = [], gp_dataset = [], gp_gocbref = [], gp_allDataOffset = 0 \<rparr>"

text \<open>\<open>operator==\<close>: the number of entries found and the offset of \<open>allData\<close> do not take part.\<close>

definition goose_eq :: "GoosePassport \<Rightarrow> GoosePassport \<Rightarrow> bool" where
  "goose_eq l r \<longleftrightarrow> gp_dmac l = gp_dmac r \<and> gp_appid l = gp_appid r \<and> gp_dstIP l = gp_dstIP r \<and>
     gp_goid l = gp_goid r \<and> gp_dataset l = gp_dataset r \<and> gp_gocbref l = gp_gocbref r \<and>
     gp_crev l = gp_crev r \<and> gp_num l = gp_num r"

definition GoosePassportHash :: "GoosePassport \<Rightarrow> nat" where
  "GoosePassportHash key = unat (gp_appid key)"

record GooseState =
  st_timestamp :: u64
  st_stNum :: u32
  st_sqNum :: u32

definition GooseState_init :: GooseState where
  "GooseState_init = \<lparr> st_timestamp = 0, st_stNum = 0, st_sqNum = 0 \<rparr>"

record GooseSource =
  gs_dmac :: MAC
  gs_appid :: u16
  gs_goid :: bytes
  gs_dataSetRef :: bytes
  gs_gocbRef :: bytes
  gs_crev :: u32
  gs_numEntries :: u32
  gs_dstIP :: u32
  gs_stNum :: u32
  gs_sqNum :: u32
  gs_errSeqCnt :: u32
  gs_spduNumber :: u32
  gs_errSpduCnt :: u32

definition GooseSource_init :: GooseSource where
  "GooseSource_init = \<lparr> gs_dmac = mac_zero, gs_appid = 0, gs_goid = [], gs_dataSetRef = [], gs_gocbRef = [],
     gs_crev = 0, gs_numEntries = 0, gs_dstIP = 0, gs_stNum = 0, gs_sqNum = 0, gs_errSeqCnt = 0,
     gs_spduNumber = 0, gs_errSpduCnt = 0 \<rparr>"

definition goose_SetMAC :: "MAC \<Rightarrow> GooseSource \<Rightarrow> GooseSource" where
  "goose_SetMAC mac s = s\<lparr> gs_dmac := mac \<rparr>"

definition goose_SetAppID :: "u16 \<Rightarrow> GooseSource \<Rightarrow> GooseSource" where
  "goose_SetAppID appid s = s\<lparr> gs_appid := appid \<rparr>"

definition goose_SetDataSetRef :: "bytes \<Rightarrow> GooseSource \<Rightarrow> GooseSource" where
  "goose_SetDataSetRef dataset s = s\<lparr> gs_dataSetRef := dataset \<rparr>"

definition goose_SetGOID :: "bytes \<Rightarrow> GooseSource \<Rightarrow> GooseSource" where
  "goose_SetGOID goid s = s\<lparr> gs_goid := goid \<rparr>"

definition goose_SetGOCBRef :: "bytes \<Rightarrow> GooseSource \<Rightarrow> GooseSource" where
  "goose_SetGOCBRef gocb s = s\<lparr> gs_gocbRef := gocb \<rparr>"

definition goose_SetCRev :: "u32 \<Rightarrow> GooseSource \<Rightarrow> GooseSource" where
  "goose_SetCRev crev s = s\<lparr> gs_crev := crev \<rparr>"

definition goose_SetNumEntries :: "u32 \<Rightarrow> GooseSource \<Rightarrow> GooseSource" where
  "goose_SetNumEntries num s = s\<lparr> gs_numEntries := num \<rparr>"

definition goose_SetDstIP :: "u32 \<Rightarrow> GooseSource \<Rightarrow> GooseSource" where
  "goose_SetDstIP dstIP s = s\<lparr> gs_dstIP := dstIP \<rparr>"

text \<open>The entry count is a \<open>uint32_t\<close> in the source and a \<open>uint16_t\<close> in the passport.\<close>

definition goose_GetPassport :: "GooseSource \<Rightarrow> GoosePassport" where
  "goose_GetPassport s = GoosePassport_init
     \<lparr> gp_dmac := gs_dmac s, gp_appid := gs_appid s, gp_dstIP := gs_dstIP s, gp_crev := gs_crev s,
       gp_num := ucast (gs_numEntries s), gp_goid := gs_goid s, gp_dataset := gs_dataSetRef s,
       gp_gocbref := gs_gocbRef s \<rparr>"

definition goose_GetState :: "GooseSource \<Rightarrow> GooseState" where
  "goose_GetState s = \<lparr> st_timestamp = 0, st_stNum = gs_stNum s, st_sqNum = gs_sqNum s \<rparr>"

definition goose_ProcessSessionState :: "u32 \<Rightarrow> GooseSource \<Rightarrow> GooseSource" where
  "goose_ProcessSessionState spduNumber s =
     (let s = (if gs_spduNumber s \<noteq> 0 \<and> spduNumber \<noteq> gs_spduNumber s + 1
               then s\<lparr> gs_errSpduCnt := gs_errSpduCnt s + 1 \<rparr> else s)
      in s\<lparr> gs_spduNumber := spduNumber \<rparr>)"

definition goose_ProcessState :: "GoosePassport \<Rightarrow> GooseState \<Rightarrow> GooseSource \<Rightarrow> GooseSource" where
  "goose_ProcessState pass state s =
     (let s = (if gs_stNum s \<noteq> st_stNum state
               then if st_stNum state \<noteq> gs_stNum s + 1
                    then s\<lparr> gs_errSeqCnt := gs_errSeqCnt s + 1 \<rparr> else s
               else s)
      in s\<lparr> gs_stNum := st_stNum state, gs_sqNum := st_sqNum state \<rparr>)"

type_synonym GooseContainer = "(GoosePassport, GooseSource) AppIdContainer"

abbreviation (input) goose_find :: "GooseContainer \<Rightarrow> GoosePassport \<Rightarrow> nat option" where
  "goose_find \<equiv> container_find gp_appid goose_eq"

definition goose_assign :: "GooseContainer \<Rightarrow> GooseSource \<Rightarrow> GooseContainer" where
  "goose_assign c src = container_assign gp_appid GooseSource_init c (goose_GetPassport src) src"

subsection \<open>The passport as a key\<close>

interpretation goose_key: appid_key gp_appid goose_eq
  by unfold_locales (auto simp: goose_eq_def)

interpretation goose_registry: registry
  "container_find gp_appid goose_eq" "\<lambda>c i. snd (m_values c ! i)" container_modify
  by unfold_locales (simp_all add: find_modify find_modify_value)

subsection \<open>Sequence tracking\<close>

text \<open>
  Two trackers live in one source. The SPDU number of the first frame is free (zero means that no
  frame was seen), afterwards it has to grow by one; the state number stays or grows by one.
\<close>

definition spdu_gap :: "u32 \<Rightarrow> u32 \<Rightarrow> bool" where
  "spdu_gap p n \<longleftrightarrow> p \<noteq> 0 \<and> n \<noteq> p + 1"

definition st_gap :: "u32 \<Rightarrow> GooseState \<Rightarrow> bool" where
  "st_gap p st \<longleftrightarrow> st_stNum st \<noteq> p \<and> st_stNum st \<noteq> p + 1"

interpretation goose_spdu: seq_tracker
  "\<lambda>s n. goose_ProcessSessionState n s" gs_spduNumber gs_errSpduCnt spdu_gap "\<lambda>n. n"
  by unfold_locales (auto simp: goose_ProcessSessionState_def spdu_gap_def Let_def)

interpretation goose_st: seq_tracker
  "\<lambda>s st. goose_ProcessState pass st s" gs_stNum gs_errSeqCnt st_gap st_stNum for pass
  by unfold_locales (auto simp: goose_ProcessState_def st_gap_def Let_def)

text \<open>The two trackers do not disturb each other, and tracking keeps the identity of the source.\<close>

lemma goose_tracking_frame:
  "goose_GetPassport (goose_ProcessState pass st s) = goose_GetPassport s"
  "goose_GetPassport (goose_ProcessSessionState n s) = goose_GetPassport s"
  "gs_errSpduCnt (goose_ProcessState pass st s) = gs_errSpduCnt s"
  "gs_spduNumber (goose_ProcessState pass st s) = gs_spduNumber s"
  "gs_errSeqCnt (goose_ProcessSessionState n s) = gs_errSeqCnt s"
  "gs_stNum (goose_ProcessSessionState n s) = gs_stNum s"
  by (simp_all add: goose_ProcessState_def goose_ProcessSessionState_def goose_GetPassport_def Let_def)

end
