(* ===== verification/SV_Container.thy ===== *)
theory SV_Container
  imports Mac_Addr AppId_Container Sequence_Tracking Goose_Container
begin

text \<open>
  \<open>src/common/sv_container.hpp\<close>: passport, state, source and container of the Sampled Values streams,
  in the same shape as the GOOSE ones, and \<open>src/common/sv_profile.hpp\<close>, the data profile.
\<close>

abbreviation (input) CHANNELS :: nat where "CHANNELS \<equiv> 8"
abbreviation (input) VALUE_SIZE :: nat where "VALUE_SIZE \<equiv> 4"
abbreviation (input) QUALITY_SIZE :: nat where "QUALITY_SIZE \<equiv> 4"
abbreviation (input) CHANNEL_SIZE :: nat where "CHANNEL_SIZE \<equiv> VALUE_SIZE + QUALITY_SIZE"
abbreviation (input) ASDU_DATA_SIZE :: nat where "ASDU_DATA_SIZE \<equiv> CHANNELS * CHANNEL_SIZE"
abbreviation (input) QUALITY_GOOD :: u32 where "QUALITY_GOOD \<equiv> 0"

record SVStreamPassport =
  vp_dmac :: MAC
  vp_appid :: u16
  vp_num :: u16
  vp_crev :: u32
  vp_svid :: bytes
  vp_dstIP :: u32

definition SVStreamPassport_init :: SVStreamPassport where
  "SVStreamPassport_init = \<lparr> vp_dmac = mac_zero, vp_appid = 0, vp_num = 0, vp_crev = 0, vp_svid = [],
     vp_dstIP = 0 \<rparr>"

definition sv_eq :: "SVStreamPassport \<Rightarrow> SVStreamPassport \<Rightarrow> bool" where
  "sv_eq l r \<longleftrightarrow> vp_dmac l = vp_dmac r \<and> vp_appid l = vp_appid r \<and> vp_num l = vp_num r \<and>
     vp_crev l = vp_crev r \<and> vp_dstIP l = vp_dstIP r \<and> vp_svid l = vp_svid r"

record SVStreamState =
  sv_smpCnt :: u16

definition SVStreamState_init :: SVStreamState where
  "SVStreamState_init = \<lparr> sv_smpCnt = 0 \<rparr>"

record SVStreamSource =
  vs_dmac :: MAC
  vs_appid :: u16
  vs_svid :: bytes
  vs_crev :: u32
  vs_numASDU :: u32
  vs_dstIP :: u32
  vs_smpCnt :: u32
  vs_errSmpCnt :: u32
  vs_spduNumber :: u32
  vs_errSpduCnt :: u32

definition SVStreamSource_init :: SVStreamSource where
  "SVStreamSource_init = \<lparr> vs_dmac = mac_zero, vs_appid = 0, vs_svid = [], vs_crev = 0, vs_numASDU = 0,
     vs_dstIP = 0, vs_smpCnt = 0, vs_errSmpCnt = 0, vs_spduNumber = 0, vs_errSpduCnt = 0 \<rparr>"

definition sv_SetMAC :: "MAC \<Rightarrow> SVStreamSource \<Rightarrow> SVStreamSource" where
  "sv_SetMAC mac s = s\<lparr> vs_dmac := mac \<rparr>"

definition sv_SetAppID :: "u16 \<Rightarrow> SVStreamSource \<Rightarrow> SVStreamSource" where
  "sv_SetAppID appid s = s\<lparr> vs_appid := appid \<rparr>"

definition sv_SetSVID :: "bytes \<Rightarrow> SVStreamSource \<Rightarrow> SVStreamSource" where
  "sv_SetSVID svid s = s\<lparr> vs_svid := svid \<rparr>"

definition sv_SetCRev :: "u32 \<Rightarrow> SVStreamSource \<Rightarrow> SVStreamSource" where
  "sv_SetCRev crev s = s\<lparr> vs_crev := crev \<rparr>"

definition sv_SetNumASDU :: "u32 \<Rightarrow> SVStreamSource \<Rightarrow> SVStreamSource" where
  "sv_SetNumASDU num s = s\<lparr> vs_numASDU := num \<rparr>"

definition sv_SetDstIP :: "u32 \<Rightarrow> SVStreamSource \<Rightarrow> SVStreamSource" where
  "sv_SetDstIP dstIP s = s\<lparr> vs_dstIP := dstIP \<rparr>"

definition sv_GetPassport :: "SVStreamSource \<Rightarrow> SVStreamPassport" where
  "sv_GetPassport s = SVStreamPassport_init
     \<lparr> vp_dmac := vs_dmac s, vp_appid := vs_appid s, vp_crev := vs_crev s, vp_svid := vs_svid s,
       vp_num := ucast (vs_numASDU s), vp_dstIP := vs_dstIP s \<rparr>"

definition sv_ProcessSessionState :: "u32 \<Rightarrow> SVStreamSource \<Rightarrow> SVStreamSource" where
  "sv_ProcessSessionState spduNumber s =
     (let s = (if vs_spduNumber s \<noteq> 0 \<and> spduNumber \<noteq> vs_spduNumber s + 1
               then s\<lparr> vs_errSpduCnt := vs_errSpduCnt s + 1 \<rparr> else s)
      in s\<lparr> vs_spduNumber := spduNumber \<rparr>)"

text \<open>
  The counter of the frame is a \<open>uint16_t\<close>, the expected one a sum of \<open>uint32_t\<close>: it does not wrap
  at 16 bits, and a frame with counter zero is taken in any case.
\<close>

definition sv_ProcessState :: "SVStreamPassport \<Rightarrow> SVStreamState \<Rightarrow> SVStreamSource \<Rightarrow> SVStreamSource" where
  "sv_ProcessState pass state s =
     (let s = (if ucast (sv_smpCnt state) \<noteq> vs_smpCnt s + ucast (vp_num pass) \<and> sv_smpCnt state \<noteq> 0
               then s\<lparr> vs_errSmpCnt := vs_errSmpCnt s + 1 \<rparr> else s)
      in s\<lparr> vs_smpCnt := ucast (sv_smpCnt state) \<rparr>)"

type_synonym SVContainer = "(SVStreamPassport, SVStreamSource) AppIdContainer"

abbreviation (input) sv_find :: "SVContainer \<Rightarrow> SVStreamPassport \<Rightarrow> nat option" where
  "sv_find \<equiv> container_find vp_appid sv_eq"

definition sv_assign :: "SVContainer \<Rightarrow> SVStreamSource \<Rightarrow> SVContainer" where
  "sv_assign c src = container_assign vp_appid SVStreamSource_init c (sv_GetPassport src) src"

subsection \<open>The passport as a key\<close>

interpretation sv_key: appid_key vp_appid sv_eq
  by unfold_locales (auto simp: sv_eq_def)

lemma sv_eq_iff: "sv_eq l r \<longleftrightarrow> l = r"
  by (cases l; cases r) (auto simp: sv_eq_def)

interpretation sv_registry: registry
  "container_find vp_appid sv_eq" "\<lambda>c i. snd (m_values c ! i)" container_modify
  by unfold_locales (simp_all add: find_modify find_modify_value)

subsection \<open>Sequence tracking\<close>

definition smp_gap :: "SVStreamPassport \<Rightarrow> u32 \<Rightarrow> SVStreamState \<Rightarrow> bool" where
  "smp_gap pass p st \<longleftrightarrow> ucast (sv_smpCnt st) \<noteq> p + ucast (vp_num pass) \<and> sv_smpCnt st \<noteq> 0"

interpretation sv_spdu: seq_tracker
  "\<lambda>s n. sv_ProcessSessionState n s" vs_spduNumber vs_errSpduCnt spdu_gap "\<lambda>n. n"
  by unfold_locales (auto simp: sv_ProcessSessionState_def spdu_gap_def Let_def)

interpretation sv_smp: seq_tracker
  "\<lambda>s st. sv_ProcessState pass st s" vs_smpCnt vs_errSmpCnt "smp_gap pass" "\<lambda>st. ucast (sv_smpCnt st)" for pass
  by unfold_locales (auto simp: sv_ProcessState_def smp_gap_def Let_def)

lemma sv_tracking_frame:
  "sv_GetPassport (sv_ProcessState pass st s) = sv_GetPassport s"
  "sv_GetPassport (sv_ProcessSessionState n s) = sv_GetPassport s"
  "vs_errSpduCnt (sv_ProcessState pass st s) = vs_errSpduCnt s"
  "vs_spduNumber (sv_ProcessState pass st s) = vs_spduNumber s"
  "vs_errSmpCnt (sv_ProcessSessionState n s) = vs_errSmpCnt s"
  "vs_smpCnt (sv_ProcessSessionState n s) = vs_smpCnt s"
  by (simp_all add: sv_ProcessState_def sv_ProcessSessionState_def sv_GetPassport_def Let_def)

end
