(* ===== verification/Goose_Parser.thy ===== *)
theory Goose_Parser
  imports BER Goose_Container
begin

text \<open>
  \<open>ProcessBusParser::parse_goose_packet\<close> of \<open>src/bus_processor/process_bus_parser.cpp\<close> and the copy of
  its APDU walk in \<open>parse_r_goose_packet\<close>. Both copies treat the items alike (\<open>goose_item\<close>,
  \<open>goose_walk_step\<close>) and differ in the loop that skips a SEQUENCE or SET: the L2 copy reads the inner
  tag, the routable one only steps over it.

  A walk has three ways to end besides an error code: it may run forever (outer \<open>None\<close>), leave the
  buffer (inner \<open>None\<close>), or return. Error codes are \<open>Inl\<close>; the passport and state of the caller are
  read only after a return of 0, which is \<open>Inr\<close>. The loads of \<open>NET_TO_CPU_U16/U64\<close> followed by a
  byte swap are big-endian reads on the little-endian targets of the program.
\<close>

text \<open>A view of negative size does not designate a range of the buffer.\<close>

definition make_stringview :: "bytes \<Rightarrow> nat \<Rightarrow> u32 \<Rightarrow> bytes option" where
  "make_stringview data p len = (if sint len < 0 then None else rds data p (unat len))"

record GooseWalk =
  gw_pos :: nat
  gw_pass :: GoosePassport
  gw_state :: GooseState
  gw_found_gocbref :: bool
  gw_found_dataset :: bool
  gw_found_goid :: bool

text \<open>The cases of the switch that end in \<open>break\<close>.\<close>

definition goose_item :: "bytes \<Rightarrow> u8 \<Rightarrow> nat \<Rightarrow> u32 \<Rightarrow> GooseWalk \<Rightarrow> (int + GooseWalk) option option" where
  "goose_item buffer tag pos itemSize w =
     (if tag = 0x80 then
        Some (do { v \<leftarrow> make_stringview buffer pos itemSize;
          Some (Inr (w\<lparr> gw_pass := (gw_pass w)\<lparr> gp_gocbref := v \<rparr>, gw_found_gocbref := True \<rparr>)) })
      else if tag = 0x82 then
        Some (do { v \<leftarrow> make_stringview buffer pos itemSize;
          Some (Inr (w\<lparr> gw_pass := (gw_pass w)\<lparr> gp_dataset := v \<rparr>, gw_found_dataset := True \<rparr>)) })
      else if tag = 0x83 then
        Some (do { v \<leftarrow> make_stringview buffer pos itemSize;
          Some (Inr (w\<lparr> gw_pass := (gw_pass w)\<lparr> gp_goid := v \<rparr>, gw_found_goid := True \<rparr>)) })
      else if tag = 0x84 then
        (if 4 \<le> sint itemSize \<and> sint itemSize \<le> 8
         then Some (do { ts \<leftarrow> get_u64 buffer pos;
           Some (Inr (w\<lparr> gw_state := (gw_state w)\<lparr> st_timestamp := drop_bit ((8 - unat itemSize) * 8) ts \<rparr> \<rparr>)) })
         else Some (Some (Inr w)))
      else if tag = 0x85 then
        Some (do { n \<leftarrow> decode_asn1_number buffer pos itemSize;
          Some (Inr (w\<lparr> gw_state := (gw_state w)\<lparr> st_stNum := n \<rparr> \<rparr>)) })
      else if tag = 0x86 then
        Some (do { n \<leftarrow> decode_asn1_number buffer pos itemSize;
          Some (Inr (w\<lparr> gw_state := (gw_state w)\<lparr> st_sqNum := n \<rparr> \<rparr>)) })
      else if tag = 0x88 then
        Some (do { n \<leftarrow> decode_asn1_number buffer pos itemSize;
          Some (Inr (w\<lparr> gw_pass := (gw_pass w)\<lparr> gp_crev := n \<rparr> \<rparr>)) })
      else if tag = 0x8A then
        Some (do { n \<leftarrow> decode_asn1_number buffer pos itemSize;
          Some (Inr (w\<lparr> gw_pass := (gw_pass w)\<lparr> gp_num := ucast n \<rparr> \<rparr>)) })
      else if tag = 0xAB then
        and_then (parse_alldata buffer pos (add32 pos (unat itemSize)) 0) (\<lambda>num.
          if num < 0 then Some (Some (Inl (-101)))
          else Some (Some (Inr (w\<lparr> gw_pass := (gw_pass w)\<lparr> gp_allDataOffset := of_nat pos,
                 gp_foundEntries := of_int num \<rparr> \<rparr>))))
      else Some (Some (Inr w)))"

text \<open>The loop over a SEQUENCE or SET up to \<open>end\<close>: L2 copy and routable copy.\<close>

definition skip_step :: "bytes \<Rightarrow> nat \<Rightarrow> nat \<Rightarrow> nat + nat option option" where
  "skip_step buffer end pos =
     (if end \<le> pos then Inr (Some (Some pos))
      else into_loop (Some (rd buffer pos)) (\<lambda>innerTag.
        into_loop (Some (decode_asn1_len buffer (add32 pos 1))) (\<lambda>(len, pos).
          Inl (add32 pos (unat len)))))"

definition r_skip_step :: "bytes \<Rightarrow> nat \<Rightarrow> nat \<Rightarrow> nat + nat option option" where
  "r_skip_step apdu end pos =
     (if end \<le> pos then Inr (Some (Some pos))
      else into_loop (Some (decode_asn1_len apdu (add32 pos 1))) (\<lambda>(len, pos).
        Inl (add32 pos (unat len))))"

text \<open>What follows the loop.\<close>

definition goose_finish :: "GooseWalk \<Rightarrow> int + GoosePassport \<times> GooseState" where
  "goose_finish w =
     (if gp_foundEntries (gw_pass w) \<noteq> ucast (gp_num (gw_pass w)) then Inl (-102)
      else if gw_found_gocbref w \<and> gw_found_dataset w \<and> gw_found_goid w
           then Inr (gw_pass w, gw_state w) else Inl (-100))"

text \<open>One iteration of the loop over the items, with the skipping loop as a parameter.\<close>

definition goose_walk_step ::
    "(nat \<Rightarrow> nat \<Rightarrow> nat + nat option option) \<Rightarrow> bytes \<Rightarrow> nat \<Rightarrow> GooseWalk \<Rightarrow>
     GooseWalk + (int + GoosePassport \<times> GooseState) option option" where
  "goose_walk_step skip buffer sz w =
     (if sz \<le> gw_pos w then Inr (Some (Some (goose_finish w)))
      else into_loop (Some (rd buffer (gw_pos w))) (\<lambda>tag.
        into_loop (Some (decode_asn1_len buffer (add32 (gw_pos w) 1))) (\<lambda>(itemSize, pos).
          if sz < add32 pos (unat itemSize) \<or> itemSize = 0 then Inr (Some (Some (Inl (-3))))
          else if tag = 0x30 \<or> tag = 0x31 then
            into_loop (run_nested (skip (add32 pos (unat itemSize))) pos) (\<lambda>pos. Inl (w\<lparr> gw_pos := pos \<rparr>))
          else if tag = 0xA0 \<or> tag = 0xA1 then
            into_loop (Some (decode_asn1_len buffer pos)) (\<lambda>(len, pos).
              Inl (w\<lparr> gw_pos := add32 pos (unat len) \<rparr>))
          else into_loop (goose_item buffer tag pos itemSize w) (\<lambda>r. case r of
              Inl e \<Rightarrow> Inr (Some (Some (Inl e)))
            | Inr w' \<Rightarrow> Inl (w'\<lparr> gw_pos := add32 pos (unat itemSize) \<rparr>)))))"

definition goose_walk :: "bytes \<Rightarrow> nat \<Rightarrow> GooseWalk \<Rightarrow> (int + GoosePassport \<times> GooseState) option option" where
  "goose_walk buffer sz w = run_nested (goose_walk_step (skip_step buffer) buffer sz) w"

definition r_goose_walk :: "bytes \<Rightarrow> nat \<Rightarrow> GooseWalk \<Rightarrow> (int + GoosePassport \<times> GooseState) option option" where
  "r_goose_walk apdu sz w = run_nested (goose_walk_step (r_skip_step apdu) apdu sz) w"

definition walk_start :: "nat \<Rightarrow> GoosePassport \<Rightarrow> GooseState \<Rightarrow> GooseWalk" where
  "walk_start pos passport state = \<lparr> gw_pos = pos, gw_pass = passport, gw_state = state,
     gw_found_gocbref = False, gw_found_dataset = False, gw_found_goid = False \<rparr>"

text \<open>
  The Ethernet header of an L2 frame: the offset behind EtherType, with or without a VLAN tag, or
  \<open>None\<close> when the frame is not of the protocol with EtherType \<open>88 lo\<close>.
\<close>

definition l2_offset :: "bytes \<Rightarrow> u8 \<Rightarrow> nat option option" where
  "l2_offset buffer lo = do {
     b12 \<leftarrow> rd buffer 12; b13 \<leftarrow> rd buffer 13; b16 \<leftarrow> rd buffer 16; b17 \<leftarrow> rd buffer 17;
     if b12 = 0x81 \<and> b13 = 0x00 \<and> b16 = 0x88 \<and> b17 = lo then Some (Some (14 + 4))
     else if b12 = 0x88 \<and> b13 = lo then Some (Some 14)
     else Some None }"

definition parse_goose_packet ::
    "bytes \<Rightarrow> nat \<Rightarrow> GoosePassport \<Rightarrow> GooseState \<Rightarrow> (int + GoosePassport \<times> GooseState) option option" where
  "parse_goose_packet buffer sz passport state =
     (if sz < 64 then Some (Some (Inl (-1)))
      else and_then (Some (mac_at buffer 0)) (\<lambda>dmac.
        and_then (Some (l2_offset buffer 0xB8)) (\<lambda>off. case off of
            None \<Rightarrow> Some (Some (Inl (-1)))
          | Some pos \<Rightarrow>
              and_then (Some (get_u16 buffer pos)) (\<lambda>appid.
                let passport = passport\<lparr> gp_dmac := dmac, gp_appid := appid \<rparr>; pos = pos + 8
                in and_then (Some (rd buffer pos)) (\<lambda>tag.
                  if tag \<noteq> 0x61 then Some (Some (Inl (-3)))
                  else and_then (Some (decode_asn1_len buffer (pos + 1))) (\<lambda>(pduSize, pos).
                    goose_walk buffer sz (walk_start pos passport state)))))))"

subsection \<open>The meaning of a well-formed APDU\<close>

text \<open>The fields of a GOOSE APDU as an encoder lays them out, and what the receiver takes from each.\<close>

datatype goose_field = Field u8 bytes | AllData "data list"

primrec field_tlv :: "goose_field \<Rightarrow> bytes" where
  "field_tlv (Field tag v) = tlv tag v"
| "field_tlv (AllData ds) = tlv 0xAB (concat (map data_tlv ds))"

text \<open>
  Fields have a value, the timestamp has eight bytes, and the tags of constructed types the walk skips
  do not occur; the dataset is not empty and nested at most as deep as the parser follows.
\<close>

primrec field_ok :: "goose_field \<Rightarrow> bool" where
  "field_ok (Field tag v) \<longleftrightarrow> v \<noteq> [] \<and> length v < 65536 \<and> tag \<notin> {0x30, 0x31, 0xA0, 0xA1, 0xAB} \<and>
     (tag = 0x84 \<longrightarrow> length v = 8)"
| "field_ok (AllData ds) \<longleftrightarrow> ds \<noteq> [] \<and> length (concat (map data_tlv ds)) < 65536 \<and>
     (\<forall>d \<in> set ds. data_ok d \<and> data_depth d \<le> MAX_DATA_DEPTH)"

definition be_number :: "bytes \<Rightarrow> u32" where
  "be_number v = (if 1 \<le> length v \<and> length v \<le> 4 then foldl (\<lambda>n b. push_bit 8 n OR ucast b) 0 v else 0)"

definition be_time :: "bytes \<Rightarrow> u64" where
  "be_time v = foldl (\<lambda>n b. push_bit 8 n OR ucast b) 0 v"

definition take_value :: "u8 \<Rightarrow> bytes \<Rightarrow> GooseWalk \<Rightarrow> GooseWalk" where
  "take_value tag v w =
     (if tag = 0x80 then w\<lparr> gw_pass := (gw_pass w)\<lparr> gp_gocbref := v \<rparr>, gw_found_gocbref := True \<rparr>
      else if tag = 0x82 then w\<lparr> gw_pass := (gw_pass w)\<lparr> gp_dataset := v \<rparr>, gw_found_dataset := True \<rparr>
      else if tag = 0x83 then w\<lparr> gw_pass := (gw_pass w)\<lparr> gp_goid := v \<rparr>, gw_found_goid := True \<rparr>
      else if tag = 0x84 then w\<lparr> gw_state := (gw_state w)\<lparr> st_timestamp := be_time v \<rparr> \<rparr>
      else if tag = 0x85 then w\<lparr> gw_state := (gw_state w)\<lparr> st_stNum := be_number v \<rparr> \<rparr>
      else if tag = 0x86 then w\<lparr> gw_state := (gw_state w)\<lparr> st_sqNum := be_number v \<rparr> \<rparr>
      else if tag = 0x88 then w\<lparr> gw_pass := (gw_pass w)\<lparr> gp_crev := be_number v \<rparr> \<rparr>
      else if tag = 0x8A then w\<lparr> gw_pass := (gw_pass w)\<lparr> gp_num := ucast (be_number v) \<rparr> \<rparr>
      else w)"

primrec take_field :: "GooseWalk \<Rightarrow> goose_field \<Rightarrow> GooseWalk" where
  "take_field w (Field tag v) = (take_value tag v w)\<lparr> gw_pos := gw_pos w + length (tlv tag v) \<rparr>"
| "take_field w (AllData ds) = (let v = concat (map data_tlv ds) in
     w\<lparr> gw_pass := (gw_pass w)\<lparr> gp_allDataOffset := of_nat (gw_pos w + 1 + length (enc_len (length v))),
          gp_foundEntries := of_nat (length ds) \<rparr>, gw_pos := gw_pos w + length (tlv 0xAB v) \<rparr>)"

subsection \<open>The walk over a well-formed APDU\<close>

lemma nth_value: "i < length v \<Longrightarrow> (a @ v @ c) ! (length a + i) = v ! i"
  by (simp add: nth_append)

lemma decode_asn1_number_value:
  assumes "0 < length v" "length v < 65536" 
  shows "decode_asn1_number (a @ v @ c) (length a) (of_nat (length v)) = Some (be_number v)"
proof -
  have small: "(of_nat (length v) :: u32) = of_nat k \<longleftrightarrow> length v = k" if "k < 5" for k
    using assms that by (simp add: word_of_nat_eq_iff take_bit_nat_eq_self)
  consider "length v = 1" | "length v = 2" | "length v = 3" | "length v = 4" | "4 < length v"
    using assms(1) by linarith
  then show ?thesis
  proof cases
    case 1
    then obtain x where "v = [x]" by (auto simp: length_Suc_conv numeral_eq_Suc)
    then show ?thesis by (simp add: decode_asn1_number_def be_number_def rd_append)
  next
    case 2
    then obtain x y where "v = [x, y]" by (auto simp: length_Suc_conv numeral_eq_Suc)
    then show ?thesis by (simp add: decode_asn1_number_def be_number_def rd_def nth_append)
  next
    case 3
    then obtain x y z where "v = [x, y, z]" by (auto simp: length_Suc_conv numeral_eq_Suc)
    then show ?thesis by (simp add: decode_asn1_number_def be_number_def rd_def nth_append or.assoc)
  next
    case 4
    then obtain x y z u where "v = [x, y, z, u]" by (auto simp: length_Suc_conv numeral_eq_Suc)
    then show ?thesis by (simp add: decode_asn1_number_def be_number_def get_u32_def be32_def rd_def nth_append or.assoc)
  next
    case 5
    then show ?thesis using small [of 1] small [of 2] small [of 3] small [of 4]
      by (simp add: decode_asn1_number_def be_number_def)
  qed
qed

lemma ucast_push_byte:
  "n \<le> 24 \<Longrightarrow> (ucast (push_bit n (ucast (b :: u8) :: u32)) :: u64) = push_bit n (ucast b)"
  by (rule bit_word_eqI) (auto simp: bit_simps dest: bit_imp_le_length)

lemma ucast_ucast_byte: "(ucast (ucast (b :: u8) :: u32) :: u64) = ucast b"
  by (rule bit_word_eqI) (auto simp: bit_simps dest: bit_imp_le_length)

lemma get_u64_value:
  assumes "length v = 8"
  shows "get_u64 (a @ v @ c) (length a) = Some (be_time v)"
proof -
  obtain b0 b1 b2 b3 b4 b5 b6 b7 where "v = [b0, b1, b2, b3, b4, b5, b6, b7]"
    using assms by (auto simp: length_Suc_conv numeral_eq_Suc)
  moreover have "push_bit 32 (ucast (be32 b0 b1 b2 b3)) OR ucast (be32 b4 b5 b6 b7) =
    foldl (\<lambda>n b. push_bit 8 n OR ucast b) (0 :: u64) [b0, b1, b2, b3, b4, b5, b6, b7]"
    by (simp add: be32_def unsigned_or_eq ucast_push_byte ucast_ucast_byte push_bit_or push_bit_push_bit or.assoc)
  ultimately show ?thesis by (simp add: get_u64_def get_u32_def rd_def nth_append be_time_def)
qed

lemma goose_item_value:
  assumes "field_ok (Field tag v)"
  shows "goose_item (a @ v @ c) tag (length a) (of_nat (length v)) w = Some (Some (Inr (take_value tag v w)))"
proof -
  have len: "0 < length v" "length v < 65536" using assms by (auto simp: length_greater_0_conv)
  have small: "length v < 4294967296" using len(2) by simp
  have u: "unat (of_nat (length v) :: u32) = length v" using small by (simp add: unsigned_of_nat take_bit_nat_eq_self)
  have s: "\<not> sint (of_nat (length v) :: u32) < 0" using len by (intro sint_small) simp
  have view: "make_stringview (a @ v @ c) (length a) (of_nat (length v)) = Some v"
    using s u rds_append [of "length a" a "length v" v c] by (simp add: make_stringview_def)
  note num = decode_asn1_number_value [OF len]
  show ?thesis
  proof (cases "tag = 0x84")
    case True
    then have l: "length v = 8" using assms by simp
    have "get_u64 (a @ v @ c) (length a) = Some (be_time v)" by (rule get_u64_value [OF l])
    then show ?thesis using True by (simp add: goose_item_def take_value_def l)
  next
    case False
    then show ?thesis using assms by (simp add: goose_item_def take_value_def view num)
  qed
qed

lemma goose_item_alldata:
  assumes "field_ok (AllData ds)" and "v = concat (map data_tlv ds)" and "length a + length v + 4 < 2 ^ 32"
  shows "goose_item (a @ v @ c) 0xAB (length a) (of_nat (length v)) w =
    Some (Some (Inr (w\<lparr> gw_pass := (gw_pass w)\<lparr> gp_allDataOffset := of_nat (length a),
       gp_foundEntries := of_nat (length ds) \<rparr> \<rparr>)))"
proof -
  have "length v < 4294967296" using assms(1,2) by simp
  then have u: "unat (of_nat (length v) :: u32) = length v" by (simp add: unsigned_of_nat take_bit_nat_eq_self)
  have e: "add32 (length a) (length v) = length a + length v" using assms(3) by (intro add32_small) simp
  have "\<forall>x \<in> set ds. data_ok x \<and> data_depth x < 9" using assms(1) by fastforce
  then have "parse_alldata (a @ v @ c) (length a) (length a + length v) 0 = Some (Some (int (length ds)))"
    using parse_alldata_depth_counts [of ds 9 "length a" a "length a + length v" c] assms
    by (simp add: parse_alldata_def)
  then show ?thesis by (simp add: goose_item_def u e)
qed

lemma goose_tlv_step:
  assumes "v \<noteq> []" "length v < 65536" "tag \<notin> {0x30, 0x31, 0xA0, 0xA1}" and "gw_pos w = length a"
    and "length a + length (tlv tag v) \<le> sz" and "sz + 8 < 2 ^ 32"
  shows "goose_walk_step skip (a @ tlv tag v @ c) sz w =
      into_loop (goose_item ((a @ tag # enc_len (length v)) @ v @ c) tag (length (a @ tag # enc_len (length v)))
        (of_nat (length v)) w) (\<lambda>r. case r of
          Inl e \<Rightarrow> Inr (Some (Some (Inl e)))
        | Inr w' \<Rightarrow> Inl (w'\<lparr> gw_pos := length a + length (tlv tag v) \<rparr>))"
proof -
  let ?l = "enc_len (length v)" and ?buf = "a @ tlv tag v @ c"
  have small: "length v < 4294967296" using assms(2) by simp
  have u: "unat (of_nat (length v) :: u32) = length v" using small by (simp add: unsigned_of_nat take_bit_nat_eq_self)
  have fit: "length a + 1 + length ?l + length v \<le> sz" using assms(5) by simp
  have r: "rd ?buf (length a) = Some tag" by (simp add: tlv_def rd_append)
  have i: "add32 (length a) 1 = length a + 1" using fit assms(6) by (intro add32_small) simp
  have d: "decode_asn1_len ?buf (length a + 1) = Some (of_nat (length v), length a + 1 + length ?l)"
    using decode_asn1_len_enc [of "length v" "length a + 1" "a @ [tag]" "v @ c"] assms(2,6) fit
    by (simp add: tlv_def)
  have e: "add32 (length a + 1 + length ?l) (length v) = length a + length (tlv tag v)"
    using fit assms(6) by (simp add: add_ac)
  have nz: "(of_nat (length v) :: u32) \<noteq> 0" using u assms(1) by (metis length_0_conv unsigned_0)
  have lt: "\<not> sz \<le> gw_pos w" "\<not> sz < length a + length (tlv tag v)" using fit assms(4,5) by simp_all
  have buf: "(a @ tag # ?l) @ v @ c = ?buf" "length (a @ tag # ?l) = length a + 1 + length ?l" by (simp_all add: tlv_def)
  show ?thesis
    using assms(3) lt nz unfolding buf goose_walk_step_def assms(4) i r d into_loop_simps prod.case u e by simp
qed



lemma goose_field_step:
  assumes "field_ok f" and "gw_pos w = length a" and "length a + length (field_tlv f) \<le> sz" and "sz + 8 < 2 ^ 32"
  shows "goose_walk_step skip (a @ field_tlv f @ c) sz w = Inl (take_field w f)"
proof (cases f)
  case (Field tag v)
  then show ?thesis
    using assms goose_tlv_step [of v tag w a sz skip c] goose_item_value [of tag v "a @ tag # enc_len (length v)" c w]
    by simp
next
  case (AllData ds)
  let ?v = "concat (map data_tlv ds)"
  have "?v \<noteq> []" using assms(1) AllData data_tlv_shape [of "hd ds"] by (cases ds) (auto simp: tlv_def)
  then have step: "goose_walk_step skip (a @ tlv 0xAB ?v @ c) sz w =
      into_loop (goose_item ((a @ 0xAB # enc_len (length ?v)) @ ?v @ c) 0xAB (length (a @ 0xAB # enc_len (length ?v)))
        (of_nat (length ?v)) w) (\<lambda>r. case r of
          Inl e \<Rightarrow> Inr (Some (Some (Inl e)))
        | Inr w' \<Rightarrow> Inl (w'\<lparr> gw_pos := length a + length (tlv 0xAB ?v) \<rparr>))"
    using assms AllData by (intro goose_tlv_step) simp_all
  have item: "goose_item ((a @ 0xAB # enc_len (length ?v)) @ ?v @ c) 0xAB (length (a @ 0xAB # enc_len (length ?v)))
        (of_nat (length ?v)) w = Some (Some (Inr (w\<lparr> gw_pass := (gw_pass w)
          \<lparr> gp_allDataOffset := of_nat (length (a @ 0xAB # enc_len (length ?v))),
            gp_foundEntries := of_nat (length ds) \<rparr> \<rparr>)))"
    using assms AllData by (intro goose_item_alldata) simp_all
  show ?thesis
    unfolding AllData field_tlv.simps step item by (simp add: Let_def add_ac assms(2))
qed

text \<open>The walk over a list of fields, and over one that fills the APDU up to its end.\<close>

lemma take_fields_pos:
  "gw_pos (foldl take_field w fs) = gw_pos w + length (concat (map field_tlv fs))"
proof (induction fs arbitrary: w)
  case (Cons f fs)
  have "gw_pos (take_field w f) = gw_pos w + length (field_tlv f)" by (cases f) (simp_all add: Let_def)
  with Cons.IH [of "take_field w f"] show ?case by simp
qed simp

lemma goose_walk_prefix:
  assumes "buf = a @ concat (map field_tlv fs) @ c" and "\<forall>f \<in> set fs. field_ok f" and "gw_pos w = length a"
    and "length a + length (concat (map field_tlv fs)) \<le> sz" and "sz + 8 < 2 ^ 32"
  shows "run_nested (goose_walk_step skip buf sz) w = run_nested (goose_walk_step skip buf sz) (foldl take_field w fs)"
  using assms
proof (induction fs arbitrary: a w)
  case (Cons f fs)
  have step: "goose_walk_step skip buf sz w = Inl (take_field w f)"
    using goose_field_step [of f w a sz skip "concat (map field_tlv fs) @ c"] Cons.prems by simp
  have "gw_pos (take_field w f) = length (a @ field_tlv f)"
    using take_fields_pos [of w "[f]"] Cons.prems(3) by simp
  then show ?case
    using run_nested_Inl [of "goose_walk_step skip buf sz", OF step] Cons.IH [of "a @ field_tlv f" "take_field w f"]
      Cons.prems by simp
qed simp

lemma goose_walk_fields:
  assumes "buf = a @ concat (map field_tlv fs) @ c" and "\<forall>f \<in> set fs. field_ok f" and "gw_pos w = length a"
    and "sz = length a + length (concat (map field_tlv fs))" and "sz + 8 < 2 ^ 32"
  shows "run_nested (goose_walk_step skip buf sz) w = Some (Some (goose_finish (foldl take_field w fs)))"
proof -
  let ?w = "foldl take_field w fs"
  have "length a + length (concat (map field_tlv fs)) \<le> sz" using assms(4) by simp
  note prefix = goose_walk_prefix [OF assms(1-3) this assms(5)]
  have "goose_walk_step skip buf sz ?w = Inr (Some (Some (goose_finish ?w)))"
    using assms(3,4) by (simp add: goose_walk_step_def take_fields_pos)
  then show ?thesis by (simp add: prefix run_nested_Inr)
qed

text \<open>Bytes behind the last field are taken for further items: two zero bytes end the walk with an error.\<close>

lemma goose_walk_padding:
  assumes "buf = a @ concat (map field_tlv fs) @ 0 # 0 # c" and "\<forall>f \<in> set fs. field_ok f" and "gw_pos w = length a"
    and "length a + length (concat (map field_tlv fs)) < sz" and "sz + 8 < 2 ^ 32"
  shows "run_nested (goose_walk_step skip buf sz) w = Some (Some (Inl (-3)))"
proof -
  let ?w = "foldl take_field w fs" and ?p = "length a + length (concat (map field_tlv fs))"
  have "?p \<le> sz" using assms(4) by simp
  note prefix = goose_walk_prefix [OF assms(1-3) this assms(5)]
  have r: "rd buf ?p = Some 0" "rd buf (?p + 1) = Some 0" by (simp_all add: assms(1) rd_def nth_append)
  have i: "add32 ?p 1 = ?p + 1" "add32 (?p + 1) 1 = ?p + 2" using assms(4,5) by (simp, intro trans [OF add32_small]) auto
  have d: "decode_asn1_len buf (?p + 1) = Some (0, ?p + 2)" unfolding decode_asn1_len_def r i by simp
  have "goose_walk_step skip buf sz ?w = Inr (Some (Some (Inl (-3))))"
    using assms(4) unfolding goose_walk_step_def take_fields_pos assms(3) r i d into_loop_simps prod.case by simp
  then show ?thesis by (simp add: prefix run_nested_Inr)
qed

subsection \<open>A GOOSE message\<close>

text \<open>The APDU of a GOOSE message: the fields in the order of the standard, integers as their octets.\<close>

record GooseMsg =
  gm_gocbRef :: bytes
  gm_ttl :: bytes
  gm_datSet :: bytes
  gm_goID :: bytes
  gm_t :: bytes
  gm_stNum :: bytes
  gm_sqNum :: bytes
  gm_simulation :: bytes
  gm_confRev :: bytes
  gm_ndsCom :: bytes
  gm_num :: bytes
  gm_allData :: "data list"

definition goose_fields :: "GooseMsg \<Rightarrow> goose_field list" where
  "goose_fields m = [Field 0x80 (gm_gocbRef m), Field 0x81 (gm_ttl m), Field 0x82 (gm_datSet m),
     Field 0x83 (gm_goID m), Field 0x84 (gm_t m), Field 0x85 (gm_stNum m), Field 0x86 (gm_sqNum m),
     Field 0x87 (gm_simulation m), Field 0x88 (gm_confRev m), Field 0x89 (gm_ndsCom m), Field 0x8A (gm_num m),
     AllData (gm_allData m)]"

definition goose_body :: "GooseMsg \<Rightarrow> bytes" where
  "goose_body m = concat (map field_tlv (goose_fields m))"

definition goose_apdu :: "GooseMsg \<Rightarrow> bytes" where
  "goose_apdu m = tlv 0x61 (goose_body m)"

definition goose_msg_ok :: "GooseMsg \<Rightarrow> bool" where
  "goose_msg_ok m \<longleftrightarrow> (\<forall>f \<in> set (goose_fields m). field_ok f) \<and> length (goose_body m) < 65536 \<and>
     be_number (gm_num m) = of_nat (length (gm_allData m))"

text \<open>What the receiver reports for a message whose dataset starts \<open>pos\<close> bytes into the buffer.\<close>

definition goose_report :: "GooseMsg \<Rightarrow> nat \<Rightarrow> GoosePassport \<Rightarrow> GooseState \<Rightarrow> GoosePassport \<times> GooseState" where
  "goose_report m pos passport state =
     (passport\<lparr> gp_gocbref := gm_gocbRef m, gp_dataset := gm_datSet m, gp_goid := gm_goID m,
        gp_crev := be_number (gm_confRev m), gp_num := of_nat (length (gm_allData m)),
        gp_foundEntries := of_nat (length (gm_allData m)), gp_allDataOffset := of_nat pos \<rparr>,
      state\<lparr> st_timestamp := be_time (gm_t m), st_stNum := be_number (gm_stNum m), st_sqNum := be_number (gm_sqNum m) \<rparr>)"

lemma data_tlv_length: "2 \<le> length (data_tlv d)"
proof -
  obtain tag v where "data_tlv d = tlv tag v" using data_tlv_shape by blast
  then show ?thesis using length_enc_len(1) [of "length v"] by simp
qed

lemma data_count_bound: "2 * length ds \<le> length (concat (map data_tlv ds))"
proof (induction ds)
  case (Cons d ds)
  with data_tlv_length [of d] show ?case by simp
qed simp

lemma goose_fields_report:
  assumes "goose_msg_ok m"
  shows "goose_finish (foldl take_field (walk_start pos passport state) (goose_fields m)) =
    Inr (goose_report m (pos + length (goose_body m) - length (concat (map data_tlv (gm_allData m)))) passport state)"
proof -
  let ?n = "length (gm_allData m)" and ?v = "concat (map data_tlv (gm_allData m))"
  have "2 * ?n \<le> length ?v" "length ?v < 65536"
    using assms data_count_bound by (auto simp: goose_msg_ok_def goose_fields_def)
  then have n: "ucast (of_nat ?n :: u32) = (of_nat ?n :: u16)" "ucast (of_nat ?n :: u16) = (of_nat ?n :: u32)"
    by (simp_all add: unsigned_of_nat take_bit_nat_eq_self ucast_of_nat_small)
  have num: "be_number (gm_num m) = of_nat ?n" using assms by (simp add: goose_msg_ok_def)
  have off: "pos + length (goose_body m) - length ?v = foldl (\<lambda>p f. p + length (field_tlv f)) pos (butlast (goose_fields m))
      + 1 + length (enc_len (length ?v))"
    by (simp add: goose_body_def goose_fields_def)
  show ?thesis
    unfolding off
    by (simp add: goose_fields_def take_value_def walk_start_def goose_finish_def goose_report_def num n Let_def)
qed

text \<open>The frame of an L2 message: addresses, an optional VLAN tag, APPID, length and reserved words.\<close>

definition l2_header :: "MAC \<Rightarrow> MAC \<Rightarrow> (u8 \<times> u8) option \<Rightarrow> u8 \<Rightarrow> u16 \<Rightarrow> bytes \<Rightarrow> bytes" where
  "l2_header dmac smac vlan lo appid res = mac_data dmac @ mac_data smac @
     (case vlan of None \<Rightarrow> [] | Some (t, u) \<Rightarrow> [0x81, 0x00, t, u]) @ [0x88, lo] @ put16 appid @ res"

lemma length_l2_header: "length (l2_header dmac smac vlan lo appid res) = 16 + (if vlan = None then 0 else 4) + length res"
  by (auto simp: l2_header_def split: option.split)

lemma l2_header_fields:
  fixes vlan :: "(u8 \<times> u8) option"
  assumes "length res = 6" and "2 \<le> length rest"
  defines "h \<equiv> (if vlan = None then 14 else 18)"
  shows "mac_at (l2_header dmac smac vlan lo appid res @ rest) 0 = Some dmac"
    "l2_offset (l2_header dmac smac vlan lo appid res @ rest) lo = Some (Some h)"
    "get_u16 (l2_header dmac smac vlan lo appid res @ rest) h = Some appid"
    "h + 8 = length (l2_header dmac smac vlan lo appid res)"
proof -
  obtain r0 r1 r2 r3 r4 r5 where r: "res = [r0, r1, r2, r3, r4, r5]"
    using assms(1) by (auto simp: length_Suc_conv numeral_eq_Suc)
  obtain d0 d1 d2 d3 d4 d5 where d: "dmac = MAC d0 d1 d2 d3 d4 d5" by (cases dmac)
  obtain s0 s1 s2 s3 s4 s5 where m: "smac = MAC s0 s1 s2 s3 s4 s5" by (cases smac)
  show "mac_at (l2_header dmac smac vlan lo appid res @ rest) 0 = Some dmac"
    "l2_offset (l2_header dmac smac vlan lo appid res @ rest) lo = Some (Some h)"
    "get_u16 (l2_header dmac smac vlan lo appid res @ rest) h = Some appid"
    "h + 8 = length (l2_header dmac smac vlan lo appid res)"
    by (cases vlan; simp add: h_def l2_header_def r d m mac_at_def l2_offset_def get_u16_def rd_def put16_def
        be16_put16 split: prod.split)+
qed

text \<open>Up to the loop: the header of the frame and the head of the PDU.\<close>

lemma parse_goose_head:
  assumes "length res = 6" and "frame = l2_header dmac smac vlan 0xB8 appid res @ 0x61 # enc_len n @ rest"
    and "n < 65536" and "64 \<le> sz"
  shows "parse_goose_packet frame sz passport state =
    goose_walk frame sz (walk_start (length (l2_header dmac smac vlan 0xB8 appid res) + 1 + length (enc_len n))
      (passport\<lparr> gp_dmac := dmac, gp_appid := appid \<rparr>) state)"
proof -
  let ?h = "l2_header dmac smac vlan 0xB8 appid res"
  have hl: "length ?h \<le> 26" using assms(1) by (simp add: length_l2_header)
  have two: "2 \<le> length (0x61 # enc_len n @ rest)" using length_enc_len(1) [of n] by simp
  note hdr = l2_header_fields [OF assms(1) two, where dmac = dmac and smac = smac and vlan = vlan and
      lo = "0xB8" and appid = appid, folded assms(2)]
  have tag: "rd frame (length ?h) = Some 0x61" by (simp add: assms(2) rd_append)
  have len: "decode_asn1_len frame (length ?h + 1) = Some (of_nat n, length ?h + 1 + length (enc_len n))"
    using decode_asn1_len_enc [of n "length ?h + 1" "?h @ [0x61]" rest] assms(3) hl by (simp add: assms(2))
  show ?thesis
    using hdr(1-3) tag len assms(4) unfolding parse_goose_packet_def by (simp add: hdr(4) Let_def)
qed

lemma parse_goose_frame:
  assumes "goose_msg_ok m" and "length res = 6"
    and "frame = l2_header dmac smac vlan 0xB8 appid res @ goose_apdu m" and "64 \<le> length frame"
  shows "parse_goose_packet frame (length frame) passport state = Some (Some (Inr (goose_report m
    (length frame - length (concat (map data_tlv (gm_allData m)))) (passport\<lparr> gp_dmac := dmac, gp_appid := appid \<rparr>) state)))"
proof -
  let ?h = "l2_header dmac smac vlan 0xB8 appid res" and ?b = "goose_body m"
  let ?l = "enc_len (length ?b)" and ?pass = "passport\<lparr> gp_dmac := dmac, gp_appid := appid \<rparr>"
  let ?p = "length ?h + 1 + length ?l"
  have b: "length ?b < 65536" using assms(1) by (simp add: goose_msg_ok_def)
  have hl: "length ?h \<le> 26" using assms(2) by (simp add: length_l2_header)
  have sz: "length frame = ?p + length ?b" by (simp add: assms(3) goose_apdu_def)
  have "goose_walk frame (length frame) (walk_start ?p ?pass state) =
      Some (Some (goose_finish (foldl take_field (walk_start ?p ?pass state) (goose_fields m))))"
    unfolding goose_walk_def
  proof (rule goose_walk_fields)
    show "frame = (?h @ 0x61 # ?l) @ concat (map field_tlv (goose_fields m)) @ []"
      by (simp add: assms(3) goose_apdu_def tlv_def goose_body_def)
    show "length frame + 8 < 2 ^ 32" using b hl length_enc_len(2) [of "length ?b"] by (simp add: sz)
  qed (use assms(1) sz in \<open>simp_all add: goose_msg_ok_def walk_start_def goose_body_def\<close>)
  then have "goose_walk frame (length frame) (walk_start ?p ?pass state) =
      Some (Some (Inr (goose_report m (length frame - length (concat (map data_tlv (gm_allData m)))) ?pass state)))"
    by (simp only: goose_fields_report [OF assms(1)] sz)
  moreover have "frame = ?h @ 0x61 # ?l @ ?b" by (simp add: assms(3) goose_apdu_def tlv_def)
  ultimately show ?thesis using parse_goose_head [OF assms(2) _ b assms(4)] by simp
qed

lemma r_goose_walk_apdu:
  assumes "goose_msg_ok m" and "apdu = goose_apdu m @ c"
  shows "rd apdu 0 = Some 0x61"
    and "decode_asn1_len apdu 1 = Some (of_nat (length (goose_body m)), 1 + length (enc_len (length (goose_body m))))"
    and "r_goose_walk apdu (length (goose_apdu m)) (walk_start (1 + length (enc_len (length (goose_body m)))) passport state) =
      Some (Some (Inr (goose_report m (length (goose_apdu m) - length (concat (map data_tlv (gm_allData m)))) passport state)))"
proof -
  let ?b = "goose_body m" let ?l = "enc_len (length ?b)"
  have b: "length ?b < 65536" using assms(1) by (simp add: goose_msg_ok_def)
  show "rd apdu 0 = Some 0x61" by (simp add: assms(2) goose_apdu_def tlv_def rd_def)
  show "decode_asn1_len apdu 1 = Some (of_nat (length ?b), 1 + length ?l)"
    using decode_asn1_len_enc [of "length ?b" 1 "[0x61]" "?b @ c"] b by (simp add: assms(2) goose_apdu_def tlv_def)
  have sz: "length (goose_apdu m) = 1 + length ?l + length ?b" by (simp add: goose_apdu_def)
  have "r_goose_walk apdu (length (goose_apdu m)) (walk_start (1 + length ?l) passport state) =
      Some (Some (goose_finish (foldl take_field (walk_start (1 + length ?l) passport state) (goose_fields m))))"
    unfolding r_goose_walk_def
  proof (rule goose_walk_fields)
    show "apdu = (0x61 # ?l) @ concat (map field_tlv (goose_fields m)) @ c"
      by (simp add: assms(2) goose_apdu_def tlv_def goose_body_def)
    show "length (goose_apdu m) + 8 < 2 ^ 32" using b length_enc_len(2) [of "length ?b"] by (simp add: sz)
  qed (use assms(1) sz in \<open>simp_all add: goose_msg_ok_def walk_start_def goose_body_def\<close>)
  then show "r_goose_walk apdu (length (goose_apdu m)) (walk_start (1 + length ?l) passport state) =
      Some (Some (Inr (goose_report m (length (goose_apdu m) - length (concat (map data_tlv (gm_allData m)))) passport state)))"
    by (simp only: goose_fields_report [OF assms(1)] sz)
qed
subsection \<open>Termination of the walk\<close>

text \<open>
  A length of four or more octets can be negative as an \<open>int\<close>. Without such a length the position
  only grows and the walk ends; with one it can return to where it was.
\<close>

definition lens_nonneg :: "bytes \<Rightarrow> bool" where
  "lens_nonneg buffer \<longleftrightarrow> (\<forall>p < length buffer. case decode_asn1_len buffer p of
     None \<Rightarrow> True | Some (len, q) \<Rightarrow> 0 \<le> sint len)"

lemma decode_asn1_len_reads: "decode_asn1_len buffer p = Some r \<Longrightarrow> p < length buffer"
  by (auto simp: decode_asn1_len_def rd_def split: if_splits)

lemma decode_asn1_len_forward:
  assumes "lens_nonneg buffer" and "length buffer < 2 ^ 31" and "decode_asn1_len buffer p = Some (len, q)"
  shows "p < q" "add32 q (unat len) = q + unat len"
proof -
  show "p < q" using decode_asn1_len_pos [OF assms(3)] assms(2) by simp
  have "\<not> sint len < 0"
    using assms(1,3) decode_asn1_len_reads [OF assms(3)] by (auto simp: lens_nonneg_def split: option.splits)
  then have "unat len < 2 ^ 31" by (rule sint_nonneg_bound)
  moreover have "q \<le> length buffer" using decode_asn1_len_pos [OF assms(3)] assms(2) by simp
  ultimately show "add32 q (unat len) = q + unat len" using assms(2) by (intro add32_small) simp
qed

text \<open>Both skipping loops move forward.\<close>

definition skips_forward :: "(nat \<Rightarrow> nat \<Rightarrow> nat + nat option option) \<Rightarrow> nat \<Rightarrow> bool" where
  "skips_forward skip sz \<longleftrightarrow> (\<forall>end pos. end \<le> sz \<longrightarrow>
     (case skip end pos of Inl pos' \<Rightarrow> pos < pos' \<and> pos < end
      | Inr r \<Rightarrow> r = Some None \<or> r = Some (Some pos)))"

lemma skip_step_forward:
  assumes "lens_nonneg buffer" and "length buffer < 2 ^ 31" and "sz \<le> length buffer"
  shows "skips_forward (skip_step buffer) sz" "skips_forward (r_skip_step buffer) sz"
proof -
  have inc: "add32 pos (Suc 0) = Suc pos" if "\<not> end \<le> pos" "end \<le> sz" for pos "end"
    using that assms(2,3) by (intro trans [OF add32_small]) auto
  have fwd: "pos < add32 q (unat len)" if "decode_asn1_len buffer (Suc pos) = Some (len, q)" for pos len q
    using decode_asn1_len_forward [OF assms(1,2) that] by simp
  show "skips_forward (skip_step buffer) sz" "skips_forward (r_skip_step buffer) sz"
    unfolding skips_forward_def skip_step_def r_skip_step_def
    by (auto simp: into_loop_def inc split: option.split prod.split dest: fwd)
qed

lemma skip_loop:
  assumes "skips_forward skip sz" and "end \<le> sz"
  shows "run_nested (skip end) pos \<noteq> None \<and> (\<forall>pos'. run_nested (skip end) pos = Some (Some pos') \<longrightarrow> pos \<le> pos')"
proof (rule run_nested_total [where I = "\<lambda>p. pos \<le> p" and m = "\<lambda>p. end - p"
      and Q = "\<lambda>r. r \<noteq> None \<and> (\<forall>pos'. r = Some (Some pos') \<longrightarrow> pos \<le> pos')"])
  fix p p' assume p: "pos \<le> p" "skip end p = Inl p'"
  have "p < p' \<and> p < end"
    using assms(1) [unfolded skips_forward_def, rule_format, OF assms(2), of p] by (simp add: p(2))
  with p(1) show "pos \<le> p' \<and> end - p' < end - p" by auto
next
  fix p r assume p: "pos \<le> p" "skip end p = Inr r"
  have "r = Some None \<or> r = Some (Some p)"
    using assms(1) [unfolded skips_forward_def, rule_format, OF assms(2), of p] by (simp add: p(2))
  with p(1) show "r \<noteq> None \<and> (\<forall>pos'. r = Some (Some pos') \<longrightarrow> pos \<le> pos')" by auto
qed simp

lemma goose_item_total: "length buffer < 2 ^ 31 \<Longrightarrow> goose_item buffer tag pos itemSize w \<noteq> None"
  using parse_alldata_depth_total [of buffer 9 pos "add32 pos (unat itemSize)"]
  unfolding goose_item_def parse_alldata_def and_then_def by (auto split: option.split)

lemma goose_walk_step_forward:
  assumes "lens_nonneg buffer" and "length buffer < 2 ^ 31" and "sz \<le> length buffer"
    and "skips_forward skip sz"
  shows "case goose_walk_step skip buffer sz w of
      Inl w' \<Rightarrow> gw_pos w < gw_pos w' \<and> gw_pos w < sz | Inr r \<Rightarrow> r \<noteq> None"
proof (cases "sz \<le> gw_pos w")
  case True
  then show ?thesis by (simp add: goose_walk_step_def)
next
  case False
  have r: "rd buffer (gw_pos w) = Some (buffer ! gw_pos w)" "add32 (gw_pos w) 1 = gw_pos w + 1"
    using False assms(2,3) by (simp, intro add32_small, simp)
  note fwd = decode_asn1_len_forward [OF assms(1,2)]
  show ?thesis
  proof (cases "decode_asn1_len buffer (gw_pos w + 1)")
    case None
    then show ?thesis using False by (simp add: goose_walk_step_def r del: One_nat_def)
  next
    case (Some x)
    obtain len q where d: "decode_asn1_len buffer (gw_pos w + 1) = Some (len, q)" using Some by (cases x) auto
    note q = fwd [OF d]
    have skip: "\<not> sz < q + unat len \<Longrightarrow> run_nested (skip (q + unat len)) q \<noteq> None \<and>
        (\<forall>p. run_nested (skip (q + unat len)) q = Some (Some p) \<longrightarrow> q \<le> p)"
      using skip_loop [OF assms(4), of "q + unat len" q] by simp
    have item: "goose_item buffer tag q len w \<noteq> None" for tag by (rule goose_item_total [OF assms(2)])
    have a0: "decode_asn1_len buffer q = Some (l, p) \<Longrightarrow> q < p \<and> add32 p (unat l) = p + unat l" for l p
      using fwd [of q l p] by simp
    show ?thesis
    proof (cases "sz < q + unat len")
      case True
      then show ?thesis using False unfolding goose_walk_step_def r d into_loop_simps prod.case q(2) by simp
    next
      case inside: False
      from skip [OF inside] obtain s where s: "run_nested (skip (q + unat len)) q = Some s"
        "\<And>p. s = Some p \<Longrightarrow> q \<le> p" by auto
      show ?thesis
        using False inside s(2) item [of "buffer ! gw_pos w"] a0 q(1)
        unfolding goose_walk_step_def r d into_loop_simps prod.case q(2) s(1)
        by (auto simp: into_loop_def split: option.split sum.split prod.split)
    qed
  qed
qed

lemma goose_walk_terminates:
  assumes "lens_nonneg buffer" and "length buffer < 2 ^ 31" and "sz \<le> length buffer"
  shows "goose_walk buffer sz w \<noteq> None" "r_goose_walk buffer sz w \<noteq> None"
proof -
  have "run_nested (goose_walk_step skip buffer sz) w \<noteq> None" if "skips_forward skip sz" for skip
  proof (rule run_nested_total [where I = "\<lambda>_. True" and m = "\<lambda>w. sz - gw_pos w" and Q = "\<lambda>r. r \<noteq> None"])
    note fwd = goose_walk_step_forward [OF assms that]
    show "True \<and> sz - gw_pos s' < sz - gw_pos s" if "goose_walk_step skip buffer sz s = Inl s'" for s s'
      using fwd [of s] that by auto
    show "r \<noteq> None" if "goose_walk_step skip buffer sz s = Inr r" for s r
      using fwd [of s] that by auto
  qed simp
  then show "goose_walk buffer sz w \<noteq> None" "r_goose_walk buffer sz w \<noteq> None"
    using skip_step_forward [OF assms] by (simp_all add: goose_walk_def r_goose_walk_def)
qed

text \<open>An item of any tag that is only stepped over, with length \<open>-6\<close>, leads back to itself.\<close>

lemma goose_walk_returns:
  assumes "rds buffer p 6 = Some [0x84, 0x84, 0xFF, 0xFF, 0xFF, 0xFA]" and "p < sz" and "sz < 2 ^ 31"
    and "gw_pos w = p"
  shows "run_nested (goose_walk_step skip buffer sz) w = None"
proof -
  have b: "p + 6 \<le> length buffer" "take 6 (drop p buffer) = [0x84, 0x84, 0xFF, 0xFF, 0xFF, 0xFA]"
    using assms(1) by (auto simp: rds_def split: if_splits)
  have at: "rd buffer (p + i) = Some ([0x84, 0x84, 0xFF, 0xFF, 0xFF, 0xFA] ! i)" if "i < 6" for i
    using that b(1) by (simp flip: b(2))
  have inc: "add32 (p + i) 1 = p + i + 1" if "i < 6" for i using assms(2,3) that by (intro add32_small) simp
  have len: "decode_asn1_len buffer (p + 1) = Some (0xFFFFFFFA, p + 6)"
  proof -
    have four: "len_octets buffer 4 len q = do { b0 \<leftarrow> rd buffer q; b1 \<leftarrow> rd buffer (add32 q 1);
        b2 \<leftarrow> rd buffer (add32 (add32 q 1) 1); b3 \<leftarrow> rd buffer (add32 (add32 (add32 q 1) 1) 1);
        Some (push_bit 8 (push_bit 8 (push_bit 8 (push_bit 8 len OR ucast b0) OR ucast b1) OR ucast b2) OR ucast b3,
          add32 (add32 (add32 (add32 q 1) 1) 1) 1) }" for len q
    proof -
      have n: "(4 :: nat) = Suc (Suc (Suc (Suc 0)))" by simp
      show ?thesis unfolding n len_octets.simps by (rule refl)
    qed
    have "len_octets buffer 4 0 (p + 2) = Some (0xFFFFFFFA, p + 6)"
    proof -
      have i: "add32 (p + 2) 1 = p + 3" "add32 (p + 3) 1 = p + 4" "add32 (p + 4) 1 = p + 5" "add32 (p + 5) 1 = p + 6"
        using inc [of 2] inc [of 3] inc [of 4] inc [of 5] by simp_all
      have r: "rd buffer (p + 2) = Some 0xFF" "rd buffer (p + 3) = Some 0xFF" "rd buffer (p + 4) = Some 0xFF"
          "rd buffer (p + 5) = Some 0xFA"
        using at [of 2] at [of 3] at [of 4] at [of 5] by simp_all
      show ?thesis unfolding four i r by simp
    qed
    moreover have "rd buffer (p + 1) = Some 0x84" "add32 (p + 1) 1 = p + 2" using at [of 1] inc [of 1] by simp_all
    ultimately show ?thesis by (simp add: decode_asn1_len_def)
  qed
  have ret: "add32 (p + 6) (unat (0xFFFFFFFA :: u32)) = p" using assms(2,3) by (simp add: add32_def)
  have step: "goose_walk_step skip buffer sz w = Inl w"
  proof -
    have 0: "rd buffer p = Some 0x84" "add32 p 1 = p + 1" using at [of 0] inc [of 0] by simp_all
    show ?thesis
      unfolding goose_walk_step_def assms(4) 0 len into_loop_simps prod.case ret
      using assms(2,4) by (simp add: goose_item_def)
  qed
  show ?thesis by (rule run_nested_diverges [where I = "\<lambda>s. s = w"]) (simp_all add: step)
qed
subsection \<open>Properties\<close>


definition sample_msg :: GooseMsg where
  "sample_msg = \<lparr> gm_gocbRef = [0x47, 0x31], gm_ttl = [0x07, 0xD0], gm_datSet = [0x44, 0x31], gm_goID = [0x49, 0x31],
     gm_t = [1, 2, 3, 4, 5, 6, 7, 8], gm_stNum = [5], gm_sqNum = [0x01, 0x00], gm_simulation = [0], gm_confRev = [1],
     gm_ndsCom = [0], gm_num = [2],
     gm_allData = [Prim 0x83 [1], Constr 0xA2 [Prim 0x83 [0], Constr 0xA1 [Prim 0x84 [3, 0, 0]]]] \<rparr>"

lemma sample_msg_ok: "goose_msg_ok sample_msg" and length_sample_apdu: "length (goose_apdu sample_msg) = 64"
  by (simp_all add: goose_msg_ok_def goose_fields_def goose_body_def goose_apdu_def sample_msg_def tlv_def enc_len_def
      be_number_def)






text \<open>
  The L2 walk is bounded by the frame, not by the length of the PDU: a well-formed message followed
  by zero padding, as Ethernet pads short frames, is rejected with code -3.
\<close>

theorem goose_padding_rejected:
  assumes "goose_msg_ok m" and "length res = 6" and "64 \<le> length frame" and "length frame < 2 ^ 31"
    and "frame = l2_header dmac smac vlan 0xB8 appid res @ goose_apdu m @ 0 # 0 # pad"
  shows "parse_goose_packet frame (length frame) passport state = Some (Some (Inl (-3)))"
proof -
  let ?b = "goose_body m"
  let ?a = "l2_header dmac smac vlan 0xB8 appid res @ 0x61 # enc_len (length ?b)"
  let ?w = "walk_start (length ?a) (passport\<lparr> gp_dmac := dmac, gp_appid := appid \<rparr>) state"
  have b: "length ?b < 65536" using assms(1) by (simp add: goose_msg_ok_def)
  have f: "frame = ?a @ concat (map field_tlv (goose_fields m)) @ 0 # 0 # pad"
    by (simp add: assms(5) goose_apdu_def tlv_def goose_body_def)
  have "goose_walk frame (length frame) ?w = Some (Some (Inl (-3)))"
    unfolding goose_walk_def
  proof (rule goose_walk_padding [OF f])
    show "\<forall>f \<in> set (goose_fields m). field_ok f" using assms(1) by (simp add: goose_msg_ok_def)
    show "length ?a + length (concat (map field_tlv (goose_fields m))) < length frame" by (simp add: f)
  qed (use assms(4) in \<open>simp_all add: walk_start_def\<close>)
  moreover have "frame = l2_header dmac smac vlan 0xB8 appid res @ 0x61 # enc_len (length ?b) @ ?b @ 0 # 0 # pad"
    by (simp add: f goose_body_def)
  ultimately show ?thesis using parse_goose_head [OF assms(2) _ b assms(3)] by simp
qed

theorem goose_padding_rejected_witness:
  "\<exists>frame. frame = l2_header mac_zero mac_zero None 0xB8 7 (replicate 6 0) @ goose_apdu sample_msg @ 0 # 0 # [] \<and>
     parse_goose_packet frame (length frame) GoosePassport_init GooseState_init = Some (Some (Inl (-3)))"
proof -
  let ?frame = "l2_header mac_zero mac_zero None 0xB8 7 (replicate 6 0) @ goose_apdu sample_msg @ 0 # 0 # []"
  have "64 \<le> length ?frame" "length ?frame < 2 ^ 31" by (simp_all add: length_l2_header length_sample_apdu)
  from goose_padding_rejected [OF sample_msg_ok _ this refl] show ?thesis by auto
qed

end
