(* ===== verification/SV_Parser.thy ===== *)
theory SV_Parser
  imports BER SV_Container Goose_Parser
begin

text \<open>
  \<open>parse_sv_apdu\<close> and \<open>ProcessBusParser::parse_sv_packet\<close> of
  \<open>src/bus_processor/process_bus_parser.cpp\<close>: the walk over the ASDUs of a Sampled Values APDU, with
  the bounded length decoder. The results are those of the GOOSE walk: no value for a run that never
  ends, \<open>None\<close> for an access outside the buffer, \<open>Inl\<close> for an error code, \<open>Inr\<close> for a return of 0.
  The lemmas show that neither of the first two can happen, and what the walk reports for an APDU that
  an encoder wrote.
\<close>

abbreviation (input) SV_PARSE_ERR_QUALITY :: int where "SV_PARSE_ERR_QUALITY \<equiv> -11"

subsection \<open>One ASDU\<close>

text \<open>The variables of the loop over the fields of an ASDU.\<close>

record SVFields =
  vf_pos :: nat
  vf_foundSvid :: bool
  vf_foundSmpCnt :: bool
  vf_foundConfRev :: bool
  vf_foundSmpSynch :: bool
  vf_foundData :: bool
  vf_svid :: bytes
  vf_smpCnt :: u16
  vf_confRev :: u32
  vf_previousTag :: u8

definition sv_fields_start :: "nat \<Rightarrow> SVFields" where
  "sv_fields_start pos = \<lparr> vf_pos = pos, vf_foundSvid = False, vf_foundSmpCnt = False, vf_foundConfRev = False,
     vf_foundSmpSynch = False, vf_foundData = False, vf_svid = [], vf_smpCnt = 0, vf_confRev = 0, vf_previousTag = 0 \<rparr>"

text \<open>The loop over the qualities of the channels, at the given offsets: whether all are good.\<close>

primrec sv_quality :: "bytes \<Rightarrow> nat \<Rightarrow> nat list \<Rightarrow> bool option" where
  "sv_quality apdu pos [] = Some True"
| "sv_quality apdu pos (off # offs) = do {
     quality \<leftarrow> decode_asn1_number apdu (pos + off) (of_nat QUALITY_SIZE);
     if quality \<noteq> QUALITY_GOOD then Some False else sv_quality apdu pos offs }"

definition quality_offsets :: "nat list" where
  "quality_offsets = map (\<lambda>i. VALUE_SIZE + i * CHANNEL_SIZE) [0..<CHANNELS]"

text \<open>The switch over the tag of a field with its value at \<open>pos\<close>.\<close>

definition sv_field :: "bytes \<Rightarrow> u8 \<Rightarrow> nat \<Rightarrow> nat \<Rightarrow> SVFields \<Rightarrow> (int + SVFields) option" where
  "sv_field apdu tag pos len f =
     (if tag = 0x80 then
        (if vf_foundSvid f \<or> len = 0 then Some (Inl (-6))
         else do { v \<leftarrow> make_stringview apdu pos (of_nat len);
           Some (Inr (f\<lparr> vf_svid := v, vf_foundSvid := True \<rparr>)) })
      else if tag = 0x81 then (if len = 0 then Some (Inl (-6)) else Some (Inr f))
      else if tag = 0x82 then
        (if vf_foundSmpCnt f \<or> len \<noteq> 2 then Some (Inl (-6))
         else do { n \<leftarrow> decode_asn1_number apdu pos (of_nat len);
           Some (Inr (f\<lparr> vf_smpCnt := ucast n, vf_foundSmpCnt := True \<rparr>)) })
      else if tag = 0x83 then
        (if vf_foundConfRev f \<or> len \<noteq> 4 then Some (Inl (-6))
         else do { n \<leftarrow> decode_asn1_number apdu pos (of_nat len);
           Some (Inr (f\<lparr> vf_confRev := n, vf_foundConfRev := True \<rparr>)) })
      else if tag = 0x84 then (if len \<noteq> 8 then Some (Inl (-6)) else Some (Inr f))
      else if tag = 0x85 then
        (if vf_foundSmpSynch f \<or> len \<noteq> 1 then Some (Inl (-6)) else Some (Inr (f\<lparr> vf_foundSmpSynch := True \<rparr>)))
      else if tag = 0x86 then (if len \<noteq> 2 then Some (Inl (-6)) else Some (Inr f))
      else if tag = 0x87 then
        (if vf_foundData f \<or> len \<noteq> ASDU_DATA_SIZE then Some (Inl (-6))
         else do { good \<leftarrow> sv_quality apdu pos quality_offsets;
           if good then Some (Inr (f\<lparr> vf_foundData := True \<rparr>)) else Some (Inl SV_PARSE_ERR_QUALITY) })
      else if tag = 0x88 then (if len \<noteq> 2 then Some (Inl (-6)) else Some (Inr f))
      else Some (Inl (-6)))"

definition sv_field_step :: "bytes \<Rightarrow> nat \<Rightarrow> SVFields \<Rightarrow> SVFields + (int + SVFields) option option" where
  "sv_field_step apdu asduEnd f =
     (if asduEnd \<le> vf_pos f then Inr (Some (Some (Inr f)))
      else into_loop (Some (rd apdu (vf_pos f))) (\<lambda>tag.
        if tag \<le> vf_previousTag f then Inr (Some (Some (Inl (-6))))
        else into_loop (Some (decode_asn1_len_bounded apdu asduEnd (vf_pos f + 1))) (\<lambda>r. case r of
            None \<Rightarrow> Inr (Some (Some (Inl (-6))))
          | Some (len, pos) \<Rightarrow>
              if asduEnd - pos < len then Inr (Some (Some (Inl (-6))))
              else into_loop (Some (sv_field apdu tag pos len (f\<lparr> vf_previousTag := tag \<rparr>))) (\<lambda>r. case r of
                  Inl e \<Rightarrow> Inr (Some (Some (Inl e)))
                | Inr f' \<Rightarrow> Inl (f'\<lparr> vf_pos := pos + len \<rparr>)))))"

subsection \<open>The sequence of ASDUs\<close>

record SVWalk =
  vw_pos :: nat
  vw_actualAsdus :: nat
  vw_pass :: SVStreamPassport
  vw_state :: SVStreamState

definition sv_asdu_step ::
    "bytes \<Rightarrow> nat \<Rightarrow> nat \<Rightarrow> SVWalk \<Rightarrow> SVWalk + (int + SVStreamPassport \<times> SVStreamState) option option" where
  "sv_asdu_step apdu sequenceEnd declaredAsdus w =
     (if sequenceEnd \<le> vw_pos w then
        Inr (Some (Some (if vw_actualAsdus w = declaredAsdus then Inr (vw_pass w, vw_state w) else Inl (-7))))
      else into_loop (Some (take_tlv apdu sequenceEnd (vw_pos w) 0x30)) (\<lambda>r. case r of
          None \<Rightarrow> Inr (Some (Some (Inl (-5))))
        | Some (pos, asduEnd) \<Rightarrow>
            into_loop (run_nested (sv_field_step apdu asduEnd) (sv_fields_start pos)) (\<lambda>r. case r of
                Inl e \<Rightarrow> Inr (Some (Some (Inl e)))
              | Inr f \<Rightarrow>
                  if \<not> vf_foundSvid f \<or> \<not> vf_foundSmpCnt f \<or> \<not> vf_foundConfRev f \<or>
                     \<not> vf_foundSmpSynch f \<or> \<not> vf_foundData f then Inr (Some (Some (Inl (-6))))
                  else if vw_actualAsdus w = 0 then
                    Inl (w\<lparr> vw_pos := vf_pos f, vw_actualAsdus := 1,
                      vw_pass := (vw_pass w)\<lparr> vp_svid := vf_svid f, vp_crev := vf_confRev f \<rparr>,
                      vw_state := (vw_state w)\<lparr> sv_smpCnt := vf_smpCnt f \<rparr> \<rparr>)
                  else if vf_svid f \<noteq> vp_svid (vw_pass w) \<or> vf_confRev f \<noteq> vp_crev (vw_pass w)
                  then Inr (Some (Some (Inl (-6))))
                  else Inl (w\<lparr> vw_pos := vf_pos f, vw_actualAsdus := vw_actualAsdus w + 1 \<rparr>))))"

definition parse_sv_apdu ::
    "bytes \<Rightarrow> nat \<Rightarrow> SVStreamPassport \<Rightarrow> SVStreamState \<Rightarrow> (int + SVStreamPassport \<times> SVStreamState) option option" where
  "parse_sv_apdu apdu apduSize passport state =
     and_then (Some (take_tlv apdu apduSize 0 0x60)) (\<lambda>r. case r of
         None \<Rightarrow> Some (Some (Inl (-3)))
       | Some (pos, pduEnd) \<Rightarrow>
           if pduEnd \<le> pos then Some (Some (Inl (-4)))
           else and_then (Some (rd apdu pos)) (\<lambda>tag.
             if tag \<noteq> 0x80 then Some (Some (Inl (-4)))
             else and_then (Some (decode_asn1_len_bounded apdu pduEnd (pos + 1))) (\<lambda>r. case r of
                 None \<Rightarrow> Some (Some (Inl (-4)))
               | Some (noAsduLength, pos) \<Rightarrow>
                   if noAsduLength = 0 \<or> 2 < noAsduLength \<or> pduEnd - pos < noAsduLength
                   then Some (Some (Inl (-4)))
                   else and_then (Some (decode_asn1_number apdu pos (of_nat noAsduLength))) (\<lambda>declaredAsdus.
                     if declaredAsdus = 0 \<or> 0xFFFF < declaredAsdus then Some (Some (Inl (-4)))
                     else let passport = passport\<lparr> vp_num := ucast declaredAsdus \<rparr>; pos = pos + noAsduLength
                       in and_then (Some (take_tlv apdu pduEnd pos 0xA2)) (\<lambda>r. case r of
                           None \<Rightarrow> Some (Some (Inl (-4)))
                         | Some (pos, sequenceEnd) \<Rightarrow>
                             if sequenceEnd \<noteq> pduEnd then Some (Some (Inl (-4)))
                             else run_nested (sv_asdu_step apdu sequenceEnd (unat declaredAsdus))
                               \<lparr> vw_pos = pos, vw_actualAsdus = 0, vw_pass = passport, vw_state = state \<rparr>)))))"

text \<open>\<open>parse_sv_packet\<close>; the APDU starts behind the APPID, the length and the reserved words.\<close>

definition parse_sv_packet ::
    "bytes \<Rightarrow> nat \<Rightarrow> SVStreamPassport \<Rightarrow> SVStreamState \<Rightarrow> (int + SVStreamPassport \<times> SVStreamState) option option" where
  "parse_sv_packet buffer sz passport state =
     (if sz < 64 then Some (Some (Inl (-1)))
      else and_then (Some (mac_at buffer 0)) (\<lambda>dmac.
        and_then (Some (l2_offset buffer 0xBA)) (\<lambda>off. case off of
            None \<Rightarrow> Some (Some (Inl (-2)))
          | Some pos \<Rightarrow>
              and_then (Some (get_u16 buffer pos)) (\<lambda>appid.
                let pos = pos + 8
                in parse_sv_apdu (drop pos buffer) (sz - pos)
                     (passport\<lparr> vp_dmac := dmac, vp_appid := appid \<rparr>) state))))"

subsection \<open>The walk stays inside the APDU and ends\<close>

lemma decode_asn1_number_Some:
  assumes "p + unat sz \<le> length buffer" shows "decode_asn1_number buffer p sz \<noteq> None"
  using assms by (auto simp: decode_asn1_number_def)

lemma sv_quality_Some:
  "\<forall>off \<in> set offs. pos + off + 4 \<le> length apdu \<Longrightarrow> sv_quality apdu pos offs \<noteq> None"
proof (induction offs)
  case (Cons off offs)
  then have "decode_asn1_number apdu (pos + off) 4 \<noteq> None" by (intro decode_asn1_number_Some) simp
  with Cons show ?case by auto
qed simp

lemma sv_field_safe:
  assumes "pos + len \<le> length apdu" and "length apdu < 2 ^ 31"
  shows "sv_field apdu tag pos len f \<noteq> None"
proof -
  have len: "len < 2147483648" "len < 4294967296" using assms by simp_all
  have u: "unat (of_nat len :: u32) = len" using len(2) by (simp add: unsigned_of_nat take_bit_nat_eq_self)
  have view: "make_stringview apdu pos (of_nat len) \<noteq> None"
    using sint_small [OF len(1)] assms by (simp add: make_stringview_def u)
  have num: "decode_asn1_number apdu pos (of_nat len) \<noteq> None"
    by (rule decode_asn1_number_Some) (simp add: u assms)
  have quality: "sv_quality apdu pos quality_offsets \<noteq> None" if "len = ASDU_DATA_SIZE"
    by (rule sv_quality_Some) (use that assms in \<open>auto simp: quality_offsets_def\<close>)
  show ?thesis using view num quality unfolding sv_field_def by auto
qed

lemma sv_field_step_safe:
  assumes "asduEnd \<le> length apdu" and "length apdu < 2 ^ 31"
  shows "case sv_field_step apdu asduEnd f of Inl f' \<Rightarrow> vf_pos f < vf_pos f' \<and> vf_pos f' \<le> asduEnd
    | Inr r \<Rightarrow> \<exists>e. r = Some (Some e) \<and> (\<forall>f'. e = Inr f' \<longrightarrow> f' = f \<and> asduEnd \<le> vf_pos f)"
proof (cases "asduEnd \<le> vf_pos f")
  case True
  then show ?thesis by (simp add: sv_field_step_def)
next
  case False
  then have r: "rd apdu (vf_pos f) = Some (apdu ! vf_pos f)" using assms(1) by simp
  show ?thesis
  proof (rule decode_asn1_len_bounded_cases [OF assms(1), of "vf_pos f + 1"])
    assume "decode_asn1_len_bounded apdu asduEnd (vf_pos f + 1) = Some None"
    then show ?thesis using False unfolding sv_field_step_def r by simp
  next
    fix len pos
    assume d: "decode_asn1_len_bounded apdu asduEnd (vf_pos f + 1) = Some (Some (len, pos))"
      "vf_pos f + 1 < pos" "pos \<le> asduEnd"
    have "\<not> asduEnd - pos < len \<Longrightarrow> pos + len \<le> length apdu" using d(3) assms(1) by simp
    then have s: "\<not> asduEnd - pos < len \<Longrightarrow> \<exists>r. sv_field apdu tag pos len g = Some r" for tag g
      using sv_field_safe [of pos len apdu tag g] assms(2) by auto
    show ?thesis
    proof (cases "asduEnd - pos < len")
      case True
      then show ?thesis using False d(1) unfolding sv_field_step_def r by simp
    next
      case fits: False
      obtain q where "sv_field apdu (apdu ! vf_pos f) pos len (f\<lparr> vf_previousTag := apdu ! vf_pos f \<rparr>) = Some q"
        using s [OF fits] by blast
      then show ?thesis using False fits d unfolding sv_field_step_def r d(1)
        by (auto split: sum.split)
    qed
  qed
qed

lemma sv_fields_safe:
  assumes "asduEnd \<le> length apdu" and "length apdu < 2 ^ 31" and "vf_pos f \<le> asduEnd"
  shows "\<exists>e. run_nested (sv_field_step apdu asduEnd) f = Some (Some e) \<and> (\<forall>f'. e = Inr f' \<longrightarrow> vf_pos f' = asduEnd)"
proof (rule run_nested_total [where I = "\<lambda>f. vf_pos f \<le> asduEnd" and m = "\<lambda>f. asduEnd - vf_pos f"
      and Q = "\<lambda>r. \<exists>e. r = Some (Some e) \<and> (\<forall>f'. e = Inr f' \<longrightarrow> vf_pos f' = asduEnd)"])
  note safe = sv_field_step_safe [OF assms(1,2)]
  show "vf_pos s' \<le> asduEnd \<and> asduEnd - vf_pos s' < asduEnd - vf_pos s"
    if "vf_pos s \<le> asduEnd" "sv_field_step apdu asduEnd s = Inl s'" for s s'
    using safe [of s] that by auto
  show "\<exists>e. r = Some (Some e) \<and> (\<forall>f'. e = Inr f' \<longrightarrow> vf_pos f' = asduEnd)"
    if "vf_pos s \<le> asduEnd" "sv_field_step apdu asduEnd s = Inr r" for s r
    using safe [of s] that by auto
qed (rule assms(3))

lemma sv_asdu_step_safe:
  assumes "sequenceEnd \<le> length apdu" and "length apdu < 2 ^ 31"
  shows "case sv_asdu_step apdu sequenceEnd n w of Inl w' \<Rightarrow> vw_pos w < vw_pos w' \<and> vw_pos w < sequenceEnd
    | Inr r \<Rightarrow> \<exists>e. r = Some (Some e)"
proof (cases "sequenceEnd \<le> vw_pos w")
  case True
  then show ?thesis by (simp add: sv_asdu_step_def)
next
  case False
  show ?thesis
  proof (rule take_tlv_cases [OF assms(1), of "vw_pos w" "0x30"])
    assume "take_tlv apdu sequenceEnd (vw_pos w) 0x30 = Some None"
    then show ?thesis using False by (simp add: sv_asdu_step_def)
  next
    fix pos asduEnd
    assume t: "take_tlv apdu sequenceEnd (vw_pos w) 0x30 = Some (Some (pos, asduEnd))"
      "vw_pos w < pos" "pos \<le> asduEnd" "asduEnd \<le> sequenceEnd"
    have "vf_pos (sv_fields_start pos) \<le> asduEnd" using t(3) by (simp add: sv_fields_start_def)
    then obtain e where "run_nested (sv_field_step apdu asduEnd) (sv_fields_start pos) = Some (Some e)"
        "\<forall>f'. e = Inr f' \<longrightarrow> vf_pos f' = asduEnd"
      using sv_fields_safe [of asduEnd apdu] assms t(4) by fastforce
    then show ?thesis using False t unfolding sv_asdu_step_def t(1) by (auto split: sum.split)
  qed
qed

lemma sv_asdus_safe:
  assumes "sequenceEnd \<le> length apdu" and "length apdu < 2 ^ 31"
  shows "\<exists>e. run_nested (sv_asdu_step apdu sequenceEnd n) w = Some (Some e)"
proof (rule run_nested_total [where I = "\<lambda>_. True" and m = "\<lambda>w. sequenceEnd - vw_pos w"
      and Q = "\<lambda>r. \<exists>e. r = Some (Some e)"])
  note safe = sv_asdu_step_safe [OF assms]
  show "True \<and> sequenceEnd - vw_pos s' < sequenceEnd - vw_pos s" if "sv_asdu_step apdu sequenceEnd n s = Inl s'" for s s'
    using safe [of s n] that by auto
  show "\<exists>e. r = Some (Some e)" if "sv_asdu_step apdu sequenceEnd n s = Inr r" for s r
    using safe [of s n] that by auto
qed simp

lemma parse_sv_apdu_safe:
  assumes "apduSize \<le> length apdu" and "length apdu < 2 ^ 31"
  shows "\<exists>r. parse_sv_apdu apdu apduSize passport state = Some (Some r)"
proof (rule take_tlv_cases [OF assms(1), of 0 "0x60"])
  assume "take_tlv apdu apduSize 0 0x60 = Some None"
  then show ?thesis by (simp add: parse_sv_apdu_def)
next
  fix pos pduEnd
  assume t: "take_tlv apdu apduSize 0 0x60 = Some (Some (pos, pduEnd))" "0 < pos" "pos \<le> pduEnd" "pduEnd \<le> apduSize"
  have pdu: "pduEnd \<le> length apdu" using t(4) assms(1) by simp
  show ?thesis
  proof (cases "pduEnd \<le> pos \<or> apdu ! pos \<noteq> 0x80")
    case True
    then show ?thesis using pdu unfolding parse_sv_apdu_def t(1) by (auto simp: rd_def)
  next
    case False
    then have r: "rd apdu pos = Some 0x80" using pdu by simp
    show ?thesis
    proof (rule decode_asn1_len_bounded_cases [OF pdu, of "pos + 1"])
      assume "decode_asn1_len_bounded apdu pduEnd (pos + 1) = Some None"
      then show ?thesis using False unfolding parse_sv_apdu_def t(1) and_then_simps option.case prod.case r by simp
    next
      fix len p
      assume d: "decode_asn1_len_bounded apdu pduEnd (pos + 1) = Some (Some (len, p))" "pos + 1 < p" "p \<le> pduEnd"
      show ?thesis
      proof (cases "len = 0 \<or> 2 < len \<or> pduEnd - p < len")
        case True
        then show ?thesis using False unfolding parse_sv_apdu_def t(1) and_then_simps option.case prod.case r d(1) by auto
      next
        case ok: False
        then have fit: "p + len \<le> pduEnd" using d(3) by linarith
        have "unat (of_nat len :: u32) = len" using ok by (simp add: unsigned_of_nat take_bit_nat_eq_self)
        then obtain n where n: "decode_asn1_number apdu p (of_nat len) = Some n"
          using decode_asn1_number_Some [of p "of_nat len" apdu] fit pdu by auto
        note asdus = sv_asdus_safe [OF pdu assms(2)]
        show ?thesis
        proof (rule take_tlv_cases [OF pdu, of "p + len" "0xA2"], goal_cases)
          case 1
          then show ?case using False ok
            unfolding parse_sv_apdu_def t(1) and_then_simps option.case prod.case r d(1) n Let_def by simp
        next
          case (2 vpos vend)
          then show ?case using False ok asdus
            unfolding parse_sv_apdu_def t(1) and_then_simps option.case prod.case r d(1) n Let_def by auto
        qed
      qed
    qed
  qed
qed

lemma parse_sv_packet_safe:
  assumes "sz \<le> length buffer" and "length buffer < 2 ^ 31"
  shows "\<exists>r. parse_sv_packet buffer sz passport state = Some (Some r)"
proof (cases "sz < 64")
  case False
  then have len: "64 \<le> length buffer" using assms(1) by simp
  obtain dmac where m: "mac_at buffer 0 = Some dmac" using mac_at_Some [of 0 buffer] len by auto
  have "\<exists>off. l2_offset buffer 0xBA = Some off \<and> (off = None \<or> off = Some 14 \<or> off = Some 18)"
    using len by (auto simp: l2_offset_def)
  then obtain off where o: "l2_offset buffer 0xBA = Some off" "off = None \<or> off = Some 14 \<or> off = Some 18" by blast
  have a: "\<exists>r. and_then (Some (get_u16 buffer pos)) (\<lambda>appid. let pos = pos + 8 in
      parse_sv_apdu (drop pos buffer) (sz - pos) (passport\<lparr> vp_dmac := dmac, vp_appid := appid \<rparr>) state) = Some (Some r)"
    if "pos \<le> 18" for pos
  proof -
    have safe: "\<exists>r. parse_sv_apdu (drop (pos + 8) buffer) (sz - (pos + 8)) q state = Some (Some r)" for q
      by (rule parse_sv_apdu_safe) (use assms in auto)
    show ?thesis using len that by (simp add: Let_def safe)
  qed
  from o(2) show ?thesis
  proof (elim disjE)
    assume "off = Some 14"
    then show ?thesis using a [of 14] False unfolding parse_sv_packet_def m o(1) and_then_simps by simp
  next
    assume "off = Some 18"
    then show ?thesis using a [of 18] False unfolding parse_sv_packet_def m o(1) and_then_simps by simp
  qed (use False in \<open>simp add: parse_sv_packet_def m o(1)\<close>)
qed (simp add: parse_sv_packet_def)
subsection \<open>An encoded APDU\<close>

text \<open>
  The ASDU of the profile: eight channels of value and quality, the optional fields as they may occur.
\<close>

record ASDU =
  as_svid :: bytes
  as_datset :: "bytes option"
  as_smpCnt :: u16
  as_confRev :: u32
  as_refrTm :: "bytes option"
  as_smpSynch :: u8
  as_smpRate :: "bytes option"
  as_channels :: "(u32 \<times> u32) list"
  as_smpMod :: "bytes option"

definition opt_field :: "u8 \<Rightarrow> bytes option \<Rightarrow> (u8 \<times> bytes) list" where
  "opt_field tag v = (case v of None \<Rightarrow> [] | Some v \<Rightarrow> [(tag, v)])"

definition channel_bytes :: "(u32 \<times> u32) list \<Rightarrow> bytes" where
  "channel_bytes cs = concat (map (\<lambda>(v, q). put32 v @ put32 q) cs)"

definition asdu_fields :: "ASDU \<Rightarrow> (u8 \<times> bytes) list" where
  "asdu_fields a = [(0x80, as_svid a)] @ opt_field 0x81 (as_datset a) @
     [(0x82, put16 (as_smpCnt a)), (0x83, put32 (as_confRev a))] @ opt_field 0x84 (as_refrTm a) @
     [(0x85, [as_smpSynch a])] @ opt_field 0x86 (as_smpRate a) @ [(0x87, channel_bytes (as_channels a))] @
     opt_field 0x88 (as_smpMod a)"

definition fields_bytes :: "(u8 \<times> bytes) list \<Rightarrow> bytes" where
  "fields_bytes fs = concat (map (\<lambda>(tag, v). tlv tag v) fs)"

definition asdu_tlv :: "ASDU \<Rightarrow> bytes" where
  "asdu_tlv a = tlv 0x30 (fields_bytes (asdu_fields a))"

definition asdu_ok :: "ASDU \<Rightarrow> bool" where
  "asdu_ok a \<longleftrightarrow> as_svid a \<noteq> [] \<and> length (as_svid a) < 32768 \<and>
     (case as_datset a of None \<Rightarrow> True | Some v \<Rightarrow> v \<noteq> [] \<and> length v < 16384) \<and>
     (case as_refrTm a of None \<Rightarrow> True | Some v \<Rightarrow> length v = 8) \<and>
     (case as_smpRate a of None \<Rightarrow> True | Some v \<Rightarrow> length v = 2) \<and>
     (case as_smpMod a of None \<Rightarrow> True | Some v \<Rightarrow> length v = 2) \<and>
     length (as_channels a) = CHANNELS \<and> (\<forall>c \<in> set (as_channels a). snd c = QUALITY_GOOD)"

definition sv_apdu :: "bytes \<Rightarrow> ASDU list \<Rightarrow> bytes" where
  "sv_apdu noAsdu as = tlv 0x60 (tlv 0x80 noAsdu @ tlv 0xA2 (concat (map asdu_tlv as)))"

text \<open>One field of the walk.\<close>

lemma sv_field_tlv_step:
  assumes "length v < 65536" and "vf_pos f = length a" and "length a + length (tlv tag v) \<le> asduEnd"
    and "vf_previousTag f < tag"
    and "sv_field ((a @ tag # enc_len (length v)) @ v @ c) tag (length (a @ tag # enc_len (length v))) (length v)
      (f\<lparr> vf_previousTag := tag \<rparr>) = Some (Inr f')"
  shows "sv_field_step (a @ tlv tag v @ c) asduEnd f = Inl (f'\<lparr> vf_pos := length a + length (tlv tag v) \<rparr>)"
proof -
  let ?l = "enc_len (length v)" and ?buf = "a @ tlv tag v @ c"
  have r: "rd ?buf (length a) = Some tag" by (simp add: tlv_def rd_append)
  have d: "decode_asn1_len_bounded ?buf asduEnd (length a + 1) = Some (Some (length v, length a + 1 + length ?l))"
    using decode_asn1_len_bounded_enc [of "length v" "length a + 1" "a @ [tag]" asduEnd "v @ c"] assms(1,3)
    by (simp add: tlv_def)
  have buf: "(a @ tag # ?l) @ v @ c = ?buf" "length (a @ tag # ?l) = length a + 1 + length ?l" by (simp_all add: tlv_def)
  have lt: "\<not> asduEnd \<le> length a" "\<not> asduEnd - (length a + 1 + length ?l) < length v" "\<not> tag \<le> vf_previousTag f"
    using assms(3,4) by simp_all
  show ?thesis
    using lt assms(5) unfolding buf sv_field_step_def assms(2) r into_loop_simps d option.case prod.case
    by simp
qed

definition sv_take :: "u8 \<Rightarrow> bytes \<Rightarrow> SVFields \<Rightarrow> SVFields" where
  "sv_take tag v f = (if tag = 0x80 then f\<lparr> vf_svid := v, vf_foundSvid := True \<rparr>
     else if tag = 0x82 then f\<lparr> vf_smpCnt := ucast (be_number v), vf_foundSmpCnt := True \<rparr>
     else if tag = 0x83 then f\<lparr> vf_confRev := be_number v, vf_foundConfRev := True \<rparr>
     else if tag = 0x85 then f\<lparr> vf_foundSmpSynch := True \<rparr>
     else if tag = 0x87 then f\<lparr> vf_foundData := True \<rparr> else f)"

lemma be_number_put32: "be_number (put32 v) = v"
  using decode_asn1_number_value [of "put32 v" "[]" "[]"] get_u32_append [of 0 "[]" v "[]"]
  by (simp add: decode_asn1_number_def)

lemma be_number_put16: "be_number (put16 v) = ucast v"
proof -
  have "push_bit 8 (ucast (x :: u8)) OR ucast y = (ucast (be16 x y) :: u32)" for x y
    unfolding be16_def by (rule bit_word_eqI) (auto simp: bit_simps dest: bit_imp_le_length)
  then show ?thesis by (simp add: be_number_def put16_def be16_put16)
qed

lemma sv_quality_shift: "sv_quality apdu pos (map (\<lambda>off. off + k) offs) = sv_quality apdu (pos + k) offs"
proof (induction offs)
  case (Cons off offs)
  have "pos + (off + k) = pos + k + off" by simp
  with Cons show ?case by (simp only: list.map sv_quality.simps)
qed simp

lemma sv_quality_channels:
  "sv_quality (a @ channel_bytes cs @ c) (length a) (map (\<lambda>i. VALUE_SIZE + i * CHANNEL_SIZE) [0..<length cs]) =
    Some (\<forall>c \<in> set cs. snd c = QUALITY_GOOD)"
proof (induction cs arbitrary: a)
  case (Cons vq cs)
  obtain v q where vq: "vq = (v, q)" by (cases vq)
  let ?buf = "a @ channel_bytes (vq # cs) @ c"
  have buf: "?buf = (a @ put32 v) @ put32 q @ channel_bytes cs @ c" "?buf = (a @ put32 v @ put32 q) @ channel_bytes cs @ c"
    by (simp_all add: channel_bytes_def vq)
  have q: "decode_asn1_number ?buf (length a + 4) (of_nat QUALITY_SIZE) = Some q"
    using decode_asn1_number_value [of "put32 q" "a @ put32 v" "channel_bytes cs @ c"]
    by (simp add: buf(1) be_number_put32)
  have offs: "map (\<lambda>i. VALUE_SIZE + i * CHANNEL_SIZE) [0..<length (vq # cs)] =
      4 # map (\<lambda>off. off + 8) (map (\<lambda>i. VALUE_SIZE + i * CHANNEL_SIZE) [0..<length cs])"
    by (simp add: upt_conv_Cons map_Suc_upt [symmetric] comp_def del: upt_Suc)
  have "sv_quality ?buf (length a + 8) (map (\<lambda>i. VALUE_SIZE + i * CHANNEL_SIZE) [0..<length cs]) =
      Some (\<forall>c \<in> set cs. snd c = QUALITY_GOOD)"
    using Cons.IH [of "a @ put32 v @ put32 q"] by (simp add: buf(2))
  then show ?case unfolding offs sv_quality.simps sv_quality_shift q Option.bind.simps
    by (cases "q = QUALITY_GOOD") (simp_all add: vq)
qed simp

definition sv_value_ok :: "u8 \<Rightarrow> bytes \<Rightarrow> bool" where
  "sv_value_ok tag v \<longleftrightarrow> length v < 65536 \<and>
     (if tag = 0x80 then v \<noteq> [] else if tag = 0x81 then v \<noteq> [] else if tag = 0x82 then length v = 2
      else if tag = 0x83 then length v = 4 else if tag = 0x84 then length v = 8 else if tag = 0x85 then length v = 1
      else if tag = 0x86 then length v = 2
      else if tag = 0x87 then \<exists>cs. v = channel_bytes cs \<and> length cs = CHANNELS \<and> (\<forall>c \<in> set cs. snd c = QUALITY_GOOD)
      else tag = 0x88 \<and> length v = 2)"

text \<open>Fields found so far come before the current tag.\<close>

definition sv_seen :: "SVFields \<Rightarrow> bool" where
  "sv_seen f \<longleftrightarrow> (vf_foundSvid f \<longrightarrow> 0x80 \<le> vf_previousTag f) \<and> (vf_foundSmpCnt f \<longrightarrow> 0x82 \<le> vf_previousTag f) \<and>
     (vf_foundConfRev f \<longrightarrow> 0x83 \<le> vf_previousTag f) \<and> (vf_foundSmpSynch f \<longrightarrow> 0x85 \<le> vf_previousTag f) \<and>
     (vf_foundData f \<longrightarrow> 0x87 \<le> vf_previousTag f)"

lemma length_channel_bytes: "length (channel_bytes cs) = 8 * length cs"
  by (induction cs) (auto simp: channel_bytes_def)

lemma sv_field_value:
  assumes "sv_value_ok tag v" and "sv_seen f" and "vf_previousTag f < tag"
  shows "sv_field (a @ v @ c) tag (length a) (length v) (f\<lparr> vf_previousTag := tag \<rparr>) =
    Some (Inr (sv_take tag v (f\<lparr> vf_previousTag := tag \<rparr>)))"
proof -
  have len: "length v < 65536" using assms(1) by (simp add: sv_value_ok_def)
  have small: "length v < 4294967296" "length v < 2147483648" using len by simp_all
  have u: "unat (of_nat (length v) :: u32) = length v" using small(1) by (simp add: unsigned_of_nat take_bit_nat_eq_self)
  have view: "make_stringview (a @ v @ c) (length a) (of_nat (length v)) = Some v"
    using sint_small [OF small(2)] u rds_append [of "length a" a "length v" v c] by (simp add: make_stringview_def)
  have num: "0 < length v \<Longrightarrow> decode_asn1_number (a @ v @ c) (length a) (of_nat (length v)) = Some (be_number v)"
    using len by (rule decode_asn1_number_value [rotated])
  have new: "tag = 0x80 \<Longrightarrow> \<not> vf_foundSvid f" "tag = 0x82 \<Longrightarrow> \<not> vf_foundSmpCnt f" "tag = 0x83 \<Longrightarrow> \<not> vf_foundConfRev f"
    "tag = 0x85 \<Longrightarrow> \<not> vf_foundSmpSynch f" "tag = 0x87 \<Longrightarrow> \<not> vf_foundData f"
    using assms(2,3) by (auto simp: sv_seen_def)
  note ok = assms(1) [unfolded sv_value_ok_def]
  consider "tag = 0x80" | "tag = 0x81" | "tag = 0x82" | "tag = 0x83" | "tag = 0x84" | "tag = 0x85" | "tag = 0x86"
    | "tag = 0x87" | "tag = 0x88"
    using ok by argo
  then show ?thesis
  proof cases
    case 1 then show ?thesis using ok new(1) by (simp add: sv_field_def sv_take_def view)
  next
    case 2 then show ?thesis using ok by (simp add: sv_field_def sv_take_def)
  next
    case 3 then show ?thesis using ok new(2) num by (simp add: sv_field_def sv_take_def)
  next
    case 4 then show ?thesis using ok new(3) num by (simp add: sv_field_def sv_take_def)
  next
    case 5 then show ?thesis using ok by (simp add: sv_field_def sv_take_def)
  next
    case 6 then show ?thesis using ok new(4) by (simp add: sv_field_def sv_take_def)
  next
    case 7 then show ?thesis using ok by (simp add: sv_field_def sv_take_def)
  next
    case 8
    then obtain cs where cs: "v = channel_bytes cs" "length cs = CHANNELS" "\<forall>c \<in> set cs. snd c = QUALITY_GOOD"
      using ok by auto
    have "sv_quality (a @ v @ c) (length a) quality_offsets = Some True"
      using sv_quality_channels [of a cs c] cs by (simp add: quality_offsets_def)
    then show ?thesis using 8 new(5) cs(2) by (simp add: sv_field_def sv_take_def cs(1) length_channel_bytes)
  next
    case 9 then show ?thesis using ok by (simp add: sv_field_def sv_take_def)
  qed
qed

lemma sv_seen_take:
  assumes "sv_seen f" and "vf_previousTag f < tag"
  shows "sv_seen (sv_take tag v (f\<lparr> vf_previousTag := tag \<rparr>))"
proof -
  have le: "k \<le> vf_previousTag f \<Longrightarrow> k \<le> tag" for k
    using assms(2) by (meson order.strict_implies_order order_trans)
  have "(vf_foundSvid f \<longrightarrow> 0x80 \<le> tag) \<and> (vf_foundSmpCnt f \<longrightarrow> 0x82 \<le> tag) \<and>
     (vf_foundConfRev f \<longrightarrow> 0x83 \<le> tag) \<and> (vf_foundSmpSynch f \<longrightarrow> 0x85 \<le> tag) \<and> (vf_foundData f \<longrightarrow> 0x87 \<le> tag)"
    using assms(1) le unfolding sv_seen_def by blast
  then show ?thesis unfolding sv_seen_def sv_take_def by simp auto
qed

text \<open>The walk over the fields of an ASDU, in increasing order of their tags.\<close>

definition sv_takes :: "SVFields \<Rightarrow> (u8 \<times> bytes) list \<Rightarrow> SVFields" where
  "sv_takes f fs = foldl (\<lambda>f (tag, v). (sv_take tag v (f\<lparr> vf_previousTag := tag \<rparr>))
     \<lparr> vf_pos := vf_pos f + length (tlv tag v) \<rparr>) f fs"

lemma sv_walk_fields:
  assumes "buf = a @ fields_bytes fs @ c" and "\<forall>(tag, v) \<in> set fs. sv_value_ok tag v" and "vf_pos f = length a"
    and "asduEnd = length a + length (fields_bytes fs)" and "sv_seen f"
    and "sorted_wrt (<) (vf_previousTag f # map fst fs)"
  shows "run_nested (sv_field_step buf asduEnd) f = Some (Some (Inr (sv_takes f fs)))"
  using assms
proof (induction fs arbitrary: a f)
  case Nil
  then show ?case by (intro run_nested_Inr) (simp add: sv_field_step_def fields_bytes_def sv_takes_def)
next
  case (Cons tv fs)
  obtain tag v where tv: "tv = (tag, v)" by (cases tv)
  let ?f = "(sv_take tag v (f\<lparr> vf_previousTag := tag \<rparr>))\<lparr> vf_pos := length a + length (tlv tag v) \<rparr>"
  have ok: "sv_value_ok tag v" "length v < 65536" and lt: "vf_previousTag f < tag"
    using Cons.prems(2,6) by (auto simp: tv sv_value_ok_def)
  have buf: "buf = a @ tlv tag v @ fields_bytes fs @ c" using Cons.prems(1) by (simp add: fields_bytes_def tv)
  have "sv_field_step buf asduEnd f = Inl ?f"
    unfolding buf
    by (rule sv_field_tlv_step [OF ok(2) Cons.prems(3) _ lt sv_field_value [OF ok(1) Cons.prems(5) lt]])
      (use Cons.prems(4) in \<open>simp add: fields_bytes_def tv\<close>)
  note step = run_nested_Inl [of "sv_field_step buf asduEnd", OF this]
  have seen: "sv_seen ?f" using sv_seen_take [OF Cons.prems(5) lt, of v] by (simp add: sv_seen_def)
  have "vf_previousTag ?f = tag" by (simp add: sv_take_def)
  then have "run_nested (sv_field_step buf asduEnd) ?f = Some (Some (Inr (sv_takes ?f fs)))"
    using Cons.prems(2,4,6) seen buf
    by (intro Cons.IH [of "a @ tlv tag v"]) (auto simp: tv fields_bytes_def)
  then show ?case using step by (simp add: sv_takes_def tv Cons.prems(3))
qed

text \<open>What the fields of an ASDU leave behind.\<close>

lemma asdu_fields_ok:
  assumes "asdu_ok x"
  shows "\<forall>(tag, v) \<in> set (asdu_fields x). sv_value_ok tag v" and "sorted_wrt (<) (0 # map fst (asdu_fields x))"
proof -
  have "length (channel_bytes (as_channels x)) = 64" using assms by (simp add: asdu_ok_def length_channel_bytes)
  moreover have "\<exists>cs. channel_bytes (as_channels x) = channel_bytes cs \<and> length cs = CHANNELS \<and>
      (\<forall>c \<in> set cs. snd c = QUALITY_GOOD)" using assms by (auto simp: asdu_ok_def)
  ultimately show "\<forall>(tag, v) \<in> set (asdu_fields x). sv_value_ok tag v"
    using assms by (auto simp: asdu_fields_def opt_field_def asdu_ok_def sv_value_ok_def split: option.splits)
  show "sorted_wrt (<) (0 # map fst (asdu_fields x))"
    by (auto simp: asdu_fields_def opt_field_def split: option.splits)
qed

lemma asdu_takes:
  "\<exists>f. sv_takes (sv_fields_start pos) (asdu_fields x) = f \<and> vf_foundSvid f \<and> vf_foundSmpCnt f \<and> vf_foundConfRev f \<and>
    vf_foundSmpSynch f \<and> vf_foundData f \<and> vf_svid f = as_svid x \<and> vf_smpCnt f = as_smpCnt x \<and>
    vf_confRev f = as_confRev x \<and> vf_pos f = pos + length (fields_bytes (asdu_fields x))"
  by (auto simp: sv_takes_def asdu_fields_def opt_field_def sv_fields_start_def sv_take_def be_number_put16
      be_number_put32 fields_bytes_def split: option.split)

lemma asdu_fields_length:
  assumes "asdu_ok x" shows "length (fields_bytes (asdu_fields x)) < 65536"
  using assms length_enc_len(2) [of "length (as_svid x)"] 
  by (auto simp: fields_bytes_def asdu_fields_def opt_field_def asdu_ok_def length_channel_bytes enc_len_def split: option.splits)
text \<open>One ASDU of the walk.\<close>

lemma sv_asdu_tlv_step:
  assumes "asdu_ok x" and "vw_pos w = length a" and "length a + length (asdu_tlv x) \<le> sequenceEnd"
    and "vw_actualAsdus w = 0 \<or> (vp_svid (vw_pass w) = as_svid x \<and> vp_crev (vw_pass w) = as_confRev x)"
  shows "sv_asdu_step (a @ asdu_tlv x @ c) sequenceEnd n w =
    Inl (w\<lparr> vw_pos := length a + length (asdu_tlv x), vw_actualAsdus := vw_actualAsdus w + 1,
      vw_pass := (vw_pass w)\<lparr> vp_svid := as_svid x, vp_crev := as_confRev x \<rparr>,
      vw_state := (if vw_actualAsdus w = 0 then (vw_state w)\<lparr> sv_smpCnt := as_smpCnt x \<rparr> else vw_state w) \<rparr>)"
proof -
  let ?fs = "asdu_fields x"
  let ?v = "fields_bytes ?fs"
  let ?l = "enc_len (length ?v)" and ?buf = "a @ asdu_tlv x @ c"
  let ?p = "length a + 1 + length ?l" and ?e = "length a + length (asdu_tlv x)"
  have lt: "\<not> sequenceEnd \<le> length a" using assms(3) by (simp add: asdu_tlv_def)
  have t: "take_tlv ?buf sequenceEnd (length a) 0x30 = Some (Some (?p, ?e))"
    using take_tlv_enc [OF asdu_fields_length [OF assms(1)] refl, of a "0x30" sequenceEnd c] assms(3)
    by (simp add: asdu_tlv_def)
  have walk: "run_nested (sv_field_step ?buf ?e) (sv_fields_start ?p) = Some (Some (Inr (sv_takes (sv_fields_start ?p) ?fs)))"
    by (rule sv_walk_fields [where a = "a @ 0x30 # ?l" and c = c])
      (use asdu_fields_ok [OF assms(1)] in \<open>simp_all add: asdu_tlv_def tlv_def sv_fields_start_def sv_seen_def\<close>)
  obtain f where f: "sv_takes (sv_fields_start ?p) ?fs = f" "vf_foundSvid f" "vf_foundSmpCnt f" "vf_foundConfRev f"
    "vf_foundSmpSynch f" "vf_foundData f" "vf_svid f = as_svid x" "vf_smpCnt f = as_smpCnt x" "vf_confRev f = as_confRev x"
    "vf_pos f = ?p + length ?v"
    using asdu_takes [of ?p x] by blast
  have e: "vf_pos f = ?e" by (simp add: f(10) asdu_tlv_def)
  show ?thesis
    unfolding sv_asdu_step_def assms(2) t into_loop_simps option.case prod.case walk f(1) sum.case
    using lt assms(4) by (cases w) (auto simp: f(2-9) e assms(2))
qed

text \<open>The stream an APDU describes: all ASDUs agree with the first on identifier and revision.\<close>

definition same_stream :: "ASDU list \<Rightarrow> bool" where
  "same_stream as \<longleftrightarrow> (\<forall>x \<in> set as. asdu_ok x \<and> as_svid x = as_svid (hd as) \<and> as_confRev x = as_confRev (hd as))"

lemma sv_walk_asdus:
  assumes "buf = a @ concat (map asdu_tlv as) @ c" and "vw_pos w = length a"
    and "sequenceEnd = length a + length (concat (map asdu_tlv as))"
    and "\<forall>x \<in> set as. asdu_ok x \<and> as_svid x = svid \<and> as_confRev x = crev"
    and "0 < vw_actualAsdus w" and "vp_svid (vw_pass w) = svid" and "vp_crev (vw_pass w) = crev"
  shows "run_nested (sv_asdu_step buf sequenceEnd n) w =
    Some (Some (if vw_actualAsdus w + length as = n then Inr (vw_pass w, vw_state w) else Inl (-7)))"
  using assms
proof (induction as arbitrary: a w)
  case Nil
  then show ?case by (intro run_nested_Inr) (simp add: sv_asdu_step_def)
next
  case (Cons x as)
  let ?w = "w\<lparr> vw_pos := length a + length (asdu_tlv x), vw_actualAsdus := vw_actualAsdus w + 1 \<rparr>"
  have "sv_asdu_step buf sequenceEnd n w = Inl ?w"
    using sv_asdu_tlv_step [of x w a sequenceEnd "concat (map asdu_tlv as) @ c" n] Cons.prems
    by (cases w) auto
  note step = run_nested_Inl [of "sv_asdu_step buf sequenceEnd n", OF this]
  have "run_nested (sv_asdu_step buf sequenceEnd n) ?w =
      Some (Some (if vw_actualAsdus ?w + length as = n then Inr (vw_pass ?w, vw_state ?w) else Inl (-7)))"
    using Cons.prems by (intro Cons.IH [of "a @ asdu_tlv x"]) auto
  then show ?case by (simp add: step)
qed

lemma be_number_small: "length v = 1 \<or> length v = 2 \<Longrightarrow> unat (be_number v) < 65536"
proof (elim disjE)
  assume "length v = 1"
  then obtain a where "v = [a]" by (auto simp: length_Suc_conv)
  then show ?thesis using unsigned_less [where 'a = nat, of a] by (simp add: be_number_def)
next
  assume "length v = 2"
  then obtain a b where v: "v = [a, b]" by (auto simp: length_Suc_conv numeral_eq_Suc)
  then have "v = put16 (be16 a b)" by (simp add: put16_be16)
  then show ?thesis using unsigned_less [where 'a = nat, of "be16 a b"] by (simp only: be_number_put16) simp
qed

lemma parse_sv_apdu_asdus:
  assumes "as \<noteq> []" and "same_stream as" and "length noAsdu = 1 \<or> length noAsdu = 2"
    and "be_number noAsdu \<noteq> 0" and "length (sv_apdu noAsdu as) < 65536" and "length (sv_apdu noAsdu as) \<le> apduSize"
  shows "parse_sv_apdu (sv_apdu noAsdu as @ c) apduSize passport state =
    Some (Some (if length as = unat (be_number noAsdu)
      then Inr (passport\<lparr> vp_num := ucast (be_number noAsdu), vp_svid := as_svid (hd as), vp_crev := as_confRev (hd as) \<rparr>,
        state\<lparr> sv_smpCnt := as_smpCnt (hd as) \<rparr>)
      else Inl (-7)))"
proof -
  let ?seq = "concat (map asdu_tlv as)" and ?sz = "length (sv_apdu noAsdu as)"
  let ?pdu = "tlv 0x80 noAsdu @ tlv 0xA2 ?seq" and ?buf = "sv_apdu noAsdu as @ c"
  define h where "h = 0x60 # enc_len (length ?pdu)"
  define k where "k = h @ tlv 0x80 noAsdu"
  define g where "g = k @ 0xA2 # enc_len (length ?seq)"
  define n where "n = be_number noAsdu"
  have short: "enc_len (length noAsdu) = [of_nat (length noAsdu)]" "0 < length noAsdu" "length noAsdu < 65536"
    using assms(3) by (auto simp: enc_len_def)
  have buf: "?buf = h @ ?pdu @ c" "?buf = h @ tlv 0x80 noAsdu @ tlv 0xA2 ?seq @ c" "?buf = k @ tlv 0xA2 ?seq @ c"
    "?buf = g @ ?seq @ c" "?buf = (h @ [0x80]) @ enc_len (length noAsdu) @ noAsdu @ tlv 0xA2 ?seq @ c"
    "?buf = (h @ [0x80] @ enc_len (length noAsdu)) @ noAsdu @ tlv 0xA2 ?seq @ c"
    by (simp_all add: sv_apdu_def h_def k_def g_def tlv_def)
  have sz: "?sz = length h + length ?pdu" "?sz = length k + length (tlv 0xA2 ?seq)" "?sz = length g + length ?seq"
    by (simp_all add: sv_apdu_def h_def k_def g_def)
  have lens: "length ?pdu < 65536" "length ?seq < 65536" using assms(5) sz by simp_all
  have t1: "take_tlv ?buf apduSize 0 0x60 = Some (Some (length h, ?sz))"
    using take_tlv_enc [OF lens(1), of 0 "[]" "0x60" apduSize c] assms(6) by (simp add: sv_apdu_def h_def)
  have r: "rd ?buf (length h) = Some 0x80" unfolding buf(2) by (simp add: tlv_def rd_append)
  have lt: "\<not> ?sz \<le> length h" using sz(1) by simp
  have d: "decode_asn1_len_bounded ?buf ?sz (length h + 1) = Some (Some (length noAsdu, length h + 2))"
    using decode_asn1_len_bounded_enc [of "length noAsdu" "length h + 1" "h @ [0x80]" ?sz "noAsdu @ tlv 0xA2 ?seq @ c"]
      short sz(1) by (simp add: buf(5))
  have fit: "\<not> ?sz - (length h + 2) < length noAsdu" using sz(1) short(1) by simp
  have num: "decode_asn1_number ?buf (length h + 2) (of_nat (length noAsdu)) = Some n"
    using decode_asn1_number_value [of noAsdu "h @ [0x80] @ enc_len (length noAsdu)" "tlv 0xA2 ?seq @ c"] short
    by (simp add: buf(6) n_def)
  have small: "\<not> 0xFFFF < n"
  proof -
    have "unat n < 65536"
      using assms(3) be_number_small [of noAsdu] by (auto simp: n_def)
    then show ?thesis by (simp add: word_less_nat_alt)
  qed
  have k: "length h + 2 + length noAsdu = length k" using short(1) by (simp add: k_def)
  have t2: "take_tlv ?buf ?sz (length k) 0xA2 = Some (Some (length g, ?sz))"
    using take_tlv_enc [OF lens(2), of "length k" k "0xA2" ?sz c] sz(2) by (simp add: buf(3) g_def)
  obtain x xs where as: "as = x # xs" using assms(1) by (cases as) auto
  have split: "?buf = g @ asdu_tlv x @ concat (map asdu_tlv xs) @ c" unfolding buf(4) by (simp add: as)
  have x: "asdu_ok x" "length g + length (asdu_tlv x) \<le> ?sz" using assms(2) sz(3) by (simp_all add: as same_stream_def)
  let ?w = "\<lparr> vw_pos = length g, vw_actualAsdus = 0, vw_pass = passport\<lparr> vp_num := ucast n \<rparr>, vw_state = state \<rparr>"
  let ?w1 = "\<lparr> vw_pos = length g + length (asdu_tlv x), vw_actualAsdus = 1,
    vw_pass = passport\<lparr> vp_num := ucast n, vp_svid := as_svid x, vp_crev := as_confRev x \<rparr>,
    vw_state = state\<lparr> sv_smpCnt := as_smpCnt x \<rparr> \<rparr>"
  have "sv_asdu_step ?buf ?sz (unat n) ?w = Inl ?w1"
    using sv_asdu_tlv_step [of x ?w g ?sz "concat (map asdu_tlv xs) @ c" "unat n"] x
    unfolding split by simp
  note first = run_nested_Inl [of "sv_asdu_step ?buf ?sz (unat n)", OF this]
  have "run_nested (sv_asdu_step ?buf ?sz (unat n)) ?w1 =
      Some (Some (if vw_actualAsdus ?w1 + length xs = unat n then Inr (vw_pass ?w1, vw_state ?w1) else Inl (-7)))"
    by (rule sv_walk_asdus [of _ "g @ asdu_tlv x" xs c])
      (use assms(2) sz(3) split in \<open>auto simp: as same_stream_def\<close>)
  moreover have "vw_actualAsdus ?w1 + length xs = length as" by (simp add: as)
  ultimately have walk: "run_nested (sv_asdu_step ?buf ?sz (unat n)) ?w =
      Some (Some (if length as = unat n then Inr (vw_pass ?w1, vw_state ?w1) else Inl (-7)))"
    by (simp only: first)
  have hd: "hd as = x" by (simp add: as)
  show ?thesis
    unfolding parse_sv_apdu_def t1 and_then_simps option.case prod.case r d num Let_def k t2
    using lt fit small assms(3,4) by (auto simp: walk hd n_def [symmetric])
qed
subsection \<open>Whole frames\<close>

lemma parse_sv_frame:
  assumes "as \<noteq> []" and "same_stream as" and "length noAsdu = 1 \<or> length noAsdu = 2" and "be_number noAsdu \<noteq> 0"
    and "length (sv_apdu noAsdu as) < 65536" and "length res = 6"
    and "frame = l2_header dmac smac vlan 0xBA appid res @ sv_apdu noAsdu as @ pad" and "64 \<le> length frame"
  shows "parse_sv_packet frame (length frame) passport state =
    Some (Some (if length as = unat (be_number noAsdu)
      then Inr (passport\<lparr> vp_dmac := dmac, vp_appid := appid, vp_num := ucast (be_number noAsdu),
          vp_svid := as_svid (hd as), vp_crev := as_confRev (hd as) \<rparr>, state\<lparr> sv_smpCnt := as_smpCnt (hd as) \<rparr>)
      else Inl (-7)))"
proof -
  let ?h = "l2_header dmac smac vlan 0xBA appid res" and ?rest = "sv_apdu noAsdu as @ pad"
  have "2 \<le> length ?rest" using length_enc_len(1) by (simp add: sv_apdu_def)
  note hdr = l2_header_fields [OF assms(6) this, where dmac = dmac and smac = smac and vlan = vlan and
      lo = "0xBA" and appid = appid, folded assms(7)]
  have "parse_sv_packet frame (length frame) passport state =
      parse_sv_apdu ?rest (length ?rest) (passport\<lparr> vp_dmac := dmac, vp_appid := appid \<rparr>) state"
    using assms(8) unfolding parse_sv_packet_def hdr(1-3) and_then_simps option.case Let_def hdr(4)
    by (simp add: assms(7))
  also have "\<dots> = Some (Some (if length as = unat (be_number noAsdu)
      then Inr (passport\<lparr> vp_dmac := dmac, vp_appid := appid, vp_num := ucast (be_number noAsdu),
          vp_svid := as_svid (hd as), vp_crev := as_confRev (hd as) \<rparr>, state\<lparr> sv_smpCnt := as_smpCnt (hd as) \<rparr>)
      else Inl (-7)))"
    by (subst parse_sv_apdu_asdus [OF assms(1-5)]) simp_all
  finally show ?thesis .
qed

subsection \<open>Properties\<close>

text \<open>
  C19: the SV parser is total and stays inside the frame: for every frame content and every size up to
  the frame's length it returns a result; no length field, however crafted, makes it loop or read
  outside the buffer.
\<close>

theorem sv_parser_safe:
  assumes "sz \<le> length buffer" and "length buffer < 2 ^ 31"
  shows "\<exists>r. parse_sv_packet buffer sz passport state = Some (Some r)"
  using assms by (rule parse_sv_packet_safe)

theorem sv_parser_safe_witness:
  "\<exists>r. parse_sv_packet (replicate 70 0x60) 70 SVStreamPassport_init SVStreamState_init = Some (Some r)"
  by (rule sv_parser_safe) simp_all

text \<open>
  C20: an L2 Sampled Values frame, with or without VLAN tag and with any padding behind the APDU, whose
  ASDUs describe one stream with good quality in every channel is accepted exactly when the declared
  number of ASDUs is the actual one, and the parser reports the addresses, the APPID and the identifier,
  revision and sample counter of the first ASDU.
\<close>

theorem sv_frame_understood:
  assumes "as \<noteq> []" and "same_stream as" and "length noAsdu = 1 \<or> length noAsdu = 2" and "be_number noAsdu \<noteq> 0"
    and "length (sv_apdu noAsdu as) < 65536" and "length res = 6"
    and "frame = l2_header dmac smac vlan 0xBA appid res @ sv_apdu noAsdu as @ pad" and "64 \<le> length frame"
  shows "parse_sv_packet frame (length frame) passport state =
    Some (Some (if length as = unat (be_number noAsdu)
      then Inr (passport\<lparr> vp_dmac := dmac, vp_appid := appid, vp_num := ucast (be_number noAsdu),
          vp_svid := as_svid (hd as), vp_crev := as_confRev (hd as) \<rparr>, state\<lparr> sv_smpCnt := as_smpCnt (hd as) \<rparr>)
      else Inl (-7)))"
  using assms by (rule parse_sv_frame)

definition sample_asdu :: "u16 \<Rightarrow> ASDU" where
  "sample_asdu n = \<lparr> as_svid = [0x53, 0x31], as_datset = None, as_smpCnt = n, as_confRev = 1, as_refrTm = None,
     as_smpSynch = 2, as_smpRate = None, as_channels = replicate 8 (5, 0), as_smpMod = None \<rparr>"

lemma sample_asdus: "same_stream [sample_asdu 6, sample_asdu 7]" "length (sv_apdu [2] [sample_asdu 6, sample_asdu 7]) = 179"
  by (simp_all add: same_stream_def asdu_ok_def sample_asdu_def sv_apdu_def asdu_tlv_def fields_bytes_def asdu_fields_def
      opt_field_def length_channel_bytes enc_len_def)

theorem sv_frame_understood_witness:
  "parse_sv_packet (l2_header mac_zero mac_zero None 0xBA 9 (replicate 6 0) @ sv_apdu [2] [sample_asdu 6, sample_asdu 7] @ [])
     201 SVStreamPassport_init SVStreamState_init =
   Some (Some (Inr (SVStreamPassport_init\<lparr> vp_dmac := mac_zero, vp_appid := 9, vp_num := 2, vp_svid := [0x53, 0x31],
     vp_crev := 1 \<rparr>, \<lparr> sv_smpCnt = 6 \<rparr>)))"
proof -
  let ?frame = "l2_header mac_zero mac_zero None 0xBA 9 (replicate 6 0) @ sv_apdu [2] [sample_asdu 6, sample_asdu 7] @ []"
  have len: "length ?frame = 201" by (simp add: length_l2_header sample_asdus)
  have n: "be_number [2] = 2" by (simp add: be_number_def)
  show ?thesis
    using sv_frame_understood [of "[sample_asdu 6, sample_asdu 7]" "[2]" "replicate 6 0" ?frame mac_zero mac_zero None 9 "[]"
        SVStreamPassport_init SVStreamState_init]
    unfolding len n by (simp add: sample_asdus n) (simp add: sample_asdu_def SVStreamState_init_def)
qed

end
