(* ===== verification/R_Parser.thy ===== *)
theory R_Parser
  imports R_Frame SV_Parser
begin

text \<open>
  Classification and unwrapping of routable frames: \<open>get_proto_type\<close> of
  \<open>src/bus_processor/process_bus_parser.hpp\<close>, \<open>validate_r_envelope\<close>, \<open>unwrap_r_frame\<close>,
  \<open>parse_r_goose_packet\<close> and \<open>parse_r_sv_packet\<close> of \<open>process_bus_parser.cpp\<close>. The checksum verdict
  of the network card is a parameter (\<open>RxIpCksum\<close>, the values of the flags under
  \<open>RTE_MBUF_F_RX_IP_CKSUM_MASK\<close>). The variant of \<open>unwrap_r_frame\<close> for the RK3566, which decrypts a
  copy of the frame, is compiled only there and not modelled.
\<close>

subsection \<open>Protocol type\<close>

datatype BUS_PROTO = NON_BUS_PROTO | BUS_PROTO_SV | BUS_PROTO_GOOSE | BUS_PROTO_R_GOOSE | BUS_PROTO_R_SV

abbreviation (input) R_SI_OFFSET :: nat where "R_SI_OFFSET \<equiv> ETH_IP_UDP_SIZE + OFF_SI"
abbreviation (input) R_MIN_FRAME_SIZE :: nat where "R_MIN_FRAME_SIZE \<equiv> ETH_IP_UDP_SIZE + SESSION_FIXED_SIZE + 4"
abbreviation (input) R_PARSE_ERR_AUTH :: int where "R_PARSE_ERR_AUTH \<equiv> -10"

text \<open>A chain of byte comparisons with \<open>&&\<close>: the bytes behind the first mismatch are not read.\<close>

primrec matches :: "bytes \<Rightarrow> (nat \<times> u8) list \<Rightarrow> bool option" where
  "matches buffer [] = Some True"
| "matches buffer (iv # ivs) = do {
     b \<leftarrow> rd buffer (fst iv);
     if b = snd iv then matches buffer ivs else Some False }"

definition get_appid :: "bytes \<Rightarrow> u16 option" where
  "get_appid buffer = get_u16 buffer 18"

text \<open>The protocol and what it leaves in \<open>*appid\<close>.\<close>

definition get_proto_type :: "bytes \<Rightarrow> u32 \<Rightarrow> nat \<Rightarrow> (BUS_PROTO \<times> u32) option" where
  "get_proto_type buffer appid sz = do {
     vlan \<leftarrow> matches buffer [(12, 0x81), (13, 0x00)];
     vlanSv \<leftarrow> (if vlan then matches buffer [(16, 0x88), (17, 0xBA)] else Some False);
     if vlanSv then do { a \<leftarrow> get_appid buffer; Some (BUS_PROTO_SV, ucast a) }
     else do {
       vlanGoose \<leftarrow> (if vlan then matches buffer [(16, 0x88), (17, 0xB8)] else Some False);
       if vlanGoose then do { a \<leftarrow> get_appid buffer; Some (BUS_PROTO_GOOSE, ucast a) }
       else do {
         sv \<leftarrow> matches buffer [(12, 0x88), (13, 0xBA)];
         if sv then do { a \<leftarrow> get_u16 buffer 14; Some (BUS_PROTO_SV, ucast a) }
         else do {
           goose \<leftarrow> matches buffer [(12, 0x88), (13, 0xB8)];
           if goose then do { a \<leftarrow> get_u16 buffer 14; Some (BUS_PROTO_GOOSE, ucast a) }
           else do {
             ipv4 \<leftarrow> matches buffer [(12, 0x08), (13, 0x00)];
             udp \<leftarrow> (if ipv4 \<and> R_MIN_FRAME_SIZE \<le> sz
                     then matches buffer [(14, 0x45), (23, 0x11), (36, 0x00), (37, 0x66)] else Some False);
             if udp then do {
               si \<leftarrow> rd buffer R_SI_OFFSET;
               if si = SI_R_GOOSE \<or> si = SI_R_SV then do {
                 a \<leftarrow> get_u16 buffer 34;
                 Some (if si = SI_R_GOOSE then BUS_PROTO_R_GOOSE else BUS_PROTO_R_SV, ucast a) }
               else Some (NON_BUS_PROTO, appid) }
             else Some (NON_BUS_PROTO, appid) } } } } }"

subsection \<open>The envelope\<close>

datatype R_ENV_ERR = R_ENV_ERR_NOT_IPV4 | R_ENV_ERR_IHL | R_ENV_ERR_IP_LEN | R_ENV_ERR_FRAGMENT | R_ENV_ERR_PROTO
  | R_ENV_ERR_UDP_PORT | R_ENV_ERR_UDP_LEN | R_ENV_ERR_IP_CKSUM

datatype RxIpCksum = IP_CKSUM_UNKNOWN | IP_CKSUM_BAD | IP_CKSUM_GOOD | IP_CKSUM_NONE

definition ipv4_checksum_ok :: "bytes \<Rightarrow> nat \<Rightarrow> bool option" where
  "ipv4_checksum_ok buffer ipHeader = do { s \<leftarrow> ipv4_sum buffer ipHeader; Some (csum_fold s = 0xFFFF) }"

text \<open>\<open>Inr\<close> is \<open>R_ENV_OK\<close> with the destination group.\<close>

definition validate_r_envelope :: "bytes \<Rightarrow> nat \<Rightarrow> RxIpCksum \<Rightarrow> (R_ENV_ERR + u32) option" where
  "validate_r_envelope buffer sz ck =
     (if sz < 14 + 20 then Some (Inl R_ENV_ERR_NOT_IPV4)
      else do {
        ipv4 \<leftarrow> matches buffer [(12, 0x08), (13, 0x00)];
        if \<not> ipv4 then Some (Inl R_ENV_ERR_NOT_IPV4)
        else do {
          let ip = 14;
          vihl \<leftarrow> rd buffer ip;
          if vihl \<noteq> 0x45 then Some (Inl R_ENV_ERR_IHL)
          else do {
            ipTotalLen \<leftarrow> get_u16 buffer (ip + 2);
            if ipTotalLen < 28 \<or> sz < 14 + unat ipTotalLen then Some (Inl R_ENV_ERR_IP_LEN)
            else do {
              flagsFrag \<leftarrow> get_u16 buffer (ip + 6);
              if flagsFrag AND 0x2000 \<noteq> 0 \<or> flagsFrag AND 0x1FFF \<noteq> 0 then Some (Inl R_ENV_ERR_FRAGMENT)
              else do {
                proto \<leftarrow> rd buffer (ip + 9);
                if proto \<noteq> 17 then Some (Inl R_ENV_ERR_PROTO)
                else do {
                  let udp = ip + 20;
                  port \<leftarrow> get_u16 buffer (udp + 2);
                  if port \<noteq> UDP_DST_PORT then Some (Inl R_ENV_ERR_UDP_PORT)
                  else do {
                    udpLen \<leftarrow> get_u16 buffer (udp + 4);
                    if udpLen < 8 \<or> unat udpLen \<noteq> unat ipTotalLen - 20 then Some (Inl R_ENV_ERR_UDP_LEN)
                    else if ck = IP_CKSUM_BAD then Some (Inl R_ENV_ERR_IP_CKSUM)
                    else do {
                      good \<leftarrow> (if ck = IP_CKSUM_UNKNOWN then ipv4_checksum_ok buffer ip else Some True);
                      if \<not> good then Some (Inl R_ENV_ERR_IP_CKSUM)
                      else do { dstIP \<leftarrow> get_u32 buffer (ip + 16); Some (Inr dstIP) } } } } } } } } })"

subsection \<open>Unwrapping\<close>

text \<open>A routine that works on the buffer from offset \<open>p\<close> on.\<close>

definition within :: "bytes \<Rightarrow> nat \<Rightarrow> (bytes \<Rightarrow> ('a \<times> bytes) option) \<Rightarrow> ('a \<times> bytes) option" where
  "within buffer p f = do { (r, tail) \<leftarrow> f (drop p buffer); Some (r, take p buffer @ tail) }"

text \<open>
  \<open>Inl\<close> is the negative error code; on success the buffer, the session and payload headers, the offset
  of the APDU in the frame and its size.
\<close>

definition unwrap_r_frame ::
    "bytes \<Rightarrow> nat \<Rightarrow> u8 \<Rightarrow> u8 \<Rightarrow> SecurityMode \<Rightarrow> Crypto \<Rightarrow>
     (int + bytes \<times> SessionHeader \<times> PayloadHeader \<times> nat \<times> nat) option" where
  "unwrap_r_frame buffer sz expectedSI expectedType mode crypto =
     (if sz < ETH_IP_UDP_SIZE + apdu_offset 0 then Some (Inl (parse_error_code ERR_TOO_SHORT))
      else do {
        ipTotalLen \<leftarrow> get_u16 buffer 16;
        if ipTotalLen < 28 \<or> sz < 14 + unat ipTotalLen then Some (Inl (parse_error_code ERR_TOO_SHORT))
        else do {
          let udpSize = unat ipTotalLen - 28;
          r \<leftarrow> parse_session (drop ETH_IP_UDP_SIZE buffer) udpSize;
          (case r of
             Inl e \<Rightarrow> Some (Inl (parse_error_code e))
           | Inr (phOff, session) \<Rightarrow>
               if sh_si session \<noteq> expectedSI then Some (Inl (parse_error_code ERR_BAD_SI))
               else do {
                 (ok, buffer) \<leftarrow> (if mode \<noteq> SEC_NONE
                    then within buffer ETH_IP_UDP_SIZE (\<lambda>udp. unseal udp udpSize mode session crypto)
                    else Some (True, buffer));
                 if \<not> ok then Some (Inl R_PARSE_ERR_AUTH)
                 else do {
                   r \<leftarrow> parse_payload (drop ETH_IP_UDP_SIZE buffer) udpSize session;
                   (case r of
                      Inl e \<Rightarrow> Some (Inl (parse_error_code e))
                    | Inr (apduOff, phdr) \<Rightarrow>
                        if ph_payloadType phdr \<noteq> expectedType then Some (Inl (parse_error_code ERR_BAD_PAYLOAD_TYPE))
                        else Some (Inr (buffer, session, phdr, ETH_IP_UDP_SIZE + apduOff, unat (ph_apduSize phdr)))) } }) } })"

definition parse_r_goose_packet ::
    "bytes \<Rightarrow> nat \<Rightarrow> SecurityMode \<Rightarrow> Crypto \<Rightarrow> GoosePassport \<Rightarrow> GooseState \<Rightarrow>
     (int + SessionHeader \<times> GoosePassport \<times> GooseState) option option" where
  "parse_r_goose_packet buffer sz mode crypto passport state =
     and_then (Some (unwrap_r_frame buffer sz SI_R_GOOSE PAYLOAD_TYPE_GOOSE mode crypto)) (\<lambda>r. case r of
         Inl e \<Rightarrow> Some (Some (Inl e))
       | Inr (buffer, session, phdr, apduOff, apduSize) \<Rightarrow>
           and_then (Some (mac_at buffer 0)) (\<lambda>dmac.
             let passport = passport\<lparr> gp_dmac := dmac, gp_appid := ph_appid phdr \<rparr>; apdu = drop apduOff buffer
             in if apduSize < 2 then Some (Some (Inl (-3)))
                else and_then (Some (rd apdu 0)) (\<lambda>tag.
                  if tag \<noteq> 0x61 then Some (Some (Inl (-3)))
                  else and_then (Some (decode_asn1_len apdu 1)) (\<lambda>(pduSize, pos).
                    and_then (r_goose_walk apdu apduSize (walk_start pos passport state)) (\<lambda>r.
                      Some (Some (map_sum id (Pair session) r)))))))"

definition parse_r_sv_packet ::
    "bytes \<Rightarrow> nat \<Rightarrow> SecurityMode \<Rightarrow> Crypto \<Rightarrow> SVStreamPassport \<Rightarrow> SVStreamState \<Rightarrow>
     (int + SessionHeader \<times> SVStreamPassport \<times> SVStreamState) option option" where
  "parse_r_sv_packet buffer sz mode crypto passport state =
     and_then (Some (unwrap_r_frame buffer sz SI_R_SV PAYLOAD_TYPE_SV mode crypto)) (\<lambda>r. case r of
         Inl e \<Rightarrow> Some (Some (Inl e))
       | Inr (buffer, session, phdr, apduOff, apduSize) \<Rightarrow>
           and_then (Some (mac_at buffer 0)) (\<lambda>dmac.
             and_then (parse_sv_apdu (drop apduOff buffer) apduSize
                 (passport\<lparr> vp_dmac := dmac, vp_appid := ph_appid phdr \<rparr>) state) (\<lambda>r.
               Some (Some (map_sum id (Pair session) r)))))"

subsection \<open>Bounds\<close>

lemma matches_Some: "\<forall>iv \<in> set ivs. fst iv < length buffer \<Longrightarrow> \<exists>b. matches buffer ivs = Some b"
  by (induction ivs) auto

lemma ipv4_sum_Some: "p + 20 \<le> length buffer \<Longrightarrow> \<exists>s. ipv4_sum buffer p = Some s"
  by (simp add: ipv4_sum_def)

lemma validate_r_envelope_safe:
  assumes "sz \<le> length buffer"
  shows "\<exists>r. validate_r_envelope buffer sz ck = Some r"
proof (cases "sz < 34")
  case False
  then have len: "34 \<le> length buffer" using assms by simp
  then obtain m where m: "matches buffer [(12, 0x08), (13, 0x00)] = Some m" using matches_Some [of "[(12, 0x08), (13, 0x00)]" buffer] by auto
  obtain s where s: "ipv4_sum buffer 14 = Some s" using ipv4_sum_Some [of 14 buffer] len by auto
  have l: "unat l \<ge> 28" if "\<not> l < (28 :: u16)" for l using that by (simp add: word_less_nat_alt)
  define tot where "tot = be16 (buffer ! 16) (buffer ! 17)"
  have t: "get_u16 buffer 16 = Some tot" using len by (simp add: tot_def)
  have "42 \<le> length buffer" if "\<not> tot < 28" "\<not> sz < 14 + unat tot" using l [OF that(1)] that(2) assms by simp
  then have "\<not> tot < 28 \<Longrightarrow> \<not> sz < 14 + unat tot \<Longrightarrow> \<exists>v. get_u16 buffer 36 = Some v"
    "\<not> tot < 28 \<Longrightarrow> \<not> sz < 14 + unat tot \<Longrightarrow> \<exists>v. get_u16 buffer 38 = Some v" by simp_all
  then show ?thesis
    using False len m s t
    by (auto simp: validate_r_envelope_def ipv4_checksum_ok_def Let_def)
qed (simp add: validate_r_envelope_def)

lemma get_proto_type_safe:
  assumes "38 \<le> length buffer" and "sz \<le> length buffer"
  shows "\<exists>r. get_proto_type buffer appid sz = Some r"
proof -
  have m: "\<exists>b. matches buffer ivs = Some b" if "\<forall>iv \<in> set ivs. fst iv < 38" for ivs
    using matches_Some [of ivs buffer] assms(1) that by fastforce
  obtain b1 b2 b3 b4 b5 b6 b7 where
    "matches buffer [(12, 0x81), (13, 0x00)] = Some b1" "matches buffer [(16, 0x88), (17, 0xBA)] = Some b2"
    "matches buffer [(16, 0x88), (17, 0xB8)] = Some b3" "matches buffer [(12, 0x88), (13, 0xBA)] = Some b4"
    "matches buffer [(12, 0x88), (13, 0xB8)] = Some b5" "matches buffer [(12, 0x08), (13, 0x00)] = Some b6"
    "matches buffer [(14, 0x45), (23, 0x11), (36, 0x00), (37, 0x66)] = Some b7"
    using m [of "[(12, 0x81), (13, 0x00)]"] m [of "[(16, 0x88), (17, 0xBA)]"] m [of "[(16, 0x88), (17, 0xB8)]"]
      m [of "[(12, 0x88), (13, 0xBA)]"] m [of "[(12, 0x88), (13, 0xB8)]"] m [of "[(12, 0x08), (13, 0x00)]"]
      m [of "[(14, 0x45), (23, 0x11), (36, 0x00), (37, 0x66)]"] by auto
  then show ?thesis using assms unfolding get_proto_type_def get_appid_def
    by (auto simp del: matches.simps)
qed

text \<open>The frame as \<open>unseal\<close> leaves it, with its verdict.\<close>

definition unsealed :: "bytes \<Rightarrow> nat \<Rightarrow> SecurityMode \<Rightarrow> SessionHeader \<Rightarrow> Crypto \<Rightarrow> (bool \<times> bytes) option" where
  "unsealed buffer n mode session crypto =
     (if mode \<noteq> SEC_NONE then within buffer ETH_IP_UDP_SIZE (\<lambda>udp. unseal udp n mode session crypto)
      else Some (True, buffer))"

lemma unwrap_r_frame_eq:
  assumes "79 \<le> sz" and "get_u16 buffer 16 = Some tot" and "28 \<le> unat tot" and "14 + unat tot \<le> sz"
    and "parse_session (drop ETH_IP_UDP_SIZE buffer) (unat tot - 28) = Some (Inr (phOff, session))"
    and "unsealed buffer (unat tot - 28) mode session crypto = Some (ok, buffer')"
    and "parse_payload (drop ETH_IP_UDP_SIZE buffer') (unat tot - 28) session = Some pr"
  shows "unwrap_r_frame buffer sz si ty mode crypto =
    (if sh_si session \<noteq> si then Some (Inl (-3)) else if \<not> ok then Some (Inl R_PARSE_ERR_AUTH)
     else case pr of Inl e \<Rightarrow> Some (Inl (parse_error_code e))
       | Inr (apduOff, phdr) \<Rightarrow> if ph_payloadType phdr \<noteq> ty then Some (Inl (-7))
           else Some (Inr (buffer', session, phdr, ETH_IP_UDP_SIZE + apduOff, unat (ph_apduSize phdr))))"
proof -
  have lt: "\<not> sz < ETH_IP_UDP_SIZE + apdu_offset 0" "\<not> (tot < 28 \<or> sz < 14 + unat tot)"
    using assms(1,3,4) by (simp_all add: apdu_offset_def payload_hdr_offset_def word_less_nat_alt)
  show ?thesis
    unfolding unwrap_r_frame_def if_not_P [OF lt(1)] assms(2) Let_def Option.bind.simps if_not_P [OF lt(2)] assms(5)
      sum.case prod.case assms(6) [unfolded unsealed_def] assms(7)
    by (auto split: sum.split)
qed

lemma unwrap_r_frame_safe:
  assumes "sz \<le> length buffer" and "decrypts_in_place crypto"
  shows "\<exists>r. unwrap_r_frame buffer sz si ty mode crypto = Some r \<and>
    (\<forall>buffer' session phdr off n. r = Inr (buffer', session, phdr, off, n) \<longrightarrow>
       length buffer' = length buffer \<and> 79 \<le> sz \<and> off + n \<le> sz)"
proof (cases "sz < 79")
  case True
  then show ?thesis by (simp add: unwrap_r_frame_def apdu_offset_def payload_hdr_offset_def)
next
  case False
  define tot where "tot = be16 (buffer ! 16) (buffer ! 17)"
  have t: "get_u16 buffer 16 = Some tot" using False assms(1) by (simp add: tot_def)
  let ?udp = "drop 42 buffer" and ?n = "unat tot - 28"
  show ?thesis
  proof (cases "tot < 28 \<or> sz < 14 + unat tot")
    case True
    then show ?thesis using t by (auto simp: unwrap_r_frame_def)
  next
    case ok: False
    then have tot: "28 \<le> unat tot" "14 + unat tot \<le> sz" by (simp_all add: word_less_nat_alt)
    have n: "?n \<le> length ?udp" using tot assms(1) by simp
    obtain r where r: "parse_session ?udp ?n = Some r" using parse_session_bounded [OF n] by blast
    show ?thesis
    proof (cases r)
      case (Inl e)
      then show ?thesis using False ok t r by (simp add: unwrap_r_frame_def apdu_offset_def payload_hdr_offset_def)
    next
      case (Inr x)
      obtain phOff session where s: "parse_session ?udp ?n = Some (Inr (phOff, session))" using Inr r by (cases x) auto
      obtain good udp' where u: "unseal ?udp ?n mode session crypto = Some (good, udp')" "length udp' = length ?udp"
        using unseal_bounded [OF n s assms(2)] by blast
      obtain ok' b where b: "unsealed buffer ?n mode session crypto = Some (ok', b)" "length b = length buffer"
        using u tot assms(1) by (cases "mode = SEC_NONE") (auto simp: unsealed_def within_def)
      obtain pr where pr: "parse_payload (drop 42 b) ?n session = Some pr"
        using parse_payload_bounded [of ?n "drop 42 b"] b(2) n by auto
      note sizes = parse_session_sizes [OF s]
      have fit: "42 + off + unat (ph_apduSize phdr) \<le> sz"
        if "pr = Inr (off, phdr)" for off phdr
      proof -
        have p: "off = phOff + 10" "ph_apduSize phdr = sh_payloadLength session - 6"
          using pr that sizes(1) by (auto simp: parse_payload_def Let_def bind_eq_Some_conv split: if_splits)
        have "(6 :: u32) \<le> sh_payloadLength session" using sizes(2) by (simp add: word_le_nat_alt)
        then have "unat (ph_apduSize phdr) = unat (sh_payloadLength session) - 6" by (simp add: p(2) unat_sub)
        then show ?thesis using p(1) sizes(2,3) tot by simp
      qed
      have "unwrap_r_frame buffer sz si ty mode crypto =
        (if sh_si session \<noteq> si then Some (Inl (-3)) else if \<not> ok' then Some (Inl R_PARSE_ERR_AUTH)
         else case pr of Inl e \<Rightarrow> Some (Inl (parse_error_code e))
           | Inr (apduOff, phdr) \<Rightarrow> if ph_payloadType phdr \<noteq> ty then Some (Inl (-7))
               else Some (Inr (b, session, phdr, ETH_IP_UDP_SIZE + apduOff, unat (ph_apduSize phdr))))"
        by (rule unwrap_r_frame_eq) (use False t tot s b pr in simp_all)
      then show ?thesis using b(2) fit False by (cases pr) auto
    qed
  qed
qed

subsection \<open>The envelope of a built frame\<close>

lemma prefix_reads:
  fixes cfg n port rest
  defines "f \<equiv> udp_prefix cfg n port @ rest"
  shows "rd f 12 = Some 0x08" "rd f 13 = Some 0" "rd f 14 = Some 0x45" "get_u16 f 16 = Some (of_nat (28 + n))"
    "get_u16 f 20 = Some 0x4000" "rd f 23 = Some 17" "get_u16 f 34 = Some port" "get_u16 f 36 = Some (rf_dstPort cfg)"
    "get_u16 f 38 = Some (of_nat (8 + n))" "get_u32 f 30 = Some (rf_dstIP cfg)"
    "ipv4_sum f 14 = Some (words_sum (ip_words cfg n (ip_csum cfg n)))"
    "mac_at f 0 = Some (multicast_mac (rf_dstIP cfg))"
proof -
  let ?eth = "mac_data (multicast_mac (rf_dstIP cfg)) @ mac_data (rf_srcMAC cfg) @ put16 0x0800"
  let ?t = "put16 port @ put16 (rf_dstPort cfg) @ put16 (of_nat (8 + n)) @ put16 0 @ rest"
  obtain d0 d1 d2 d3 d4 d5 where d: "multicast_mac (rf_dstIP cfg) = MAC d0 d1 d2 d3 d4 d5" by (cases "multicast_mac (rf_dstIP cfg)")
  obtain s0 s1 s2 s3 s4 s5 where m: "rf_srcMAC cfg = MAC s0 s1 s2 s3 s4 s5" by (cases "rf_srcMAC cfg")
  show "ipv4_sum f 14 = Some (words_sum (ip_words cfg n (ip_csum cfg n)))"
    using ipv4_sum_words [of "ip_words cfg n (ip_csum cfg n)" 14 ?eth ?t]
    by (simp add: f_def udp_prefix_def ip_header_def)
  show "rd f 12 = Some 0x08" "rd f 13 = Some 0" "rd f 14 = Some 0x45" "get_u16 f 16 = Some (of_nat (28 + n))"
    "get_u16 f 20 = Some 0x4000" "rd f 23 = Some 17" "get_u16 f 34 = Some port" "get_u16 f 36 = Some (rf_dstPort cfg)"
    "get_u16 f 38 = Some (of_nat (8 + n))" "get_u32 f 30 = Some (rf_dstIP cfg)"
    "mac_at f 0 = Some (multicast_mac (rf_dstIP cfg))"
    by (simp_all add: f_def udp_prefix_def ip_header_bytes d m get_u16_def get_u32_def mac_at_def rd_def put16_def put32_def
        be16_put16 be32_put32) (simp_all add: be16_def)
qed

lemma validate_prefix:
  assumes "rf_dstPort cfg = UDP_DST_PORT" and "28 + n < 65536" and "n \<le> length rest" and "ck \<noteq> IP_CKSUM_BAD"
    and "sz = 42 + length rest"
  shows "validate_r_envelope (udp_prefix cfg n port @ rest) sz ck = Some (Inr (rf_dstIP cfg))"
proof -
  note r = prefix_reads [of cfg n port rest]
  have u: "unat (of_nat (28 + n) :: u16) = 28 + n" "unat (of_nat (8 + n) :: u16) = 8 + n"
    using assms(2) by (simp_all only: unsigned_of_nat) (simp_all add: take_bit_nat_eq_self)
  have c: "\<not> (of_nat (28 + n) :: u16) < 28" "\<not> (of_nat (8 + n) :: u16) < 8"
    by (simp_all only: word_less_nat_alt u) simp_all
  have m: "matches (udp_prefix cfg n port @ rest) [(12, 0x08), (13, 0x00)] = Some True" by (simp add: r)
  have ck: "ipv4_checksum_ok (udp_prefix cfg n port @ rest) 14 = Some True"
    by (simp add: ipv4_checksum_ok_def r ip_words_complete)
  have pos: "(14 :: nat) + 2 = 16" "(14 :: nat) + 6 = 20" "(14 :: nat) + 9 = 23" "(14 :: nat) + 20 + 2 = 36"
    "(14 :: nat) + 20 + 4 = 38" "(14 :: nat) + 16 = 30" by simp_all
  have lens: "\<not> sz < 14 + 20" "\<not> sz < 14 + (28 + n)" using assms(3,5) by simp_all
  show ?thesis
    unfolding validate_r_envelope_def if_not_P [OF lens(1)] m Let_def pos r Option.bind.simps u
    using assms(1,4) c lens(2) by (simp add: ck)
qed

lemma rds_drop: "rds buf p n = Some v \<Longrightarrow> \<exists>rest. drop p buf = v @ rest \<and> length v = n"
  by (auto simp: rds_def intro: exI [of _ "drop n (drop p buf)"] split: if_splits simp del: drop_drop)

text \<open>A PDU whose parts the session layer accepts, behind a prefix that announces its size.\<close>

lemma unwrap_accepted:
  assumes "length apdu = unat (bp_apduLength p)" and "sz = udp_payload_size (bp_mode p) (length apdu)" and "sz \<le> length buf" and "28 + sz < 65536"
    and "parse_session buf sz = Some (Inr (payload_hdr_offset (iv_length (bp_mode p)), session_of p iv))"
    and "unseal buf sz (bp_mode p) (session_of p iv) crypto = Some (True, buf')"
    and "parse_payload buf' sz (session_of p iv) = Some (Inr (off, payload_of p))"
    and "rds buf' off (length apdu) = Some apdu"
  shows "unwrap_r_frame (udp_prefix cfg sz port @ buf) (42 + length buf) (bp_si p) (bp_payloadType p) (bp_mode p) crypto =
       Some (Inr (udp_prefix cfg sz port @ buf', session_of p iv, payload_of p, 42 + off, length apdu))"
    and "\<exists>rest. drop (42 + off) (udp_prefix cfg sz port @ buf') = apdu @ rest"
proof -
  let ?pre = "udp_prefix cfg sz port"
  define tot where "tot = (of_nat (28 + sz) :: u16)"
  have tot: "unat tot = 28 + sz" using assms(4) unfolding tot_def by (simp only: unsigned_of_nat) (simp add: take_bit_nat_eq_self)
  have size37: "37 \<le> sz" by (simp add: assms(2) layout_defs)
  have n: "unat tot - 28 = sz" by (simp add: tot)
  have drop: "drop ETH_IP_UDP_SIZE (?pre @ x) = x" "take ETH_IP_UDP_SIZE (?pre @ x) = ?pre" for x by simp_all
  have u: "unsealed (?pre @ buf) sz (bp_mode p) (session_of p iv) crypto = Some (True, ?pre @ buf')"
  proof (cases "bp_mode p = SEC_NONE")
    case True
    then show ?thesis using assms(6) by (simp add: unsealed_def unseal_def)
  next
    case False
    then show ?thesis unfolding unsealed_def within_def drop by (simp add: assms(6))
  qed
  have "unwrap_r_frame (?pre @ buf) (42 + length buf) (bp_si p) (bp_payloadType p) (bp_mode p) crypto =
      (if sh_si (session_of p iv) \<noteq> bp_si p then Some (Inl (-3)) else if \<not> True then Some (Inl R_PARSE_ERR_AUTH)
       else case Inr (off, payload_of p) of Inl e \<Rightarrow> Some (Inl (parse_error_code e))
         | Inr (apduOff, phdr) \<Rightarrow> if ph_payloadType phdr \<noteq> bp_payloadType p then Some (Inl (-7))
             else Some (Inr (?pre @ buf', session_of p iv, phdr, ETH_IP_UDP_SIZE + apduOff, unat (ph_apduSize phdr))))"
  proof (rule unwrap_r_frame_eq)
    show "get_u16 (?pre @ buf) 16 = Some tot" by (simp only: prefix_reads tot_def)
    show "parse_session (drop ETH_IP_UDP_SIZE (?pre @ buf)) (unat tot - 28) =
        Some (Inr (payload_hdr_offset (iv_length (bp_mode p)), session_of p iv))" by (simp only: drop n assms(5))
    show "unsealed (?pre @ buf) (unat tot - 28) (bp_mode p) (session_of p iv) crypto = Some (True, ?pre @ buf')"
      by (simp only: n u)
    show "parse_payload (drop ETH_IP_UDP_SIZE (?pre @ buf')) (unat tot - 28) (session_of p iv) = Some (Inr (off, payload_of p))"
      by (simp only: drop n assms(7))
  qed (use size37 assms(3) tot in simp_all)
  then show "unwrap_r_frame (?pre @ buf) (42 + length buf) (bp_si p) (bp_payloadType p) (bp_mode p) crypto =
       Some (Inr (?pre @ buf', session_of p iv, payload_of p, 42 + off, length apdu))"
    by (simp add: session_of_def payload_of_def assms(1))
  show "\<exists>rest. drop (42 + off) (?pre @ buf') = apdu @ rest" using rds_drop [OF assms(8)] by auto
qed

lemma unwrap_sealed:
  assumes "pdu_opens crypto p apdu pdu" and "valid_params p" and "length apdu = unat (bp_apduLength p)"
    and "sz = length pdu" and "28 + sz < 65536"
  obtains iv b off rest where
    "unwrap_r_frame (udp_prefix cfg sz port @ pdu @ r) (42 + length (pdu @ r)) (bp_si p) (bp_payloadType p) (bp_mode p) crypto =
       Some (Inr (udp_prefix cfg sz port @ b, session_of p iv, payload_of p, 42 + off, length apdu))"
    "drop (42 + off) (udp_prefix cfg sz port @ b) = apdu @ rest"
proof -
  have sz: "sz = udp_payload_size (bp_mode p) (length apdu)" "sz \<le> length (pdu @ r)"
    using assms(1,4) by (simp_all add: pdu_opens_def)
  obtain iv buf where w: "parse_session (pdu @ r) sz = Some (Inr (payload_hdr_offset (iv_length (bp_mode p)), session_of p iv))"
    "unseal (pdu @ r) sz (bp_mode p) (session_of p iv) crypto = Some (True, buf)"
    "parse_payload buf sz (session_of p iv) = Some (Inr (apdu_offset (iv_length (bp_mode p)), payload_of p))"
    "rds buf (apdu_offset (iv_length (bp_mode p))) (length apdu) = Some apdu"
    by (rule pdu_accepted [OF assms(1-4) refl])
  note u = unwrap_accepted [OF assms(3) sz assms(5) w]
  from u(2) obtain rest where "drop (42 + apdu_offset (iv_length (bp_mode p))) (udp_prefix cfg sz port @ buf) = apdu @ rest" by blast
  with u(1) show thesis by (rule that)
qed

text \<open>A frame as the generator makes it: the prefix, then the session PDU built, filled and sealed.\<close>

lemma unwrap_built_frame:
  assumes "valid_params p" and "length apdu = unat (bp_apduLength p)" and "hmac_works crypto" "gcm_works crypto"
    and sz: "sz = udp_payload_size (bp_mode p) (length apdu)" "sz \<le> length buf" "28 + sz < 65536"
  obtains iv buf1 off buf2 buf3 b rest where
    "build buf p = Some (buf1, off)" "wrs buf1 off apdu = Some buf2" "seal buf2 (bp_mode p) crypto = Some (True, buf3)"
    "length buf3 = length buf"
    "unwrap_r_frame (udp_prefix cfg sz port @ buf3) (42 + length buf) (bp_si p) (bp_payloadType p) (bp_mode p) crypto =
       Some (Inr (udp_prefix cfg sz port @ b, session_of p iv, payload_of p, 42 + off, length apdu))"
    "drop (42 + off) (udp_prefix cfg sz port @ b) = apdu @ rest"
proof -
  note result = that
  let ?pre = "udp_prefix cfg sz port" and ?off = "apdu_offset (iv_length (bp_mode p))"
  obtain iv buf1 buf2 buf3 buf4 where w: "build buf p = Some (buf1, ?off)" "wrs buf1 ?off apdu = Some buf2"
    "seal buf2 (bp_mode p) crypto = Some (True, buf3)"
    "parse_session buf3 sz = Some (Inr (payload_hdr_offset (iv_length (bp_mode p)), session_of p iv))"
    "unseal buf3 sz (bp_mode p) (session_of p iv) crypto = Some (True, buf4)"
    "parse_payload buf4 sz (session_of p iv) = Some (Inr (?off, payload_of p))"
    "rds buf4 ?off (length apdu) = Some apdu" "length buf3 = length buf"
    using sealed_frame_accepted [OF assms(1-4) sz(1,2)] by metis
  note u = unwrap_accepted [OF assms(2) sz(1) _ sz(3) w(4-7), of cfg port]
  from u(2) obtain rest where "drop (42 + ?off) (?pre @ buf4) = apdu @ rest" using w(8) sz(2) by auto
  with u(1) show thesis using result [OF w(1-3,8)] w(8) sz(2) by simp
qed

text \<open>The SV stream of an unwrapped frame.\<close>

lemma parse_r_goose_unwrapped:
  assumes "unwrap_r_frame buffer sz SI_R_GOOSE PAYLOAD_TYPE_GOOSE mode crypto =
      Some (Inr (udp_prefix cfg n port @ b, session_of p iv, payload_of p, off, length (goose_apdu m)))"
    and "drop off (udp_prefix cfg n port @ b) = goose_apdu m @ rest" and "goose_msg_ok m"
  shows "parse_r_goose_packet buffer sz mode crypto passport state =
      Some (Some (Inr (session_of p iv, goose_report m (length (goose_apdu m) - length (concat (map data_tlv (gm_allData m))))
        (passport\<lparr> gp_dmac := multicast_mac (rf_dstIP cfg), gp_appid := bp_appid p \<rparr>) state)))"
proof -
  note walk = r_goose_walk_apdu [OF assms(3) refl, of rest]
  have two: "\<not> length (goose_apdu m) < 2" using length_enc_len(1) [of "length (goose_body m)"] by (auto simp: goose_apdu_def)
  have mac: "mac_at (udp_prefix cfg n port @ b) 0 = Some (multicast_mac (rf_dstIP cfg))" by (rule prefix_reads)
  show ?thesis
    unfolding parse_r_goose_packet_def assms(1) and_then_simps sum.case prod.case mac assms(2) Let_def if_not_P [OF two] walk
    by (simp add: payload_of_def)
qed

lemma parse_r_sv_unwrapped:
  assumes "unwrap_r_frame buffer sz SI_R_SV PAYLOAD_TYPE_SV mode crypto =
      Some (Inr (udp_prefix cfg n port @ b, session_of p iv, payload_of p, off, length apdu))"
    and "drop off (udp_prefix cfg n port @ b) = apdu @ rest"
    and "apdu = sv_apdu [of_nat (length as)] as" and "length apdu = unat (bp_apduLength p)"
    and "as \<noteq> []" and "same_stream as" and "length as < 256"
  shows "parse_r_sv_packet buffer sz mode crypto passport state =
      Some (Some (Inr (session_of p iv,
        passport\<lparr> vp_dmac := multicast_mac (rf_dstIP cfg), vp_appid := bp_appid p, vp_num := of_nat (length as),
          vp_svid := as_svid (hd as), vp_crev := as_confRev (hd as) \<rparr>,
        state\<lparr> sv_smpCnt := as_smpCnt (hd as) \<rparr>)))"
proof -
  let ?n = "[of_nat (length as)] :: bytes"
  have n: "be_number ?n = of_nat (length as)"
    using assms(7) by (simp add: be_number_def ucast_of_nat_small)
  have u: "unat (of_nat (length as) :: u32) = length as" using assms(7) by (simp add: unsigned_of_nat take_bit_nat_eq_self)
  have nz: "(of_nat (length as) :: u32) \<noteq> 0" using u assms(5) by (metis length_0_conv unsigned_0)
  have c: "(ucast (of_nat (length as) :: u32) :: u16) = of_nat (length as)"
    using assms(7) by (simp add: unsigned_of_nat take_bit_nat_eq_self)
  have lenapdu: "length apdu < 65536" using assms(4) unsigned_less [where 'a = nat, of "bp_apduLength p"] by simp
  have sv: "parse_sv_apdu (apdu @ rest) (length apdu) q state =
      Some (Some (Inr (q\<lparr> vp_num := of_nat (length as), vp_svid := as_svid (hd as), vp_crev := as_confRev (hd as) \<rparr>,
        state\<lparr> sv_smpCnt := as_smpCnt (hd as) \<rparr>)))" for q
    using parse_sv_apdu_asdus [of as ?n "length apdu" rest q state] assms(3,5,6) lenapdu n u nz c by simp
  have mac: "mac_at (udp_prefix cfg n port @ b) 0 = Some (multicast_mac (rf_dstIP cfg))" by (rule prefix_reads)
  show ?thesis
    unfolding parse_r_sv_packet_def assms(1) and_then_simps sum.case prod.case mac assms(2) sv
    by (simp add: payload_of_def)
qed

subsection \<open>What an unwrapped frame satisfies\<close>

lemma unwrap_r_frame_elim:
  assumes "unwrap_r_frame buffer sz si ty mode crypto = Some (Inr (b, session, phdr, off, n))"
  obtains tot phOff apduOff where "get_u16 buffer 16 = Some tot" "28 \<le> unat tot" "14 + unat tot \<le> sz"
    "parse_session (drop 42 buffer) (unat tot - 28) = Some (Inr (phOff, session))" "sh_si session = si"
    "unsealed buffer (unat tot - 28) mode session crypto = Some (True, b)"
    "parse_payload (drop 42 b) (unat tot - 28) session = Some (Inr (apduOff, phdr))" "ph_payloadType phdr = ty"
    "off = 42 + apduOff" "n = unat (ph_apduSize phdr)"
proof -
  note result = that
  have lt: "\<not> sz < ETH_IP_UDP_SIZE + apdu_offset 0" using assms by (auto simp: unwrap_r_frame_def split: if_splits)
  obtain tot where tot: "get_u16 buffer 16 = Some tot" "\<not> (tot < 28 \<or> sz < 14 + unat tot)"
    using assms by (auto simp: unwrap_r_frame_def bind_eq_Some_conv split: if_splits)
  note run = assms [unfolded unwrap_r_frame_def if_not_P [OF lt] tot(1) Option.bind.simps if_not_P [OF tot(2)] Let_def]
  then obtain r where r: "parse_session (drop ETH_IP_UDP_SIZE buffer) (unat tot - 28) = Some r"
    by (auto simp: bind_eq_Some_conv)
  obtain phOff s where s: "r = Inr (phOff, s)"
    using run [unfolded r Option.bind.simps] by (cases r) auto
  note run = run [unfolded r s Option.bind.simps sum.case prod.case, folded unsealed_def]
  have si: "\<not> sh_si s \<noteq> si" using run by (auto split: if_splits)
  note run = run [unfolded if_not_P [OF si]]
  then obtain ok b' where u: "unsealed buffer (unat tot - 28) mode s crypto = Some (ok, b')"
    by (auto simp: bind_eq_Some_conv)
  then obtain pr where pr: "parse_payload (drop ETH_IP_UDP_SIZE b') (unat tot - 28) s = Some pr"
    using run by (auto simp: bind_eq_Some_conv split: if_splits)
  have tot28: "28 \<le> unat tot" "14 + unat tot \<le> sz" using tot(2) by (simp_all add: word_less_nat_alt)
  have "79 \<le> sz" using lt by (simp add: apdu_offset_def payload_hdr_offset_def)
  from unwrap_r_frame_eq [OF this tot(1) tot28, of phOff s mode crypto ok b' pr si ty] r s u pr assms si
  have p: "ok" "pr = Inr (off - 42, phdr)" "ph_payloadType phdr = ty" "b = b'" "session = s" "42 \<le> off"
    "n = unat (ph_apduSize phdr)"
    by (auto split: if_splits sum.splits)
  with result [OF tot(1) tot28, of phOff "off - 42"] r s u pr si show ?thesis by simp
qed

lemma parse_payload_span:
  assumes "parse_session buf n = Some (Inr (phOff, session))"
    and "parse_payload buf' n session = Some (Inr (off, phdr))"
  shows "off + unat (ph_apduSize phdr) = payload_hdr_offset (sh_ivLength session) + 4 + unat (sh_payloadLength session)"
proof -
  note sizes = parse_session_sizes [OF assms(1)]
  have p: "off = payload_hdr_offset (sh_ivLength session) + 10" "ph_apduSize phdr = sh_payloadLength session - 6"
    using assms(2) by (auto simp: parse_payload_def Let_def bind_eq_Some_conv split: if_splits)
  have "(6 :: u32) \<le> sh_payloadLength session" using sizes(2) by (simp add: word_le_nat_alt)
  then have "unat (ph_apduSize phdr) = unat (sh_payloadLength session) - 6" by (simp add: p(2) unat_sub)
  then show ?thesis using p(1) sizes(2) by simp
qed

lemma rds_wrs: "wrs buf i xs = Some buf' \<Longrightarrow> rds buf' i (length xs) = Some xs"
  by (auto simp: wrs_def rds_def patch_def split: if_splits)

lemma rds_of_drop: "k \<le> length buf \<Longrightarrow> rds (drop k buf) i n = rds buf (k + i) n"
  by (auto simp: rds_def add.commute)

lemma parse_r_sv_packet_safe:
  assumes "sz \<le> length buffer" and "length buffer < 2 ^ 31" and "decrypts_in_place crypto"
  shows "\<exists>r. parse_r_sv_packet buffer sz mode crypto passport state = Some (Some r)"
proof -
  obtain r where r: "unwrap_r_frame buffer sz SI_R_SV PAYLOAD_TYPE_SV mode crypto = Some r"
    "\<forall>b session phdr off n. r = Inr (b, session, phdr, off, n) \<longrightarrow> length b = length buffer \<and> 79 \<le> sz \<and> off + n \<le> sz"
    using unwrap_r_frame_safe [OF assms(1,3)] by blast
  show ?thesis
  proof (cases r)
    case (Inr x)
    obtain b session phdr off n where x: "r = Inr (b, session, phdr, off, n)" using Inr by (cases x) auto
    then have len: "length b = length buffer" "79 \<le> sz" "off + n \<le> sz" using r(2) by auto
    obtain dmac where m: "mac_at b 0 = Some dmac" using mac_at_Some [of 0 b] len assms(1) by auto
    obtain q where "parse_sv_apdu (drop off b) n (passport\<lparr> vp_dmac := dmac, vp_appid := ph_appid phdr \<rparr>) state = Some (Some q)"
      using parse_sv_apdu_safe [of n "drop off b"] len assms(1,2) by fastforce
    then show ?thesis by (simp add: parse_r_sv_packet_def r(1) x m)
  qed (simp add: parse_r_sv_packet_def r(1))
qed

subsection \<open>Properties\<close>

text \<open>
  An R-SV frame made by the sender's routines (prefix, session PDU, APDU, seal) passes the receiver
  in each security mode: the envelope is valid (checksum in software included) and names the group, and
  the parser, after authentication and decryption, reports the session, the group's MAC, the APPID and
  the stream of the APDU. Trailing padding behind the datagram does not matter.
\<close>

theorem r_sv_end_to_end:
  assumes "valid_params p" and "bp_si p = SI_R_SV" and "bp_payloadType p = PAYLOAD_TYPE_SV"
    and "apdu = sv_apdu noAsdu as" and "length apdu = unat (bp_apduLength p)"
    and "hmac_works crypto" and "gcm_works crypto"
    and "sz = udp_payload_size (bp_mode p) (length apdu)" and "42 + sz \<le> length buf" and "28 + sz < 65536"
    and "rf_dstPort cfg = UDP_DST_PORT" and "ck \<noteq> IP_CKSUM_BAD"
    and "as \<noteq> []" and "same_stream as" and "noAsdu = [of_nat (length as)]" and "length as < 256"
  shows "\<exists>f0 f1 off f2 f3 iv. build_prefix buf cfg sz = Some (f0, 42) \<and> build (drop 42 f0) p = Some (f1, off) \<and>
    wrs f1 off apdu = Some f2 \<and> seal f2 (bp_mode p) crypto = Some (True, f3) \<and>
    validate_r_envelope (take 42 f0 @ f3) (length buf) ck = Some (Inr (rf_dstIP cfg)) \<and>
    parse_r_sv_packet (take 42 f0 @ f3) (length buf) (bp_mode p) crypto passport state =
      Some (Some (Inr (session_of p iv,
        passport\<lparr> vp_dmac := multicast_mac (rf_dstIP cfg), vp_appid := bp_appid p, vp_num := of_nat (length as),
          vp_svid := as_svid (hd as), vp_crev := as_confRev (hd as) \<rparr>,
        state\<lparr> sv_smpCnt := as_smpCnt (hd as) \<rparr>)))"
proof -
  let ?pre = "prefix_image cfg sz"
  have b: "build_prefix buf cfg sz = Some (?pre @ drop 42 buf, 42)"
    using assms(9) by (simp add: build_prefix_image filled_def)
  have sz: "sz \<le> length (drop 42 buf)" "42 + length (drop 42 buf) = length buf" using assms(9) by simp_all
  obtain iv f1 off f2 f3 f4 rest where w: "build (drop 42 buf) p = Some (f1, off)" "wrs f1 off apdu = Some f2"
    "seal f2 (bp_mode p) crypto = Some (True, f3)" "length f3 = length (drop 42 buf)"
    "unwrap_r_frame (?pre @ f3) (42 + length (drop 42 buf)) (bp_si p) (bp_payloadType p) (bp_mode p) crypto =
       Some (Inr (?pre @ f4, session_of p iv, payload_of p, 42 + off, length apdu))"
    "drop (42 + off) (?pre @ f4) = apdu @ rest"
    by (rule unwrap_built_frame [OF assms(1,5,6,7,8) sz(1) assms(10), of cfg 0])
  have v: "validate_r_envelope (?pre @ f3) (length buf) ck = Some (Inr (rf_dstIP cfg))"
    by (rule validate_prefix) (use assms w(4) sz in simp_all)
  have "unwrap_r_frame (?pre @ f3) (length buf) SI_R_SV PAYLOAD_TYPE_SV (bp_mode p) crypto =
       Some (Inr (?pre @ f4, session_of p iv, payload_of p, 42 + off, length apdu))"
    using w(5) by (simp only: assms(2,3) sz(2))
  from parse_r_sv_unwrapped [OF this w(6) assms(4) [unfolded assms(15)] assms(5,13,14,16)]
  show ?thesis using b w(1-3) v by auto
qed

lemma r_sv_witness_frame:
  fixes mode
  defines "p \<equiv> (sample_params mode)\<lparr> bp_apduLength := 179 \<rparr>"
  shows "valid_params p" "bp_si p = SI_R_SV" "bp_payloadType p = PAYLOAD_TYPE_SV" "bp_mode p = mode"
    "length (sv_apdu [of_nat (length [sample_asdu 6, sample_asdu 7])] [sample_asdu 6, sample_asdu 7]) = unat (bp_apduLength p)"
  using sample_asdus(2) by (simp_all add: p_def valid_params_def sample_params_def)

definition sample_rcfg :: "u32 \<Rightarrow> RFrameConfig" where
  "sample_rcfg ip = RFrameConfig_init\<lparr> rf_dstIP := ip \<rparr>"

theorem r_sv_end_to_end_witness:
  "\<exists>f0 f1 off f2 f3 iv. build_prefix (replicate 300 0) (sample_rcfg 0xEF000005) 246 = Some (f0, 42) \<and>
    build (drop 42 f0) ((sample_params SEC_GCM)\<lparr> bp_apduLength := 179 \<rparr>) = Some (f1, off) \<and>
    wrs f1 off (sv_apdu [2] [sample_asdu 6, sample_asdu 7]) = Some f2 \<and> seal f2 SEC_GCM xor_crypto = Some (True, f3) \<and>
    parse_r_sv_packet (take 42 f0 @ f3) 300 SEC_GCM xor_crypto SVStreamPassport_init SVStreamState_init =
      Some (Some (Inr (session_of ((sample_params SEC_GCM)\<lparr> bp_apduLength := 179 \<rparr>) iv,
        SVStreamPassport_init\<lparr> vp_dmac := MAC 1 0 0x5E 0 0 5, vp_appid := 5, vp_num := 2, vp_svid := [0x53, 0x31], vp_crev := 1 \<rparr>,
        SVStreamState_init\<lparr> sv_smpCnt := 6 \<rparr>)))"
proof -
  let ?p = "(sample_params SEC_GCM)\<lparr> bp_apduLength := 179 \<rparr>"
  note w = r_sv_witness_frame [of SEC_GCM]
  have sz: "246 = udp_payload_size (bp_mode ?p) (length (sv_apdu [of_nat (length [sample_asdu 6, sample_asdu 7])] [sample_asdu 6, sample_asdu 7]))"
    unfolding w(4,5) by (simp add: layout_defs)
  have ip: "rf_dstIP (sample_rcfg 0xEF000005) = 0xEF000005" "rf_dstPort (sample_rcfg 0xEF000005) = UDP_DST_PORT"
    by (simp_all add: sample_rcfg_def RFrameConfig_init_def)
  have mac: "multicast_mac 0xEF000005 = MAC 1 0 0x5E 0 0 5" by (simp add: multicast_mac_def)
  have as: "as_svid (sample_asdu 6) = [0x53, 0x31]" "as_confRev (sample_asdu 6) = 1" "as_smpCnt (sample_asdu 6) = 6" "bp_appid ?p = 5"
    by (simp_all add: sample_asdu_def sample_params_def)
  have len: "length [sample_asdu 6, sample_asdu 7] = 2" by simp
  show ?thesis
    using r_sv_end_to_end [OF w(1-3) refl w(5) xor_crypto_works(1,2) sz, of "replicate 300 0" "sample_rcfg 0xEF000005"
        IP_CKSUM_UNKNOWN SVStreamPassport_init SVStreamState_init] ip(2) sample_asdus(1)
    unfolding w(4) ip(1) mac len list.sel as by simp blast
qed

text \<open>
  The same for R-GOOSE: what the sender's routines make of a well-formed GOOSE message is accepted by
  the receiver in each security mode and reported with the references, counters and number of dataset
  entries of the message.
\<close>

theorem r_goose_end_to_end:
  assumes "valid_params p" and "bp_si p = SI_R_GOOSE" and "bp_payloadType p = PAYLOAD_TYPE_GOOSE"
    and "goose_msg_ok m" and "length (goose_apdu m) = unat (bp_apduLength p)"
    and "hmac_works crypto" and "gcm_works crypto"
    and "sz = udp_payload_size (bp_mode p) (length (goose_apdu m))" and "42 + sz \<le> length buf" and "28 + sz < 65536"
    and "rf_dstPort cfg = UDP_DST_PORT" and "ck \<noteq> IP_CKSUM_BAD"
  shows "\<exists>f0 f1 off f2 f3 iv. build_prefix buf cfg sz = Some (f0, 42) \<and> build (drop 42 f0) p = Some (f1, off) \<and>
    wrs f1 off (goose_apdu m) = Some f2 \<and> seal f2 (bp_mode p) crypto = Some (True, f3) \<and>
    validate_r_envelope (take 42 f0 @ f3) (length buf) ck = Some (Inr (rf_dstIP cfg)) \<and>
    parse_r_goose_packet (take 42 f0 @ f3) (length buf) (bp_mode p) crypto passport state =
      Some (Some (Inr (session_of p iv, goose_report m (length (goose_apdu m) - length (concat (map data_tlv (gm_allData m))))
        (passport\<lparr> gp_dmac := multicast_mac (rf_dstIP cfg), gp_appid := bp_appid p \<rparr>) state)))"
proof -
  let ?pre = "prefix_image cfg sz" and ?apdu = "goose_apdu m"
  have b: "build_prefix buf cfg sz = Some (?pre @ drop 42 buf, 42)"
    using assms(9) by (simp add: build_prefix_image filled_def)
  have sz: "sz \<le> length (drop 42 buf)" "42 + length (drop 42 buf) = length buf" using assms(9) by simp_all
  obtain iv f1 off f2 f3 f4 rest where w: "build (drop 42 buf) p = Some (f1, off)" "wrs f1 off ?apdu = Some f2"
    "seal f2 (bp_mode p) crypto = Some (True, f3)" "length f3 = length (drop 42 buf)"
    "unwrap_r_frame (?pre @ f3) (42 + length (drop 42 buf)) (bp_si p) (bp_payloadType p) (bp_mode p) crypto =
       Some (Inr (?pre @ f4, session_of p iv, payload_of p, 42 + off, length ?apdu))"
    "drop (42 + off) (?pre @ f4) = ?apdu @ rest"
    by (rule unwrap_built_frame [OF assms(1,5,6,7,8) sz(1) assms(10), of cfg 0])
  have v: "validate_r_envelope (?pre @ f3) (length buf) ck = Some (Inr (rf_dstIP cfg))"
    by (rule validate_prefix) (use assms w(4) sz in simp_all)
  have "unwrap_r_frame (?pre @ f3) (length buf) SI_R_GOOSE PAYLOAD_TYPE_GOOSE (bp_mode p) crypto =
       Some (Inr (?pre @ f4, session_of p iv, payload_of p, 42 + off, length ?apdu))"
    using w(5) by (simp only: assms(2,3) sz(2))
  from parse_r_goose_unwrapped [OF this w(6) assms(4)]
  show ?thesis using b w(1-3) v by auto
qed

theorem r_goose_end_to_end_witness:
  "\<exists>f0 f1 off f2 f3 iv. build_prefix (replicate 200 0) (sample_rcfg 0xEF000005) 119 = Some (f0, 42) \<and>
    build (drop 42 f0) ((sample_params SEC_HMAC)\<lparr> bp_si := SI_R_GOOSE, bp_payloadType := PAYLOAD_TYPE_GOOSE, bp_apduLength := 64 \<rparr>)
      = Some (f1, off) \<and>
    wrs f1 off (goose_apdu sample_msg) = Some f2 \<and> seal f2 SEC_HMAC xor_crypto = Some (True, f3) \<and>
    (\<exists>r. parse_r_goose_packet (take 42 f0 @ f3) 200 SEC_HMAC xor_crypto GoosePassport_init GooseState_init = Some (Some (Inr r)))"
proof -
  let ?p = "(sample_params SEC_HMAC)\<lparr> bp_si := SI_R_GOOSE, bp_payloadType := PAYLOAD_TYPE_GOOSE, bp_apduLength := 64 \<rparr>"
  have p: "valid_params ?p" "bp_si ?p = SI_R_GOOSE" "bp_payloadType ?p = PAYLOAD_TYPE_GOOSE" "bp_mode ?p = SEC_HMAC"
    "length (goose_apdu sample_msg) = unat (bp_apduLength ?p)"
    by (simp_all add: valid_params_def sample_params_def length_sample_apdu)
  have sz: "119 = udp_payload_size (bp_mode ?p) (length (goose_apdu sample_msg))"
    unfolding p(4,5) by (simp add: layout_defs)
  have rest: "42 + 119 \<le> length (replicate 200 (0 :: u8))" "28 + 119 < (65536 :: nat)"
    "rf_dstPort (sample_rcfg 0xEF000005) = UDP_DST_PORT" "IP_CKSUM_UNKNOWN \<noteq> IP_CKSUM_BAD"
    by (simp_all add: sample_rcfg_def RFrameConfig_init_def)
  show ?thesis
    using r_goose_end_to_end [OF p(1-3) sample_msg_ok p(5) xor_crypto_works(1,2) sz rest, of GoosePassport_init GooseState_init]
    unfolding p(4) length_replicate by blast
qed

text \<open>
  C12: in HMAC mode a routable frame is unwrapped only if the 16-byte tag behind its payload is the HMAC
  of everything from the session PDU's first byte to the APDU's last: no byte the parsers go on to
  read, APPID and sequence number included, escapes the tag, and the frame is left as it was.
\<close>

theorem r_frame_authentic:
  assumes "unwrap_r_frame buffer sz si ty SEC_HMAC crypto = Some (Inr (buffer', session, phdr, off, n))"
    and "hmac_works crypto" and "sz \<le> length buffer"
  shows "buffer' = buffer \<and> 79 \<le> off \<and> (\<exists>data tag. rds buffer 42 (off + n - 42) = Some data \<and>
    rds buffer (off + n + 2) TAG_SIZE = Some tag \<and> c_HMAC crypto data = Some tag)"
proof -
  obtain tot :: u16 and phOff apduOff where u: "28 \<le> unat tot" "14 + unat tot \<le> sz"
    "parse_session (drop 42 buffer) (unat tot - 28) = Some (Inr (phOff, session))"
    "unsealed buffer (unat tot - 28) SEC_HMAC session crypto = Some (True, buffer')"
    "parse_payload (drop 42 buffer') (unat tot - 28) session = Some (Inr (apduOff, phdr))"
    "off = 42 + apduOff" "n = unat (ph_apduSize phdr)"
    by (rule unwrap_r_frame_elim [OF assms(1)]) blast
  have len: "42 \<le> length buffer" using u(1,2) assms(3) by simp
  obtain udp where s: "unseal (drop 42 buffer) (unat tot - 28) SEC_HMAC session crypto = Some (True, udp)" "buffer' = take 42 buffer @ udp"
    using u(4) by (auto simp: unsealed_def within_def bind_eq_Some_conv)
  have same: "buffer' = buffer" using unseal_hmac_sound(1) [OF s(1)] s(2) by simp
  have span: "off + n = 42 + (payload_hdr_offset (sh_ivLength session) + 4 + unat (sh_payloadLength session))"
    using parse_payload_span [OF u(3,5)] u(6,7) by simp
  obtain data tag where d: "rds (drop 42 buffer) 0 (payload_hdr_offset (sh_ivLength session) + 4 + unat (sh_payloadLength session)) = Some data"
    "rds (drop 42 buffer) (payload_hdr_offset (sh_ivLength session) + 6 + unat (sh_payloadLength session)) TAG_SIZE = Some tag"
    "VerifyHMAC crypto data tag"
    using unseal_hmac_sound(2) [OF s(1)] by blast
  have t: "length tag = TAG_SIZE" using d(2) by (auto simp: rds_def split: if_splits)
  obtain e where e: "c_HMAC crypto data = Some e" "length e = TAG_SIZE" using assms(2) unfolding hmac_works_def by blast
  have "c_HMAC crypto data = Some tag" using VerifyHMAC_iff [OF e t] d(3) e(1) by simp
  moreover have "rds buffer 42 (off + n - 42) = Some data" "rds buffer (off + n + 2) TAG_SIZE = Some tag"
    using d(1,2) len unfolding rds_of_drop [OF len] span by (simp_all add: add_ac)
  moreover have "79 \<le> off" using u(5,6) by (auto simp: parse_payload_def payload_hdr_offset_def Let_def bind_eq_Some_conv split: if_splits)
  ultimately show ?thesis using same by blast
qed

theorem r_frame_authentic_witness:
  "\<exists>buffer session phdr off n. unwrap_r_frame buffer (length buffer) SI_R_SV PAYLOAD_TYPE_SV SEC_HMAC xor_crypto =
      Some (Inr (buffer, session, phdr, off, n)) \<and>
    (\<exists>data tag. rds buffer 42 (off + n - 42) = Some data \<and> rds buffer (off + n + 2) TAG_SIZE = Some tag \<and>
      c_HMAC xor_crypto data = Some tag)"
proof -
  let ?p = "(sample_params SEC_HMAC)\<lparr> bp_apduLength := 179 \<rparr>"
  let ?apdu = "sv_apdu [of_nat (length [sample_asdu 6, sample_asdu 7])] [sample_asdu 6, sample_asdu 7]"
  note w = r_sv_witness_frame [of SEC_HMAC]
  have sz: "234 = udp_payload_size (bp_mode ?p) (length ?apdu)" unfolding w(4,5) by (simp add: layout_defs)
  have fit: "234 \<le> length (replicate 250 (0 :: u8))" "28 + 234 < (65536 :: nat)" by simp_all
  obtain iv off f3 f4 where f: "length f3 = length (replicate 250 (0 :: u8))"
    "unwrap_r_frame (prefix_image RFrameConfig_init 234 @ f3) (42 + length (replicate 250 (0 :: u8))) (bp_si ?p) (bp_payloadType ?p)
       (bp_mode ?p) xor_crypto =
       Some (Inr (prefix_image RFrameConfig_init 234 @ f4, session_of ?p iv, payload_of ?p, 42 + off, length ?apdu))"
    by (rule unwrap_built_frame [OF w(1) w(5) xor_crypto_works(1,2) sz fit]) blast
  define b where "b = prefix_image RFrameConfig_init 234 @ f3"
  have len: "length b = 42 + length (replicate 250 (0 :: u8))" using f(1) by (simp add: b_def)
  note run = f(2) [folded b_def len, unfolded w(2-4)]
  note authentic = r_frame_authentic [OF run xor_crypto_works(1) order_refl]
  then have "prefix_image RFrameConfig_init 234 @ f4 = b" by blast
  with run authentic show ?thesis by metis
qed

text \<open>
  C13: in GCM mode a routable frame is unwrapped only if the cipher accepted it: with the IV and the tag
  of the frame, the whole session header as additional data and the payload as ciphertext; the payload
  header and the APDU that are parsed next are what the cipher returned.
\<close>

theorem r_frame_decrypted:
  assumes "unwrap_r_frame buffer sz si ty SEC_GCM crypto = Some (Inr (buffer', session, phdr, off, n))"
    and "decrypts_in_place crypto" and "sz \<le> length buffer"
  shows "off = 91 \<and> (\<exists>iv aad data tag data'. rds buffer (42 + OFF_IV) 12 = Some iv \<and> rds buffer 42 43 = Some aad \<and>
    rds buffer 85 (n + 6) = Some data \<and> rds buffer (off + n + 2) TAG_SIZE = Some tag \<and>
    c_Decrypt crypto iv aad data tag = (True, data') \<and> rds buffer' 85 (n + 6) = Some data')"
proof -
  obtain tot :: u16 and phOff apduOff where u: "28 \<le> unat tot" "14 + unat tot \<le> sz"
    "parse_session (drop 42 buffer) (unat tot - 28) = Some (Inr (phOff, session))"
    "unsealed buffer (unat tot - 28) SEC_GCM session crypto = Some (True, buffer')"
    "parse_payload (drop 42 buffer') (unat tot - 28) session = Some (Inr (apduOff, phdr))"
    "off = 42 + apduOff" "n = unat (ph_apduSize phdr)"
    by (rule unwrap_r_frame_elim [OF assms(1)]) blast
  have len: "42 \<le> length buffer" using u(1,2) assms(3) by simp
  obtain udp where s: "unseal (drop 42 buffer) (unat tot - 28) SEC_GCM session crypto = Some (True, udp)" "buffer' = take 42 buffer @ udp"
    using u(4) by (auto simp: unsealed_def within_def bind_eq_Some_conv)
  note span = parse_payload_span [OF u(3,5)]
  have iv: "sh_ivLength session = IV_LEN_GCM" using s(1) by (auto simp: unseal_def Let_def bind_eq_Some_conv split: if_splits option.splits)
  have off: "apduOff = 49" using u(5) iv by (auto simp: parse_payload_def payload_hdr_offset_def Let_def bind_eq_Some_conv split: if_splits)
  have pl: "unat (sh_payloadLength session) = n + 6" using span off u(7) iv by (simp add: payload_hdr_offset_def)
  have ivo: "sh_iv session = Some OFF_IV" using u(3) iv by (auto simp: parse_session_def Let_def bind_eq_Some_conv split: if_splits)
  obtain iv aad data tag where d: "rds (drop 42 buffer) OFF_IV 12 = Some iv" "rds (drop 42 buffer) 0 43 = Some aad"
    "rds (drop 42 buffer) 43 (n + 6) = Some data" "rds (drop 42 buffer) (43 + (n + 6) + 2) TAG_SIZE = Some tag"
    "(case c_Decrypt crypto iv aad data tag of (ok, data') \<Rightarrow> do { buf \<leftarrow> wrs (drop 42 buffer) 43 data'; Some (ok, buf) }) =
       Some (True, udp)"
    using s(1) by (auto simp: unseal_def Let_def bind_eq_Some_conv [where f = "rd b i" for b i]
        bind_eq_Some_conv [where f = "rds b i k" for b i k] iv ivo pl payload_hdr_offset_def split: if_splits)
  obtain data' where e: "c_Decrypt crypto iv aad data tag = (True, data')" "wrs (drop 42 buffer) 43 data' = Some udp"
    using d(5) by (auto simp: bind_eq_Some_conv split: prod.split_asm)
  have "length data' = n + 6" using decrypts_in_placeD [OF assms(2) e(1)] d(3) by (auto simp: rds_def split: if_splits)
  then have "rds udp 43 (n + 6) = Some data'" using rds_wrs [OF e(2)] by simp
  then have "rds buffer' 85 (n + 6) = Some data'" using rds_of_drop [of 42 buffer' 43 "n + 6"] s(2) len by simp
  then show ?thesis using d(1-4) e(1) off u(6) unfolding rds_of_drop [OF len] by auto
qed

theorem r_frame_decrypted_witness:
  "\<exists>buffer buffer' session phdr n. unwrap_r_frame buffer (length buffer) SI_R_SV PAYLOAD_TYPE_SV SEC_GCM xor_crypto =
      Some (Inr (buffer', session, phdr, 91, n)) \<and>
    (\<exists>iv aad data tag data'. rds buffer 85 (n + 6) = Some data \<and> rds buffer (91 + n + 2) TAG_SIZE = Some tag \<and>
      c_Decrypt xor_crypto iv aad data tag = (True, data') \<and> rds buffer' 85 (n + 6) = Some data')"
proof -
  let ?p = "(sample_params SEC_GCM)\<lparr> bp_apduLength := 179 \<rparr>"
  let ?apdu = "sv_apdu [of_nat (length [sample_asdu 6, sample_asdu 7])] [sample_asdu 6, sample_asdu 7]"
  note w = r_sv_witness_frame [of SEC_GCM]
  have sz: "246 = udp_payload_size (bp_mode ?p) (length ?apdu)" unfolding w(4,5) by (simp add: layout_defs)
  have fit: "246 \<le> length (replicate 250 (0 :: u8))" "28 + 246 < (65536 :: nat)" by simp_all
  obtain iv off f3 f4 where f: "length f3 = length (replicate 250 (0 :: u8))"
    "unwrap_r_frame (prefix_image RFrameConfig_init 246 @ f3) (42 + length (replicate 250 (0 :: u8))) (bp_si ?p) (bp_payloadType ?p)
       (bp_mode ?p) xor_crypto =
       Some (Inr (prefix_image RFrameConfig_init 246 @ f4, session_of ?p iv, payload_of ?p, 42 + off, length ?apdu))"
    by (rule unwrap_built_frame [OF w(1) w(5) xor_crypto_works(1,2) sz fit]) blast
  define b where "b = prefix_image RFrameConfig_init 246 @ f3"
  have len: "length b = 42 + length (replicate 250 (0 :: u8))" using f(1) by (simp add: b_def)
  note run = f(2) [folded b_def len, unfolded w(2-4)]
  note decrypted = r_frame_decrypted [OF run xor_crypto_works(3) order_refl]
  then have "42 + off = 91" by blast
  with run decrypted show ?thesis by metis
qed





end
