(* ===== verification/Dpdk_Cpp.thy ===== *)
theory Dpdk_Cpp
  imports Mac_Addr
begin

text \<open>
  The wrappers of \<open>src/dpdk_cpp/\<close> around DPDK: the tick counter and the delays
  (\<open>dpdk_clocks_class.hpp\<close>), the load statistics of a loop (\<open>dpdk_cyclestat_class.hpp\<close>), the port and
  its builder (\<open>dpdk_port_class.hpp\<close>) and the external heap of the Orange Pi (\<open>udmabuf_heap.hpp\<close>).

  The tick counter is the argument \<open>clk\<close>: \<open>clk k\<close> is its \<open>k\<close>-th reading, so that a waiting loop is a
  search through the readings. The timer frequency is the argument \<open>hz\<close>. What DPDK or the kernel
  answers to a call is a field of a record or an argument; the calls the code makes are kept in the
  order in which it makes them.
\<close>

subsection \<open>Clocks\<close>

definition us_to_ticks :: "u64 \<Rightarrow> u64 \<Rightarrow> u64" where "us_to_ticks hz us = us * hz div 1000000"
definition ticks_to_us :: "u64 \<Rightarrow> u64 \<Rightarrow> u64" where "ticks_to_us hz ticks = ticks * 1000000 div hz"
definition delay_us_to_ticks :: "u64 \<Rightarrow> u64 \<Rightarrow> u64" where "delay_us_to_ticks hz delay_us = delay_us * hz div 1000000"

text \<open>
  The delays read the counter from the \<open>k\<close>-th reading on; the result has the number of the next one.
  \<open>None\<close> is a delay that does not end.
\<close>

definition delay_until_ticks :: "(nat \<Rightarrow> u64) \<Rightarrow> u64 \<Rightarrow> nat \<Rightarrow> (u64 \<times> nat) option" where
  "delay_until_ticks clk target_ticks k =
     run_loop (\<lambda>k. if clk k < target_ticks then Inl (Suc k) else Inr (clk k, Suc k)) k"

definition delay_ticks :: "(nat \<Rightarrow> u64) \<Rightarrow> u64 \<Rightarrow> nat \<Rightarrow> nat option" where
  "delay_ticks clk delay k =
     (let start_ticks = clk k in run_loop (\<lambda>k. if clk k - start_ticks < delay then Inl (Suc k) else Inr (Suc k)) (Suc k))"

definition delay_us :: "(nat \<Rightarrow> u64) \<Rightarrow> u64 \<Rightarrow> u64 \<Rightarrow> nat \<Rightarrow> nat option" where
  "delay_us clk hz us k = (let delay = us * hz div 1000000 in delay_ticks clk delay k)"

text \<open>A search through the readings.\<close>

lemma search_found:
  assumes "\<not> P (n :: nat)" and "k \<le> n" and "\<And>m. k \<le> m \<Longrightarrow> m < n \<Longrightarrow> P m"
  shows "run_loop (\<lambda>k. if P k then Inl (Suc k) else Inr (f k)) k = Some (f n)"
  using assms(2,3)
proof (induction rule: inc_induct)
  case base
  then show ?case using assms(1) by (simp add: run_loop_unfold)
next
  case (step j)
  then have "P j" by simp
  then show ?case using step.IH step.prems by (subst run_loop_unfold) simp
qed

lemma search_result:
  assumes "run_loop (\<lambda>k. if P k then Inl (Suc k) else Inr (f k)) (k :: nat) = Some r"
  shows "\<exists>n \<ge> k. \<not> P n \<and> (\<forall>m. k \<le> m \<and> m < n \<longrightarrow> P m) \<and> r = f n"
  using assms
proof (induction rule: run_loop_induct)
  case (exit k r)
  then show ?case by (intro exI [of _ k]) (auto split: if_splits)
next
  case (continue k k' r)
  then have k: "P k" "k' = Suc k" by (auto split: if_splits)
  from continue.IH obtain n where "n \<ge> k'" "\<not> P n" "\<forall>m. k' \<le> m \<and> m < n \<longrightarrow> P m" "r = f n" by blast
  then show ?case using k by (intro exI [of _ n]) (metis Suc_leD Suc_leI le_neq_implies_less)
qed

lemma delay_until_ticks_iff:
  "delay_until_ticks clk target k = Some (t, k') \<longleftrightarrow>
     (\<exists>n \<ge> k. k' = Suc n \<and> t = clk n \<and> target \<le> t \<and> (\<forall>m. k \<le> m \<and> m < n \<longrightarrow> clk m < target))"
proof
  assume "delay_until_ticks clk target k = Some (t, k')"
  from search_result [OF this [unfolded delay_until_ticks_def]] show "\<exists>n \<ge> k. k' = Suc n \<and> t = clk n \<and> target \<le> t \<and> (\<forall>m. k \<le> m \<and> m < n \<longrightarrow> clk m < target)"
    by (auto simp: not_less)
next
  assume "\<exists>n \<ge> k. k' = Suc n \<and> t = clk n \<and> target \<le> t \<and> (\<forall>m. k \<le> m \<and> m < n \<longrightarrow> clk m < target)"
  then obtain n where "n \<ge> k" "k' = Suc n" "t = clk n" "\<not> clk n < target" "\<forall>m. k \<le> m \<and> m < n \<longrightarrow> clk m < target" by auto
  then show "delay_until_ticks clk target k = Some (t, k')"
    unfolding delay_until_ticks_def using search_found [of "\<lambda>n. clk n < target" n k "\<lambda>n. (clk n, Suc n)"] by auto
qed

lemma delay_until_ticks_returns:
  assumes "n \<ge> k" and "target \<le> clk n"
  shows "\<exists>t k'. delay_until_ticks clk target k = Some (t, k')"
proof -
  let ?Q = "\<lambda>n. n \<ge> k \<and> target \<le> clk n"
  let ?n = "LEAST n. ?Q n"
  have Q: "?Q ?n" using assms by (intro LeastI [of ?Q n]) simp
  moreover have "\<forall>m. k \<le> m \<and> m < ?n \<longrightarrow> clk m < target" by (metis (no_types, lifting) not_less_Least not_le)
  ultimately have "delay_until_ticks clk target k = Some (clk ?n, Suc ?n)" unfolding delay_until_ticks_iff by blast
  then show ?thesis by blast
qed

subsection \<open>Load statistics of a loop\<close>

text \<open>
  A percentage is the pair of its numerator and denominator; the code keeps the quotient as a
  \<open>double\<close>, whose rounding is left out. The idle share, \<open>100 - load\<close>, is not kept.
\<close>

type_synonym percent = "u64 \<times> u64"

definition perc_greater :: "percent \<Rightarrow> percent \<Rightarrow> bool" where
  "perc_greater p q \<longleftrightarrow> unat (fst p) * unat (snd q) > unat (fst q) * unat (snd p)"

record CyclicStat =
  m_startCycling :: u64
  m_procBegin :: u64
  m_lastSampleTick :: u64
  m_lastSampleTotal :: u64
  m_totalProcessTicks :: u64
  m_maxProcessByTicks :: u64
  m_minProcessByTicks :: u64
  m_loadPerc :: percent
  m_maxProcUS :: u32
  m_minProcUS :: u32

definition CyclicStat_new :: "u64 \<Rightarrow> CyclicStat" where
  "CyclicStat_new hz = \<lparr> m_startCycling = 0, m_procBegin = 0, m_lastSampleTick = 0, m_lastSampleTotal = 0, m_totalProcessTicks = 0,
     m_maxProcessByTicks = 0, m_minProcessByTicks = hz, m_loadPerc = (0, 1), m_maxProcUS = 0, m_minProcUS = 0 \<rparr>"

definition MarkStartCycling :: "u64 \<Rightarrow> CyclicStat \<Rightarrow> CyclicStat" where
  "MarkStartCycling now st = st\<lparr> m_startCycling := now, m_lastSampleTick := now, m_lastSampleTotal := 0 \<rparr>"

definition SampleLoadPerc :: "u64 \<Rightarrow> CyclicStat \<Rightarrow> percent \<times> CyclicStat" where
  "SampleLoadPerc now st =
     (let busy = m_totalProcessTicks st - m_lastSampleTotal st; span = now - m_lastSampleTick st;
          st = st\<lparr> m_lastSampleTick := now, m_lastSampleTotal := m_totalProcessTicks st \<rparr>
      in (if span \<noteq> 0 then (busy, span) else (0, 1), st))"

definition MarkFinishCycling :: "u64 \<Rightarrow> u64 \<Rightarrow> CyclicStat \<Rightarrow> CyclicStat" where
  "MarkFinishCycling hz now st = st\<lparr> m_loadPerc := (m_totalProcessTicks st, now - m_startCycling st),
     m_maxProcUS := ucast (ticks_to_us hz (m_maxProcessByTicks st)), m_minProcUS := ucast (ticks_to_us hz (m_minProcessByTicks st)) \<rparr>"

definition MarkProcBegin :: "u64 \<Rightarrow> CyclicStat \<Rightarrow> CyclicStat" where
  "MarkProcBegin now st = st\<lparr> m_procBegin := now \<rparr>"

definition MarkProcEnd :: "u64 \<Rightarrow> CyclicStat \<Rightarrow> CyclicStat" where
  "MarkProcEnd now st =
     (let delta = now - m_procBegin st;
          st = (if delta > m_maxProcessByTicks st then st\<lparr> m_maxProcessByTicks := delta \<rparr> else st);
          st = (if delta < m_minProcessByTicks st then st\<lparr> m_minProcessByTicks := delta \<rparr> else st)
      in st\<lparr> m_totalProcessTicks := m_totalProcessTicks st + delta \<rparr>)"

text \<open>The rounds of a loop: each is begun at one reading and ended at a later one.\<close>

definition measure_rounds :: "(u64 \<times> u64) list \<Rightarrow> CyclicStat \<Rightarrow> CyclicStat" where
  "measure_rounds rounds st = fold (\<lambda>(b, e) st. MarkProcEnd e (MarkProcBegin b st)) rounds st"

abbreviation (input) round_ticks :: "(u64 \<times> u64) list \<Rightarrow> nat list" where
  "round_ticks rounds \<equiv> map (\<lambda>(b, e). unat e - unat b) rounds"

lemma measure_rounds_sums:
  assumes "\<forall>(b, e) \<in> set rounds. b \<le> e" and "sum_list (round_ticks rounds) < 2 ^ 64"
  shows "unat (m_totalProcessTicks (measure_rounds rounds (CyclicStat_new hz))) = sum_list (round_ticks rounds)"
    and "unat (m_maxProcessByTicks (measure_rounds rounds (CyclicStat_new hz))) = Max (insert 0 (set (round_ticks rounds)))"
    and "unat (m_minProcessByTicks (measure_rounds rounds (CyclicStat_new hz))) = Min (insert (unat hz) (set (round_ticks rounds)))"
proof -
  let ?m = "\<lambda>rs. measure_rounds rs (CyclicStat_new hz)"
  have "unat (m_totalProcessTicks (?m rounds)) = sum_list (round_ticks rounds) \<and>
    unat (m_maxProcessByTicks (?m rounds)) = Max (insert 0 (set (round_ticks rounds))) \<and>
    unat (m_minProcessByTicks (?m rounds)) = Min (insert (unat hz) (set (round_ticks rounds)))"
    using assms
  proof (induction rounds rule: rev_induct)
    case Nil
    then show ?case by (simp add: measure_rounds_def CyclicStat_new_def)
  next
    case (snoc r rounds)
    obtain b e where r: "r = (b, e)" by force
    have d: "unat (e - b) = unat e - unat b" using snoc.prems(1) r by (simp add: unat_sub)
    have st: "?m (rounds @ [r]) = MarkProcEnd e (MarkProcBegin b (?m rounds))" by (simp add: measure_rounds_def r)
    note IH = snoc.IH [OF _ order.strict_trans1 [OF _ snoc.prems(2)]]
    have IH': "unat (m_totalProcessTicks (?m rounds)) = sum_list (round_ticks rounds)"
      "unat (m_maxProcessByTicks (?m rounds)) = Max (insert 0 (set (round_ticks rounds)))"
      "unat (m_minProcessByTicks (?m rounds)) = Min (insert (unat hz) (set (round_ticks rounds)))"
      using IH snoc.prems(1) by simp_all
    have "unat (m_totalProcessTicks (?m rounds) + (e - b)) = unat (m_totalProcessTicks (?m rounds)) + unat (e - b)"
      using snoc.prems(2) IH'(1) r d by (intro unat_add_lem [THEN iffD1]) simp
    moreover have "m_maxProcessByTicks (?m (rounds @ [r])) = max (e - b) (m_maxProcessByTicks (?m rounds))"
      "m_minProcessByTicks (?m (rounds @ [r])) = min (e - b) (m_minProcessByTicks (?m rounds))"
      "m_totalProcessTicks (?m (rounds @ [r])) = m_totalProcessTicks (?m rounds) + (e - b)"
      unfolding st by (auto simp: MarkProcEnd_def MarkProcBegin_def Let_def max_def min_def)
    ultimately show ?case using IH' d r
      by (auto simp: insert_commute [of _ "unat e - unat b"] max_def min_def word_le_nat_alt split: if_splits)
  qed
  then show "unat (m_totalProcessTicks (?m rounds)) = sum_list (round_ticks rounds)"
    "unat (m_maxProcessByTicks (?m rounds)) = Max (insert 0 (set (round_ticks rounds)))"
    "unat (m_minProcessByTicks (?m rounds)) = Min (insert (unat hz) (set (round_ticks rounds)))" by blast+
qed

subsection \<open>Port\<close>

text \<open>The calls into DPDK that change the device.\<close>

datatype 'f DevCall = DevStop u16 | FlowDestroy u16 'f | DevClose u16
  | Configure u16 u16 u16 u64 u64 | RxQueueSetup u16 u16 u16 int u64 | TxQueueSetup u16 u16 u16 int u64 | TimesyncEnable u16

record 'f Port =
  p_portID :: u16
  p_isStarted :: bool
  p_flows :: "'f list"

definition Port_new :: "u16 \<Rightarrow> 'f Port" where
  "Port_new portID = \<lparr> p_portID = portID, p_isStarted = False, p_flows = [] \<rparr>"

text \<open>\<open>dev_start\<close> is what \<open>rte_eth_dev_start\<close> returns; an exception is its text.\<close>

definition Port_Start :: "(u16 \<Rightarrow> int) \<Rightarrow> 'f Port \<Rightarrow> string + 'f Port" where
  "Port_Start dev_start port =
     (if dev_start (p_portID port) \<noteq> 0 then Inl (''Can't start port: '' @ dec (unat (p_portID port)))
      else Inr (port\<lparr> p_isStarted := True \<rparr>))"

definition Port_Stop :: "'f Port \<Rightarrow> 'f DevCall list \<times> 'f Port" where
  "Port_Stop port = (if p_isStarted port then ([DevStop (p_portID port)], port\<lparr> p_isStarted := False \<rparr>) else ([], port))"

definition Port_destroy :: "(u16 \<Rightarrow> bool) \<Rightarrow> 'f Port \<Rightarrow> 'f DevCall list \<times> 'f Port" where
  "Port_destroy is_valid_port port =
     (if is_valid_port (p_portID port) then
        (case Port_Stop port of (calls, port) \<Rightarrow>
          (calls @ map (FlowDestroy (p_portID port)) (p_flows port) @ [DevClose (p_portID port)], port\<lparr> p_portID := 0xFFFF \<rparr>))
      else ([], port))"

text \<open>
  \<open>WaitLink\<close>: \<open>link i\<close> is the answer to the \<open>i\<close>-th call of \<open>rte_eth_link_get_nowait\<close>, an error or the
  link status. The first argument of the loop is the number of polls that remain.
\<close>

abbreviation (input) POLL_US :: u32 where "POLL_US \<equiv> 100000"
abbreviation (input) STABLE_NUM :: u32 where "STABLE_NUM \<equiv> 5"

primrec wait_link_loop :: "(nat \<Rightarrow> string + bool) \<Rightarrow> nat \<Rightarrow> nat \<Rightarrow> u32 \<Rightarrow> string + bool" where
  "wait_link_loop link 0 i stableCnt = Inr False"
| "wait_link_loop link (Suc n) i stableCnt =
     (case link i of
        Inl e \<Rightarrow> Inl (''Failed to get link status: '' @ e)
      | Inr link_status \<Rightarrow>
          let stableCnt = (if link_status then stableCnt + 1 else 0) in
          if stableCnt \<ge> STABLE_NUM then Inr True else wait_link_loop link n (Suc i) stableCnt)"

definition WaitLink :: "(nat \<Rightarrow> string + bool) \<Rightarrow> u32 \<Rightarrow> string + bool" where
  "WaitLink link sec = wait_link_loop link (unat (sec * (1000000 div POLL_US))) 0 0"

text \<open>The link was up in \<open>c\<close> polls in a row when the loop is entered.\<close>

lemma wait_link_loop_stable:
  assumes "\<forall>k. i \<le> k \<and> k < i + n \<longrightarrow> link k = Inr (up k)" and "c < 5" and "c \<le> i"
    and "\<forall>k. i - c \<le> k \<and> k < i \<longrightarrow> up k" and "c < i \<longrightarrow> \<not> up (i - c - 1)"
  shows "wait_link_loop link n i (of_nat c) = Inr (\<exists>k \<ge> i - c. k + 5 \<le> i + n \<and> (\<forall>j < 5. up (k + j)))"
  using assms
proof (induction n arbitrary: i c)
  case 0
  have "\<not> (k \<ge> i - c \<and> k + 5 \<le> i)" for k using 0(2) by linarith
  then show ?case by auto
next
  case (Suc n)
  have l: "link i = Inr (up i)" using Suc.prems(1) by simp
  have "c \<in> {0, 1, 2, 3, 4}" using Suc.prems(2) by auto
  then have cnt: "of_nat c + 1 \<ge> (5 :: u32) \<longleftrightarrow> c = 4" by (auto simp: word_le_nat_alt)
  show ?case
  proof (cases "up i")
    case False
    have "wait_link_loop link n (Suc i) (of_nat 0) = Inr (\<exists>k \<ge> Suc i - 0. k + 5 \<le> Suc i + n \<and> (\<forall>j < 5. up (k + j)))"
      using Suc.prems(1) False by (intro Suc.IH) auto
    moreover have "(\<exists>k \<ge> i - c. k + 5 \<le> i + Suc n \<and> (\<forall>j < 5. up (k + j))) = (\<exists>k \<ge> Suc i. k + 5 \<le> Suc i + n \<and> (\<forall>j < 5. up (k + j)))"
    proof -
      have "Suc i \<le> k" if "k \<ge> i - c" "\<forall>j < 5. up (k + j)" for k
      proof (rule ccontr)
        assume "\<not> Suc i \<le> k"
        then have "i = k + (i - k)" "i - k < 5" using that(1) Suc.prems(2) by auto
        then show False using that(2) False by metis
      qed
      then show ?thesis by (auto intro: Suc_leD) (metis Suc_leD diff_le_self order_trans)
    qed
    ultimately show ?thesis using l False by simp
  next
    case True
    show ?thesis
    proof (cases "c = 4")
      case True
      have "up (i - c + j)" if "j < 5" for j
      proof (cases "j = 4")
        case False
        then have "i - c \<le> i - c + j \<and> i - c + j < i" using that \<open>c = 4\<close> Suc.prems(3) by auto
        then show ?thesis using Suc.prems(4) by blast
      qed (use \<open>c = 4\<close> Suc.prems(3) \<open>up i\<close> in simp)
      moreover have "i - c + 5 \<le> i + Suc n" using \<open>c = 4\<close> Suc.prems(3) by simp
      ultimately show ?thesis using l \<open>up i\<close> cnt \<open>c = 4\<close> by auto
    next
      case False
      have "wait_link_loop link n (Suc i) (of_nat (Suc c)) =
        Inr (\<exists>k \<ge> Suc i - Suc c. k + 5 \<le> Suc i + n \<and> (\<forall>j < 5. up (k + j)))"
        using Suc.prems False \<open>up i\<close> by (intro Suc.IH) (auto simp: less_Suc_eq)
      then show ?thesis using l \<open>up i\<close> cnt False by (simp add: add.commute)
    qed
  qed
qed

text \<open>The counters of a port, \<open>rte_eth_stats\<close>.\<close>

record EthStats =
  es_ipackets :: u64
  es_opackets :: u64
  es_ibytes :: u64
  es_obytes :: u64
  es_imissed :: u64
  es_ierrors :: u64
  es_oerrors :: u64
  es_rx_nombuf :: u64
  es_q_errors :: u64

definition EthStats_init :: EthStats where
  "EthStats_init = \<lparr> es_ipackets = 0, es_opackets = 0, es_ibytes = 0, es_obytes = 0, es_imissed = 0, es_ierrors = 0,
     es_oerrors = 0, es_rx_nombuf = 0, es_q_errors = 0 \<rparr>"

subsection \<open>Port builder\<close>

record DevInfo =
  di_max_rx_queues :: u16
  di_max_tx_queues :: u16
  di_rx_offload_capa :: u64
  di_tx_offload_capa :: u64

text \<open>
  The device and DPDK's offload flags. \<open>dv_adjust\<close> is the pair of descriptor numbers that
  \<open>rte_eth_dev_adjust_nb_rx_tx_desc\<close> leaves, \<open>None\<close> when it fails.
\<close>

record Device =
  dv_is_valid_port :: "u16 \<Rightarrow> bool"
  dv_info_get :: "u16 \<Rightarrow> DevInfo option"
  dv_configure :: "u16 \<Rightarrow> u16 \<Rightarrow> u16 \<Rightarrow> u64 \<Rightarrow> u64 \<Rightarrow> int"
  dv_adjust :: "u16 \<Rightarrow> u16 \<Rightarrow> u16 \<Rightarrow> (u16 \<times> u16) option"
  dv_socket_id :: int
  dv_rx_queue_setup :: "u16 \<Rightarrow> u16 \<Rightarrow> u16 \<Rightarrow> int \<Rightarrow> u64 \<Rightarrow> int"
  dv_tx_queue_setup :: "u16 \<Rightarrow> u16 \<Rightarrow> u16 \<Rightarrow> int \<Rightarrow> u64 \<Rightarrow> int"
  RX_OFFLOAD_TIMESTAMP :: u64
  RX_OFFLOAD_IPV4_CKSUM :: u64
  TX_OFFLOAD_MBUF_FAST_FREE :: u64
  TX_OFFLOAD_MULTI_SEGS :: u64

record PortBuilder =
  pb_portID :: u16
  pb_rxOffloads :: u64
  pb_txOffloads :: u64
  pb_mbufPool :: bool
  pb_rxQueueNum :: u16
  pb_txQueueNum :: u16
  pb_rxDescNum :: u16
  pb_txDescNum :: u16
  pb_descSocketID :: int
  pb_timestamping :: bool
  pb_rxIpCksum :: bool

definition PortBuilder_new :: "u16 \<Rightarrow> PortBuilder" where
  "PortBuilder_new portID = \<lparr> pb_portID = portID, pb_rxOffloads = 0, pb_txOffloads = 0, pb_mbufPool = False, pb_rxQueueNum = 0,
     pb_txQueueNum = 0, pb_rxDescNum = 1024, pb_txDescNum = 1024, pb_descSocketID = - 1, pb_timestamping = False, pb_rxIpCksum = False \<rparr>"

definition SetMemPool :: "PortBuilder \<Rightarrow> PortBuilder" where "SetMemPool b = b\<lparr> pb_mbufPool := True \<rparr>"
definition AdjustQueues :: "u16 \<Rightarrow> u16 \<Rightarrow> PortBuilder \<Rightarrow> PortBuilder" where
  "AdjustQueues rx tx b = b\<lparr> pb_rxQueueNum := rx, pb_txQueueNum := tx \<rparr>"
definition SetDescriptors :: "u16 \<Rightarrow> u16 \<Rightarrow> PortBuilder \<Rightarrow> PortBuilder" where
  "SetDescriptors rx tx b = b\<lparr> pb_rxDescNum := rx, pb_txDescNum := tx \<rparr>"
definition SetDescriptorSocketId :: "int \<Rightarrow> PortBuilder \<Rightarrow> PortBuilder" where
  "SetDescriptorSocketId sid b = b\<lparr> pb_descSocketID := sid \<rparr>"
definition SetRxIpCksum :: "bool \<Rightarrow> PortBuilder \<Rightarrow> PortBuilder" where "SetRxIpCksum enable b = b\<lparr> pb_rxIpCksum := enable \<rparr>"

text \<open>The offloads asked for.\<close>

definition add_offloads :: "Device \<Rightarrow> DevInfo \<Rightarrow> PortBuilder \<Rightarrow> PortBuilder" where
  "add_offloads dev devInfo b =
     (let b = (if pb_timestamping b then
                 let b = (if di_rx_offload_capa devInfo AND RX_OFFLOAD_TIMESTAMP dev \<noteq> 0
                          then b\<lparr> pb_rxOffloads := pb_rxOffloads b OR RX_OFFLOAD_TIMESTAMP dev \<rparr> else b);
                     b = (if di_tx_offload_capa devInfo AND TX_OFFLOAD_MBUF_FAST_FREE dev \<noteq> 0
                          then b\<lparr> pb_txOffloads := pb_txOffloads b OR TX_OFFLOAD_MBUF_FAST_FREE dev \<rparr> else b)
                 in b\<lparr> pb_txOffloads := pb_txOffloads b OR TX_OFFLOAD_MULTI_SEGS dev \<rparr>
               else b)
      in if pb_rxIpCksum b \<and> di_rx_offload_capa devInfo AND RX_OFFLOAD_IPV4_CKSUM dev \<noteq> 0
         then b\<lparr> pb_rxOffloads := pb_rxOffloads b OR RX_OFFLOAD_IPV4_CKSUM dev \<rparr> else b)"

text \<open>A loop over the queues that ends at the first one that fails: the calls made, and success.\<close>

primrec setup_queues :: "(u16 \<Rightarrow> int) \<Rightarrow> (u16 \<Rightarrow> 'f DevCall) \<Rightarrow> u16 list \<Rightarrow> 'f DevCall list \<times> bool" where
  "setup_queues setup call [] = ([], True)"
| "setup_queues setup call (q # qs) =
     (if setup q \<noteq> 0 then ([call q], False) else (case setup_queues setup call qs of (calls, ok) \<Rightarrow> (call q # calls, ok)))"

definition queue_ids :: "u16 \<Rightarrow> u16 list" where "queue_ids n = map of_nat [0..<unat n]"

definition Build :: "Device \<Rightarrow> PortBuilder \<Rightarrow> 'f DevCall list \<times> (string + 'f Port)" where
  "Build dev b =
     (if \<not> pb_mbufPool b then ([], Inl ''Mempool is not set!'')
      else if \<not> dv_is_valid_port dev (pb_portID b) then ([], Inl (''Port ID is not valid: '' @ dec (unat (pb_portID b))))
      else case dv_info_get dev (pb_portID b) of
        None \<Rightarrow> ([], Inl (''Can't get dev info for: '' @ dec (unat (pb_portID b))))
      | Some devInfo \<Rightarrow>
          if pb_txQueueNum b > di_max_tx_queues devInfo \<or> pb_rxQueueNum b > di_max_rx_queues devInfo
          then ([], Inl (''Requested queues exceed NIC limit (tx '' @ dec (unat (pb_txQueueNum b)) @ ''/'' @ dec (unat (di_max_tx_queues devInfo))
                 @ '', rx '' @ dec (unat (pb_rxQueueNum b)) @ ''/'' @ dec (unat (di_max_rx_queues devInfo)) @ '')''))
          else
            let b = add_offloads dev devInfo b; port = pb_portID b;
                conf = [Configure port (pb_rxQueueNum b) (pb_txQueueNum b) (pb_rxOffloads b) (pb_txOffloads b)]
            in if dv_configure dev port (pb_rxQueueNum b) (pb_txQueueNum b) (pb_rxOffloads b) (pb_txOffloads b) \<noteq> 0
               then (conf, Inl (''Can't configure port: '' @ dec (unat port)))
               else case dv_adjust dev port (pb_rxDescNum b) (pb_txDescNum b) of
                 None \<Rightarrow> (conf, Inl ''Can't adjust RX/TX descriptors'')
               | Some (rxDescNum, txDescNum) \<Rightarrow>
                   let descSid = (if pb_descSocketID b \<ge> 0 then pb_descSocketID b else dv_socket_id dev)
                   in case setup_queues (\<lambda>q. dv_rx_queue_setup dev port q rxDescNum descSid (pb_rxOffloads b))
                        (\<lambda>q. RxQueueSetup port q rxDescNum descSid (pb_rxOffloads b)) (queue_ids (pb_rxQueueNum b)) of (rx, rxOk) \<Rightarrow>
                      if \<not> rxOk then (conf @ rx, Inl ''RX queue setup failed'')
                      else case setup_queues (\<lambda>q. dv_tx_queue_setup dev port q txDescNum descSid (pb_txOffloads b))
                        (\<lambda>q. TxQueueSetup port q txDescNum descSid (pb_txOffloads b)) (queue_ids (pb_txQueueNum b)) of (tx, txOk) \<Rightarrow>
                      if \<not> txOk then (conf @ rx @ tx, Inl ''TX queue setup failed'')
                      else (conf @ rx @ tx @ (if pb_timestamping b then [TimesyncEnable port] else []), Inr (Port_new port)))"

lemma setup_queues_ok: "setup_queues setup call qs = (calls, True) \<Longrightarrow> calls = map call qs \<and> (\<forall>q \<in> set qs. setup q = 0)"
  by (induction qs arbitrary: calls) (auto split: if_splits prod.splits)

subsection \<open>External heap\<close>

text \<open>
  \<open>UdmabufHeap\<close> takes four things one after the other: a file descriptor, a mapping, a heap and the
  memory added to it. The calls that take and give them back are logged. Its environment is the files
  under \<open>/sys\<close> (content read, number of octets a write takes, \<open>None\<close> when the file cannot be opened) and
  the answers of the kernel and of DPDK; the texts of \<open>errno\<close>
  and of the heap's name in a message are left out. The page size is not zero.
\<close>

datatype UdmaRes = FileDesc | Mapping | MallocHeap | HeapMemory "u64 list" u64 u64
datatype UdmaCall = Acquire UdmaRes | Release UdmaRes

record UdmaEnv =
  uv_read :: "string \<Rightarrow> string option"
  uv_write :: "string \<Rightarrow> string \<Rightarrow> nat option"
  uv_open :: int
  uv_mmap :: bool
  uv_heap_create :: int
  uv_pagesize :: u64
  uv_memory_add :: int
  uv_get_socket :: int

datatype va = NullPtr | MapFailed | Mapped

record UdmabufHeap =
  uh_fd :: int
  uh_va :: va
  uh_size :: u64
  uh_iova :: u64
  uh_socketID :: int
  uh_heapCreated :: bool
  uh_memoryAdded :: bool
  uh_iovas :: "u64 list"

definition UdmabufHeap_init :: UdmabufHeap where
  "UdmabufHeap_init = \<lparr> uh_fd = - 1, uh_va = NullPtr, uh_size = 0, uh_iova = 0, uh_socketID = - 1, uh_heapCreated = False,
     uh_memoryAdded = False, uh_iovas = [] \<rparr>"

text \<open>\<open>strtoul\<close> with base 0 on a buffer of at most 63 characters: prefix, sign, digits, saturation.\<close>

fun digits_value :: "nat \<Rightarrow> string \<Rightarrow> nat \<Rightarrow> nat" where
  "digits_value base [] acc = acc"
| "digits_value base (c # cs) acc =
     (case hex_value c of Some v \<Rightarrow> if v < base then digits_value base cs (acc * base + v) else acc | None \<Rightarrow> acc)"

definition strtoul0 :: "string \<Rightarrow> u64" where
  "strtoul0 s =
     (let s = dropWhile is_space s;
          neg = (s \<noteq> [] \<and> hd s = CHR ''-'');
          s = (if s \<noteq> [] \<and> (hd s = CHR ''-'' \<or> hd s = CHR ''+'') then tl s else s);
          n = (if length s \<ge> 3 \<and> s ! 0 = CHR ''0'' \<and> (s ! 1 = CHR ''x'' \<or> s ! 1 = CHR ''X'') \<and> hex_value (s ! 2) \<noteq> None
               then digits_value 16 (drop 2 s) 0
               else if s \<noteq> [] \<and> hd s = CHR ''0'' then digits_value 8 s 0
               else digits_value 10 s 0)
      in if n \<ge> 2 ^ 64 then - 1 else if neg then - of_nat n else of_nat n)"

definition readU64 :: "UdmaEnv \<Rightarrow> string \<Rightarrow> string + u64" where
  "readU64 env path = (case uv_read env path of
     None \<Rightarrow> Inl (''Cannot open '' @ path)
   | Some content \<Rightarrow> let buf = take 63 content in
       if buf = [] then Inl (''Empty '' @ path) else Inr (strtoul0 buf))"

definition writeSysfs :: "UdmaEnv \<Rightarrow> string \<Rightarrow> string \<Rightarrow> string + unit" where
  "writeSysfs env path value = (case uv_write env path value of
     None \<Rightarrow> Inl (''Cannot open '' @ path @ '' for write'')
   | Some n \<Rightarrow> if n \<noteq> length value then Inl (''Short write to '' @ path) else Inr ())"

definition releaseMmap :: "UdmabufHeap \<Rightarrow> UdmaCall list \<times> UdmabufHeap" where
  "releaseMmap h =
     (let (unmap, h) = (if uh_va h = Mapped then ([Release Mapping], h\<lparr> uh_va := NullPtr \<rparr>) else ([], h));
          (closed, h) = (if uh_fd h \<ge> 0 then ([Release FileDesc], h\<lparr> uh_fd := - 1 \<rparr>) else ([], h))
      in (unmap @ closed, h))"

definition memory_of :: "UdmaEnv \<Rightarrow> UdmabufHeap \<Rightarrow> UdmaRes" where
  "memory_of env h = HeapMemory (uh_iovas h) (uh_size h div uv_pagesize env) (uv_pagesize env)"

definition cleanup :: "UdmaEnv \<Rightarrow> UdmabufHeap \<Rightarrow> UdmaCall list \<times> UdmabufHeap" where
  "cleanup env h =
     (let (removed, h) = (if uh_memoryAdded h then ([Release (memory_of env h)], h\<lparr> uh_memoryAdded := False \<rparr>) else ([], h));
          (destroyed, h) = (if uh_heapCreated h then ([Release MallocHeap], h\<lparr> uh_heapCreated := False \<rparr>) else ([], h));
          (released, h) = releaseMmap h
      in (removed @ destroyed @ released, h\<lparr> uh_socketID := - 1 \<rparr>))"

text \<open>The constructor: the calls made, and the object or the text of the exception.\<close>

definition UdmabufHeap_new :: "UdmaEnv \<Rightarrow> string \<Rightarrow> UdmaCall list \<times> (string + UdmabufHeap)" where
  "UdmabufHeap_new env name =
     (let sysfsBase = ''/sys/class/u-dma-buf/'' @ name in
      case writeSysfs env (sysfsBase @ ''/sync_mode'') ''2'' of Inl e \<Rightarrow> ([], Inl e) | Inr _ \<Rightarrow>
      case readU64 env (sysfsBase @ ''/size'') of Inl e \<Rightarrow> ([], Inl e) | Inr sz \<Rightarrow>
      case readU64 env (sysfsBase @ ''/phys_addr'') of Inl e \<Rightarrow> ([], Inl e) | Inr iova \<Rightarrow>
      let h = UdmabufHeap_init\<lparr> uh_size := sz, uh_iova := iova \<rparr> in
      if sz = 0 \<or> iova = 0 then ([], Inl (''u-dma-buf '' @ [CHR 0x27] @ name @ [CHR 0x27] @ '' has zero size or zero phys_addr''))
      else if uv_open env < 0 then ([], Inl (''Cannot open /dev/'' @ name))
      else let h = h\<lparr> uh_fd := uv_open env \<rparr>; log = [Acquire FileDesc] in
      if \<not> uv_mmap env then (log @ [Release FileDesc], Inl (''mmap /dev/'' @ name @ '' failed''))
      else let h = h\<lparr> uh_va := Mapped \<rparr>; log = log @ [Acquire Mapping] in
      if uv_heap_create env \<noteq> 0 then (log @ fst (releaseMmap h), Inl ''rte_malloc_heap_create failed'')
      else let h = h\<lparr> uh_heapCreated := True \<rparr>; log = log @ [Acquire MallocHeap]; pageSize = uv_pagesize env in
      if sz mod pageSize \<noteq> 0 then (log @ fst (cleanup env h), Inl ''u-dma-buf size not page-aligned'')
      else let nPages = sz div pageSize; h = h\<lparr> uh_iovas := map (\<lambda>i. iova + of_nat i * pageSize) [0..<unat nPages] \<rparr> in
      if uv_memory_add env \<noteq> 0 then (log @ fst (cleanup env h), Inl ''rte_malloc_heap_memory_add failed'')
      else let h = h\<lparr> uh_memoryAdded := True \<rparr>; log = log @ [Acquire (memory_of env h)]; h = h\<lparr> uh_socketID := uv_get_socket env \<rparr> in
      if uh_socketID h < 0 then (log @ fst (cleanup env h), Inl ''rte_malloc_heap_get_socket failed'')
      else (log, Inr h))"

text \<open>All calls over the life of an object: those of the constructor, and of the destructor if there is an object.\<close>

definition heap_lifetime :: "UdmaEnv \<Rightarrow> string \<Rightarrow> UdmaCall list" where
  "heap_lifetime env name = (case UdmabufHeap_new env name of
     (log, Inl e) \<Rightarrow> log | (log, Inr h) \<Rightarrow> log @ fst (cleanup env h))"

lemmas udma_defs = UdmabufHeap_new_def cleanup_def releaseMmap_def UdmabufHeap_init_def memory_of_def

text \<open>
  Stack discipline: nothing is given back that was not taken, the last thing taken is given back first,
  and at the end nothing is held.
\<close>

fun nested :: "UdmaRes list \<Rightarrow> UdmaCall list \<Rightarrow> bool" where
  "nested held [] \<longleftrightarrow> held = []"
| "nested held (Acquire r # cs) \<longleftrightarrow> nested (r # held) cs"
| "nested held (Release r # cs) \<longleftrightarrow> (case held of [] \<Rightarrow> False | r' # held \<Rightarrow> r = r' \<and> nested held cs)"

lemma heap_new_nested: "case UdmabufHeap_new env name of (log, Inl e) \<Rightarrow> nested [] log | (log, Inr h) \<Rightarrow> nested [] (log @ fst (cleanup env h))"
  unfolding udma_defs Let_def by (simp split: sum.split prod.split)

subsection \<open>Properties\<close>

text \<open>
  \<open>WaitLink\<close> is exact. When every poll is answered, it reports the link as up if and only if five polls
  in a row, among the ten it makes per second, found it up; a single early reading is not enough.
\<close>

theorem wait_link_exact:
  assumes "\<forall>k. k < unat (sec * 10) \<longrightarrow> link k = Inr (up k)"
  shows "WaitLink link sec = Inr (\<exists>k. k + 5 \<le> unat (sec * 10) \<and> (\<forall>j < 5. up (k + j)))"
  using wait_link_loop_stable [of 0 "unat (sec * 10)" link up 0] assms by (simp add: WaitLink_def)

theorem wait_link_exact_witness: "WaitLink (\<lambda>k. Inr (k \<noteq> 2)) 60 = Inr True"
proof -
  have "\<exists>k. k + 5 \<le> 600 \<and> (\<forall>j < 5. k + j \<noteq> (2 :: nat))" by (rule exI [of _ 3]) simp
  then show ?thesis using wait_link_exact [of 60 "\<lambda>k. Inr (k \<noteq> 2)" "\<lambda>k. k \<noteq> 2"] by simp
qed

lemma single_bit_supported:
  assumes "capa AND push_bit k 1 \<noteq> (0 :: u64)"
  shows "push_bit k 1 AND NOT capa = 0"
proof -
  obtain n where "bit (capa AND push_bit k 1) n" using assms bit_eqI [of "capa AND push_bit k 1" 0] by auto
  then have "bit capa k" by (auto simp: bit_and_iff bit_exp_iff)
  then show ?thesis by (intro bit_eqI) (auto simp: bit_and_iff bit_exp_iff bit_not_iff)
qed

text \<open>
  What a port is built with. If \<open>Build\<close> succeeds then the device knows the port and has the queues asked
  for; it was configured once and each queue was set up once, in order, with the descriptor numbers the
  driver left and with the offloads of the configuration; and no receive offload was asked for that the
  device does not announce, so a missing checksum offload leaves the check to the parser.
\<close>

theorem port_build_sound:
  fixes port :: "'f Port"
  assumes "Build dev b = (calls, Inr port)" and "pb_rxOffloads b = 0" and "\<not> pb_timestamping b"
    and "RX_OFFLOAD_IPV4_CKSUM dev = push_bit k 1"
  shows "\<exists>info rxDesc txDesc rxOff sid.
    dv_is_valid_port dev (pb_portID b) \<and> dv_info_get dev (pb_portID b) = Some info \<and>
    pb_rxQueueNum b \<le> di_max_rx_queues info \<and> pb_txQueueNum b \<le> di_max_tx_queues info \<and>
    dv_adjust dev (pb_portID b) (pb_rxDescNum b) (pb_txDescNum b) = Some (rxDesc, txDesc) \<and>
    calls = Configure (pb_portID b) (pb_rxQueueNum b) (pb_txQueueNum b) rxOff (pb_txOffloads b) #
      map (\<lambda>q. RxQueueSetup (pb_portID b) q rxDesc sid rxOff) (queue_ids (pb_rxQueueNum b)) @
      map (\<lambda>q. TxQueueSetup (pb_portID b) q txDesc sid (pb_txOffloads b)) (queue_ids (pb_txQueueNum b)) \<and>
    rxOff AND NOT (di_rx_offload_capa info) = 0 \<and> port = Port_new (pb_portID b)"
proof -
  obtain info where info: "dv_info_get dev (pb_portID b) = Some info" "dv_is_valid_port dev (pb_portID b)"
    "pb_rxQueueNum b \<le> di_max_rx_queues info" "pb_txQueueNum b \<le> di_max_tx_queues info" "pb_mbufPool b"
    using assms(1) by (auto simp: Build_def not_less split: if_splits option.splits)
  let ?b = "add_offloads dev info b"
  have b: "pb_portID ?b = pb_portID b" "pb_rxQueueNum ?b = pb_rxQueueNum b" "pb_txQueueNum ?b = pb_txQueueNum b"
    "pb_rxDescNum ?b = pb_rxDescNum b" "pb_txDescNum ?b = pb_txDescNum b" "pb_txOffloads ?b = pb_txOffloads b"
    "pb_timestamping ?b = False" "pb_rxOffloads ?b AND NOT (di_rx_offload_capa info) = 0"
    using assms(2-4) single_bit_supported by (simp_all add: add_offloads_def)
  note build = assms(1) [unfolded Build_def info(1) b Let_def option.case]
  obtain rxDesc txDesc where desc: "dv_adjust dev (pb_portID b) (pb_rxDescNum b) (pb_txDescNum b) = Some (rxDesc, txDesc)"
    using build info by (auto split: if_splits option.splits)
  define sid where "sid = (if pb_descSocketID ?b \<ge> 0 then pb_descSocketID ?b else dv_socket_id dev)"
  let ?rx = "setup_queues (\<lambda>q. dv_rx_queue_setup dev (pb_portID b) q rxDesc sid (pb_rxOffloads ?b))
    (\<lambda>q. RxQueueSetup (pb_portID b) q rxDesc sid (pb_rxOffloads ?b)) (queue_ids (pb_rxQueueNum b)) :: 'f DevCall list \<times> bool"
  let ?tx = "setup_queues (\<lambda>q. dv_tx_queue_setup dev (pb_portID b) q txDesc sid (pb_txOffloads b))
    (\<lambda>q. TxQueueSetup (pb_portID b) q txDesc sid (pb_txOffloads b)) (queue_ids (pb_txQueueNum b)) :: 'f DevCall list \<times> bool"
  obtain rx tx where q: "?rx = (rx, True)" "?tx = (tx, True)"
    and calls: "calls = Configure (pb_portID b) (pb_rxQueueNum b) (pb_txQueueNum b) (pb_rxOffloads ?b) (pb_txOffloads b) # rx @ tx"
    and port: "port = Port_new (pb_portID b)"
    using build [folded sid_def] info desc by (cases ?rx; cases ?tx) (auto split: if_splits)
  show ?thesis
    using info desc b(8) calls port setup_queues_ok [OF q(1)] setup_queues_ok [OF q(2)]
    by (intro exI [of _ info] exI [of _ rxDesc] exI [of _ txDesc] exI [of _ "pb_rxOffloads ?b"] exI [of _ sid]) simp
qed

definition sample_dev :: Device where
  "sample_dev = \<lparr> dv_is_valid_port = (\<lambda>p. p = 0), dv_info_get = (\<lambda>_. Some \<lparr> di_max_rx_queues = 4, di_max_tx_queues = 4,
     di_rx_offload_capa = 0x0E, di_tx_offload_capa = 0 \<rparr>), dv_configure = (\<lambda>_ _ _ _ _. 0),
     dv_adjust = (\<lambda>_ rx tx. Some (min rx 4096, min tx 4096)), dv_socket_id = 0, dv_rx_queue_setup = (\<lambda>_ _ _ _ _. 0),
     dv_tx_queue_setup = (\<lambda>_ _ _ _ _. 0), RX_OFFLOAD_TIMESTAMP = 0x4000, RX_OFFLOAD_IPV4_CKSUM = 2,
     TX_OFFLOAD_MBUF_FAST_FREE = 0x10000, TX_OFFLOAD_MULTI_SEGS = 0x8000 \<rparr>"

definition sample_builder :: PortBuilder where
  "sample_builder = SetRxIpCksum True (SetDescriptors 65535 128 (AdjustQueues 1 1 (SetMemPool (PortBuilder_new 0))))"

lemma sample_build:
  "Build sample_dev sample_builder = ([Configure 0 1 1 2 0, RxQueueSetup 0 0 4096 0 2, TxQueueSetup 0 0 128 0 0], Inr (Port_new 0))"
  by (simp add: Build_def sample_dev_def sample_builder_def SetRxIpCksum_def SetDescriptors_def AdjustQueues_def SetMemPool_def
      PortBuilder_new_def add_offloads_def queue_ids_def)

theorem port_build_sound_witness:
  "\<exists>info rxDesc txDesc rxOff sid.
    dv_is_valid_port sample_dev 0 \<and> dv_info_get sample_dev 0 = Some info \<and>
    1 \<le> di_max_rx_queues info \<and> 1 \<le> di_max_tx_queues info \<and> dv_adjust sample_dev 0 65535 128 = Some (rxDesc, txDesc) \<and>
    [Configure 0 1 1 2 0, RxQueueSetup 0 0 4096 0 2, TxQueueSetup 0 0 128 0 0] =
      Configure 0 1 1 rxOff 0 # map (\<lambda>q. RxQueueSetup 0 q rxDesc sid rxOff) (queue_ids 1) @ map (\<lambda>q. TxQueueSetup 0 q txDesc sid 0) (queue_ids 1) \<and>
    rxOff AND NOT (di_rx_offload_capa info) = 0 \<and> Port_new 0 = (Port_new 0 :: unit Port)"
proof -
  have "RX_OFFLOAD_IPV4_CKSUM sample_dev = push_bit 1 1" by (simp add: sample_dev_def push_bit_eq_mult)
  moreover have "pb_rxOffloads sample_builder = 0" "\<not> pb_timestamping sample_builder"
    "pb_portID sample_builder = 0" "pb_rxQueueNum sample_builder = 1" "pb_txQueueNum sample_builder = 1" "pb_rxDescNum sample_builder = 65535"
    "pb_txDescNum sample_builder = 128" "pb_txOffloads sample_builder = 0"
    by (simp_all add: sample_builder_def SetRxIpCksum_def SetDescriptors_def AdjustQueues_def SetMemPool_def PortBuilder_new_def)
  ultimately show ?thesis using port_build_sound [OF sample_build, of 1] by metis
qed


end
