(* ===== verification/Pipeline.thy ===== *)
theory Pipeline
  imports R_Parser Dpdk_Cpp
begin

text \<open>
  The receive pipeline: \<open>src/bus_processor/pipeline.hpp\<close>, \<open>pipeline_pbus.hpp\<close> and the application
  state of \<open>rx_application.hpp\<close>. An mbuf is its data, the packet length and the checksum verdict of
  the card. An in-place decryption changes the data of an mbuf that sits in one stage only and is
  freed after the run, so the mutated bytes are not part of the state. A stage's outcome has the shape
  of the parsers': \<open>None\<close> when it does not return, \<open>Some None\<close> when it leaves the memory it owns.
  Prefetching has no effect on the state and is left out.
\<close>

subsection \<open>Frames\<close>

abbreviation (input) RX_BURST_SIZE :: nat where "RX_BURST_SIZE \<equiv> 32"

record 'b Frame =
  fr_buf :: "'b option list"
  fr_num :: nat

definition Frame_init :: "'b Frame" where
  "Frame_init = \<lparr> fr_buf = replicate RX_BURST_SIZE None, fr_num = 0 \<rparr>"

definition PutBuffer :: "'b \<Rightarrow> 'b Frame \<Rightarrow> 'b Frame option" where
  "PutBuffer ptr f =
     (if fr_num f < length (fr_buf f)
      then Some (f\<lparr> fr_buf := (fr_buf f)[fr_num f := Some ptr], fr_num := fr_num f + 1 \<rparr>)
      else None)"

text \<open>The pointers \<open>buf[0..num)\<close>; a null pointer or an index outside the array is an invalid access.\<close>

definition frame_bufs :: "'b Frame \<Rightarrow> 'b list option" where
  "frame_bufs f = (if fr_num f \<le> length (fr_buf f) then those (take (fr_num f) (fr_buf f)) else None)"

text \<open>The loop of a stage over its frame.\<close>

primrec for_each :: "('a \<Rightarrow> 's \<Rightarrow> 's option option) \<Rightarrow> 'a list \<Rightarrow> 's \<Rightarrow> 's option option" where
  "for_each f [] s = Some (Some s)"
| "for_each f (x # xs) s = and_then (f x s) (for_each f xs)"

subsection \<open>The application\<close>

record mbuf =
  mb_data :: bytes
  mb_len :: nat
  mb_cksum :: RxIpCksum

abbreviation (input) DEF_GOOSE_ENTRIES :: u32 where "DEF_GOOSE_ENTRIES \<equiv> 16"

record RX_Application =
  m_confGooseNum :: u32
  m_confSV80Num :: u32
  m_confSV256Num :: u32
  m_confRGooseNum :: u32
  m_confRSV80Num :: u32
  m_confRSV256Num :: u32
  m_rMode :: SecurityMode
  m_gooseEntries :: u32
  m_rDstIP :: u32
  m_gooseMap :: GooseContainer
  m_svMap :: SVContainer
  m_rxGoosePktCnt :: u64
  m_rxSVPktCnt :: u64
  m_errGooseParserCnt :: u64
  m_errSVParserCnt :: u64
  m_rxUnknownGooseCnt :: u64
  m_rxUnknownSVCnt :: u64
  m_errAuthCnt :: u64
  m_pktToKernelCnt :: u64
  m_errRingFullCnt :: u64
  m_lastPortStat :: EthStats
  m_statDisplaySec :: u32
  m_runTimeSec :: u32
  m_rxDescNum :: u32
  m_accountRxBurst :: bool
  m_runStarted :: bool

definition RX_Application_init :: RX_Application where
  "RX_Application_init = \<lparr> m_confGooseNum = 0, m_confSV80Num = 0, m_confSV256Num = 0, m_confRGooseNum = 0,
     m_confRSV80Num = 0, m_confRSV256Num = 0, m_rMode = SEC_NONE, m_gooseEntries = DEF_GOOSE_ENTRIES,
     m_rDstIP = R_DEFAULT_DST_IP, m_gooseMap = container_new, m_svMap = container_new,
     m_rxGoosePktCnt = 0, m_rxSVPktCnt = 0, m_errGooseParserCnt = 0, m_errSVParserCnt = 0,
     m_rxUnknownGooseCnt = 0, m_rxUnknownSVCnt = 0, m_errAuthCnt = 0, m_pktToKernelCnt = 0, m_errRingFullCnt = 0,
     m_lastPortStat = EthStats_init, m_statDisplaySec = 0, m_runTimeSec = 0, m_rxDescNum = 0,
     m_accountRxBurst = False, m_runStarted = False \<rparr>"

subsection \<open>The stages\<close>

datatype EnumStages = ROUTER | GOOSE | SV | R_GOOSE | R_SV | IP

abbreviation (input) START_STAGE :: EnumStages where "START_STAGE \<equiv> ROUTER"

record DataMatrix =
  dm_stages :: "EnumStages \<Rightarrow> mbuf Frame"
  dm_app :: RX_Application
  dm_crypto :: Crypto

definition set_stage :: "EnumStages \<Rightarrow> mbuf Frame \<Rightarrow> DataMatrix \<Rightarrow> DataMatrix" where
  "set_stage s f matrix = matrix\<lparr> dm_stages := (dm_stages matrix)(s := f) \<rparr>"

text \<open>\<open>frame.num = 0\<close> at the end of a stage.\<close>

definition clean :: "EnumStages \<Rightarrow> DataMatrix \<Rightarrow> DataMatrix" where
  "clean s matrix = set_stage s ((dm_stages matrix s)\<lparr> fr_num := 0 \<rparr>) matrix"

fun route :: "BUS_PROTO \<Rightarrow> EnumStages" where
  "route BUS_PROTO_SV = SV"
| "route BUS_PROTO_GOOSE = GOOSE"
| "route BUS_PROTO_R_GOOSE = R_GOOSE"
| "route BUS_PROTO_R_SV = R_SV"
| "route NON_BUS_PROTO = IP"

definition route_buffer :: "mbuf \<Rightarrow> DataMatrix \<Rightarrow> DataMatrix option option" where
  "route_buffer m matrix =
     and_then (Some (get_proto_type (mb_data m) 0 (mb_len m))) (\<lambda>(type, appid).
       and_then (Some (PutBuffer m (dm_stages matrix (route type)))) (\<lambda>f.
         Some (Some (set_stage (route type) f matrix))))"

definition RouterStage :: "EnumStages \<Rightarrow> DataMatrix \<Rightarrow> DataMatrix option option" where
  "RouterStage idx matrix =
     and_then (Some (frame_bufs (dm_stages matrix idx))) (\<lambda>bufs.
       and_then (for_each route_buffer bufs matrix) (\<lambda>matrix. Some (Some (clean idx matrix))))"

definition goose_packet :: "mbuf \<Rightarrow> RX_Application \<Rightarrow> RX_Application option option" where
  "goose_packet m app =
     and_then (parse_goose_packet (mb_data m) (mb_len m) GoosePassport_init GooseState_init) (\<lambda>retval.
       Some (Some (case retval of
         Inr (pass, state) \<Rightarrow>
           (case goose_find (m_gooseMap app) pass of
              Some src \<Rightarrow> app\<lparr> m_gooseMap := container_modify (m_gooseMap app) src (goose_ProcessState pass state),
                m_rxGoosePktCnt := m_rxGoosePktCnt app + 1 \<rparr>
            | None \<Rightarrow> app\<lparr> m_rxUnknownGooseCnt := m_rxUnknownGooseCnt app + 1 \<rparr>)
       | Inl e \<Rightarrow> app\<lparr> m_errGooseParserCnt := m_errGooseParserCnt app + 1 \<rparr>)))"

definition sv_packet :: "mbuf \<Rightarrow> RX_Application \<Rightarrow> RX_Application option option" where
  "sv_packet m app =
     and_then (parse_sv_packet (mb_data m) (mb_len m) SVStreamPassport_init SVStreamState_init) (\<lambda>retval.
       Some (Some (case retval of
         Inr (pass, state) \<Rightarrow>
           (case sv_find (m_svMap app) pass of
              Some src \<Rightarrow> app\<lparr> m_svMap := container_modify (m_svMap app) src (sv_ProcessState pass state),
                m_rxSVPktCnt := m_rxSVPktCnt app + 1 \<rparr>
            | None \<Rightarrow> app\<lparr> m_rxUnknownSVCnt := m_rxUnknownSVCnt app + 1 \<rparr>)
       | Inl e \<Rightarrow> app\<lparr> m_errSVParserCnt := m_errSVParserCnt app + 1 \<rparr>)))"

definition r_goose_packet :: "Crypto \<Rightarrow> mbuf \<Rightarrow> RX_Application \<Rightarrow> RX_Application option option" where
  "r_goose_packet crypto m app =
     and_then (Some (validate_r_envelope (mb_data m) (mb_len m) (mb_cksum m))) (\<lambda>env. case env of
       Inl e \<Rightarrow> Some (Some (app\<lparr> m_errGooseParserCnt := m_errGooseParserCnt app + 1 \<rparr>))
     | Inr dstIP \<Rightarrow>
         and_then (parse_r_goose_packet (mb_data m) (mb_len m) (m_rMode app) crypto GoosePassport_init GooseState_init) (\<lambda>retval.
           Some (Some (case retval of
             Inr (session, pass, state) \<Rightarrow>
               (let pass = pass\<lparr> gp_dstIP := dstIP \<rparr> in
                case goose_find (m_gooseMap app) pass of
                  Some src \<Rightarrow> app\<lparr> m_gooseMap := container_modify (m_gooseMap app) src
                      (goose_ProcessState pass state \<circ> goose_ProcessSessionState (sh_spduNumber session)),
                    m_rxGoosePktCnt := m_rxGoosePktCnt app + 1 \<rparr>
                | None \<Rightarrow> app\<lparr> m_rxUnknownGooseCnt := m_rxUnknownGooseCnt app + 1 \<rparr>)
           | Inl e \<Rightarrow> if e = R_PARSE_ERR_AUTH then app\<lparr> m_errAuthCnt := m_errAuthCnt app + 1 \<rparr>
               else app\<lparr> m_errGooseParserCnt := m_errGooseParserCnt app + 1 \<rparr>))))"

definition r_sv_packet :: "Crypto \<Rightarrow> mbuf \<Rightarrow> RX_Application \<Rightarrow> RX_Application option option" where
  "r_sv_packet crypto m app =
     and_then (Some (validate_r_envelope (mb_data m) (mb_len m) (mb_cksum m))) (\<lambda>env. case env of
       Inl e \<Rightarrow> Some (Some (app\<lparr> m_errSVParserCnt := m_errSVParserCnt app + 1 \<rparr>))
     | Inr dstIP \<Rightarrow>
         and_then (parse_r_sv_packet (mb_data m) (mb_len m) (m_rMode app) crypto SVStreamPassport_init SVStreamState_init) (\<lambda>retval.
           Some (Some (case retval of
             Inr (session, pass, state) \<Rightarrow>
               (let pass = pass\<lparr> vp_dstIP := dstIP \<rparr> in
                case sv_find (m_svMap app) pass of
                  Some src \<Rightarrow> app\<lparr> m_svMap := container_modify (m_svMap app) src
                      (sv_ProcessState pass state \<circ> sv_ProcessSessionState (sh_spduNumber session)),
                    m_rxSVPktCnt := m_rxSVPktCnt app + 1 \<rparr>
                | None \<Rightarrow> app\<lparr> m_rxUnknownSVCnt := m_rxUnknownSVCnt app + 1 \<rparr>)
           | Inl e \<Rightarrow> if e = R_PARSE_ERR_AUTH then app\<lparr> m_errAuthCnt := m_errAuthCnt app + 1 \<rparr>
               else app\<lparr> m_errSVParserCnt := m_errSVParserCnt app + 1 \<rparr>))))"

text \<open>The frame loop shared by the four parsing stages.\<close>

definition packet_stage :: "(mbuf \<Rightarrow> RX_Application \<Rightarrow> RX_Application option option) \<Rightarrow> EnumStages \<Rightarrow>
    DataMatrix \<Rightarrow> DataMatrix option option" where
  "packet_stage body idx matrix =
     and_then (Some (frame_bufs (dm_stages matrix idx))) (\<lambda>bufs.
       and_then (for_each body bufs (dm_app matrix)) (\<lambda>app. Some (Some (clean idx (matrix\<lparr> dm_app := app \<rparr>)))))"

definition GooseStage :: "EnumStages \<Rightarrow> DataMatrix \<Rightarrow> DataMatrix option option" where
  "GooseStage idx matrix = packet_stage goose_packet idx matrix"

definition SampledValuesStage :: "EnumStages \<Rightarrow> DataMatrix \<Rightarrow> DataMatrix option option" where
  "SampledValuesStage idx matrix = packet_stage sv_packet idx matrix"

definition RGooseStage :: "EnumStages \<Rightarrow> DataMatrix \<Rightarrow> DataMatrix option option" where
  "RGooseStage idx matrix = packet_stage (r_goose_packet (dm_crypto matrix)) idx matrix"

definition RSampledValuesStage :: "EnumStages \<Rightarrow> DataMatrix \<Rightarrow> DataMatrix option option" where
  "RSampledValuesStage idx matrix = packet_stage (r_sv_packet (dm_crypto matrix)) idx matrix"

definition IPStage :: "EnumStages \<Rightarrow> DataMatrix \<Rightarrow> DataMatrix option option" where
  "IPStage idx matrix = Some (Some (clean idx (matrix
     \<lparr> dm_app := (dm_app matrix)\<lparr> m_pktToKernelCnt := m_pktToKernelCnt (dm_app matrix) + of_nat (fr_num (dm_stages matrix idx)) \<rparr> \<rparr>)))"

text \<open>\<open>StaticChain\<close>: the stages one after the other.\<close>

definition StaticChain :: "('m \<Rightarrow> 'm option option) list \<Rightarrow> 'm \<Rightarrow> 'm option option" where
  "StaticChain stages matrix = for_each (\<lambda>stage. stage) stages matrix"

definition FramePipeline :: "DataMatrix \<Rightarrow> DataMatrix option option" where
  "FramePipeline = StaticChain [RouterStage ROUTER, GooseStage GOOSE, SampledValuesStage SV, RGooseStage R_GOOSE,
     RSampledValuesStage R_SV, IPStage IP]"

subsection \<open>Frames hold bursts\<close>

text \<open>The frame holds exactly the buffers of the list and keeps its capacity.\<close>

definition holds :: "'b Frame \<Rightarrow> 'b list \<Rightarrow> bool" where
  "holds f bs \<longleftrightarrow> length (fr_buf f) = RX_BURST_SIZE \<and> length bs \<le> RX_BURST_SIZE \<and> fr_num f = length bs \<and>
     take (length bs) (fr_buf f) = map Some bs"

lemma holds_init: "holds Frame_init []"
  by (simp add: holds_def Frame_init_def)

lemma those_map_Some [simp]: "those (map Some xs) = Some xs"
  by (induction xs) simp_all

lemma frame_bufs_holds: "holds f bs \<Longrightarrow> frame_bufs f = Some bs"
  by (simp add: holds_def frame_bufs_def)

lemma holds_clean: "holds f bs \<Longrightarrow> holds (f\<lparr> fr_num := 0 \<rparr>) []"
  by (simp add: holds_def)

lemma PutBuffer_holds:
  assumes "holds f bs" and "length bs < RX_BURST_SIZE"
  obtains f' where "PutBuffer m f = Some f'" and "holds f' (bs @ [m])"
  using assms by (simp add: holds_def PutBuffer_def take_Suc_conv_app_nth)

lemma for_each_append: "for_each f (xs @ ys) s = and_then (for_each f xs s) (for_each f ys)"
  by (induction xs arbitrary: s) (auto simp: and_then_def split: option.splits)

lemma for_each_total:
  assumes "\<And>x s. x \<in> set xs \<Longrightarrow> I s \<Longrightarrow> \<exists>s'. f x s = Some (Some s') \<and> I s'" and "I s"
  shows "\<exists>s'. for_each f xs s = Some (Some s') \<and> I s'"
  using assms
proof (induction xs arbitrary: s)
  case (Cons x xs)
  obtain s1 where "f x s = Some (Some s1)" "I s1" using Cons.prems by force
  then show ?case using Cons.IH [of s1] Cons.prems(1) by simp
qed simp

lemma for_each_sum:
  fixes count :: "'s \<Rightarrow> u64"
  assumes "\<And>x s s'. f x s = Some (Some s') \<Longrightarrow> count s' = count s + 1" and "for_each f xs s = Some (Some s')"
  shows "count s' = count s + of_nat (length xs)"
  using assms(2)
proof (induction xs arbitrary: s)
  case (Cons x xs)
  then obtain s1 where "f x s = Some (Some s1)" "for_each f xs s1 = Some (Some s')"
    by (auto simp: and_then_def split: option.splits)
  with assms(1) Cons.IH show ?case by (simp add: algebra_simps)
qed simp

subsection \<open>The pipeline refines a run over the burst, class by class\<close>

definition in_stage :: "EnumStages \<Rightarrow> mbuf \<Rightarrow> bool" where
  "in_stage s m = (case get_proto_type (mb_data m) 0 (mb_len m) of None \<Rightarrow> False | Some (type, appid) \<Rightarrow> route type = s)"

definition batch :: "Crypto \<Rightarrow> mbuf list \<Rightarrow> RX_Application \<Rightarrow> RX_Application option option" where
  "batch crypto bs app =
     and_then (for_each goose_packet (filter (in_stage GOOSE) bs) app) (\<lambda>app.
     and_then (for_each sv_packet (filter (in_stage SV) bs) app) (\<lambda>app.
     and_then (for_each (r_goose_packet crypto) (filter (in_stage R_GOOSE) bs) app) (\<lambda>app.
     and_then (for_each (r_sv_packet crypto) (filter (in_stage R_SV) bs) app) (\<lambda>app.
       Some (Some (app\<lparr> m_pktToKernelCnt := m_pktToKernelCnt app + of_nat (length (filter (in_stage IP) bs)) \<rparr>))))))"

text \<open>Classification reads inside the buffer.\<close>

definition classified :: "mbuf \<Rightarrow> bool" where
  "classified m \<longleftrightarrow> get_proto_type (mb_data m) 0 (mb_len m) \<noteq> None"

lemma route_not_router: "route t \<noteq> ROUTER"
  by (cases t) simp_all

lemma route_all:
  assumes "\<forall>m \<in> set bs. classified m" and "\<forall>s. s \<noteq> ROUTER \<longrightarrow> holds (dm_stages matrix s) (c s)"
    and "\<forall>s. length (c s) + length bs \<le> RX_BURST_SIZE"
  shows "\<exists>st. for_each route_buffer bs matrix = Some (Some (matrix\<lparr> dm_stages := st \<rparr>)) \<and> st ROUTER = dm_stages matrix ROUTER \<and>
    (\<forall>s. s \<noteq> ROUTER \<longrightarrow> holds (st s) (c s @ filter (in_stage s) bs))"
  using assms
proof (induction bs arbitrary: matrix c)
  case Nil
  then show ?case by (intro exI [of _ "dm_stages matrix"]) simp
next
  case (Cons m bs)
  obtain t a where t: "get_proto_type (mb_data m) 0 (mb_len m) = Some (t, a)" using Cons.prems(1) by (auto simp: classified_def)
  have "length (c (route t)) < RX_BURST_SIZE" using Cons.prems(3) by (metis add_lessD1 length_Cons less_add_Suc1 order_less_le_trans add_Suc_right)
  then obtain f where f: "PutBuffer m (dm_stages matrix (route t)) = Some f" "holds f (c (route t) @ [m])"
    using PutBuffer_holds Cons.prems(2) route_not_router by metis
  let ?c = "c(route t := c (route t) @ [m])" and ?m = "set_stage (route t) f matrix"
  have step: "route_buffer m matrix = Some (Some ?m)" by (simp add: route_buffer_def t f(1))
  have cs: "?c s @ filter (in_stage s) bs = c s @ filter (in_stage s) (m # bs)" for s by (auto simp: in_stage_def t)
  have h: "\<forall>s. s \<noteq> ROUTER \<longrightarrow> holds (dm_stages ?m s) (?c s)" using Cons.prems(2) f(2) by (simp add: set_stage_def)
  have l: "\<forall>s. length (?c s) + length bs \<le> RX_BURST_SIZE"
  proof
    fix s show "length (?c s) + length bs \<le> RX_BURST_SIZE" using Cons.prems(3) [rule_format, of s] by auto
  qed
  obtain st where "for_each route_buffer bs ?m = Some (Some (?m\<lparr> dm_stages := st \<rparr>))" "st ROUTER = dm_stages ?m ROUTER"
    "\<forall>s. s \<noteq> ROUTER \<longrightarrow> holds (st s) (?c s @ filter (in_stage s) bs)"
    using Cons.IH [OF _ h l] Cons.prems(1) by auto
  then show ?case
    using route_not_router [of t] unfolding cs for_each.simps step and_then_simps
    by (intro exI [of _ st]) (simp add: set_stage_def)
qed

lemma packet_stage_holds:
  assumes "holds (dm_stages matrix s) bs"
  shows "packet_stage body s matrix =
    and_then (for_each body bs (dm_app matrix)) (\<lambda>app. Some (Some (clean s (matrix\<lparr> dm_app := app \<rparr>))))"
  using assms by (simp add: packet_stage_def frame_bufs_holds)

lemma clean_sel [simp]:
  "dm_stages (clean s m) t = (if t = s then (dm_stages m s)\<lparr> fr_num := 0 \<rparr> else dm_stages m t)"
  "dm_app (clean s m) = dm_app m" "dm_crypto (clean s m) = dm_crypto m"
  by (simp_all add: clean_def set_stage_def)

lemma and_then_assoc: "and_then (and_then x f) g = and_then x (\<lambda>v. and_then (f v) g)"
  by (auto simp: and_then_def split: option.splits)

lemma and_then_cong: "x = y \<Longrightarrow> (\<And>v. f v = g v) \<Longrightarrow> and_then x f = and_then y g"
  by (auto simp: and_then_def split: option.splits)

text \<open>
  A burst in the first frame, all others empty: the pipeline's effect on the application is the run
  over the burst by class, and it leaves every frame empty.
\<close>

lemma pipeline_batch:
  assumes "holds (dm_stages matrix ROUTER) bs" and "\<forall>s. s \<noteq> ROUTER \<longrightarrow> holds (dm_stages matrix s) []"
    and "\<forall>m \<in> set bs. classified m"
  shows "\<exists>st. (\<forall>s. holds (st s) []) \<and>
    FramePipeline matrix = and_then (batch (dm_crypto matrix) bs (dm_app matrix)) (\<lambda>app.
      Some (Some (matrix\<lparr> dm_stages := st, dm_app := app \<rparr>)))"
proof -
  have len: "length bs \<le> RX_BURST_SIZE" using assms(1) by (simp add: holds_def)
  obtain st where r: "for_each route_buffer bs matrix = Some (Some (matrix\<lparr> dm_stages := st \<rparr>))" "st ROUTER = dm_stages matrix ROUTER"
    "\<forall>s. s \<noteq> ROUTER \<longrightarrow> holds (st s) (filter (in_stage s) bs)"
    using route_all [OF assms(3), of matrix "\<lambda>_. []"] assms(2) len by auto
  define at where "at D app = matrix\<lparr> dm_stages := (\<lambda>s. if s \<in> D then (st s)\<lparr> fr_num := 0 \<rparr> else st s), dm_app := app \<rparr>" for D app
  have h: "holds (st s) (filter (in_stage s) bs)" if "s \<noteq> ROUTER" for s using r(3) that by blast
  have empty: "holds (dm_stages (at UNIV app) s) []" for s app
    using h [of s] assms(1) r(2) by (cases "s = ROUTER") (auto simp: at_def intro: holds_clean)
  have clean: "clean s ((at D app)\<lparr> dm_app := app' \<rparr>) = at (insert s D) app'" if "s \<notin> D" for s D app app'
    using that by (cases matrix) (auto simp: at_def clean_def set_stage_def fun_eq_iff)
  have stage: "packet_stage body s (at D app) =
      and_then (for_each body (filter (in_stage s) bs) app) (\<lambda>app. Some (Some (at (insert s D) app)))"
    if "s \<notin> D" "s \<noteq> ROUTER" for body s D app
    using packet_stage_holds [of "at D app" s "filter (in_stage s) bs" body] h [OF that(2)] that(1)
    by (simp add: clean) (simp add: at_def)
  have router: "RouterStage ROUTER matrix = Some (Some (at {ROUTER} (dm_app matrix)))"
    by (simp add: RouterStage_def frame_bufs_holds [OF assms(1)] r(1)) (simp add: at_def clean_def set_stage_def fun_eq_iff)
  have ip: "IPStage IP (at {R_SV, R_GOOSE, SV, GOOSE, ROUTER} app) =
      Some (Some (at UNIV (app\<lparr> m_pktToKernelCnt := m_pktToKernelCnt app + of_nat (length (filter (in_stage IP) bs)) \<rparr>)))" for app
  proof -
    have "insert IP {R_SV, R_GOOSE, SV, GOOSE, ROUTER} = UNIV" by (auto intro: EnumStages.exhaust)
    moreover have "fr_num (st IP) = length (filter (in_stage IP) bs)" using h [of IP] by (simp add: holds_def)
    ultimately show ?thesis by (simp add: IPStage_def clean) (simp add: at_def)
  qed
  have stages: "packet_stage body GOOSE (at {ROUTER} app) =
      and_then (for_each body (filter (in_stage GOOSE) bs) app) (\<lambda>app. Some (Some (at {GOOSE, ROUTER} app)))"
    "packet_stage body SV (at {GOOSE, ROUTER} app) =
      and_then (for_each body (filter (in_stage SV) bs) app) (\<lambda>app. Some (Some (at {SV, GOOSE, ROUTER} app)))"
    "packet_stage body R_GOOSE (at {SV, GOOSE, ROUTER} app) =
      and_then (for_each body (filter (in_stage R_GOOSE) bs) app) (\<lambda>app. Some (Some (at {R_GOOSE, SV, GOOSE, ROUTER} app)))"
    "packet_stage body R_SV (at {R_GOOSE, SV, GOOSE, ROUTER} app) =
      and_then (for_each body (filter (in_stage R_SV) bs) app) (\<lambda>app. Some (Some (at {R_SV, R_GOOSE, SV, GOOSE, ROUTER} app)))"
    for body app by (rule stage; simp)+
  have crypto: "dm_crypto (at D app) = dm_crypto matrix" for D app by (simp add: at_def)
  have "FramePipeline matrix = and_then (batch (dm_crypto matrix) bs (dm_app matrix)) (\<lambda>app. Some (Some (at UNIV app)))"
    unfolding FramePipeline_def StaticChain_def for_each.simps router GooseStage_def SampledValuesStage_def RGooseStage_def
      RSampledValuesStage_def and_then_simps and_then_assoc batch_def stages crypto ip by (simp only:)
  moreover have fin: "at UNIV app = matrix\<lparr> dm_stages := (\<lambda>s. (st s)\<lparr> fr_num := 0 \<rparr>), dm_app := app \<rparr>" for app
    by (simp only: at_def UNIV_I if_True)
  moreover have "holds ((st s)\<lparr> fr_num := 0 \<rparr>) []" for s using empty [of "dm_app matrix" s] by (simp add: fin)
  ultimately show ?thesis by (intro exI [of _ "\<lambda>s. (st s)\<lparr> fr_num := 0 \<rparr>"]) simp
qed

subsection \<open>Streams\<close>

text \<open>What a frame says to the stream it names: passport, SPDU number of a routable frame, state.\<close>

type_synonym goose_message = "GoosePassport \<times> u32 option \<times> GooseState"
type_synonym sv_message = "SVStreamPassport \<times> u32 option \<times> SVStreamState"

definition goose_reading :: "mbuf \<Rightarrow> goose_message option" where
  "goose_reading m = (case parse_goose_packet (mb_data m) (mb_len m) GoosePassport_init GooseState_init of
     Some (Some (Inr (pass, state))) \<Rightarrow> Some (pass, None, state) | _ \<Rightarrow> None)"

definition r_goose_reading :: "SecurityMode \<Rightarrow> Crypto \<Rightarrow> mbuf \<Rightarrow> goose_message option" where
  "r_goose_reading mode crypto m =
     (case validate_r_envelope (mb_data m) (mb_len m) (mb_cksum m) of
        Some (Inr dstIP) \<Rightarrow>
          (case parse_r_goose_packet (mb_data m) (mb_len m) mode crypto GoosePassport_init GooseState_init of
             Some (Some (Inr (session, pass, state))) \<Rightarrow> Some (pass\<lparr> gp_dstIP := dstIP \<rparr>, Some (sh_spduNumber session), state)
           | _ \<Rightarrow> None)
      | _ \<Rightarrow> None)"

definition sv_reading :: "mbuf \<Rightarrow> sv_message option" where
  "sv_reading m = (case parse_sv_packet (mb_data m) (mb_len m) SVStreamPassport_init SVStreamState_init of
     Some (Some (Inr (pass, state))) \<Rightarrow> Some (pass, None, state) | _ \<Rightarrow> None)"

definition r_sv_reading :: "SecurityMode \<Rightarrow> Crypto \<Rightarrow> mbuf \<Rightarrow> sv_message option" where
  "r_sv_reading mode crypto m =
     (case validate_r_envelope (mb_data m) (mb_len m) (mb_cksum m) of
        Some (Inr dstIP) \<Rightarrow>
          (case parse_r_sv_packet (mb_data m) (mb_len m) mode crypto SVStreamPassport_init SVStreamState_init of
             Some (Some (Inr (session, pass, state))) \<Rightarrow> Some (pass\<lparr> vp_dstIP := dstIP \<rparr>, Some (sh_spduNumber session), state)
           | _ \<Rightarrow> None)
      | _ \<Rightarrow> None)"

lemma and_then_eq_Some: "and_then x f = Some (Some r) \<longleftrightarrow> (\<exists>v. x = Some (Some v) \<and> f v = Some (Some r))"
  by (auto simp: and_then_def split: option.splits)

text \<open>The ways a packet can end.\<close>

lemma goose_packet_cases:
  assumes "goose_packet m app = Some (Some app')"
  obtains (broken) "goose_reading m = None" "app' = app\<lparr> m_errGooseParserCnt := m_errGooseParserCnt app + 1 \<rparr>"
  | (unknown) pass st where "goose_reading m = Some (pass, None, st)" "goose_find (m_gooseMap app) pass = None"
      "app' = app\<lparr> m_rxUnknownGooseCnt := m_rxUnknownGooseCnt app + 1 \<rparr>"
  | (known) pass st src where "goose_reading m = Some (pass, None, st)" "goose_find (m_gooseMap app) pass = Some src"
      "app' = app\<lparr> m_gooseMap := container_modify (m_gooseMap app) src (goose_ProcessState pass st),
         m_rxGoosePktCnt := m_rxGoosePktCnt app + 1 \<rparr>"
proof -
  obtain r where r: "parse_goose_packet (mb_data m) (mb_len m) GoosePassport_init GooseState_init = Some (Some r)"
    using assms by (auto simp: goose_packet_def and_then_eq_Some)
  show thesis
  proof (cases r)
    case (Inr x)
    obtain pass st where x: "r = Inr (pass, st)" using Inr by (cases x) auto
    show thesis
    proof (cases "goose_find (m_gooseMap app) pass")
      case None
      then show thesis using assms r x by (intro unknown) (auto simp: goose_packet_def goose_reading_def)
    next
      case (Some src)
      then show thesis using assms r x by (intro known) (auto simp: goose_packet_def goose_reading_def)
    qed
  qed (use assms r in \<open>auto simp: goose_packet_def goose_reading_def intro: broken\<close>)
qed

lemma sv_packet_cases:
  assumes "sv_packet m app = Some (Some app')"
  obtains (broken) "sv_reading m = None" "app' = app\<lparr> m_errSVParserCnt := m_errSVParserCnt app + 1 \<rparr>"
  | (unknown) pass st where "sv_reading m = Some (pass, None, st)" "sv_find (m_svMap app) pass = None"
      "app' = app\<lparr> m_rxUnknownSVCnt := m_rxUnknownSVCnt app + 1 \<rparr>"
  | (known) pass st src where "sv_reading m = Some (pass, None, st)" "sv_find (m_svMap app) pass = Some src"
      "app' = app\<lparr> m_svMap := container_modify (m_svMap app) src (sv_ProcessState pass st),
         m_rxSVPktCnt := m_rxSVPktCnt app + 1 \<rparr>"
proof -
  obtain r where r: "parse_sv_packet (mb_data m) (mb_len m) SVStreamPassport_init SVStreamState_init = Some (Some r)"
    using assms by (auto simp: sv_packet_def and_then_eq_Some)
  show thesis
  proof (cases r)
    case (Inr x)
    obtain pass st where x: "r = Inr (pass, st)" using Inr by (cases x) auto
    show thesis
    proof (cases "sv_find (m_svMap app) pass")
      case None
      then show thesis using assms r x by (intro unknown) (auto simp: sv_packet_def sv_reading_def)
    next
      case (Some src)
      then show thesis using assms r x by (intro known) (auto simp: sv_packet_def sv_reading_def)
    qed
  qed (use assms r in \<open>auto simp: sv_packet_def sv_reading_def intro: broken\<close>)
qed

lemma r_goose_packet_cases:
  assumes "r_goose_packet crypto m app = Some (Some app')"
  obtains (broken) "r_goose_reading (m_rMode app) crypto m = None" "app' = app\<lparr> m_errGooseParserCnt := m_errGooseParserCnt app + 1 \<rparr>"
  | (forged) "r_goose_reading (m_rMode app) crypto m = None" "app' = app\<lparr> m_errAuthCnt := m_errAuthCnt app + 1 \<rparr>"
  | (unknown) pass n st where "r_goose_reading (m_rMode app) crypto m = Some (pass, Some n, st)"
      "goose_find (m_gooseMap app) pass = None" "app' = app\<lparr> m_rxUnknownGooseCnt := m_rxUnknownGooseCnt app + 1 \<rparr>"
  | (known) pass n st src where "r_goose_reading (m_rMode app) crypto m = Some (pass, Some n, st)"
      "goose_find (m_gooseMap app) pass = Some src"
      "app' = app\<lparr> m_gooseMap := container_modify (m_gooseMap app) src (goose_ProcessState pass st \<circ> goose_ProcessSessionState n),
         m_rxGoosePktCnt := m_rxGoosePktCnt app + 1 \<rparr>"
proof -
  obtain env where env: "validate_r_envelope (mb_data m) (mb_len m) (mb_cksum m) = Some env"
    using assms by (auto simp: r_goose_packet_def and_then_eq_Some)
  show thesis
  proof (cases env)
    case (Inl e)
    then show thesis using assms env by (intro broken) (auto simp: r_goose_packet_def r_goose_reading_def)
  next
    case (Inr ip)
    obtain r where r: "parse_r_goose_packet (mb_data m) (mb_len m) (m_rMode app) crypto GoosePassport_init GooseState_init = Some (Some r)"
      using assms env Inr by (auto simp: r_goose_packet_def and_then_eq_Some)
    note run = assms [unfolded r_goose_packet_def env and_then_simps Inr sum.case r]
    show thesis
    proof (cases r)
      case (Inl e)
      then show thesis using run env Inr r broken forged
        by (cases "e = R_PARSE_ERR_AUTH") (auto simp: r_goose_reading_def)
    next
      case x: (Inr x)
      obtain session pass st where x: "r = Inr (session, pass, st)" using x by (cases x) auto
      have rd: "r_goose_reading (m_rMode app) crypto m = Some (pass\<lparr> gp_dstIP := ip \<rparr>, Some (sh_spduNumber session), st)"
        using env Inr r x by (simp add: r_goose_reading_def)
      then show thesis using run x unknown known
        by (cases "goose_find (m_gooseMap app) (pass\<lparr> gp_dstIP := ip \<rparr>)") (auto simp: Let_def)
    qed
  qed
qed

lemma r_sv_packet_cases:
  assumes "r_sv_packet crypto m app = Some (Some app')"
  obtains (broken) "r_sv_reading (m_rMode app) crypto m = None" "app' = app\<lparr> m_errSVParserCnt := m_errSVParserCnt app + 1 \<rparr>"
  | (forged) "r_sv_reading (m_rMode app) crypto m = None" "app' = app\<lparr> m_errAuthCnt := m_errAuthCnt app + 1 \<rparr>"
  | (unknown) pass n st where "r_sv_reading (m_rMode app) crypto m = Some (pass, Some n, st)"
      "sv_find (m_svMap app) pass = None" "app' = app\<lparr> m_rxUnknownSVCnt := m_rxUnknownSVCnt app + 1 \<rparr>"
  | (known) pass n st src where "r_sv_reading (m_rMode app) crypto m = Some (pass, Some n, st)"
      "sv_find (m_svMap app) pass = Some src"
      "app' = app\<lparr> m_svMap := container_modify (m_svMap app) src (sv_ProcessState pass st \<circ> sv_ProcessSessionState n),
         m_rxSVPktCnt := m_rxSVPktCnt app + 1 \<rparr>"
proof -
  obtain env where env: "validate_r_envelope (mb_data m) (mb_len m) (mb_cksum m) = Some env"
    using assms by (auto simp: r_sv_packet_def and_then_eq_Some)
  show thesis
  proof (cases env)
    case (Inl e)
    then show thesis using assms env by (intro broken) (auto simp: r_sv_packet_def r_sv_reading_def)
  next
    case (Inr ip)
    obtain r where r: "parse_r_sv_packet (mb_data m) (mb_len m) (m_rMode app) crypto SVStreamPassport_init SVStreamState_init = Some (Some r)"
      using assms env Inr by (auto simp: r_sv_packet_def and_then_eq_Some)
    note run = assms [unfolded r_sv_packet_def env and_then_simps Inr sum.case r]
    show thesis
    proof (cases r)
      case (Inl e)
      then show thesis using run env Inr r broken forged
        by (cases "e = R_PARSE_ERR_AUTH") (auto simp: r_sv_reading_def)
    next
      case x: (Inr x)
      obtain session pass st where x: "r = Inr (session, pass, st)" using x by (cases x) auto
      have rd: "r_sv_reading (m_rMode app) crypto m = Some (pass\<lparr> vp_dstIP := ip \<rparr>, Some (sh_spduNumber session), st)"
        using env Inr r x by (simp add: r_sv_reading_def)
      then show thesis using run x unknown known
        by (cases "sv_find (m_svMap app) (pass\<lparr> vp_dstIP := ip \<rparr>)") (auto simp: Let_def)
    qed
  qed
qed

subsection \<open>Counters\<close>

text \<open>The sum of all the counters a frame can end in.\<close>

definition total :: "RX_Application \<Rightarrow> u64" where
  "total app = m_rxGoosePktCnt app + m_rxSVPktCnt app + m_errGooseParserCnt app + m_errSVParserCnt app +
     m_rxUnknownGooseCnt app + m_rxUnknownSVCnt app + m_errAuthCnt app + m_pktToKernelCnt app"

lemma packet_counts:
  "goose_packet m app = Some (Some app') \<Longrightarrow> total app' = total app + 1"
  "sv_packet m app = Some (Some app') \<Longrightarrow> total app' = total app + 1"
  "r_goose_packet crypto m app = Some (Some app') \<Longrightarrow> total app' = total app + 1"
  "r_sv_packet crypto m app = Some (Some app') \<Longrightarrow> total app' = total app + 1"
  by (auto simp: total_def elim: goose_packet_cases sv_packet_cases r_goose_packet_cases r_sv_packet_cases)

lemma class_sizes:
  assumes "\<forall>m \<in> set bs. classified m"
  shows "length (filter (in_stage GOOSE) bs) + length (filter (in_stage SV) bs) + length (filter (in_stage R_GOOSE) bs) +
    length (filter (in_stage R_SV) bs) + length (filter (in_stage IP) bs) = length bs"
  using assms
proof (induction bs)
  case (Cons m bs)
  obtain t a where "get_proto_type (mb_data m) 0 (mb_len m) = Some (t, a)" using Cons.prems by (auto simp: classified_def)
  then show ?case using Cons by (cases t) (simp_all add: in_stage_def)
qed simp

lemma batch_counts:
  assumes "\<forall>m \<in> set bs. classified m" and "batch crypto bs app = Some (Some app')"
  shows "total app' = total app + of_nat (length bs)"
proof -
  let ?n = "\<lambda>s. length (filter (in_stage s) bs)"
  obtain a1 a2 a3 a4 where r: "for_each goose_packet (filter (in_stage GOOSE) bs) app = Some (Some a1)"
    "for_each sv_packet (filter (in_stage SV) bs) a1 = Some (Some a2)"
    "for_each (r_goose_packet crypto) (filter (in_stage R_GOOSE) bs) a2 = Some (Some a3)"
    "for_each (r_sv_packet crypto) (filter (in_stage R_SV) bs) a3 = Some (Some a4)"
    "app' = a4\<lparr> m_pktToKernelCnt := m_pktToKernelCnt a4 + of_nat (?n IP) \<rparr>"
    using assms(2) by (auto simp: batch_def and_then_eq_Some)
  have "total app' = total a4 + of_nat (?n IP)" by (simp add: r(5) total_def)
  moreover have "total a4 = total a3 + of_nat (?n R_SV)" by (rule for_each_sum [OF packet_counts(4) r(4)])
  moreover have "total a3 = total a2 + of_nat (?n R_GOOSE)" by (rule for_each_sum [OF packet_counts(3) r(3)])
  moreover have "total a2 = total a1 + of_nat (?n SV)" by (rule for_each_sum [OF packet_counts(2) r(2)])
  moreover have "total a1 = total app + of_nat (?n GOOSE)" by (rule for_each_sum [OF packet_counts(1) r(1)])
  ultimately have "total app' = total app + of_nat (?n GOOSE + ?n SV + ?n R_GOOSE + ?n R_SV + ?n IP)" by simp
  then show ?thesis by (simp only: class_sizes [OF assms(1)])
qed

subsection \<open>Deliveries\<close>

text \<open>The messages of a burst in the order the stages deliver them.\<close>

definition goose_messages :: "SecurityMode \<Rightarrow> Crypto \<Rightarrow> mbuf list \<Rightarrow> goose_message list" where
  "goose_messages mode crypto bs = List.map_filter goose_reading (filter (in_stage GOOSE) bs) @
     List.map_filter (r_goose_reading mode crypto) (filter (in_stage R_GOOSE) bs)"

definition sv_messages :: "SecurityMode \<Rightarrow> Crypto \<Rightarrow> mbuf list \<Rightarrow> sv_message list" where
  "sv_messages mode crypto bs = List.map_filter sv_reading (filter (in_stage SV) bs) @
     List.map_filter (r_sv_reading mode crypto) (filter (in_stage R_SV) bs)"

definition goose_track :: "GoosePassport \<Rightarrow> u32 option \<times> GooseState \<Rightarrow> GooseSource \<Rightarrow> GooseSource" where
  "goose_track pass msg = goose_ProcessState pass (snd msg) \<circ>
     (case fst msg of None \<Rightarrow> id | Some n \<Rightarrow> goose_ProcessSessionState n)"

definition sv_track :: "SVStreamPassport \<Rightarrow> u32 option \<times> SVStreamState \<Rightarrow> SVStreamSource \<Rightarrow> SVStreamSource" where
  "sv_track pass msg = sv_ProcessState pass (snd msg) \<circ>
     (case fst msg of None \<Rightarrow> id | Some n \<Rightarrow> sv_ProcessSessionState n)"

lemma packet_delivers:
  "goose_packet m app = Some (Some app') \<Longrightarrow> m_svMap app' = m_svMap app \<and> m_rMode app' = m_rMode app \<and>
    m_gooseMap app' = (case goose_reading m of None \<Rightarrow> m_gooseMap app | Some msg \<Rightarrow> goose_registry.deliver goose_track (m_gooseMap app) msg)"
  "sv_packet m app = Some (Some app') \<Longrightarrow> m_gooseMap app' = m_gooseMap app \<and> m_rMode app' = m_rMode app \<and>
    m_svMap app' = (case sv_reading m of None \<Rightarrow> m_svMap app | Some msg \<Rightarrow> sv_registry.deliver sv_track (m_svMap app) msg)"
  "r_goose_packet crypto m app = Some (Some app') \<Longrightarrow> m_svMap app' = m_svMap app \<and> m_rMode app' = m_rMode app \<and>
    m_gooseMap app' = (case r_goose_reading (m_rMode app) crypto m of None \<Rightarrow> m_gooseMap app
      | Some msg \<Rightarrow> goose_registry.deliver goose_track (m_gooseMap app) msg)"
  "r_sv_packet crypto m app = Some (Some app') \<Longrightarrow> m_gooseMap app' = m_gooseMap app \<and> m_rMode app' = m_rMode app \<and>
    m_svMap app' = (case r_sv_reading (m_rMode app) crypto m of None \<Rightarrow> m_svMap app
      | Some msg \<Rightarrow> sv_registry.deliver sv_track (m_svMap app) msg)"
  by (auto simp: goose_registry.deliver_def sv_registry.deliver_def goose_track_def sv_track_def
      elim: goose_packet_cases sv_packet_cases r_goose_packet_cases r_sv_packet_cases)

text \<open>A stage delivers its messages one after the other.\<close>

lemma for_each_delivers:
  assumes "\<And>m s s'. P s \<Longrightarrow> body m s = Some (Some s') \<Longrightarrow>
      P s' \<and> get s' = (case reading m of None \<Rightarrow> get s | Some msg \<Rightarrow> deliver (get s) msg)"
    and "P s" and "for_each body bs s = Some (Some s')"
  shows "P s' \<and> get s' = foldl deliver (get s) (List.map_filter reading bs)"
  using assms(2,3)
proof (induction bs arbitrary: s)
  case (Cons m bs)
  obtain s1 where s1: "body m s = Some (Some s1)" "for_each body bs s1 = Some (Some s')"
    using Cons.prems(2) by (auto simp: and_then_eq_Some)
  from assms(1) [OF Cons.prems(1) s1(1)] Cons.IH [of s1] s1(2) show ?case
    by (auto simp: map_filter_simps split: option.splits)
qed (simp add: map_filter_simps)

lemma batch_delivers:
  assumes "batch crypto bs app = Some (Some app')"
  shows "m_rMode app' = m_rMode app"
    and "m_gooseMap app' = foldl (goose_registry.deliver goose_track) (m_gooseMap app) (goose_messages (m_rMode app) crypto bs)"
    and "m_svMap app' = foldl (sv_registry.deliver sv_track) (m_svMap app) (sv_messages (m_rMode app) crypto bs)"
proof -
  obtain a1 a2 a3 a4 where r: "for_each goose_packet (filter (in_stage GOOSE) bs) app = Some (Some a1)"
    "for_each sv_packet (filter (in_stage SV) bs) a1 = Some (Some a2)"
    "for_each (r_goose_packet crypto) (filter (in_stage R_GOOSE) bs) a2 = Some (Some a3)"
    "for_each (r_sv_packet crypto) (filter (in_stage R_SV) bs) a3 = Some (Some a4)"
    "app' = a4\<lparr> m_pktToKernelCnt := m_pktToKernelCnt a4 + of_nat (length (filter (in_stage IP) bs)) \<rparr>"
    using assms by (auto simp: batch_def and_then_eq_Some)
  note d1 = for_each_delivers [where P = "\<lambda>s. m_svMap s = m_svMap app \<and> m_rMode s = m_rMode app" and get = m_gooseMap
      and reading = goose_reading and deliver = "goose_registry.deliver goose_track", OF _ _ r(1)]
  have 1: "m_svMap a1 = m_svMap app" "m_rMode a1 = m_rMode app"
    "m_gooseMap a1 = foldl (goose_registry.deliver goose_track) (m_gooseMap app) (List.map_filter goose_reading (filter (in_stage GOOSE) bs))"
    using d1 packet_delivers(1) by auto
  note d2 = for_each_delivers [where P = "\<lambda>s. m_gooseMap s = m_gooseMap a1 \<and> m_rMode s = m_rMode app" and get = m_svMap
      and reading = sv_reading and deliver = "sv_registry.deliver sv_track", OF _ _ r(2)]
  have 2: "m_gooseMap a2 = m_gooseMap a1" "m_rMode a2 = m_rMode app"
    "m_svMap a2 = foldl (sv_registry.deliver sv_track) (m_svMap a1) (List.map_filter sv_reading (filter (in_stage SV) bs))"
    using d2 packet_delivers(2) 1(2) by auto
  note d3 = for_each_delivers [where P = "\<lambda>s. m_svMap s = m_svMap a2 \<and> m_rMode s = m_rMode app" and get = m_gooseMap
      and reading = "r_goose_reading (m_rMode app) crypto" and deliver = "goose_registry.deliver goose_track", OF _ _ r(3)]
  have 3: "m_svMap a3 = m_svMap a2" "m_rMode a3 = m_rMode app"
    "m_gooseMap a3 = foldl (goose_registry.deliver goose_track) (m_gooseMap a2)
       (List.map_filter (r_goose_reading (m_rMode app) crypto) (filter (in_stage R_GOOSE) bs))"
    using d3 packet_delivers(3) 2(2) by auto
  note d4 = for_each_delivers [where P = "\<lambda>s. m_gooseMap s = m_gooseMap a3 \<and> m_rMode s = m_rMode app" and get = m_svMap
      and reading = "r_sv_reading (m_rMode app) crypto" and deliver = "sv_registry.deliver sv_track", OF _ _ r(4)]
  have 4: "m_gooseMap a4 = m_gooseMap a3" "m_rMode a4 = m_rMode app"
    "m_svMap a4 = foldl (sv_registry.deliver sv_track) (m_svMap a3)
       (List.map_filter (r_sv_reading (m_rMode app) crypto) (filter (in_stage R_SV) bs))"
    using d4 packet_delivers(4) 3(2) by auto
  show "m_rMode app' = m_rMode app" by (simp add: r(5) 4(2))
  show "m_gooseMap app' = foldl (goose_registry.deliver goose_track) (m_gooseMap app) (goose_messages (m_rMode app) crypto bs)"
    by (simp add: r(5) 4(1) 3(3) 2(1) 1(3) goose_messages_def)
  show "m_svMap app' = foldl (sv_registry.deliver sv_track) (m_svMap app) (sv_messages (m_rMode app) crypto bs)"
    by (simp add: r(5) 4(3) 3(1) 2(3) 1(1) sv_messages_def)
qed

text \<open>A stream's own messages, as its trackers see them.\<close>

interpretation goose_stream: seq_tracker
  "\<lambda>s (pass, msg). goose_track pass msg s" gs_stNum gs_errSeqCnt "\<lambda>p (pass, spdu, st). st_gap p st" "\<lambda>(pass, spdu, st). st_stNum st"
  by unfold_locales
    (auto simp: goose_track_def goose_tracking_frame goose_st.pos_track goose_st.errs_track split: option.split)

interpretation sv_stream: seq_tracker
  "\<lambda>s (pass, msg). sv_track pass msg s" vs_smpCnt vs_errSmpCnt "\<lambda>p (pass, spdu, st). smp_gap pass p st"
  "\<lambda>(pass, spdu, st). ucast (sv_smpCnt st)"
  by unfold_locales
    (auto simp: sv_track_def sv_tracking_frame sv_smp.pos_track sv_smp.errs_track split: option.split)

lemma pipeline_run:
  assumes "holds (dm_stages matrix ROUTER) bs" and "\<forall>s. s \<noteq> ROUTER \<longrightarrow> holds (dm_stages matrix s) []"
    and "\<forall>m \<in> set bs. classified m" and "FramePipeline matrix = Some (Some matrix')"
  shows "batch (dm_crypto matrix) bs (dm_app matrix) = Some (Some (dm_app matrix'))"
    and "\<forall>s. holds (dm_stages matrix' s) []" and "dm_crypto matrix' = dm_crypto matrix"
proof -
  obtain st where st: "\<forall>s. holds (st s) []" "FramePipeline matrix =
      and_then (batch (dm_crypto matrix) bs (dm_app matrix)) (\<lambda>app. Some (Some (matrix\<lparr> dm_stages := st, dm_app := app \<rparr>)))"
    using pipeline_batch [OF assms(1-3)] by blast
  have "and_then (batch (dm_crypto matrix) bs (dm_app matrix)) (\<lambda>app. Some (Some (matrix\<lparr> dm_stages := st, dm_app := app \<rparr>))) =
      Some (Some matrix')" using assms(4) st(2) by simp
  then show "batch (dm_crypto matrix) bs (dm_app matrix) = Some (Some (dm_app matrix'))"
    "\<forall>s. holds (dm_stages matrix' s) []" "dm_crypto matrix' = dm_crypto matrix"
    using st(1) by (auto simp: and_then_eq_Some)
qed

text \<open>The bounds a buffer of the pool satisfies.\<close>

definition buffer_ok :: "mbuf \<Rightarrow> bool" where
  "buffer_ok m \<longleftrightarrow> mb_len m \<le> length (mb_data m) \<and> 38 \<le> length (mb_data m) \<and> length (mb_data m) < 2 ^ 31"

lemma buffer_classified: "buffer_ok m \<Longrightarrow> classified m"
  using get_proto_type_safe [of "mb_data m" "mb_len m" 0] by (auto simp: buffer_ok_def classified_def)

lemma sv_packet_total:
  assumes "buffer_ok m"
  shows "\<exists>app'. sv_packet m app = Some (Some app')"
proof -
  obtain r where "parse_sv_packet (mb_data m) (mb_len m) SVStreamPassport_init SVStreamState_init = Some (Some r)"
    using parse_sv_packet_safe [of "mb_len m" "mb_data m" SVStreamPassport_init SVStreamState_init] assms by (auto simp: buffer_ok_def)
  then show ?thesis by (simp add: sv_packet_def)
qed

lemma r_sv_packet_total:
  assumes "buffer_ok m" and "decrypts_in_place crypto"
  shows "\<exists>app'. r_sv_packet crypto m app = Some (Some app')"
proof -
  obtain env where env: "validate_r_envelope (mb_data m) (mb_len m) (mb_cksum m) = Some env"
    using validate_r_envelope_safe [of "mb_len m" "mb_data m" "mb_cksum m"] assms(1) by (auto simp: buffer_ok_def)
  obtain r where "parse_r_sv_packet (mb_data m) (mb_len m) (m_rMode app) crypto SVStreamPassport_init SVStreamState_init = Some (Some r)"
    using parse_r_sv_packet_safe [of "mb_len m" "mb_data m" crypto "m_rMode app" SVStreamPassport_init SVStreamState_init] assms
    by (auto simp: buffer_ok_def)
  then show ?thesis using env by (cases env) (simp_all add: r_sv_packet_def)
qed

lemma batch_total:
  assumes "\<forall>m \<in> set bs. buffer_ok m \<and> \<not> in_stage GOOSE m \<and> \<not> in_stage R_GOOSE m" and "decrypts_in_place crypto"
  shows "\<exists>app'. batch crypto bs app = Some (Some app')"
proof -
  have none: "filter (in_stage GOOSE) bs = []" "filter (in_stage R_GOOSE) bs = []" using assms(1) by (simp_all add: filter_empty_conv)
  obtain a1 where 1: "for_each sv_packet (filter (in_stage SV) bs) app = Some (Some a1)"
    using for_each_total [of "filter (in_stage SV) bs" "\<lambda>_. True" sv_packet app] sv_packet_total assms(1) by auto
  obtain a2 where 2: "for_each (r_sv_packet crypto) (filter (in_stage R_SV) bs) a1 = Some (Some a2)"
    using for_each_total [of "filter (in_stage R_SV) bs" "\<lambda>_. True" "r_sv_packet crypto" a1] r_sv_packet_total [OF _ assms(2)] assms(1) by auto
  show ?thesis by (simp add: batch_def none 1 2)
qed

subsection \<open>Properties\<close>


definition burst_matrix :: "Crypto \<Rightarrow> RX_Application \<Rightarrow> mbuf list \<Rightarrow> DataMatrix" where
  "burst_matrix crypto app bs = \<lparr> dm_stages = (\<lambda>s. if s = ROUTER
       then \<lparr> fr_buf = map Some bs @ replicate (RX_BURST_SIZE - length bs) None, fr_num = length bs \<rparr> else Frame_init),
     dm_app = app, dm_crypto = crypto \<rparr>"

lemma burst_matrix_holds:
  assumes "length bs \<le> RX_BURST_SIZE"
  shows "holds (dm_stages (burst_matrix crypto app bs) ROUTER) bs"
    "\<forall>s. s \<noteq> ROUTER \<longrightarrow> holds (dm_stages (burst_matrix crypto app bs) s) []"
  using assms holds_init by (auto simp: burst_matrix_def holds_def)

definition sample_sv_buffer :: mbuf where
  "sample_sv_buffer = \<lparr> mb_data = l2_header mac_zero mac_zero None 0xBA 9 (replicate 6 0) @ sv_apdu [2] [sample_asdu 6, sample_asdu 7],
     mb_len = 201, mb_cksum = IP_CKSUM_UNKNOWN \<rparr>"

lemma sample_sv_buffer_ok: "buffer_ok sample_sv_buffer"
  by (simp add: sample_sv_buffer_def buffer_ok_def length_l2_header sample_asdus)

lemma sample_sv_buffer_stage: "in_stage s sample_sv_buffer \<longleftrightarrow> s = SV"
  by (auto simp: in_stage_def sample_sv_buffer_def get_proto_type_def l2_header_def mac_zero_def rd_def get_u16_def be16_def)


text \<open>
  C23: every frame is counted once. When the pipeline finishes a burst, the sum of the counters for
  received, unknown, broken, forged and kernel frames has grown by the number of frames in the burst
  (modulo the 64 bits of a counter), and all frames are empty.
\<close>

theorem pipeline_counts_every_frame:
  assumes "holds (dm_stages matrix ROUTER) bs" and "\<forall>s. s \<noteq> ROUTER \<longrightarrow> holds (dm_stages matrix s) []"
    and "\<forall>m \<in> set bs. classified m" and "FramePipeline matrix = Some (Some matrix')"
  shows "total (dm_app matrix') = total (dm_app matrix) + of_nat (length bs) \<and> (\<forall>s. fr_num (dm_stages matrix' s) = 0)"
  using batch_counts [OF assms(3) pipeline_run(1) [OF assms]] pipeline_run(2) [OF assms] by (simp add: holds_def)

text \<open>
  A burst without L2 and routable GOOSE frames always goes through: SV and R-SV frames of any
  content, in every security mode, and any other traffic can neither stop the pipeline nor make it
  leave its buffers.
\<close>

theorem sv_pipeline_total:
  assumes "holds (dm_stages matrix ROUTER) bs" and "\<forall>s. s \<noteq> ROUTER \<longrightarrow> holds (dm_stages matrix s) []"
    and "\<forall>m \<in> set bs. buffer_ok m \<and> \<not> in_stage GOOSE m \<and> \<not> in_stage R_GOOSE m"
    and "decrypts_in_place (dm_crypto matrix)"
  shows "\<exists>matrix'. FramePipeline matrix = Some (Some matrix')"
proof -
  have "\<forall>m \<in> set bs. classified m" using assms(3) buffer_classified by blast
  from pipeline_batch [OF assms(1,2) this] batch_total [OF assms(3,4)] show ?thesis by (metis and_then_simps(3))
qed

theorem sv_pipeline_total_witness:
  "\<exists>matrix'. FramePipeline (burst_matrix xor_crypto RX_Application_init (replicate 32 sample_sv_buffer)) = Some (Some matrix')"
  by (rule sv_pipeline_total [OF burst_matrix_holds])
    (simp_all add: sample_sv_buffer_ok sample_sv_buffer_stage burst_matrix_def xor_crypto_works)

theorem pipeline_counts_every_frame_witness:
  "\<exists>matrix'. FramePipeline (burst_matrix xor_crypto RX_Application_init [sample_sv_buffer]) = Some (Some matrix') \<and>
    total (dm_app matrix') = 1 \<and> (\<forall>s. fr_num (dm_stages matrix' s) = 0)"
proof -
  let ?bs = "[sample_sv_buffer]" let ?m = "burst_matrix xor_crypto RX_Application_init ?bs"
  have h: "holds (dm_stages ?m ROUTER) ?bs" "\<forall>s. s \<noteq> ROUTER \<longrightarrow> holds (dm_stages ?m s) []" by (rule burst_matrix_holds, simp)+
  have c: "\<forall>m \<in> set ?bs. classified m" using buffer_classified [OF sample_sv_buffer_ok] by simp
  obtain app' where "batch (dm_crypto ?m) ?bs (dm_app ?m) = Some (Some app')"
    using batch_total [of ?bs "dm_crypto ?m"] by (auto simp: sample_sv_buffer_ok sample_sv_buffer_stage burst_matrix_def xor_crypto_works)
  then obtain matrix' where run: "FramePipeline ?m = Some (Some matrix')" using pipeline_batch [OF h c] by auto
  have "total (dm_app ?m) = 0" by (simp add: burst_matrix_def total_def RX_Application_init_def)
  with run pipeline_counts_every_frame [OF h c run] show ?thesis by auto
qed

text \<open>
  C24: a GOOSE stream is followed by its own frames alone. After a burst the source registered at an
  index is what its tracker makes of the frames that were accepted and carry its passport, in the
  order of delivery, whatever the other frames of the burst are, and its sequence error counter has
  grown by the number of gaps in the state numbers of exactly these frames (modulo 32 bits).
\<close>

theorem goose_stream_gaps:
  fixes i :: nat
  assumes "holds (dm_stages matrix ROUTER) bs" and "\<forall>s. s \<noteq> ROUTER \<longrightarrow> holds (dm_stages matrix s) []"
    and "\<forall>m \<in> set bs. classified m" and "FramePipeline matrix = Some (Some matrix')"
    and "src = snd (m_values (m_gooseMap (dm_app matrix)) ! i)" and "src' = snd (m_values (m_gooseMap (dm_app matrix')) ! i)"
    and "msgs = filter (\<lambda>(pass, msg). goose_find (m_gooseMap (dm_app matrix)) pass = Some i)
      (goose_messages (m_rMode (dm_app matrix)) (dm_crypto matrix) bs)"
  shows "src' = foldl (\<lambda>s (pass, msg). goose_track pass msg s) src msgs \<and>
    gs_errSeqCnt src' = gs_errSeqCnt src +
      of_nat (gap_count (\<lambda>p (pass, spdu, st). st_gap p st) (\<lambda>(pass, spdu, st). st_stNum st) (gs_stNum src) msgs)"
proof -
  note run = pipeline_run [OF assms(1-4)]
  have "src' = foldl (\<lambda>s (pass, msg). goose_track pass msg s) src msgs"
    unfolding assms(5-7) batch_delivers(2) [OF run(1)] by (rule goose_registry.val_deliver_all)
  then show ?thesis using goose_stream.errs_run [of src msgs] by simp
qed

text \<open>
  C25: the same for sampled values: a stream's error counter has grown by the number of gaps in the
  sample counts of the accepted frames that carry its passport.
\<close>

theorem sv_stream_gaps:
  fixes i :: nat
  assumes "holds (dm_stages matrix ROUTER) bs" and "\<forall>s. s \<noteq> ROUTER \<longrightarrow> holds (dm_stages matrix s) []"
    and "\<forall>m \<in> set bs. classified m" and "FramePipeline matrix = Some (Some matrix')"
    and "src = snd (m_values (m_svMap (dm_app matrix)) ! i)" and "src' = snd (m_values (m_svMap (dm_app matrix')) ! i)"
    and "msgs = filter (\<lambda>(pass, msg). sv_find (m_svMap (dm_app matrix)) pass = Some i)
      (sv_messages (m_rMode (dm_app matrix)) (dm_crypto matrix) bs)"
  shows "src' = foldl (\<lambda>s (pass, msg). sv_track pass msg s) src msgs \<and>
    vs_errSmpCnt src' = vs_errSmpCnt src +
      of_nat (gap_count (\<lambda>p (pass, spdu, st). smp_gap pass p st) (\<lambda>(pass, spdu, st). ucast (sv_smpCnt st)) (vs_smpCnt src) msgs)"
proof -
  note run = pipeline_run [OF assms(1-4)]
  have "src' = foldl (\<lambda>s (pass, msg). sv_track pass msg s) src msgs"
    unfolding assms(5-7) batch_delivers(3) [OF run(1)] by (rule sv_registry.val_deliver_all)
  then show ?thesis using sv_stream.errs_run [of src msgs] by simp
qed

text \<open>Two registered streams and the frames they send, for the witnesses.\<close>

definition sample_sv_pass :: SVStreamPassport where
  "sample_sv_pass = SVStreamPassport_init\<lparr> vp_dmac := mac_zero, vp_appid := 9, vp_num := 2, vp_svid := [0x53, 0x31], vp_crev := 1 \<rparr>"

definition sample_sv_source :: SVStreamSource where
  "sample_sv_source = SVStreamSource_init\<lparr> vs_appid := 9, vs_numASDU := 2, vs_svid := [0x53, 0x31], vs_crev := 1 \<rparr>"

definition sample_goose_pass :: "u16 \<Rightarrow> GoosePassport" where
  "sample_goose_pass off = GoosePassport_init\<lparr> gp_dmac := mac_zero, gp_appid := 7, gp_num := 2, gp_foundEntries := 2, gp_crev := 1,
     gp_goid := [0x49, 0x31], gp_dataset := [0x44, 0x31], gp_gocbref := [0x47, 0x31], gp_allDataOffset := off \<rparr>"

definition sample_goose_source :: GooseSource where
  "sample_goose_source = GooseSource_init\<lparr> gs_appid := 7, gs_numEntries := 2, gs_crev := 1, gs_goid := [0x49, 0x31],
     gs_dataSetRef := [0x44, 0x31], gs_gocbRef := [0x47, 0x31] \<rparr>"

definition sample_goose_buffer :: mbuf where
  "sample_goose_buffer = \<lparr> mb_data = l2_header mac_zero mac_zero None 0xB8 7 (replicate 6 0) @ goose_apdu sample_msg,
     mb_len = 86, mb_cksum = IP_CKSUM_UNKNOWN \<rparr>"

definition sample_app :: RX_Application where
  "sample_app = RX_Application_init\<lparr> m_gooseMap := goose_assign container_new sample_goose_source,
     m_svMap := sv_assign container_new sample_sv_source \<rparr>"

lemma sample_finds:
  "sv_find (m_svMap sample_app) sample_sv_pass = Some 0" "snd (m_values (m_svMap sample_app) ! 0) = sample_sv_source"
  "goose_find (m_gooseMap sample_app) (sample_goose_pass off) = Some 0" "snd (m_values (m_gooseMap sample_app) ! 0) = sample_goose_source"
  by (simp_all add: sample_app_def sv_assign_def goose_assign_def container_assign_def container_subscript_def container_insert_def
      container_modify_def container_new_def container_find_def sv_eq_def goose_eq_def sv_GetPassport_def goose_GetPassport_def sample_sv_pass_def
      sample_goose_pass_def sample_sv_source_def sample_goose_source_def SVStreamPassport_init_def SVStreamSource_init_def
      GoosePassport_init_def GooseSource_init_def)

lemma sample_sv_reading: "sv_reading sample_sv_buffer = Some (sample_sv_pass, None, \<lparr> sv_smpCnt = 6 \<rparr>)"
proof -
  let ?frame = "l2_header mac_zero mac_zero None 0xBA 9 (replicate 6 0) @ sv_apdu [2] [sample_asdu 6, sample_asdu 7] @ []"
  have len: "length ?frame = 201" by (simp add: length_l2_header sample_asdus)
  have n: "be_number [2] = 2" by (simp add: be_number_def)
  show ?thesis
    using parse_sv_frame [of "[sample_asdu 6, sample_asdu 7]" "[2]" "replicate 6 0" ?frame mac_zero mac_zero None 9 "[]"
        SVStreamPassport_init SVStreamState_init]
    unfolding len n
    by (simp add: sample_asdus n sv_reading_def sample_sv_buffer_def)
      (simp add: sample_asdu_def SVStreamState_init_def sample_sv_pass_def)
qed

lemma sample_goose_reading:
  "\<exists>off st. goose_reading sample_goose_buffer = Some (sample_goose_pass off, None, st) \<and> st_stNum st = 5"
proof -
  let ?frame = "l2_header mac_zero mac_zero None 0xB8 7 (replicate 6 0) @ goose_apdu sample_msg"
  have len: "length ?frame = 86" by (simp add: length_l2_header length_sample_apdu)
  have "parse_goose_packet ?frame (length ?frame) GoosePassport_init GooseState_init = Some (Some (Inr (goose_report sample_msg
      (length ?frame - length (concat (map data_tlv (gm_allData sample_msg))))
      (GoosePassport_init\<lparr> gp_dmac := mac_zero, gp_appid := 7 \<rparr>) GooseState_init)))"
    by (rule parse_goose_frame [OF sample_msg_ok _ refl]) (simp_all add: length_l2_header length_sample_apdu)
  moreover have "goose_report sample_msg k (GoosePassport_init\<lparr> gp_dmac := mac_zero, gp_appid := 7 \<rparr>) GooseState_init =
      (sample_goose_pass (of_nat k), GooseState_init\<lparr> st_timestamp := be_time [1, 2, 3, 4, 5, 6, 7, 8], st_stNum := 5, st_sqNum := 256 \<rparr>)" for k
    by (simp add: goose_report_def sample_msg_def sample_goose_pass_def be_number_def GoosePassport_init_def)
  ultimately show ?thesis unfolding len by (auto simp: goose_reading_def sample_goose_buffer_def)
qed

lemma sample_goose_buffer_stage: "in_stage s sample_goose_buffer \<longleftrightarrow> s = GOOSE"
  by (auto simp: in_stage_def sample_goose_buffer_def get_proto_type_def l2_header_def mac_zero_def rd_def get_u16_def be16_def)

theorem sv_stream_gaps_witness:
  "\<exists>matrix'. FramePipeline (burst_matrix xor_crypto sample_app [sample_sv_buffer, sample_sv_buffer]) = Some (Some matrix') \<and>
    vs_errSmpCnt (snd (m_values (m_svMap (dm_app matrix')) ! 0)) = 2"
proof -
  let ?bs = "[sample_sv_buffer, sample_sv_buffer]" let ?m = "burst_matrix xor_crypto sample_app ?bs"
  have h: "holds (dm_stages ?m ROUTER) ?bs" "\<forall>s. s \<noteq> ROUTER \<longrightarrow> holds (dm_stages ?m s) []" by (rule burst_matrix_holds, simp)+
  have c: "\<forall>m \<in> set ?bs. classified m" using buffer_classified [OF sample_sv_buffer_ok] by simp
  have m: "dm_app ?m = sample_app" "dm_crypto ?m = xor_crypto" by (simp_all add: burst_matrix_def)
  obtain app' where "batch (dm_crypto ?m) ?bs (dm_app ?m) = Some (Some app')"
    using batch_total [of ?bs "dm_crypto ?m"] by (auto simp: sample_sv_buffer_ok sample_sv_buffer_stage m xor_crypto_works)
  then obtain matrix' where run: "FramePipeline ?m = Some (Some matrix')" using pipeline_batch [OF h c] by auto
  have msgs: "sv_messages mode crypto ?bs = [(sample_sv_pass, None, \<lparr> sv_smpCnt = 6 \<rparr>), (sample_sv_pass, None, \<lparr> sv_smpCnt = 6 \<rparr>)]" for mode crypto
    by (simp add: sv_messages_def sample_sv_buffer_stage map_filter_simps sample_sv_reading)
  have "vs_errSmpCnt (snd (m_values (m_svMap (dm_app matrix')) ! 0)) = 2"
    using sv_stream_gaps [OF h c run refl refl refl, of 0, THEN conjunct2]
    by (simp add: m msgs sample_finds smp_gap_def)
      (simp add: sample_sv_source_def SVStreamSource_init_def sample_sv_pass_def)
  with run show ?thesis by blast
qed

theorem goose_stream_gaps_witness:
  "\<exists>matrix'. FramePipeline (burst_matrix xor_crypto sample_app [sample_goose_buffer, sample_sv_buffer]) = Some (Some matrix') \<and>
    gs_errSeqCnt (snd (m_values (m_gooseMap (dm_app matrix')) ! 0)) = 1"
proof -
  let ?bs = "[sample_goose_buffer, sample_sv_buffer]" let ?m = "burst_matrix xor_crypto sample_app ?bs"
  have h: "holds (dm_stages ?m ROUTER) ?bs" "\<forall>s. s \<noteq> ROUTER \<longrightarrow> holds (dm_stages ?m s) []" by (rule burst_matrix_holds, simp)+
  have c: "\<forall>m \<in> set ?bs. classified m"
    using buffer_classified [OF sample_sv_buffer_ok] sample_goose_buffer_stage [of GOOSE]
    by (auto simp: classified_def in_stage_def split: option.splits)
  have m: "dm_app ?m = sample_app" "dm_crypto ?m = xor_crypto" by (simp_all add: burst_matrix_def)
  obtain off st where g: "goose_reading sample_goose_buffer = Some (sample_goose_pass off, None, st)" "st_stNum st = 5"
    using sample_goose_reading by blast
  obtain app1 where a1: "goose_packet sample_goose_buffer sample_app = Some (Some app1)"
    using g(1) by (auto simp: goose_packet_def goose_reading_def split: option.splits sum.splits)
  obtain app2 where a2: "sv_packet sample_sv_buffer app1 = Some (Some app2)" using sv_packet_total [OF sample_sv_buffer_ok] by blast
  have "\<exists>app'. batch (dm_crypto ?m) ?bs (dm_app ?m) = Some (Some app')"
    by (simp add: batch_def m sample_goose_buffer_stage sample_sv_buffer_stage a1 a2)
  then obtain matrix' where run: "FramePipeline ?m = Some (Some matrix')" using pipeline_batch [OF h c] by auto
  have msgs: "goose_messages mode crypto ?bs = [(sample_goose_pass off, None, st)]" for mode crypto
    by (simp add: goose_messages_def sample_sv_buffer_stage sample_goose_buffer_stage map_filter_simps g)
  have "gs_errSeqCnt (snd (m_values (m_gooseMap (dm_app matrix')) ! 0)) = 1"
    using goose_stream_gaps [OF h c run refl refl refl, of 0, THEN conjunct2]
    by (simp add: m msgs sample_finds st_gap_def g(2)) (simp add: sample_goose_source_def GooseSource_init_def)
  with run show ?thesis by blast
qed
end
