(* ===== verification/RX_App.thy ===== *)
theory RX_App
  imports Pipeline
begin

text \<open>
  The receiver application: \<open>src/bus_processor/rx_application.cpp\<close>, \<open>rx_application.hpp\<close> and the
  auxiliary thread of \<open>main.cpp\<close>. The command line is parsed by the library cxxopts, so the parsed
  options are the record \<open>RxOptions\<close>; the card's statistics and the worker rings are DPDK's and
  arguments of the definitions that use them. What is printed is the value of the definition that
  computes it; table layout, thread priorities and cycle timing are left out.
\<close>

subsection \<open>Options\<close>

record RxOptions =
  ro_help :: bool
  ro_goose :: "int option"
  ro_sv80 :: "int option"
  ro_sv256 :: "int option"
  ro_rgoose :: "int option"
  ro_rsv80 :: "int option"
  ro_rsv256 :: "int option"
  ro_rx_desc :: "u32 option"
  ro_rx_account_burst :: bool
  ro_time :: "u32 option"
  ro_goose_entries :: "u32 option"
  ro_r_mode :: "string option"
  ro_dst_ip :: "string option"

text \<open>\<open>rte_exit\<close> after the help text, or the text of the exception thrown.\<close>

datatype RxExit = HelpShown | InvalidOption string

text \<open>The outer \<open>None\<close> is a number in the address that C leaves undefined.\<close>

definition ParseCmdOptions :: "RxOptions \<Rightarrow> RX_Application \<Rightarrow> (RxExit + RX_Application) option" where
  "ParseCmdOptions result app =
     (if ro_help result then Some (Inl HelpShown)
      else let app = given (ro_goose result) (\<lambda>n. m_confGooseNum_update (\<lambda>_. of_int n)) app;
               app = given (ro_sv80 result) (\<lambda>n. m_confSV80Num_update (\<lambda>_. of_int n)) app;
               app = given (ro_sv256 result) (\<lambda>n. m_confSV256Num_update (\<lambda>_. of_int n)) app;
               app = given (ro_rgoose result) (\<lambda>n. m_confRGooseNum_update (\<lambda>_. of_int n)) app;
               app = given (ro_rsv80 result) (\<lambda>n. m_confRSV80Num_update (\<lambda>_. of_int n)) app;
               app = given (ro_rsv256 result) (\<lambda>n. m_confRSV256Num_update (\<lambda>_. of_int n)) app;
               app = given (ro_rx_desc result) (\<lambda>n. m_rxDescNum_update (\<lambda>_. n)) app;
               app = app\<lparr> m_accountRxBurst := ro_rx_account_burst result \<rparr>;
               app = given (ro_time result) (\<lambda>n. m_runTimeSec_update (\<lambda>_. n)) app;
               app = given (ro_goose_entries result) (\<lambda>n. m_gooseEntries_update (\<lambda>_. n)) app
           in if ro_goose_entries result = Some 0 then Some (Inl (InvalidOption ''--goose-entries must be >= 1''))
              else case (case ro_r_mode result of None \<Rightarrow> Inr (m_rMode app) | Some txt \<Rightarrow> parse_security_mode txt) of
                Inl e \<Rightarrow> Some (Inl (InvalidOption e))
              | Inr mode \<Rightarrow>
                  let app = app\<lparr> m_rMode := mode \<rparr>
                  in case ro_dst_ip result of
                       None \<Rightarrow> Some (Inr app)
                     | Some ip \<Rightarrow> do {
                         r \<leftarrow> parse_ipv4 ip;
                         Some (case r of None \<Rightarrow> Inl (InvalidOption (''Invalid --dst-ip: '' @ ip))
                               | Some a \<Rightarrow> Inr (app\<lparr> m_rDstIP := a \<rparr>)) })"

subsection \<open>Registration of the streams\<close>

text \<open>The addresses in the source are texts; \<open>stream_macs\<close> shows that they are these.\<close>

definition GOOSE_MAC :: MAC where "GOOSE_MAC = MAC 0x01 0x0C 0xCD 0x04 0x00 0x01"
definition SV_MAC :: MAC where "SV_MAC = MAC 0x01 0x0C 0xCD 0x01 0x00 0x01"

lemma stream_macs:
  "mac_of_string ''01:0C:CD:04:00:01'' = Inr GOOSE_MAC" "mac_of_string ''01:0C:CD:01:00:01'' = Inr SV_MAC"
  by (simp_all add: mac_of_string_def scan_mac_def scan_2x_def scan_lit_def hex_value_def is_space_def GOOSE_MAC_def SV_MAC_def Let_def)

definition goose_goid :: "u32 \<Rightarrow> bytes" where "goose_goid i = ascii (''GOID'' @ dec_padded 8 (unat (i + 1)))"
definition goose_dataset :: "u32 \<Rightarrow> bytes" where
  "goose_dataset i = ascii (''IED'' @ dec_padded 8 (unat (i + 1)) @ ''LDName/LLN0$DataSet'')"
definition goose_gocb :: "u32 \<Rightarrow> bytes" where
  "goose_gocb i = ascii (''IED'' @ dec_padded 8 (unat (i + 1)) @ ''LDName/LLN0$GO$GOCB'')"
definition sv_svid :: "u32 \<Rightarrow> bytes" where "sv_svid i = ascii (''SVID'' @ dec_padded 4 (unat (i + 1)))"

definition l2_goose_source :: "u32 \<Rightarrow> u32 \<Rightarrow> GooseSource" where
  "l2_goose_source entries i = goose_SetNumEntries entries (goose_SetCRev 1 (goose_SetGOCBRef (goose_gocb i)
     (goose_SetDataSetRef (goose_dataset i) (goose_SetGOID (goose_goid i)
     (goose_SetAppID (ucast (0x0001 + i)) (goose_SetMAC GOOSE_MAC GooseSource_init))))))"

definition r_goose_source :: "u32 \<Rightarrow> u32 \<Rightarrow> u32 \<Rightarrow> GooseSource" where
  "r_goose_source dstIP entries i = goose_SetDstIP (stream_dst_ip dstIP i) (goose_SetNumEntries entries (goose_SetCRev 1
     (goose_SetGOCBRef (goose_gocb i) (goose_SetDataSetRef (goose_dataset i) (goose_SetGOID (goose_goid i)
     (goose_SetAppID (ucast (0x0001 + i)) (goose_SetMAC (multicast_mac (stream_dst_ip dstIP i)) GooseSource_init)))))))"

definition l2_sv_source :: "u32 \<Rightarrow> u32 \<Rightarrow> SVStreamSource" where
  "l2_sv_source num i = sv_SetNumASDU num (sv_SetCRev 1 (sv_SetSVID (sv_svid i)
     (sv_SetAppID (ucast (0x0001 + i)) (sv_SetMAC SV_MAC SVStreamSource_init))))"

definition r_sv_source :: "u32 \<Rightarrow> u32 \<Rightarrow> u32 \<Rightarrow> SVStreamSource" where
  "r_sv_source dstIP num i = sv_SetDstIP (stream_dst_ip dstIP i) (sv_SetNumASDU num (sv_SetCRev 1 (sv_SetSVID (sv_svid i)
     (sv_SetAppID (ucast (0x0001 + i)) (sv_SetMAC (multicast_mac (stream_dst_ip dstIP i)) SVStreamSource_init)))))"

definition register_goose :: "u32 \<Rightarrow> (u32 \<Rightarrow> GooseSource) \<Rightarrow> GooseContainer \<Rightarrow> GooseContainer" where
  "register_goose num src c = foldl (\<lambda>c i. goose_assign c (src (of_nat i))) c [0..<unat num]"

definition register_sv :: "u32 \<Rightarrow> (u32 \<Rightarrow> SVStreamSource) \<Rightarrow> SVContainer \<Rightarrow> SVContainer" where
  "register_sv num src c = foldl (\<lambda>c i. sv_assign c (src (of_nat i))) c [0..<unat num]"

definition Init_streams :: "RX_Application \<Rightarrow> RX_Application" where
  "Init_streams app =
     (let app = app\<lparr> m_gooseMap := register_goose (m_confGooseNum app) (l2_goose_source (m_gooseEntries app)) (m_gooseMap app) \<rparr>;
          app = app\<lparr> m_svMap := register_sv (m_confSV80Num app) (l2_sv_source 1) (m_svMap app) \<rparr>;
          app = app\<lparr> m_svMap := register_sv (m_confSV256Num app) (l2_sv_source 8) (m_svMap app) \<rparr>;
          app = app\<lparr> m_gooseMap := register_goose (m_confRGooseNum app)
            (r_goose_source (m_rDstIP app) (m_gooseEntries app)) (m_gooseMap app) \<rparr>;
          app = app\<lparr> m_svMap := register_sv (m_confRSV80Num app) (r_sv_source (m_rDstIP app) 1) (m_svMap app) \<rparr>;
          app = app\<lparr> m_svMap := register_sv (m_confRSV256Num app) (r_sv_source (m_rDstIP app) 8) (m_svMap app) \<rparr>
      in app)"

definition Init :: "RxOptions \<Rightarrow> RX_Application \<Rightarrow> (RxExit + RX_Application) option" where
  "Init result app = map_option (map_sum id Init_streams) (ParseCmdOptions result app)"

text \<open>The groups named in the banner.\<close>

definition r_groups :: "RX_Application \<Rightarrow> u32" where
  "r_groups app =
     (let groups = (if m_confRGooseNum app > m_confRSV80Num app then m_confRGooseNum app else m_confRSV80Num app);
          groups = (if groups > m_confRSV256Num app then groups else m_confRSV256Num app)
      in if groups > R_DST_SPREAD then R_DST_SPREAD else groups)"

subsection \<open>Statistics\<close>

text \<open>The pair of the two output parameters.\<close>

definition CountGaps :: "RX_Application \<Rightarrow> u64 \<times> u64" where
  "CountGaps app =
     (foldl (\<lambda>n (k, src). n + ucast (max (gs_errSeqCnt src) (gs_errSpduCnt src))) 0 (m_values (m_gooseMap app)),
      foldl (\<lambda>n (k, src). n + ucast (max (vs_errSmpCnt src) (vs_errSpduCnt src))) 0 (m_values (m_svMap app)))"

abbreviation (input) ETH_WIRE_OVERHEAD :: u64 where "ETH_WIRE_OVERHEAD \<equiv> 24"

record RxSample =
  rs_rx_pps :: u64
  rs_tx_pps :: u64
  rs_rx_bps :: u64
  rs_tx_bps :: u64
  rs_rx_wire_bps :: u64
  rs_tx_wire_bps :: u64
  rs_gaps :: "u64 \<times> u64"

text \<open>
  \<open>port\<close> is what \<open>rte_eth_stats_get\<close> leaves in \<open>m_lastPortStat\<close>. An interval of zero is a division
  by zero.
\<close>

definition DisplayStatistic :: "u32 \<Rightarrow> EthStats \<Rightarrow> RX_Application \<Rightarrow> (RX_Application \<times> RxSample) option" where
  "DisplayStatistic interval_sec port app =
     (let start = m_lastPortStat app;
          app = app\<lparr> m_lastPortStat := port \<rparr>;
          app = (if m_runStarted app then app\<lparr> m_statDisplaySec := m_statDisplaySec app + interval_sec \<rparr> else app);
          per_sec = (\<lambda>get. (get port - get start) div ucast interval_sec);
          rx_pps = per_sec es_ipackets; tx_pps = per_sec es_opackets;
          rx_bps = per_sec es_ibytes; tx_bps = per_sec es_obytes
      in if interval_sec = 0 then None
         else Some (app, \<lparr> rs_rx_pps = rx_pps, rs_tx_pps = tx_pps, rs_rx_bps = rx_bps, rs_tx_bps = tx_bps,
           rs_rx_wire_bps = rx_bps + rx_pps * ETH_WIRE_OVERHEAD, rs_tx_wire_bps = tx_bps + tx_pps * ETH_WIRE_OVERHEAD,
           rs_gaps = CountGaps app \<rparr>))"

text \<open>The sums of the machine-readable summary: sequence and SPDU errors of the GOOSE and the SV streams.\<close>

definition DisplayResults :: "RX_Application \<Rightarrow> (u64 \<times> u64) \<times> (u64 \<times> u64)" where
  "DisplayResults app =
     (foldl (\<lambda>(seq, spdu) (k, src). (seq + ucast (gs_errSeqCnt src), spdu + ucast (gs_errSpduCnt src))) (0, 0) (m_values (m_gooseMap app)),
      foldl (\<lambda>(seq, spdu) (k, src). (seq + ucast (vs_errSmpCnt src), spdu + ucast (vs_errSpduCnt src))) (0, 0) (m_values (m_svMap app)))"

definition IsTimeExpired :: "RX_Application \<Rightarrow> bool" where
  "IsTimeExpired app \<longleftrightarrow> m_runTimeSec app > 0 \<and> m_statDisplaySec app \<ge> m_runTimeSec app"

definition MarkRunStarted :: "RX_Application \<Rightarrow> RX_Application" where
  "MarkRunStarted app = app\<lparr> m_runStarted := True \<rparr>"

text \<open>
  A turn of the auxiliary thread after \<open>poll\<close>: whether a signal is there, and the card's statistics if
  the timer has expired. The flag is \<open>g_doWork\<close>.
\<close>

abbreviation (input) TIMER_PERIOD_SEC :: u32 where "TIMER_PERIOD_SEC \<equiv> 3"

type_synonym aux_turn = "bool \<times> EthStats option"

definition auxiliary_step :: "aux_turn \<Rightarrow> RX_Application \<times> bool \<Rightarrow> (RX_Application \<times> bool) option" where
  "auxiliary_step ev s = (case (ev, s) of ((signal, timer), (app, doWork)) \<Rightarrow>
     let doWork = (if signal then False else doWork) in
     (case timer of None \<Rightarrow> Some (app, doWork)
      | Some port \<Rightarrow> do {
          (app, sample) \<leftarrow> DisplayStatistic TIMER_PERIOD_SEC port app;
          Some (app, if IsTimeExpired app then False else doWork) }))"

text \<open>The thread runs while the flag is set.\<close>

fun auxiliary_thread :: "aux_turn list \<Rightarrow> RX_Application \<times> bool \<Rightarrow> (RX_Application \<times> bool) option" where
  "auxiliary_thread evs (app, False) = Some (app, False)"
| "auxiliary_thread [] (app, True) = Some (app, True)"
| "auxiliary_thread (ev # evs) (app, True) = do { s \<leftarrow> auxiliary_step ev (app, True); auxiliary_thread evs s }"

subsection \<open>The receive loops\<close>

text \<open>
  A poll of \<open>single_core\<close>: \<open>rte_eth_rx_burst\<close> writes the received buffers into the first frame and
  returns their number; an empty poll does nothing. A worker's \<open>lcore_processor\<close> does the same with
  the buffers it takes from its ring.
\<close>

definition load_frame :: "mbuf list \<Rightarrow> mbuf Frame \<Rightarrow> mbuf Frame" where
  "load_frame bufs f = f\<lparr> fr_buf := map Some bufs @ drop (length bufs) (fr_buf f), fr_num := length bufs \<rparr>"

definition process_burst :: "mbuf list \<Rightarrow> DataMatrix \<Rightarrow> DataMatrix option option" where
  "process_burst bufs matrix =
     (if 0 < length bufs
      then FramePipeline (set_stage START_STAGE (load_frame bufs (dm_stages matrix START_STAGE)) matrix)
      else Some (Some matrix))"

definition DataMatrix_new :: "RX_Application \<Rightarrow> Crypto \<Rightarrow> DataMatrix" where
  "DataMatrix_new app crypto = \<lparr> dm_stages = (\<lambda>_. Frame_init), dm_app = app, dm_crypto = crypto \<rparr>"

text \<open>The loop over the bursts received until \<open>g_doWork\<close> falls.\<close>

definition single_core :: "mbuf list list \<Rightarrow> RX_Application \<Rightarrow> Crypto \<Rightarrow> RX_Application option option" where
  "single_core bursts app crypto =
     and_then (for_each process_burst bursts (DataMatrix_new (MarkRunStarted app) crypto)) (\<lambda>matrix. Some (Some (dm_app matrix)))"

subsection \<open>Software RSS\<close>

abbreviation (input) RTE_MAX_LCORE :: nat where "RTE_MAX_LCORE \<equiv> 128"

definition worker_count_ok :: "u32 \<Rightarrow> bool" where
  "worker_count_ok workerNum \<longleftrightarrow> \<not> (workerNum = 0 \<or> workerNum AND (workerNum - 1) \<noteq> 0)"

definition rss_index :: "u32 \<Rightarrow> u32 \<Rightarrow> nat" where
  "rss_index workerNum appid = unat (appid AND (workerNum - 1))"

text \<open>The queues are \<open>workerQueue\<close>, arrays like the pipeline's frames.\<close>

definition rss_put :: "u32 \<Rightarrow> mbuf \<Rightarrow> mbuf Frame list \<Rightarrow> mbuf Frame list option option" where
  "rss_put workerNum m queues =
     and_then (Some (get_proto_type (mb_data m) 0 (mb_len m))) (\<lambda>(type, appid).
       let idx = rss_index workerNum appid
       in if idx < length queues
          then and_then (Some (PutBuffer m (queues ! idx))) (\<lambda>q. Some (Some (queues[idx := q])))
          else Some None)"

record 'r RssState =
  rss_rings :: "'r list"
  rss_queues :: "mbuf Frame list"
  rss_app :: RX_Application

text \<open>\<open>enqueue\<close> is \<open>rte_ring_sp_enqueue_burst\<close>: the number of buffers taken and the ring afterwards.\<close>

definition rss_flush :: "('r \<Rightarrow> mbuf list \<Rightarrow> nat \<times> 'r) \<Rightarrow> nat \<Rightarrow> 'r RssState \<Rightarrow> 'r RssState option option" where
  "rss_flush enqueue i s =
     (if i < length (rss_queues s) \<and> i < length (rss_rings s)
      then let q = rss_queues s ! i in
        if fr_num q > 0 then
          and_then (Some (frame_bufs q)) (\<lambda>bufs.
            case enqueue (rss_rings s ! i) bufs of (queued, ring) \<Rightarrow>
              let app = (if queued < fr_num q
                         then (rss_app s)\<lparr> m_errRingFullCnt := m_errRingFullCnt (rss_app s) + of_nat (fr_num q - queued) \<rparr>
                         else rss_app s)
              in Some (Some (s\<lparr> rss_rings := (rss_rings s)[i := ring], rss_queues := (rss_queues s)[i := q\<lparr> fr_num := 0 \<rparr>],
                   rss_app := app \<rparr>)))
        else Some (Some s)
      else Some None)"

definition rss_burst :: "('r \<Rightarrow> mbuf list \<Rightarrow> nat \<times> 'r) \<Rightarrow> u32 \<Rightarrow> mbuf list \<Rightarrow> 'r RssState \<Rightarrow> 'r RssState option option" where
  "rss_burst enqueue workerNum bufs s =
     (if 0 < length bufs
      then and_then (for_each (rss_put workerNum) bufs (rss_queues s)) (\<lambda>queues.
        for_each (rss_flush enqueue) [0..<unat workerNum] (s\<lparr> rss_queues := queues \<rparr>))
      else Some (Some s))"

subsection \<open>Run\<close>

datatype RunMode = RUN_SINGLE_CORE | RUN_MULTI_CORE u32

text \<open>\<open>Inl\<close> is the text of the exception.\<close>

definition Run_mode :: "u32 \<Rightarrow> string + RunMode" where
  "Run_mode lcores =
     (if lcores = 1 then Inr RUN_SINGLE_CORE
      else if lcores = 2 then Inl ''2 lcores is not a supported configuration: use 1 lcore (no sRSS) or 1 + 2^n workers, e.g. -l 1,2,3''
      else let workerNum = lcores - 1
        in if \<not> worker_count_ok workerNum
           then Inl (''Worker count must be a power of 2, got: '' @ dec (unat workerNum))
           else Inr (RUN_MULTI_CORE workerNum))"

subsection \<open>Registered streams are found\<close>

lemma register_goose_all:
  "register_goose num src c =
     goose_key.register_all GooseSource_init c (map (\<lambda>i. (goose_GetPassport (src (of_nat i)), src (of_nat i))) [0..<unat num])"
  by (simp add: register_goose_def goose_key.register_all_def goose_assign_def foldl_map)

lemma register_sv_all:
  "register_sv num src c =
     sv_key.register_all SVStreamSource_init c (map (\<lambda>i. (sv_GetPassport (src (of_nat i)), src (of_nat i))) [0..<unat num])"
  by (simp add: register_sv_def sv_key.register_all_def sv_assign_def foldl_map)

lemma appid_of_index: "(ucast (0x0001 + of_nat i :: u32) :: u16) = of_nat (i + 1)"
  by (rule bit_word_eqI) (simp add: bit_simps flip: of_nat_Suc)

lemma index_appids_distinct:
  assumes "unat num \<le> 65536"
  shows "distinct (map (\<lambda>i. of_nat (i + 1) :: u16) [0..<unat num])"
proof -
  have "i = j" if "i < unat num" "j < unat num" "(of_nat (i + 1) :: u16) = of_nat (j + 1)" for i j
  proof -
    have "(of_nat i :: u16) = of_nat j" using that(3) by simp
    then show ?thesis using that(1,2) assms by (simp add: word_of_nat_eq_iff take_bit_nat_eq_self)
  qed
  then show ?thesis by (simp add: distinct_map inj_on_def)
qed


text \<open>Every stream of a family is found under its passport, with its own source.\<close>

definition goose_registered :: "GooseContainer \<Rightarrow> (u32 \<Rightarrow> GooseSource) \<Rightarrow> u32 \<Rightarrow> bool" where
  "goose_registered c src num \<longleftrightarrow> (\<forall>i < unat num. \<exists>idx. goose_find c (goose_GetPassport (src (of_nat i))) = Some idx \<and>
     m_values c ! idx = (goose_GetPassport (src (of_nat i)), src (of_nat i)))"

definition sv_registered :: "SVContainer \<Rightarrow> (u32 \<Rightarrow> SVStreamSource) \<Rightarrow> u32 \<Rightarrow> bool" where
  "sv_registered c src num \<longleftrightarrow> (\<forall>i < unat num. \<exists>idx. sv_find c (sv_GetPassport (src (of_nat i))) = Some idx \<and>
     m_values c ! idx = (sv_GetPassport (src (of_nat i)), src (of_nat i)))"

lemma new_container_slot: "slot container_new a = None"
  by (simp add: slot_def container_new_def)

lemma register_none: "register_goose 0 src c = c" "register_sv 0 src' c' = c'"
  by (simp_all add: register_goose_def register_sv_def)

lemma source_appids:
  "gp_appid (goose_GetPassport (l2_goose_source entries (of_nat i))) = of_nat (i + 1)"
  "gp_appid (goose_GetPassport (r_goose_source ip entries (of_nat i))) = of_nat (i + 1)"
  "vp_appid (sv_GetPassport (l2_sv_source num (of_nat i))) = of_nat (i + 1)"
  "vp_appid (sv_GetPassport (r_sv_source ip num (of_nat i))) = of_nat (i + 1)"
  using appid_of_index [of i]
  by (simp_all add: goose_GetPassport_def sv_GetPassport_def l2_goose_source_def r_goose_source_def l2_sv_source_def r_sv_source_def
      goose_SetDstIP_def goose_SetNumEntries_def goose_SetCRev_def goose_SetGOCBRef_def goose_SetDataSetRef_def goose_SetGOID_def
      goose_SetAppID_def goose_SetMAC_def sv_SetDstIP_def sv_SetNumASDU_def sv_SetCRev_def sv_SetSVID_def sv_SetAppID_def sv_SetMAC_def)

lemma register_goose_registered:
  assumes "\<And>i. gp_appid (goose_GetPassport (src (of_nat i))) = of_nat (i + 1)" and "unat num \<le> 65536"
  shows "goose_registered (register_goose num src container_new) src num"
  unfolding goose_registered_def register_goose_all
proof (intro allI impI, rule goose_key.register_all_finds)
  show "distinct (map (gp_appid \<circ> fst) (map (\<lambda>i. (goose_GetPassport (src (of_nat i)), src (of_nat i))) [0..<unat num]))"
    using index_appids_distinct [OF assms(2)] by (simp only: map_map comp_def fst_conv assms(1))
qed (auto simp: container_ok_new new_container_slot)

lemma register_sv_registered:
  assumes "\<And>i. vp_appid (sv_GetPassport (src (of_nat i))) = of_nat (i + 1)" and "unat num \<le> 65536"
  shows "sv_registered (register_sv num src container_new) src num"
  unfolding sv_registered_def register_sv_all
proof (intro allI impI, rule sv_key.register_all_finds)
  show "distinct (map (vp_appid \<circ> fst) (map (\<lambda>i. (sv_GetPassport (src (of_nat i)), src (of_nat i))) [0..<unat num]))"
    using index_appids_distinct [OF assms(2)] by (simp only: map_map comp_def fst_conv assms(1))
qed (auto simp: container_ok_new new_container_slot)

lemma register_ok:
  "container_ok gp_appid c \<Longrightarrow> container_ok gp_appid (register_goose num src c)"
  "container_ok vp_appid c' \<Longrightarrow> container_ok vp_appid (register_sv num src' c')"
  by (simp_all add: register_goose_all register_sv_all goose_key.register_all_ok sv_key.register_all_ok)

text \<open>A second family under the same APPIDs: its passports are not found.\<close>

lemma register_goose_shadowed:
  assumes "\<And>i. gp_appid (goose_GetPassport (src (of_nat i))) = of_nat (i + 1)"
    and "\<And>i. gp_appid (goose_GetPassport (src' (of_nat i))) = of_nat (i + 1)"
    and "\<not> goose_eq (goose_GetPassport (src (of_nat i))) (goose_GetPassport (src' (of_nat i)))"
    and "unat num \<le> 65536" and "i < unat num"
  shows "goose_find (register_goose num' src' (register_goose num src container_new)) (goose_GetPassport (src' (of_nat i))) = None"
proof -
  let ?kvs = "map (\<lambda>i. (goose_GetPassport (src (of_nat i)), src (of_nat i))) [0..<unat num]"
  have "slot (register_goose num src container_new) (gp_appid (goose_GetPassport (src (of_nat i)))) =
      Some (goose_GetPassport (src (of_nat i)), src (of_nat i))"
    unfolding register_goose_all
  proof (rule goose_key.register_all_slot)
    show "distinct (map (gp_appid \<circ> fst) ?kvs)"
      using index_appids_distinct [OF assms(4)] by (simp only: map_map comp_def fst_conv assms(1))
  qed (use assms(5) in \<open>auto simp: container_ok_new new_container_slot\<close>)
  note key = goose_key.register_all_key_stays [OF register_ok(1) [OF container_ok_new] this [unfolded assms(1)], of GooseSource_init]
  obtain v where "slot (register_goose num' src' (register_goose num src container_new)) (gp_appid (goose_GetPassport (src' (of_nat i)))) =
      Some (goose_GetPassport (src (of_nat i)), v)"
    unfolding register_goose_all [of num'] assms(2) using key by blast
  from goose_key.find_key(1) [OF this] assms(3) show ?thesis by simp
qed

lemma register_sv_shadowed:
  assumes "\<And>i. vp_appid (sv_GetPassport (src (of_nat i))) = of_nat (i + 1)"
    and "\<And>i. vp_appid (sv_GetPassport (src' (of_nat i))) = of_nat (i + 1)"
    and "\<not> sv_eq (sv_GetPassport (src (of_nat i))) (sv_GetPassport (src' (of_nat i)))"
    and "unat num \<le> 65536" and "i < unat num"
  shows "sv_find (register_sv num' src' (register_sv num src container_new)) (sv_GetPassport (src' (of_nat i))) = None"
proof -
  let ?kvs = "map (\<lambda>i. (sv_GetPassport (src (of_nat i)), src (of_nat i))) [0..<unat num]"
  have "slot (register_sv num src container_new) (vp_appid (sv_GetPassport (src (of_nat i)))) =
      Some (sv_GetPassport (src (of_nat i)), src (of_nat i))"
    unfolding register_sv_all
  proof (rule sv_key.register_all_slot)
    show "distinct (map (vp_appid \<circ> fst) ?kvs)"
      using index_appids_distinct [OF assms(4)] by (simp only: map_map comp_def fst_conv assms(1))
  qed (use assms(5) in \<open>auto simp: container_ok_new new_container_slot\<close>)
  note key = sv_key.register_all_key_stays [OF register_ok(2) [OF container_ok_new] this [unfolded assms(1)], of SVStreamSource_init]
  obtain v where "slot (register_sv num' src' (register_sv num src container_new)) (vp_appid (sv_GetPassport (src' (of_nat i)))) =
      Some (sv_GetPassport (src (of_nat i)), v)"
    unfolding register_sv_all [of num'] assms(2) using key by blast
  from sv_key.find_key(1) [OF this] assms(3) show ?thesis by simp
qed

lemma Init_streams_maps:
  "m_gooseMap (Init_streams app) = register_goose (m_confRGooseNum app) (r_goose_source (m_rDstIP app) (m_gooseEntries app))
     (register_goose (m_confGooseNum app) (l2_goose_source (m_gooseEntries app)) (m_gooseMap app))"
  "m_svMap (Init_streams app) = register_sv (m_confRSV256Num app) (r_sv_source (m_rDstIP app) 8)
     (register_sv (m_confRSV80Num app) (r_sv_source (m_rDstIP app) 1)
     (register_sv (m_confSV256Num app) (l2_sv_source 8) (register_sv (m_confSV80Num app) (l2_sv_source 1) (m_svMap app))))"
  by (simp_all add: Init_streams_def Let_def)

lemma l2_r_goose_differ:
  "\<not> goose_eq (goose_GetPassport (l2_goose_source entries i)) (goose_GetPassport (r_goose_source ip entries j))"
  by (simp add: goose_eq_def goose_GetPassport_def l2_goose_source_def r_goose_source_def
      goose_SetDstIP_def goose_SetNumEntries_def goose_SetCRev_def goose_SetGOCBRef_def goose_SetDataSetRef_def goose_SetGOID_def
      goose_SetAppID_def goose_SetMAC_def GOOSE_MAC_def multicast_mac_def)

lemma sv80_sv256_differ: "\<not> sv_eq (sv_GetPassport (l2_sv_source 1 i)) (sv_GetPassport (l2_sv_source 8 j))"
  by (simp add: sv_eq_def sv_GetPassport_def l2_sv_source_def sv_SetNumASDU_def sv_SetCRev_def sv_SetSVID_def sv_SetAppID_def sv_SetMAC_def)

subsection \<open>The containers' invariant\<close>

definition app_ok :: "RX_Application \<Rightarrow> bool" where
  "app_ok app \<longleftrightarrow> container_ok gp_appid (m_gooseMap app) \<and> container_ok vp_appid (m_svMap app)"

lemma deliver_ok:
  "container_ok gp_appid c \<Longrightarrow> container_ok gp_appid (foldl (goose_registry.deliver f) c gmsgs)"
  "container_ok vp_appid c' \<Longrightarrow> container_ok vp_appid (foldl (sv_registry.deliver f') c' smsgs)"
proof -
  show "container_ok gp_appid c \<Longrightarrow> container_ok gp_appid (foldl (goose_registry.deliver f) c gmsgs)"
    by (induction gmsgs arbitrary: c) (auto simp: goose_registry.deliver_def container_ok_modify split: option.split)
  show "container_ok vp_appid c' \<Longrightarrow> container_ok vp_appid (foldl (sv_registry.deliver f') c' smsgs)"
    by (induction smsgs arbitrary: c') (auto simp: sv_registry.deliver_def container_ok_modify split: option.split)
qed

lemma app_ok_batch: "app_ok app \<Longrightarrow> batch crypto bs app = Some (Some app') \<Longrightarrow> app_ok app'"
  by (simp add: app_ok_def batch_delivers(2,3) deliver_ok)

lemma app_ok_Init: "app_ok app \<Longrightarrow> app_ok (Init_streams app)"
  by (simp add: app_ok_def Init_streams_maps register_ok)

lemma app_ok_init: "app_ok RX_Application_init"
  by (simp add: app_ok_def RX_Application_init_def container_ok_new)

subsection \<open>Bursts\<close>

definition idle :: "DataMatrix \<Rightarrow> bool" where
  "idle matrix \<longleftrightarrow> (\<forall>s. holds (dm_stages matrix s) [])"

definition burst_ok :: "mbuf list \<Rightarrow> bool" where
  "burst_ok bufs \<longleftrightarrow> length bufs \<le> RX_BURST_SIZE \<and> (\<forall>m \<in> set bufs. buffer_ok m)"

lemma load_frame_holds: "holds f [] \<Longrightarrow> length bufs \<le> RX_BURST_SIZE \<Longrightarrow> holds (load_frame bufs f) bufs"
  by (simp add: holds_def load_frame_def)

lemma process_burst_batch:
  assumes "idle matrix" and "burst_ok bufs"
  shows "\<exists>st. (\<forall>s. holds (st s) []) \<and> process_burst bufs matrix =
    and_then (batch (dm_crypto matrix) bufs (dm_app matrix)) (\<lambda>app. Some (Some (matrix\<lparr> dm_stages := st, dm_app := app \<rparr>)))"
proof (cases "bufs = []")
  case True
  then show ?thesis using assms(1)
    by (intro exI [of _ "dm_stages matrix"]) (simp add: process_burst_def batch_def idle_def)
next
  case False
  let ?m = "set_stage START_STAGE (load_frame bufs (dm_stages matrix START_STAGE)) matrix"
  have "holds (dm_stages ?m ROUTER) bufs" "\<forall>s. s \<noteq> ROUTER \<longrightarrow> holds (dm_stages ?m s) []"
    using assms load_frame_holds by (auto simp: set_stage_def idle_def burst_ok_def)
  moreover have "\<forall>m \<in> set bufs. classified m" using assms(2) buffer_classified by (auto simp: burst_ok_def)
  ultimately obtain st where st: "\<forall>s. holds (st s) []" "FramePipeline ?m =
      and_then (batch (dm_crypto ?m) bufs (dm_app ?m)) (\<lambda>app. Some (Some (?m\<lparr> dm_stages := st, dm_app := app \<rparr>)))"
    using pipeline_batch by blast
  then show ?thesis using False by (intro exI [of _ st]) (simp add: process_burst_def set_stage_def)
qed

lemma process_burst_run:
  assumes "idle matrix" and "burst_ok bufs" and "process_burst bufs matrix = Some (Some matrix')"
  shows "idle matrix'" and "dm_crypto matrix' = dm_crypto matrix"
    and "batch (dm_crypto matrix) bufs (dm_app matrix) = Some (Some (dm_app matrix'))"
proof -
  obtain st where st: "\<forall>s. holds (st s) []" "process_burst bufs matrix =
      and_then (batch (dm_crypto matrix) bufs (dm_app matrix)) (\<lambda>app. Some (Some (matrix\<lparr> dm_stages := st, dm_app := app \<rparr>)))"
    using process_burst_batch [OF assms(1,2)] by blast
  have "and_then (batch (dm_crypto matrix) bufs (dm_app matrix)) (\<lambda>app. Some (Some (matrix\<lparr> dm_stages := st, dm_app := app \<rparr>))) =
      Some (Some matrix')" using assms(3) st(2) by simp
  then show "idle matrix'" "dm_crypto matrix' = dm_crypto matrix"
    "batch (dm_crypto matrix) bufs (dm_app matrix) = Some (Some (dm_app matrix'))"
    using st(1) by (auto simp: and_then_eq_Some idle_def)
qed

lemma bursts_run:
  assumes "idle matrix" and "\<forall>bufs \<in> set bursts. burst_ok bufs" and "for_each process_burst bursts matrix = Some (Some matrix')"
  shows "total (dm_app matrix') = total (dm_app matrix) + of_nat (sum_list (map length bursts)) \<and> idle matrix' \<and>
    (app_ok (dm_app matrix) \<longrightarrow> app_ok (dm_app matrix'))"
  using assms
proof (induction bursts arbitrary: matrix)
  case (Cons bufs bursts)
  obtain m1 where m1: "process_burst bufs matrix = Some (Some m1)" "for_each process_burst bursts m1 = Some (Some matrix')"
    using Cons.prems(3) by (auto simp: and_then_eq_Some)
  have ok: "burst_ok bufs" using Cons.prems(2) by simp
  note run = process_burst_run [OF Cons.prems(1) ok m1(1)]
  have "\<forall>m \<in> set bufs. classified m" using ok buffer_classified by (auto simp: burst_ok_def)
  from batch_counts [OF this run(3)] Cons.IH [OF run(1) _ m1(2)] Cons.prems(2) app_ok_batch [OF _ run(3)]
  show ?case by simp
qed simp

lemma idle_new: "idle (DataMatrix_new app crypto)"
  by (simp add: idle_def DataMatrix_new_def holds_init)

lemma MarkRunStarted_sel: "total (MarkRunStarted app) = total app" "app_ok (MarkRunStarted app) = app_ok app"
  by (simp_all add: MarkRunStarted_def total_def app_ok_def)

subsection \<open>Distribution over the workers\<close>

definition rss_key :: "u32 \<Rightarrow> mbuf \<Rightarrow> nat" where
  "rss_key workerNum m = (case get_proto_type (mb_data m) 0 (mb_len m) of None \<Rightarrow> 0 | Some (type, appid) \<Rightarrow> rss_index workerNum appid)"

lemma unat_and_le: "unat (x AND y :: u32) \<le> unat y"
  using word_and_le1 [of x y] by (simp add: word_le_nat_alt)

lemma rss_index_less: "workerNum \<noteq> 0 \<Longrightarrow> rss_index workerNum a < unat workerNum"
  using unat_and_le [of a "workerNum - 1"] unat_gt_0 [of workerNum] unat_minus_one [of workerNum]
  by (simp add: rss_index_def)

lemma rss_key_less: "workerNum \<noteq> 0 \<Longrightarrow> rss_key workerNum m < unat workerNum"
  using rss_index_less unat_gt_0 [of workerNum] by (auto simp: rss_key_def split: option.split)

lemma rss_put_all:
  assumes "\<forall>m \<in> set bs. classified m" and "workerNum \<noteq> 0" and "unat workerNum \<le> length queues"
    and "\<forall>w < length queues. holds (queues ! w) (c w)" and "\<forall>w. length (c w) + length bs \<le> RX_BURST_SIZE"
  shows "\<exists>qs. for_each (rss_put workerNum) bs queues = Some (Some qs) \<and> length qs = length queues \<and>
    (\<forall>w < length queues. holds (qs ! w) (c w @ filter (\<lambda>m. rss_key workerNum m = w) bs))"
  using assms
proof (induction bs arbitrary: queues c)
  case (Cons m bs)
  obtain t a where t: "get_proto_type (mb_data m) 0 (mb_len m) = Some (t, a)" using Cons.prems(1) by (auto simp: classified_def)
  let ?k = "rss_index workerNum a"
  have key: "rss_key workerNum m = ?k" by (simp add: rss_key_def t)
  have k: "?k < length queues" using rss_index_less [OF Cons.prems(2), of a] Cons.prems(3) by simp
  have "length (c ?k) < RX_BURST_SIZE" using Cons.prems(5) [rule_format, of ?k] by simp
  then obtain q where q: "PutBuffer m (queues ! ?k) = Some q" "holds q (c ?k @ [m])"
    using PutBuffer_holds Cons.prems(4) k by metis
  let ?c = "c(?k := c ?k @ [m])"
  have step: "rss_put workerNum m queues = Some (Some (queues[?k := q]))" by (simp add: rss_put_def t k q(1))
  have cs: "?c w @ filter (\<lambda>m. rss_key workerNum m = w) bs = c w @ filter (\<lambda>m. rss_key workerNum m = w) (m # bs)" for w
    by (simp add: key)
  have h: "\<forall>w < length (queues[?k := q]). holds (queues[?k := q] ! w) (?c w)" using Cons.prems(4) q(2) by (simp add: nth_list_update)
  have l: "\<forall>w. length (?c w) + length bs \<le> RX_BURST_SIZE"
  proof
    fix w show "length (?c w) + length bs \<le> RX_BURST_SIZE" using Cons.prems(5) [rule_format, of w] by auto
  qed
  from Cons.IH [OF _ Cons.prems(2) _ h l] Cons.prems(1,3) show ?case unfolding cs by (simp add: step)
qed simp

text \<open>What DPDK documents of the burst enqueue: it takes as many as fit, from the front.\<close>

definition ring_contract :: "('r \<Rightarrow> mbuf list \<Rightarrow> nat \<times> 'r) \<Rightarrow> ('r \<Rightarrow> mbuf list) \<Rightarrow> bool" where
  "ring_contract enqueue items \<longleftrightarrow>
     (\<forall>r ms n r'. enqueue r ms = (n, r') \<longrightarrow> n \<le> length ms \<and> items r' = items r @ take n ms)"

lemma rss_flush_one:
  assumes "ring_contract enqueue items" and "i < length (rss_queues s)" and "i < length (rss_rings s)"
    and "holds (rss_queues s ! i) q"
  shows "\<exists>n r f. n \<le> length q \<and> items r = items (rss_rings s ! i) @ take n q \<and> holds f [] \<and>
    rss_flush enqueue i s = Some (Some (s\<lparr> rss_rings := (rss_rings s)[i := r], rss_queues := (rss_queues s)[i := f],
      rss_app := (rss_app s)\<lparr> m_errRingFullCnt := m_errRingFullCnt (rss_app s) + of_nat (length q - n) \<rparr> \<rparr>))"
proof (cases "q = []")
  case True
  then show ?thesis using assms(2-4)
    by (intro exI [of _ 0] exI [of _ "rss_rings s ! i"] exI [of _ "rss_queues s ! i"]) (simp add: rss_flush_def Let_def holds_def)
next
  case False
  obtain n r where e: "enqueue (rss_rings s ! i) q = (n, r)" by (cases "enqueue (rss_rings s ! i) q")
  then have c: "n \<le> length q" "items r = items (rss_rings s ! i) @ take n q" using assms(1) unfolding ring_contract_def by blast+
  have num: "fr_num (rss_queues s ! i) = length q" using assms(4) by (simp add: holds_def)
  show ?thesis
  proof (intro exI conjI)
    show "rss_flush enqueue i s = Some (Some (s\<lparr> rss_rings := (rss_rings s)[i := r],
        rss_queues := (rss_queues s)[i := (rss_queues s ! i)\<lparr> fr_num := 0 \<rparr>],
        rss_app := (rss_app s)\<lparr> m_errRingFullCnt := m_errRingFullCnt (rss_app s) + of_nat (length q - n) \<rparr> \<rparr>))"
      using assms(2,3) False c(1) by (cases "n < length q") (simp_all add: rss_flush_def Let_def num frame_bufs_holds [OF assms(4)] e)
  qed (use c assms(4) holds_clean in auto)
qed

lemma rss_flush_all:
  assumes "ring_contract enqueue items" and "k \<le> length (rss_queues s)" and "k \<le> length (rss_rings s)"
    and "\<forall>w < length (rss_queues s). holds (rss_queues s ! w) (q w)"
  shows "\<exists>acc rings queues lost. for_each (rss_flush enqueue) [0..<k] s = Some (Some (s\<lparr> rss_rings := rings, rss_queues := queues,
      rss_app := (rss_app s)\<lparr> m_errRingFullCnt := m_errRingFullCnt (rss_app s) + of_nat lost \<rparr> \<rparr>)) \<and>
    length rings = length (rss_rings s) \<and> length queues = length (rss_queues s) \<and>
    (\<forall>w < k. acc w \<le> length (q w) \<and> items (rings ! w) = items (rss_rings s ! w) @ take (acc w) (q w) \<and> holds (queues ! w) []) \<and>
    (\<forall>w \<ge> k. rings ! w = rss_rings s ! w \<and> queues ! w = rss_queues s ! w) \<and>
    (\<Sum>w < k. acc w) + lost = (\<Sum>w < k. length (q w))"
  using assms(2,3)
proof (induction k)
  case 0
  then show ?case
    by (intro exI [of _ "\<lambda>_. 0"] exI [of _ "rss_rings s"] exI [of _ "rss_queues s"] exI [of _ 0]) simp
next
  case (Suc k)
  then obtain acc rings queues lost where IH:
    "for_each (rss_flush enqueue) [0..<k] s = Some (Some (s\<lparr> rss_rings := rings, rss_queues := queues,
      rss_app := (rss_app s)\<lparr> m_errRingFullCnt := m_errRingFullCnt (rss_app s) + of_nat lost \<rparr> \<rparr>))"
    "length rings = length (rss_rings s)" "length queues = length (rss_queues s)"
    "\<forall>w < k. acc w \<le> length (q w) \<and> items (rings ! w) = items (rss_rings s ! w) @ take (acc w) (q w) \<and> holds (queues ! w) []"
    "\<forall>w \<ge> k. rings ! w = rss_rings s ! w \<and> queues ! w = rss_queues s ! w"
    "(\<Sum>w < k. acc w) + lost = (\<Sum>w < k. length (q w))" by auto
  let ?s = "s\<lparr> rss_rings := rings, rss_queues := queues,
      rss_app := (rss_app s)\<lparr> m_errRingFullCnt := m_errRingFullCnt (rss_app s) + of_nat lost \<rparr> \<rparr>"
  have k: "k < length (rss_queues ?s)" "k < length (rss_rings ?s)" "holds (rss_queues ?s ! k) (q k)"
    using Suc.prems IH(2,3,5) assms(4) by simp_all
  obtain n r f where f: "n \<le> length (q k)" "items r = items (rss_rings s ! k) @ take n (q k)" "holds f []"
    "rss_flush enqueue k ?s = Some (Some (?s\<lparr> rss_rings := (rss_rings ?s)[k := r], rss_queues := (rss_queues ?s)[k := f],
      rss_app := (rss_app ?s)\<lparr> m_errRingFullCnt := m_errRingFullCnt (rss_app ?s) + of_nat (length (q k) - n) \<rparr> \<rparr>))"
    using rss_flush_one [OF assms(1) k] IH(5) by auto
  have run: "for_each (rss_flush enqueue) [0..<Suc k] s = Some (Some (s\<lparr> rss_rings := rings[k := r], rss_queues := queues[k := f],
      rss_app := (rss_app s)\<lparr> m_errRingFullCnt := m_errRingFullCnt (rss_app s) + of_nat (lost + (length (q k) - n)) \<rparr> \<rparr>))"
    using f(4) by (simp add: for_each_append IH(1) add.assoc)
  have sums: "(\<Sum>w < Suc k. (acc(k := n)) w) + (lost + (length (q k) - n)) = (\<Sum>w < Suc k. length (q w))"
    using IH(6) f(1) by simp
  show ?case
  proof (intro exI conjI)
    show "for_each (rss_flush enqueue) [0..<Suc k] s = Some (Some (s\<lparr> rss_rings := rings[k := r], rss_queues := queues[k := f],
      rss_app := (rss_app s)\<lparr> m_errRingFullCnt := m_errRingFullCnt (rss_app s) + of_nat (lost + (length (q k) - n)) \<rparr> \<rparr>))" by (rule run)
    show "\<forall>w < Suc k. (acc(k := n)) w \<le> length (q w) \<and> items (rings[k := r] ! w) = items (rss_rings s ! w) @ take ((acc(k := n)) w) (q w) \<and>
        holds (queues[k := f] ! w) []"
      using IH(4) f(1-3) k by (auto simp: less_Suc_eq)
    show "\<forall>w \<ge> Suc k. rings[k := r] ! w = rss_rings s ! w \<and> queues[k := f] ! w = rss_queues s ! w" using IH(5) by simp
  qed (use IH(2,3) sums in simp_all)
qed

lemma sum_length_filter:
  fixes n :: nat
  assumes "\<And>m. f m < n"
  shows "(\<Sum>w < n. length (filter (\<lambda>m. f m = w) bs)) = length bs"
proof (induction bs)
  case (Cons m bs)
  have "(\<Sum>w < n. length (filter (\<lambda>m. f m = w) (m # bs))) = (\<Sum>w < n. (if f m = w then 1 else 0) + length (filter (\<lambda>m. f m = w) bs))"
    by (intro sum.cong) auto
  then show ?case using Cons.IH assms [of m] sum.delta' [of "{..<n}" "f m" "\<lambda>_. 1 :: nat"] by (simp add: sum.distrib)
qed simp

subsection \<open>Runs that cannot fail\<close>

definition sv_only :: "mbuf list \<Rightarrow> bool" where
  "sv_only bufs \<longleftrightarrow> (\<forall>m \<in> set bufs. \<not> in_stage GOOSE m \<and> \<not> in_stage R_GOOSE m)"

lemma process_burst_total:
  assumes "burst_ok bufs" and "sv_only bufs" and "idle matrix" and "decrypts_in_place (dm_crypto matrix)"
  shows "\<exists>matrix'. process_burst bufs matrix = Some (Some matrix') \<and> idle matrix' \<and> decrypts_in_place (dm_crypto matrix')"
proof -
  have "\<forall>m \<in> set bufs. buffer_ok m \<and> \<not> in_stage GOOSE m \<and> \<not> in_stage R_GOOSE m"
    using assms(1,2) by (auto simp: burst_ok_def sv_only_def)
  then obtain a where "batch (dm_crypto matrix) bufs (dm_app matrix) = Some (Some a)" using batch_total assms(4) by blast
  then obtain matrix' where r: "process_burst bufs matrix = Some (Some matrix')"
    using process_burst_batch [OF assms(3,1)] by auto
  with process_burst_run(1,2) [OF assms(3,1) r] assms(4) show ?thesis by simp
qed

lemma single_core_total:
  assumes "\<forall>bufs \<in> set bursts. burst_ok bufs \<and> sv_only bufs" and "decrypts_in_place crypto"
  shows "\<exists>app'. single_core bursts app crypto = Some (Some app')"
proof -
  have "\<exists>m. for_each process_burst bursts (DataMatrix_new (MarkRunStarted app) crypto) = Some (Some m) \<and>
      (idle m \<and> decrypts_in_place (dm_crypto m))"
    by (rule for_each_total) (use assms process_burst_total idle_new in \<open>auto simp: DataMatrix_new_def\<close>)
  then show ?thesis by (auto simp: single_core_def)
qed

subsection \<open>Properties\<close>





text \<open>
  The counters of a single-core run. However many bursts the card delivers, when the loop ends the
  counters have grown by the number of frames received, and the stream containers still satisfy their
  invariant: one entry per APPID, registered under it.
\<close>

theorem single_core_counts:
  assumes "single_core bursts app crypto = Some (Some app')" and "\<forall>bufs \<in> set bursts. burst_ok bufs" and "app_ok app"
  shows "total app' = total app + of_nat (sum_list (map length bursts)) \<and> app_ok app'"
proof -
  obtain m where m: "for_each process_burst bursts (DataMatrix_new (MarkRunStarted app) crypto) = Some (Some m)" "app' = dm_app m"
    using assms(1) by (auto simp: single_core_def and_then_eq_Some)
  from bursts_run [OF idle_new assms(2) m(1)] assms(3) m(2) show ?thesis
    by (simp add: DataMatrix_new_def MarkRunStarted_sel)
qed

theorem single_core_counts_witness:
  "\<exists>app'. single_core [[], [sample_sv_buffer], replicate 32 sample_sv_buffer] sample_app xor_crypto = Some (Some app') \<and> total app' = 33"
proof -
  let ?b = "[[], [sample_sv_buffer], replicate 32 sample_sv_buffer]"
  obtain app' where run: "single_core ?b sample_app xor_crypto = Some (Some app')"
    using single_core_total [of ?b xor_crypto sample_app] xor_crypto_works(3)
    by (auto simp: burst_ok_def sv_only_def sample_sv_buffer_ok sample_sv_buffer_stage)
  have ok: "\<forall>bufs \<in> set ?b. burst_ok bufs" by (auto simp: burst_ok_def sample_sv_buffer_ok)
  have "app_ok sample_app"
    by (simp add: app_ok_def sample_app_def goose_assign_def sv_assign_def container_ok_assign container_ok_new)
  moreover have "total sample_app = 0" by (simp add: total_def sample_app_def RX_Application_init_def)
  ultimately show ?thesis using run single_core_counts [OF run ok] by auto
qed

text \<open>
  C28: software RSS loses no frame unnoticed and keeps the order of a stream. For every burst of up to
  32 frames and rings that take what fits, each worker's ring is extended by a prefix of the frames
  whose key selects that worker, in the order of arrival; a frame that no ring took is counted, so
  accepted and counted frames add up to the burst; and the queues are empty again.
\<close>

theorem rss_conserves_and_keeps_order:
  assumes "ring_contract enqueue items" and "workerNum \<noteq> 0" and "length bufs \<le> RX_BURST_SIZE" and "\<forall>m \<in> set bufs. classified m"
    and "unat workerNum \<le> length (rss_queues s)" and "unat workerNum \<le> length (rss_rings s)"
    and "\<forall>w < length (rss_queues s). holds (rss_queues s ! w) []"
  shows "\<exists>s' acc lost. rss_burst enqueue workerNum bufs s = Some (Some s') \<and>
    (\<forall>w < unat workerNum. items (rss_rings s' ! w) =
       items (rss_rings s ! w) @ take (acc w) (filter (\<lambda>m. rss_key workerNum m = w) bufs)) \<and>
    (\<forall>w < unat workerNum. acc w \<le> length (filter (\<lambda>m. rss_key workerNum m = w) bufs)) \<and>
    (\<Sum>w < unat workerNum. acc w) + lost = length bufs \<and>
    m_errRingFullCnt (rss_app s') = m_errRingFullCnt (rss_app s) + of_nat lost \<and>
    (\<forall>w < length (rss_queues s). holds (rss_queues s' ! w) [])"
proof -
  let ?q = "\<lambda>w. filter (\<lambda>m. rss_key workerNum m = w) bufs" and ?n = "unat workerNum"
  obtain qs where qs: "for_each (rss_put workerNum) bufs (rss_queues s) = Some (Some qs)" "length qs = length (rss_queues s)"
    "\<forall>w < length (rss_queues s). holds (qs ! w) (?q w)"
    using rss_put_all [OF assms(4,2,5), of "\<lambda>_. []"] assms(3,7) by auto
  let ?s = "s\<lparr> rss_queues := qs \<rparr>"
  obtain acc rings queues lost where f: "for_each (rss_flush enqueue) [0..<?n] ?s = Some (Some (?s\<lparr> rss_rings := rings, rss_queues := queues,
      rss_app := (rss_app ?s)\<lparr> m_errRingFullCnt := m_errRingFullCnt (rss_app ?s) + of_nat lost \<rparr> \<rparr>))"
    "length queues = length qs"
    "\<forall>w < ?n. acc w \<le> length (?q w) \<and> items (rings ! w) = items (rss_rings s ! w) @ take (acc w) (?q w) \<and> holds (queues ! w) []"
    "\<forall>w \<ge> ?n. rings ! w = rss_rings s ! w \<and> queues ! w = qs ! w" "(\<Sum>w < ?n. acc w) + lost = (\<Sum>w < ?n. length (?q w))"
    using rss_flush_all [OF assms(1), of ?n ?s ?q] qs(2,3) assms(5,6) by auto
  have sum: "(\<Sum>w < ?n. length (?q w)) = length bufs" using rss_key_less [OF assms(2)] by (rule sum_length_filter)
  have none: "?q w = []" if "?n \<le> w" for w using rss_key_less [OF assms(2)] that by (auto simp: filter_empty_conv not_less [symmetric])
  have run: "rss_burst enqueue workerNum bufs s = for_each (rss_flush enqueue) [0..<?n] ?s" if "bufs \<noteq> []"
    using that qs(1) by (simp add: rss_burst_def)
  show ?thesis
  proof (cases "bufs = []")
    case True
    then show ?thesis using assms(7) by (intro exI [of _ s] exI [of _ "\<lambda>_. 0"] exI [of _ 0]) (simp add: rss_burst_def)
  next
    case False
    have "holds (queues ! w) []" if "w < length (rss_queues s)" for w
      using f(3,4) qs(3) none that by (cases "w < ?n") (auto simp: not_less)
    then show ?thesis
      using f(3,5) unfolding run [OF False] f(1) sum
      by (intro exI [of _ "?s\<lparr> rss_rings := rings, rss_queues := queues, rss_app := (rss_app ?s)
        \<lparr> m_errRingFullCnt := m_errRingFullCnt (rss_app ?s) + of_nat lost \<rparr> \<rparr>"] exI [of _ acc] exI [of _ lost]) simp
  qed
qed

text \<open>A bounded ring for the witness.\<close>

definition list_enqueue :: "mbuf list \<Rightarrow> mbuf list \<Rightarrow> nat \<times> mbuf list" where
  "list_enqueue r ms = (let n = min (length ms) (40 - length r) in (n, r @ take n ms))"

lemma list_enqueue_contract: "ring_contract list_enqueue (\<lambda>r. r)"
  by (auto simp: ring_contract_def list_enqueue_def Let_def)

theorem rss_conserves_and_keeps_order_witness:
  "\<exists>s' acc lost. rss_burst list_enqueue 2 [sample_sv_buffer]
      \<lparr> rss_rings = [[], []], rss_queues = replicate RTE_MAX_LCORE Frame_init, rss_app = RX_Application_init \<rparr> = Some (Some s') \<and>
    (\<Sum>w < (2 :: nat). acc w) + lost = (1 :: nat) \<and> m_errRingFullCnt (rss_app s') = of_nat lost"
proof -
  let ?s = "\<lparr> rss_rings = [[], [] :: mbuf list], rss_queues = replicate RTE_MAX_LCORE Frame_init, rss_app = RX_Application_init \<rparr>"
  have prem: "(2 :: u32) \<noteq> 0" "length [sample_sv_buffer] \<le> RX_BURST_SIZE" "\<forall>m \<in> set [sample_sv_buffer]. classified m"
    "unat (2 :: u32) \<le> length (rss_queues ?s)" "unat (2 :: u32) \<le> length (rss_rings ?s)"
    "\<forall>w < length (rss_queues ?s). holds (rss_queues ?s ! w) []" "m_errRingFullCnt (rss_app ?s) = 0"
    using buffer_classified [OF sample_sv_buffer_ok] by (simp_all add: holds_init RX_Application_init_def)
  obtain s' acc lost where "rss_burst list_enqueue 2 [sample_sv_buffer] ?s = Some (Some s')"
    "(\<Sum>w < unat (2 :: u32). acc w) + lost = length [sample_sv_buffer]"
    "m_errRingFullCnt (rss_app s') = m_errRingFullCnt (rss_app ?s) + of_nat lost"
    using rss_conserves_and_keeps_order [OF list_enqueue_contract prem(1-6)] by metis
  with prem(7) show ?thesis by (intro exI [of _ s'] exI [of _ acc] exI [of _ lost]) simp
qed

text \<open>
  Traffic without GOOSE cannot stop the receiver. Over any number of bursts of SV, R-SV and
  foreign frames of any content, in every security mode, the single-core loop processes all of them.
\<close>

theorem sv_receiver_total:
  assumes "\<forall>bufs \<in> set bursts. burst_ok bufs \<and> sv_only bufs" and "decrypts_in_place crypto"
  shows "\<exists>app'. single_core bursts app crypto = Some (Some app')"
  using assms by (rule single_core_total)

theorem sv_receiver_total_witness:
  "\<exists>app'. single_core (replicate 1000 (replicate 32 sample_sv_buffer)) sample_app xor_crypto = Some (Some app')"
  by (rule sv_receiver_total) (simp_all add: xor_crypto_works burst_ok_def sv_only_def sample_sv_buffer_ok sample_sv_buffer_stage)
end
