(* ===== verification/Tx_Schedule.thy ===== *)
theory Tx_Schedule
  imports PBus_Prelude
begin

text \<open>
  When which stream is sent: \<open>src/bus_generator/tx_unit.hpp\<close>, the schedules that
  \<open>GooseTrafficGen::GenerateTxUnits\<close> and \<open>SVTrafficGen::CreateTxUnits\<close> build, and the division of the
  streams among the senders in \<open>gen_application.cpp\<close>.

  A schedule is a second of traffic: a list of units with their offset in microseconds, each unit a list
  of blocks of packet descriptors. The theorems say that every unit sends every stream once, that the
  flat plan of the burst mode is the same second of traffic, and that the slices of the senders are a
  partition of the streams.
\<close>

subsection \<open>Units, blocks and descriptors\<close>

text \<open>\<open>GoosePacketDesc\<close> and \<open>SVPacketDesc\<close> are both an index of type \<open>unsigned\<close>.\<close>

record PacketDesc =
  idx :: u32

record TxBlock =
  packets :: "PacketDesc list"

record TxUnit =
  offsetUS :: u64
  blocks :: "TxBlock list"

definition make_burst_plan :: "u32 \<Rightarrow> u32 \<Rightarrow> PacketDesc list" where
  "make_burst_plan streams reps =
     concat (map (\<lambda>r. map (\<lambda>s. \<lparr> idx = of_nat s \<rparr>) [0..<unat streams]) [0..<unat reps])"

subsection \<open>Schedules\<close>

text \<open>
  The loops over the packets of a block and over the blocks share the counter \<open>iedIndex\<close>, which they
  hand on.
\<close>

primrec number_packets :: "nat \<Rightarrow> u32 \<Rightarrow> PacketDesc list \<times> u32" where
  "number_packets 0 iedIndex = ([], iedIndex)"
| "number_packets (Suc n) iedIndex = (case number_packets n (iedIndex + 1) of (ps, next) \<Rightarrow> (\<lparr> idx = iedIndex \<rparr> # ps, next))"

primrec number_blocks :: "nat list \<Rightarrow> u32 \<Rightarrow> TxBlock list \<times> u32" where
  "number_blocks [] iedIndex = ([], iedIndex)"
| "number_blocks (n # sizes) iedIndex = (case number_packets n iedIndex of (ps, next) \<Rightarrow>
     case number_blocks sizes next of (bs, after) \<Rightarrow> (\<lparr> packets = ps \<rparr> # bs, after))"

definition unit_blocks :: "nat \<Rightarrow> nat \<Rightarrow> TxBlock list" where
  "unit_blocks BUNCH_SIZE ieds =
     (let BLK_PER_UNIT = ieds div BUNCH_SIZE; LAST_BLK_SIZE = ieds mod BUNCH_SIZE in
      fst (number_blocks (replicate BLK_PER_UNIT BUNCH_SIZE @ (if LAST_BLK_SIZE > 0 then [LAST_BLK_SIZE] else [])) 0))"

definition GenerateTxUnits :: "u32 \<Rightarrow> u32 \<Rightarrow> TxUnit list" where
  "GenerateTxUnits ieds pps =
     map (\<lambda>i. \<lparr> offsetUS = ucast (1000000 div pps) * of_nat i, blocks = unit_blocks 32 (unat ieds) \<rparr>) [0..<unat pps]"

text \<open>\<open>CreateTxUnits\<close> takes an \<open>int\<close>; it is called with 4000 and 1600.\<close>

definition CreateTxUnits :: "u32 \<Rightarrow> int \<Rightarrow> TxUnit list" where
  "CreateTxUnits ieds pps =
     map (\<lambda>i. \<lparr> offsetUS = word_of_int (1000000 div pps) * of_nat i, blocks = unit_blocks 64 (unat ieds) \<rparr>) [0..<nat pps]"

subsection \<open>Slices\<close>

definition ied_slice :: "u32 \<Rightarrow> u32 \<Rightarrow> u32 \<Rightarrow> u32 \<times> u32" where
  "ied_slice num workers i =
     (let per = num div workers; rem = num mod workers;
          lo = i * per + (if i < rem then i else rem);
          hi = lo + per + (if i < rem then 1 else 0)
      in (lo, hi))"

definition make_r_workers :: "u32 \<Rightarrow> u32 \<Rightarrow> (u32 \<Rightarrow> u32 \<Rightarrow> 'e + 'g) \<Rightarrow> 'e + 'g list" where
  "make_r_workers workers num factory =
     fold (\<lambda>i acc. case acc of Inl e \<Rightarrow> Inl e | Inr gens \<Rightarrow>
         (case ied_slice num workers (of_nat i) of (lo, hi) \<Rightarrow>
           case factory lo (hi - lo) of Inl e \<Rightarrow> Inl e | Inr g \<Rightarrow> Inr (gens @ [g])))
       [0..<unat workers] (Inr [])"

definition make_r_burst_plans :: "('g \<Rightarrow> TxUnit list) \<Rightarrow> 'g list \<Rightarrow> u32 \<Rightarrow> PacketDesc list list" where
  "make_r_burst_plans GetTxUnits gens num =
     (let workers = of_nat (length gens) in
      map (\<lambda>i. case ied_slice num workers (of_nat i) of (lo, hi) \<Rightarrow>
            make_burst_plan (hi - lo) (of_nat (length (GetTxUnits (gens ! i))))) [0..<unat workers])"

definition total_burst :: "PacketDesc list list \<Rightarrow> nat" where
  "total_burst plans = fold (\<lambda>p n. n + length p) plans 0"

subsection \<open>What a schedule sends\<close>

definition unit_packets :: "TxUnit \<Rightarrow> PacketDesc list" where
  "unit_packets u = concat (map packets (blocks u))"

definition all_streams :: "nat \<Rightarrow> PacketDesc list" where
  "all_streams n = map (\<lambda>s. \<lparr> idx = of_nat s \<rparr>) [0..<n]"

lemma unat_of_nat_small: "n < 2 ^ LENGTH('a) \<Longrightarrow> unat (of_nat n :: 'a :: len word) = n"
  by (simp add: unat_of_nat take_bit_nat_eq_self)

lemma unat_u32_less: "unat (x :: u32) < 4294967296"
proof -
  have "unat x < 2 ^ LENGTH(32)" by (rule unsigned_less)
  then show ?thesis by simp
qed

lemma number_packets_eq:
  "number_packets n i = (map (\<lambda>k. \<lparr> idx = i + of_nat k \<rparr>) [0..<n], i + of_nat n)"
proof (induction n arbitrary: i)
  case 0
  then show ?case by simp
next
  case (Suc n)
  have "[0..<Suc n] = 0 # map Suc [0..<n]" by (simp add: map_Suc_upt upt_conv_Cons del: upt_Suc)
  then show ?case by (simp add: Suc.IH comp_def add.assoc del: upt_Suc)
qed

lemma upt_split_map: "[0..<a + b] = [0..<a] @ map (\<lambda>k. a + k) [0..<b]"
  by (induction b) simp_all

lemma number_blocks_eq:
  "concat (map packets (fst (number_blocks sizes i))) = map (\<lambda>k. \<lparr> idx = i + of_nat k \<rparr>) [0..<sum_list sizes]"
  "map (length \<circ> packets) (fst (number_blocks sizes i)) = sizes"
proof (induction sizes arbitrary: i)
  case (Cons n sizes)
  { case 1 show ?case
      using Cons.IH(1) [of "i + of_nat n"]
      by (simp add: number_packets_eq upt_split_map comp_def add.assoc case_prod_beta)
  }
  { case 2 show ?case using Cons.IH(2) [of "i + of_nat n"] by (simp add: number_packets_eq case_prod_beta) }
qed simp_all

lemma unit_blocks_eq:
  assumes "0 < bunch"
  shows "concat (map packets (unit_blocks bunch n)) = all_streams n"
    and "\<forall>b \<in> set (unit_blocks bunch n). packets b \<noteq> [] \<and> length (packets b) \<le> bunch"
proof -
  let ?sizes = "replicate (n div bunch) bunch @ (if n mod bunch > 0 then [n mod bunch] else [])"
  have "sum_list ?sizes = n" using div_mult_mod_eq [of n bunch] by (auto simp: sum_list_replicate)
  then show "concat (map packets (unit_blocks bunch n)) = all_streams n"
    using number_blocks_eq(1) [of ?sizes 0] by (simp add: unit_blocks_def Let_def all_streams_def)
  have "\<forall>k \<in> set ?sizes. 0 < k \<and> k \<le> bunch" using assms by (auto simp: less_imp_le)
  then have "\<forall>k \<in> set (map (length \<circ> packets) (unit_blocks bunch n)). 0 < k \<and> k \<le> bunch"
    using number_blocks_eq(2) [of ?sizes 0] by (simp only: unit_blocks_def Let_def)
  then show "\<forall>b \<in> set (unit_blocks bunch n). packets b \<noteq> [] \<and> length (packets b) \<le> bunch" by force
qed

lemma length_all_streams [simp]: "length (all_streams n) = n"
  by (simp add: all_streams_def)

lemma units_shape:
  "map unit_packets (GenerateTxUnits ieds pps) = replicate (unat pps) (all_streams (unat ieds))"
  "map unit_packets (CreateTxUnits ieds n) = replicate (nat n) (all_streams (unat ieds))"
  by (simp_all add: GenerateTxUnits_def CreateTxUnits_def unit_packets_def unit_blocks_eq comp_def map_replicate_const)

lemma burst_plan_eq: "make_burst_plan streams reps = concat (replicate (unat reps) (all_streams (unat streams)))"
  by (simp add: make_burst_plan_def all_streams_def map_replicate_const)

lemma length_burst_plan: "length (make_burst_plan streams reps) = unat streams * unat reps"
  by (simp add: burst_plan_eq length_concat sum_list_replicate)

definition slice_start :: "nat \<Rightarrow> nat \<Rightarrow> nat \<Rightarrow> nat" where
  "slice_start n w i = i * (n div w) + min i (n mod w)"

lemma slice_start_props:
  assumes "0 < w"
  shows "slice_start n w 0 = 0" and "slice_start n w w = n" and "slice_start n w i \<le> slice_start n w (Suc i)"
    and "n div w \<le> slice_start n w (Suc i) - slice_start n w i"
    and "slice_start n w (Suc i) - slice_start n w i \<le> n div w + 1"
    and "i \<le> w \<Longrightarrow> slice_start n w i \<le> n"
proof -
  have top: "slice_start n w w = n"
    using mod_less_divisor [OF assms, of n] by (simp add: slice_start_def min_def)
  then show "slice_start n w w = n" .
  show step: "slice_start n w i \<le> slice_start n w (Suc i)" for i by (simp add: slice_start_def)
  show "i \<le> w \<Longrightarrow> slice_start n w i \<le> n"
    using lift_Suc_mono_le [of "slice_start n w" i w] step top by simp
qed (auto simp: slice_start_def)

lemma ied_slice_nat:
  assumes "i < unat workers"
  shows "ied_slice num workers (of_nat i) =
    (of_nat (slice_start (unat num) (unat workers) i), of_nat (slice_start (unat num) (unat workers) (Suc i)))"
proof -
  have i: "unat (of_nat i :: u32) = i"
    using assms unat_u32_less [of workers] by (simp add: unat_of_nat_small)
  have per: "num div workers = of_nat (unat num div unat workers)" by (metis unat_div_distrib word_of_unat)
  have rem: "num mod workers = of_nat (unat num mod unat workers)" by (metis unat_mod_distrib word_of_unat)
  have less: "of_nat i < num mod workers \<longleftrightarrow> i < unat num mod unat workers"
    by (simp add: word_less_nat_alt i unat_mod_distrib)
  show ?thesis
    unfolding ied_slice_def Let_def less unfolding per rem slice_start_def by (auto simp: min_def algebra_simps)
qed

lemma unat_slice:
  assumes "i < unat workers"
  shows "unat (fst (ied_slice num workers (of_nat i))) = slice_start (unat num) (unat workers) i"
    and "unat (snd (ied_slice num workers (of_nat i))) = slice_start (unat num) (unat workers) (Suc i)"
  using assms slice_start_props(6) [of "unat workers" i "unat num"] slice_start_props(6) [of "unat workers" "Suc i" "unat num"]
    unat_u32_less [of num]
  by (simp_all add: ied_slice_nat unat_of_nat_small)

lemma slices_concat:
  assumes "0 < w"
  shows "concat (map (\<lambda>i. [slice_start n w i..<slice_start n w (Suc i)]) [0..<k]) = [0..<slice_start n w k]"
proof (induction k)
  case (Suc k)
  show ?case
    using upt_add_eq_append [of 0 "slice_start n w k" "slice_start n w (Suc k) - slice_start n w k"]
      slice_start_props(3) [OF assms, of n k] Suc.IH by simp
qed (simp add: slice_start_props(1) [OF assms])


lemma unit_block_sizes:
  "list_all (\<lambda>u. list_all (\<lambda>b. packets b \<noteq> [] \<and> length (packets b) \<le> 32) (blocks u)) (GenerateTxUnits ieds pps)"
  "list_all (\<lambda>u. list_all (\<lambda>b. packets b \<noteq> [] \<and> length (packets b) \<le> 64) (blocks u)) (CreateTxUnits ieds n)"
  using unit_blocks_eq(2) [of 32 "unat ieds"] unit_blocks_eq(2) [of 64 "unat ieds"]
  by (auto simp: GenerateTxUnits_def CreateTxUnits_def list_all_iff)

lemma offset_nat:
  assumes "0 < k" and "i < (k :: nat)"
  shows "unat (of_nat (1000000 div k) * of_nat i :: u64) = 1000000 div k * i"
    and "1000000 div k * i < 1000000"
proof -
  have le: "1000000 div k * k \<le> 1000000" by simp
  show less: "1000000 div k * i < 1000000"
  proof (cases "1000000 div k = 0")
    case False
    then have "1000000 div k * i < 1000000 div k * k" using assms(2) by simp
    with le show ?thesis by linarith
  qed simp
  then show "unat (of_nat (1000000 div k) * of_nat i :: u64) = 1000000 div k * i"
    using unat_of_nat_small [where 'a = 64, of "1000000 div k * i"] by (simp del: of_nat_mult add: of_nat_mult [symmetric])
qed

lemma schedule_offsets:
  assumes "0 < k" and "k \<le> (1000000 :: nat)"
  shows "sorted_wrt (<) (map (\<lambda>i. of_nat (1000000 div k) * of_nat i :: u64) [0..<k])"
    and "list_all (\<lambda>t. t < 1000000) (map (\<lambda>i. of_nat (1000000 div k) * of_nat i :: u64) [0..<k])"
proof -
  have pos: "0 < 1000000 div k" using assms by (simp add: div_greater_zero_iff)
  then show "sorted_wrt (<) (map (\<lambda>i. of_nat (1000000 div k) * of_nat i :: u64) [0..<k])"
    by (auto simp: sorted_wrt_iff_nth_less word_less_nat_alt offset_nat)
  show "list_all (\<lambda>t. t < 1000000) (map (\<lambda>i. of_nat (1000000 div k) * of_nat i :: u64) [0..<k])"
    using assms(1) by (simp add: list_all_iff word_less_nat_alt offset_nat)
qed

lemma generate_offsets:
  "map offsetUS (GenerateTxUnits ieds pps) = map (\<lambda>i. of_nat (1000000 div unat pps) * of_nat i) [0..<unat pps]"
proof -
  have "unat (1000000 div pps) = 1000000 div unat pps" by (simp add: unat_div_distrib)
  then have "ucast (1000000 div pps) = (of_nat (1000000 div unat pps) :: u64)" 
    using word_of_unat [of "ucast (1000000 div pps) :: u64"] by simp
  then show ?thesis by (simp add: GenerateTxUnits_def)
qed

lemma create_offsets:
  assumes "0 < n"
  shows "map offsetUS (CreateTxUnits ieds n) = map (\<lambda>i. of_nat (1000000 div nat n) * of_nat i) [0..<nat n]"
proof -
  have "(word_of_int (1000000 div n) :: u64) = of_nat (1000000 div nat n)"
  proof -
    have "1000000 div n = int (1000000 div nat n)" using assms by (simp add: zdiv_int)
    then show ?thesis by (simp only: word_of_int_nat of_nat_0_le_iff nat_int)
  qed
  then show ?thesis by (simp add: CreateTxUnits_def)
qed

lemma slice_size:
  assumes "0 < unat workers" and "i < unat workers"
  shows "unat (snd (ied_slice num workers (of_nat i)) - fst (ied_slice num workers (of_nat i)))
    \<in> {unat num div unat workers, unat num div unat workers + 1}"
proof -
  let ?s = "slice_start (unat num) (unat workers)"
  have "unat (snd (ied_slice num workers (of_nat i)) - fst (ied_slice num workers (of_nat i))) = ?s (Suc i) - ?s i"
    using assms(2) slice_start_props(3) [OF assms(1)] by (subst unat_sub) (simp_all add: unat_slice word_le_nat_alt)
  moreover have "?s (Suc i) - ?s i \<in> {unat num div unat workers, unat num div unat workers + 1}"
    by (auto simp: slice_start_def min_def)
  ultimately show ?thesis by simp
qed

subsection \<open>Properties\<close>

text \<open>
  C37: a second of the schedule. Each of the \<open>pps\<close> units of a GOOSE schedule, and of the SV schedules,
  sends every stream exactly once and in order; its blocks are not empty and hold at most 32 (GOOSE) and
  64 (SV) packets; the offsets rise strictly and stay inside the second for up to a million units.
\<close>

theorem schedule_sends_every_stream:
  assumes "0 < unat pps" and "unat pps \<le> 1000000" and "0 < n" and "n \<le> 1000000"
  shows "map unit_packets (GenerateTxUnits ieds pps) = replicate (unat pps) (all_streams (unat ieds)) \<and>
    map unit_packets (CreateTxUnits ieds n) = replicate (nat n) (all_streams (unat ieds)) \<and>
    list_all (\<lambda>u. list_all (\<lambda>b. packets b \<noteq> [] \<and> length (packets b) \<le> 32) (blocks u)) (GenerateTxUnits ieds pps) \<and>
    list_all (\<lambda>u. list_all (\<lambda>b. packets b \<noteq> [] \<and> length (packets b) \<le> 64) (blocks u)) (CreateTxUnits ieds n) \<and>
    sorted_wrt (<) (map offsetUS (GenerateTxUnits ieds pps)) \<and> sorted_wrt (<) (map offsetUS (CreateTxUnits ieds n)) \<and>
    list_all (\<lambda>t. t < 1000000) (map offsetUS (GenerateTxUnits ieds pps) @ map offsetUS (CreateTxUnits ieds n))"
proof -
  have n: "0 < nat n" "nat n \<le> 1000000" using assms(3,4) by simp_all
  show ?thesis
    unfolding generate_offsets create_offsets [OF assms(3)] list_all_append
    by (intro conjI units_shape unit_block_sizes schedule_offsets assms(1,2) n)
qed

theorem schedule_sends_every_stream_witness:
  "map unit_packets (GenerateTxUnits 70 50) = replicate 50 (all_streams 70) \<and>
   map unit_packets (CreateTxUnits 70 4000) = replicate 4000 (all_streams 70) \<and>
   sorted_wrt (<) (map offsetUS (GenerateTxUnits 70 50)) \<and> sorted_wrt (<) (map offsetUS (CreateTxUnits 70 4000))"
  using schedule_sends_every_stream [of 50 4000 70] by simp

text \<open>
  Burst mode sends the same second. The flat plan of the burst mode is, packet by packet, what the
  steady-state schedule sends in a second: for GOOSE with the number of streams and the frequency, for
  SV with the number of units the generator has built.
\<close>

theorem burst_plan_is_the_schedule:
  assumes "0 \<le> n" and "n < 2 ^ 32"
  shows "make_burst_plan ieds pps = concat (map unit_packets (GenerateTxUnits ieds pps)) \<and>
    make_burst_plan ieds (of_nat (length (CreateTxUnits ieds n))) = concat (map unit_packets (CreateTxUnits ieds n))"
proof -
  have "length (CreateTxUnits ieds n) = nat n" by (simp add: CreateTxUnits_def)
  moreover have "unat (of_nat (nat n) :: u32) = nat n" using assms by (intro unat_of_nat_small) (simp add: nat_less_iff)
  ultimately show ?thesis by (simp only: burst_plan_eq units_shape simp_thms)
qed

theorem burst_plan_is_the_schedule_witness:
  "make_burst_plan 3 2 = concat (map unit_packets (GenerateTxUnits 3 2)) \<and>
   make_burst_plan 3 (of_nat (length (CreateTxUnits 3 4000))) = concat (map unit_packets (CreateTxUnits 3 4000))"
  using burst_plan_is_the_schedule [of 4000 3 2] by simp

text \<open>
  C38: the senders share the streams out. The slices of the workers are a partition of the streams, in
  order; no arithmetic wraps; a slice differs from another by at most one stream, and none is empty
  unless there are more workers than streams.
\<close>

theorem slices_partition_streams:
  assumes "0 < unat workers"
  shows "concat (map (\<lambda>i. case ied_slice num workers (of_nat i) of (lo, hi) \<Rightarrow> [unat lo..<unat hi]) [0..<unat workers]) = [0..<unat num] \<and>
    list_all (\<lambda>i. case ied_slice num workers (of_nat i) of (lo, hi) \<Rightarrow>
        unat (hi - lo) \<in> {unat num div unat workers, unat num div unat workers + 1}) [0..<unat workers]"
proof
  let ?s = "slice_start (unat num) (unat workers)"
  have "map (\<lambda>i. case ied_slice num workers (of_nat i) of (lo, hi) \<Rightarrow> [unat lo..<unat hi]) [0..<unat workers]
      = map (\<lambda>i. [?s i..<?s (Suc i)]) [0..<unat workers]"
    by (intro map_cong refl) (simp add: case_prod_beta unat_slice)
  then show "concat (map (\<lambda>i. case ied_slice num workers (of_nat i) of (lo, hi) \<Rightarrow> [unat lo..<unat hi]) [0..<unat workers]) = [0..<unat num]"
    by (simp only: slices_concat [OF assms] slice_start_props(2) [OF assms])
  show "list_all (\<lambda>i. case ied_slice num workers (of_nat i) of (lo, hi) \<Rightarrow>
        unat (hi - lo) \<in> {unat num div unat workers, unat num div unat workers + 1}) [0..<unat workers]"
    using slice_size [OF assms] by (auto simp: list_all_iff case_prod_beta)
qed

theorem slices_partition_streams_witness:
  "concat (map (\<lambda>i. case ied_slice 10 4 (of_nat i) of (lo, hi) \<Rightarrow> [unat lo..<unat hi]) [0..<4]) = [0..<10]"
  using slices_partition_streams [of 4 10] by simp

end
