(* ===== verification/Traffic_Gen.thy ===== *)
theory Traffic_Gen
  imports Tx_Schedule SV_Parser R_Session
begin

text \<open>
  The L2 generators: \<open>src/bus_generator/goose_traffic_gen.cpp\<close>, \<open>goose_traffic_gen.hpp\<close>,
  \<open>sv_traffic_gen.cpp\<close> and \<open>sv_traffic_gen.hpp\<close>. A generator owns the state of its publishers (IEDs), a
  skeleton frame that every buffer of the pool is filled with, and the offsets of the fields that
  change; \<open>AmendPacket\<close> writes the fields of one publisher into a buffer and moves its counters on.

  The skeleton comes from libiec61850, which is the argument \<open>lib\<close>: what the source passes to it is
  modelled, what it answers is not. Byte order is that of the little-endian hosts the program is built
  for. Indexing a vector or a buffer outside its bounds is \<open>None\<close>, an exception is \<open>Inl\<close>.
\<close>

datatype GenError = RuntimeError string | InvalidArgument string

abbreviation (input) MAX_GOOSE_PACKET_SIZE :: nat where "MAX_GOOSE_PACKET_SIZE \<equiv> 1518"
abbreviation (input) MAX_SV_PACKET_SIZE :: nat where "MAX_SV_PACKET_SIZE \<equiv> 1518"
abbreviation (input) MAX_SV_ASDU_NUM :: nat where "MAX_SV_ASDU_NUM \<equiv> 8"

definition at_index :: "'a list \<Rightarrow> u32 \<Rightarrow> 'a option" where
  "at_index xs i = (if unat i < length xs then Some (xs ! unat i) else None)"

text \<open>A \<open>uint64_t\<close> stored as it is.\<close>

definition put64_le :: "u64 \<Rightarrow> bytes" where
  "put64_le v = map (\<lambda>k. ucast (drop_bit (8 * k) v)) [0..<8]"

subsection \<open>What the source asks of libiec61850\<close>

record CommParameters =
  vlanPriority :: u8
  vlanId :: u16
  appId :: u16
  dstAddress :: MAC

record GoosePublisher =
  pub_comm :: CommParameters
  pub_goID :: bytes
  pub_goCbRef :: bytes
  pub_dataSetRef :: bytes
  pub_confRev :: u32
  pub_timeAllowedToLive :: u32
  pub_stNum :: u32
  pub_sqNum :: u32
  pub_values :: "bool list"

datatype GOOSE_PARAM_OFFSETS = GOOSE_APPID_OFFSET | GOOSE_TIMESTAMP_OFFSET | GOOSE_GOID_OFFSET | GOOSE_GOCB_REF_OFFSET
  | GOOSE_DS_REF_OFFSET | GOOSE_SQ_NUM_OFFSET | GOOSE_ST_NUM_OFFSET | GOOSE_D1_OFFSET

datatype SV_ASDU_OFFSETS = SV_SVID_OFFSET | SV_SMP_CNT_OFFSET | SV_DATA_OFFSET

text \<open>An ASDU of a publisher: its identifier, data set, revision, and the values and qualities set in it.\<close>

record SVPublisherASDU =
  pa_svID :: bytes
  pa_datset :: "bytes option"
  pa_confRev :: u32
  pa_data :: "(u32 \<times> u32) list"

record SVPublisher =
  sp_comm :: CommParameters
  sp_asdus :: "SVPublisherASDU list"

record SVMessage =
  sm_buffer :: bytes
  sm_appidOffset :: u16
  sm_asduOffset :: "nat \<Rightarrow> SV_ASDU_OFFSETS \<Rightarrow> u16"

text \<open>
  \<open>GoosePublisher_create\<close> (may fail), \<open>GoosePublisher_generateMessage\<close> (may fail),
  \<open>GooseReceiver_getMessageOffsets\<close> (may fail), and the \<open>SVPublisher\<close> calls from \<open>SVPublisher_create\<close>
  (may fail) to \<open>SVPublisher_getBuffer\<close> and the offset getters.
\<close>

record Iec61850 =
  GoosePublisher_create :: "CommParameters \<Rightarrow> bool"
  GoosePublisher_generateMessage :: "GoosePublisher \<Rightarrow> bytes option"
  GooseReceiver_getMessageOffsets :: "bytes \<Rightarrow> (GOOSE_PARAM_OFFSETS \<Rightarrow> u16) option"
  SVPublisher_message :: "SVPublisher \<Rightarrow> SVMessage option"

subsection \<open>GOOSE\<close>

record GooseSourceIED =
  gi_sID :: bytes
  gi_stNum :: u32
  gi_sqNum :: u32
  gi_timestamp :: u64
  gi_spduNumber :: u32

definition GooseSourceIED_init :: GooseSourceIED where
  "GooseSourceIED_init = \<lparr> gi_sID = replicate 9 0, gi_stNum = 0, gi_sqNum = 0, gi_timestamp = 0, gi_spduNumber = 0 \<rparr>"

text \<open>\<open>snprintf\<close> into an array of \<open>n\<close> characters: at most \<open>n - 1\<close> of them and the terminator.\<close>

definition print_id :: "nat \<Rightarrow> string \<Rightarrow> bytes" where
  "print_id n s = (let t = take (n - 1) (ascii s) in t @ replicate (n - length t) 0)"

definition goose_InitIED :: "u32 \<Rightarrow> GooseSourceIED \<Rightarrow> GooseSourceIED" where
  "goose_InitIED i ied = ied\<lparr> gi_sID := print_id 9 (dec_padded 8 (unat i)) \<rparr>"

record GooseTrafficGen =
  gt_ieds :: "GooseSourceIED list"
  gt_units :: "TxUnit list"
  gt_tsDeltaChange :: u32
  gt_offsets :: "GOOSE_PARAM_OFFSETS \<Rightarrow> u16"
  gt_skeleton :: bytes
  gt_skeletonSize :: nat

definition GOID_PATTERN :: bytes where "GOID_PATTERN = ascii (''GOID'' @ ''12345678'')"
definition GOCB_REF_PATTERN :: bytes where "GOCB_REF_PATTERN = ascii (''IED'' @ ''12345678'' @ ''LDName/LLN0$GO$GOCB'')"
definition DS_REF_PATTERN :: bytes where "DS_REF_PATTERN = ascii (''IED'' @ ''12345678'' @ ''LDName/LLN0$DataSet'')"

definition gooseCommParameters :: CommParameters where
  "gooseCommParameters = \<lparr> vlanPriority = 4, vlanId = 0, appId = 0x1234, dstAddress = MAC 0x01 0x0C 0xCD 0x04 0x00 0x01 \<rparr>"

definition goose_publisher :: "u32 \<Rightarrow> GoosePublisher" where
  "goose_publisher sigNum = \<lparr> pub_comm = gooseCommParameters, pub_goID = GOID_PATTERN, pub_goCbRef = GOCB_REF_PATTERN,
     pub_dataSetRef = DS_REF_PATTERN, pub_confRev = 1, pub_timeAllowedToLive = 2000, pub_stNum = 0x7FFFFFFF,
     pub_sqNum = 0x7FFFFFFF, pub_values = map odd [0..<unat sigNum] \<rparr>"

definition goose_MakeSkeletonPacket :: "Iec61850 \<Rightarrow> u32 \<Rightarrow> GooseTrafficGen \<Rightarrow> (GenError + GooseTrafficGen) option" where
  "goose_MakeSkeletonPacket lib sigNum gen =
     (if \<not> GoosePublisher_create lib gooseCommParameters
      then Some (Inl (RuntimeError ''GoosePublisher_create failed''))
      else case GoosePublisher_generateMessage lib (goose_publisher sigNum) of
        None \<Rightarrow> Some (Inl (InvalidArgument ''Can't generate GOOSE message with libiec61850''))
      | Some msg \<Rightarrow> do {
          skeleton \<leftarrow> wrs (gt_skeleton gen) 0 msg;
          skeleton \<leftarrow> wrs skeleton 6 [0xF0, 0xF1, 0xF2, 0xF3, 0xF4, 0xF5];
          Some (case GooseReceiver_getMessageOffsets lib (take (length msg) skeleton) of
              None \<Rightarrow> Inl (InvalidArgument ''Can't find GOOSE's offsets'')
            | Some offs \<Rightarrow> Inr (gen\<lparr> gt_skeleton := skeleton, gt_skeletonSize := length msg, gt_offsets := offs \<rparr>)) })"

definition GooseTrafficGen_new :: "Iec61850 \<Rightarrow> u32 \<Rightarrow> u32 \<Rightarrow> u32 \<Rightarrow> (GenError + GooseTrafficGen) option" where
  "GooseTrafficGen_new lib MaxGooseNum SndFreq SignalsPerGoose =
     (let gen = \<lparr> gt_ieds = map (\<lambda>i. goose_InitIED (of_nat i + 1) GooseSourceIED_init) [0..<unat MaxGooseNum], gt_units = [],
            gt_tsDeltaChange = 0, gt_offsets = (\<lambda>_. 0), gt_skeleton = replicate MAX_GOOSE_PACKET_SIZE 0, gt_skeletonSize = 0 \<rparr>
      in map_option (map_sum id (\<lambda>gen. gen\<lparr> gt_units := GenerateTxUnits (of_nat (length (gt_ieds gen))) SndFreq \<rparr>))
           (goose_MakeSkeletonPacket lib SignalsPerGoose gen))"

text \<open>The writes of one message, which the routable generator repeats on its region.\<close>

definition amend_goose_fields ::
  "(GOOSE_PARAM_OFFSETS \<Rightarrow> u16) \<Rightarrow> u32 \<Rightarrow> u16 \<Rightarrow> GooseSourceIED \<Rightarrow> bytes \<Rightarrow> (bytes \<times> GooseSourceIED) option" where
  "amend_goose_fields offs tsDelta appid ied packet = do {
     packet \<leftarrow> put_u16 packet (unat (offs GOOSE_APPID_OFFSET)) appid;
     packet \<leftarrow> wrs packet (unat (offs GOOSE_GOID_OFFSET) + 4) (take 8 (gi_sID ied));
     packet \<leftarrow> wrs packet (unat (offs GOOSE_GOCB_REF_OFFSET) + 3) (take 8 (gi_sID ied));
     packet \<leftarrow> wrs packet (unat (offs GOOSE_DS_REF_OFFSET) + 3) (take 8 (gi_sID ied));
     let ied = ied\<lparr> gi_timestamp := gi_timestamp ied + ucast tsDelta \<rparr>;
     packet \<leftarrow> wrs packet (unat (offs GOOSE_TIMESTAMP_OFFSET)) (put64_le (gi_timestamp ied));
     let ied = ied\<lparr> gi_stNum := gi_stNum ied + 1 \<rparr>;
     packet \<leftarrow> put_u32 packet (unat (offs GOOSE_ST_NUM_OFFSET)) (gi_stNum ied);
     packet \<leftarrow> put_u32 packet (unat (offs GOOSE_SQ_NUM_OFFSET)) (gi_sqNum ied);
     packet \<leftarrow> wr packet (unat (offs GOOSE_D1_OFFSET)) (if gi_stNum ied mod 2 = 0 then 1 else 0);
     Some (packet, ied) }"

definition goose_AmendPacket :: "PacketDesc \<Rightarrow> bytes \<Rightarrow> GooseTrafficGen \<Rightarrow> (bytes \<times> nat \<times> GooseTrafficGen) option" where
  "goose_AmendPacket desc packet gen = do {
     ied \<leftarrow> at_index (gt_ieds gen) (idx desc);
     (packet, ied) \<leftarrow> amend_goose_fields (gt_offsets gen) (gt_tsDeltaChange gen) (ucast (idx desc + 1)) ied packet;
     Some (packet, gt_skeletonSize gen, gen\<lparr> gt_ieds := (gt_ieds gen)[unat (idx desc) := ied] \<rparr>) }"

subsection \<open>Sampled values\<close>

datatype SV_TYPE = SV80 | SV256

record SVSourceIED =
  si_sID :: bytes
  si_smpCnt :: u16
  si_spduNumber :: u32

definition SVSourceIED_init :: SVSourceIED where
  "SVSourceIED_init = \<lparr> si_sID = replicate 5 0, si_smpCnt = 0, si_spduNumber = 0 \<rparr>"

definition sv_InitIED :: "u32 \<Rightarrow> SVSourceIED \<Rightarrow> SVSourceIED" where
  "sv_InitIED i ied = ied\<lparr> si_sID := print_id 5 (dec_padded 4 (unat i)) \<rparr>"

record SVTrafficGen =
  sg_ieds :: "SVSourceIED list"
  sg_units :: "TxUnit list"
  sg_appidOffset :: u16
  sg_asduOffs :: "nat \<Rightarrow> SV_ASDU_OFFSETS \<Rightarrow> u16"
  sg_skeleton :: bytes
  sg_skeletonSize :: nat
  sg_freq :: u32

definition SVID_PATTERN :: bytes where "SVID_PATTERN = ascii (''SVID'' @ ''1234'')"

definition svCommParameters :: CommParameters where
  "svCommParameters = \<lparr> vlanPriority = 4, vlanId = 101, appId = 0x4000, dstAddress = MAC 0x01 0x0C 0xCD 0x01 0x00 0x01 \<rparr>"

definition init_asdu_data :: "(u32 \<times> u32) list" where
  "init_asdu_data = map (\<lambda>i. (of_nat (100 + i), QUALITY_GOOD)) [0..<CHANNELS]"

definition sv_publisher :: "nat \<Rightarrow> SVPublisher" where
  "sv_publisher n = \<lparr> sp_comm = svCommParameters,
     sp_asdus = replicate n \<lparr> pa_svID = SVID_PATTERN, pa_datset = None, pa_confRev = 1, pa_data = init_asdu_data \<rparr> \<rparr>"

text \<open>The two routines differ in the number of ASDUs; the offsets of the others stay zero.\<close>

definition sv_MakeSkeleton :: "Iec61850 \<Rightarrow> nat \<Rightarrow> SVTrafficGen \<Rightarrow> (GenError + SVTrafficGen) option" where
  "sv_MakeSkeleton lib n gen =
     (case SVPublisher_message lib (sv_publisher n) of
        None \<Rightarrow> Some (Inl (InvalidArgument ''Failed to create SV publisher''))
      | Some msg \<Rightarrow> do {
          skeleton \<leftarrow> wrs (sg_skeleton gen) 0 (sm_buffer msg);
          Some (Inr (gen\<lparr> sg_appidOffset := sm_appidOffset msg,
            sg_asduOffs := (\<lambda>i f. if i < n then sm_asduOffset msg i f else sg_asduOffs gen i f),
            sg_skeleton := skeleton, sg_skeletonSize := length (sm_buffer msg) \<rparr>)) })"

definition MakeSkeletonSV80 :: "Iec61850 \<Rightarrow> SVTrafficGen \<Rightarrow> (GenError + SVTrafficGen) option" where
  "MakeSkeletonSV80 lib gen = sv_MakeSkeleton lib 1 gen"

definition MakeSkeletonSV256 :: "Iec61850 \<Rightarrow> SVTrafficGen \<Rightarrow> (GenError + SVTrafficGen) option" where
  "MakeSkeletonSV256 lib gen = sv_MakeSkeleton lib MAX_SV_ASDU_NUM gen"

definition SVTrafficGen_new :: "Iec61850 \<Rightarrow> u32 \<Rightarrow> SV_TYPE \<Rightarrow> (GenError + SVTrafficGen) option" where
  "SVTrafficGen_new lib num type =
     (let gen = \<lparr> sg_ieds = map (\<lambda>i. sv_InitIED (of_nat i + 1) SVSourceIED_init) [0..<unat num], sg_units = [],
            sg_appidOffset = 0, sg_asduOffs = (\<lambda>_ _. 0), sg_skeleton = replicate MAX_SV_PACKET_SIZE 0, sg_skeletonSize = 0,
            sg_freq = 1 \<rparr>;
          size = of_nat (length (sg_ieds gen))
      in case type of
        SV80 \<Rightarrow> map_option (map_sum id (\<lambda>gen. gen\<lparr> sg_units := CreateTxUnits size (uint (sg_freq gen)) \<rparr>))
          (MakeSkeletonSV80 lib (gen\<lparr> sg_freq := 4000 \<rparr>))
      | SV256 \<Rightarrow> map_option (map_sum id (\<lambda>gen. gen\<lparr> sg_units := CreateTxUnits size (uint (sg_freq gen div of_nat MAX_SV_ASDU_NUM)) \<rparr>))
          (MakeSkeletonSV256 lib (gen\<lparr> sg_freq := 12800 \<rparr>)))"

text \<open>The comparison is made in \<open>unsigned\<close>, the result is stored in 16 bits.\<close>

definition next_smpCnt :: "u32 \<Rightarrow> u16 \<Rightarrow> u16" where
  "next_smpCnt freq smpCnt = (if ucast smpCnt + 1 < freq then smpCnt + 1 else 0)"

definition amend_asdu :: "(SV_ASDU_OFFSETS \<Rightarrow> u16) \<Rightarrow> u32 \<Rightarrow> bytes \<times> SVSourceIED \<Rightarrow> (bytes \<times> SVSourceIED) option" where
  "amend_asdu offs freq = (\<lambda>(packet, ied). do {
     packet \<leftarrow> wrs packet (unat (offs SV_SVID_OFFSET) + 4) (take 4 (si_sID ied));
     packet \<leftarrow> put_u16 packet (unat (offs SV_SMP_CNT_OFFSET)) (si_smpCnt ied);
     Some (packet, ied\<lparr> si_smpCnt := next_smpCnt freq (si_smpCnt ied) \<rparr>) })"

primrec amend_asdus :: "(nat \<Rightarrow> SV_ASDU_OFFSETS \<Rightarrow> u16) \<Rightarrow> u32 \<Rightarrow> nat list \<Rightarrow> bytes \<times> SVSourceIED \<Rightarrow> (bytes \<times> SVSourceIED) option" where
  "amend_asdus offs freq [] s = Some s"
| "amend_asdus offs freq (i # is) s = Option.bind (amend_asdu (offs i) freq s) (amend_asdus offs freq is)"

definition AmendPacketSV80 :: "PacketDesc \<Rightarrow> bytes \<Rightarrow> SVTrafficGen \<Rightarrow> (bytes \<times> nat \<times> SVTrafficGen) option" where
  "AmendPacketSV80 desc packet gen = do {
     ied \<leftarrow> at_index (sg_ieds gen) (idx desc);
     packet \<leftarrow> put_u16 packet (unat (sg_appidOffset gen)) (ucast (idx desc + 1));
     (packet, ied) \<leftarrow> amend_asdu (sg_asduOffs gen 0) (sg_freq gen) (packet, ied);
     Some (packet, sg_skeletonSize gen, gen\<lparr> sg_ieds := (sg_ieds gen)[unat (idx desc) := ied] \<rparr>) }"

definition AmendPacketSV256 :: "PacketDesc \<Rightarrow> bytes \<Rightarrow> SVTrafficGen \<Rightarrow> (bytes \<times> nat \<times> SVTrafficGen) option" where
  "AmendPacketSV256 desc packet gen = do {
     ied \<leftarrow> at_index (sg_ieds gen) (idx desc);
     packet \<leftarrow> put_u16 packet (unat (sg_appidOffset gen)) (ucast (idx desc + 1));
     (packet, ied) \<leftarrow> amend_asdus (sg_asduOffs gen) (sg_freq gen) [0..<MAX_SV_ASDU_NUM] (packet, ied);
     Some (packet, sg_skeletonSize gen, gen\<lparr> sg_ieds := (sg_ieds gen)[unat (idx desc) := ied] \<rparr>) }"


subsection \<open>The frame of an SV generator\<close>

text \<open>
  The frame libiec61850 makes for the publisher of the source, with the fields that \<open>AmendPacket\<close>
  changes as arguments: the APPID, and for each ASDU the last four characters of its identifier and its
  sample count. Source address, VLAN tag, length and reserved words and the synchronisation flag are
  the library's.
\<close>

record SVEnv =
  se_smac :: MAC
  se_vlan :: "(u8 \<times> u8) option"
  se_res :: bytes
  se_smpSynch :: u8

definition sv_gen_asdu :: "u8 \<Rightarrow> bytes \<times> u16 \<Rightarrow> ASDU" where
  "sv_gen_asdu synch x = \<lparr> as_svid = ascii ''SVID'' @ fst x, as_datset = None, as_smpCnt = snd x, as_confRev = 1, as_refrTm = None,
     as_smpSynch = synch, as_smpRate = None, as_channels = init_asdu_data, as_smpMod = None \<rparr>"

definition sv_gen_header :: "SVEnv \<Rightarrow> u16 \<Rightarrow> bytes" where
  "sv_gen_header e appid = l2_header (dstAddress svCommParameters) (se_smac e) (se_vlan e) 0xBA appid (se_res e)"

definition sv_gen_apdu :: "u8 \<Rightarrow> (bytes \<times> u16) list \<Rightarrow> bytes" where
  "sv_gen_apdu synch xs = sv_apdu [of_nat (length xs)] (map (sv_gen_asdu synch) xs)"

definition sv_gen_frame :: "SVEnv \<Rightarrow> u16 \<Rightarrow> (bytes \<times> u16) list \<Rightarrow> bytes" where
  "sv_gen_frame e appid xs = sv_gen_header e appid @ sv_gen_apdu (se_smpSynch e) xs"

text \<open>
  Where the fields stand in a frame with \<open>n\<close> ASDUs (1 or 8): the APPID behind the EtherType, an ASDU
  every 91 bytes, its identifier at 4 and its sample count at 14.
\<close>

definition appid_pos :: "SVEnv \<Rightarrow> nat" where
  "appid_pos e = (if se_vlan e = None then 14 else 18)"

definition asdu_pos :: "nat \<Rightarrow> nat \<Rightarrow> nat" where
  "asdu_pos n k = (if n = 1 then 7 else 11) + 91 * k"

text \<open>
  What the generator relies on: for the publishers it sets up, the library gives such a frame, of a size
  that fits the array of the skeleton, and the offsets of the fields in it.
\<close>

definition sv_lib_ok :: "Iec61850 \<Rightarrow> nat \<Rightarrow> SVEnv \<Rightarrow> bool" where
  "sv_lib_ok lib n e \<longleftrightarrow> length (se_res e) = 6 \<and>
     (case SVPublisher_message lib (sv_publisher n) of None \<Rightarrow> False | Some msg \<Rightarrow>
        sm_buffer msg = sv_gen_frame e (appId svCommParameters) (replicate n (ascii ''1234'', 0)) \<and>
        unat (sm_appidOffset msg) = appid_pos e \<and>
        (\<forall>k < n. unat (sm_asduOffset msg k SV_SVID_OFFSET) = appid_pos e + 8 + asdu_pos n k + 4 \<and>
                 unat (sm_asduOffset msg k SV_SMP_CNT_OFFSET) = appid_pos e + 8 + asdu_pos n k + 14))"

lemma length_ascii [simp]: "length (ascii s) = length s"
  by (simp add: ascii_def)

lemma length_init_asdu_data [simp]: "length (channel_bytes init_asdu_data) = 64"
  by (simp add: length_channel_bytes init_asdu_data_def)

text \<open>An ASDU as the fields that change and the bytes around them.\<close>

definition asdu_tail :: "u8 \<Rightarrow> bytes" where
  "asdu_tail synch = [0x83, 4, 0, 0, 0, 1, 0x85, 1, synch, 0x87, 64] @ channel_bytes init_asdu_data"

lemma sv_gen_asdu_bytes:
  assumes "length t = 4"
  shows "asdu_tlv (sv_gen_asdu synch (t, n)) = [0x30, 89, 0x80, 8] @ ascii ''SVID'' @ t @ [0x82, 2] @ put16 n @ asdu_tail synch"
  using assms
  by (simp add: asdu_tlv_def fields_bytes_def asdu_fields_def sv_gen_asdu_def opt_field_def tlv_def enc_len_def asdu_tail_def put32_def)

lemma length_sv_gen_asdu: "length (fst x) = 4 \<Longrightarrow> length (asdu_tlv (sv_gen_asdu synch x)) = 91"
  by (cases x) (simp add: sv_gen_asdu_bytes asdu_tail_def)

definition ids_ok :: "(bytes \<times> u16) list \<Rightarrow> bool" where
  "ids_ok xs \<longleftrightarrow> (\<forall>x \<in> set xs. length (fst x) = 4)"

lemma length_asdus: "ids_ok xs \<Longrightarrow> length (concat (map (asdu_tlv \<circ> sv_gen_asdu synch) xs)) = 91 * length xs"
  by (induction xs) (simp_all add: ids_ok_def length_sv_gen_asdu)

definition apdu_head :: "nat \<Rightarrow> bytes" where
  "apdu_head n = 0x60 # enc_len (3 + (1 + length (enc_len (91 * n)) + 91 * n)) @ [0x80, 1, of_nat n, 0xA2] @ enc_len (91 * n)"

lemma sv_gen_apdu_split:
  assumes "ids_ok xs"
  shows "sv_gen_apdu synch xs = apdu_head (length xs) @ concat (map (asdu_tlv \<circ> sv_gen_asdu synch) xs)"
  using length_asdus [OF assms, of synch]
  by (simp add: sv_gen_apdu_def sv_apdu_def tlv_def apdu_head_def comp_def enc_len_def)

lemma length_apdu_head: "n = 1 \<or> n = 8 \<Longrightarrow> length (apdu_head n) = asdu_pos n 0"
  by (auto simp: apdu_head_def enc_len_def asdu_pos_def)

lemma length_sv_gen_header: "length (se_res e) = 6 \<Longrightarrow> length (sv_gen_header e appid) = appid_pos e + 8"
  by (simp add: sv_gen_header_def length_l2_header appid_pos_def)

lemma ids_ok_update: "ids_ok xs \<Longrightarrow> length t = 4 \<Longrightarrow> ids_ok (xs[k := (t, n)])"
  using set_update_subset_insert [of xs k "(t, n)"] by (auto simp: ids_ok_def)

text \<open>The writes of an ASDU change the frame exactly in its fields.\<close>

lemma concat_update:
  assumes "k < length xs"
  shows "concat (map f (xs[k := y])) = concat (map f (take k xs)) @ f y @ concat (map f (drop (Suc k) xs))"
  using assms by (simp add: upd_conv_take_nth_drop)

lemma sv_gen_apdu_asdu:
  assumes "ids_ok xs" and "k < length xs" and "length xs = 1 \<or> length xs = 8"
  obtains A B where "length A = asdu_pos (length xs) k + 8"
    and "\<And>t n. length t = 4 \<Longrightarrow> sv_gen_apdu synch (xs[k := (t, n)]) = A @ t @ [0x82, 2] @ put16 n @ B"
proof
  let ?f = "asdu_tlv \<circ> sv_gen_asdu synch"
  let ?A = "apdu_head (length xs) @ concat (map ?f (take k xs)) @ [0x30, 89, 0x80, 8] @ ascii ''SVID''"
  let ?B = "asdu_tail synch @ concat (map ?f (drop (Suc k) xs))"
  have "ids_ok (take k xs)" using assms(1) by (auto simp: ids_ok_def dest: in_set_takeD)
  then show "length ?A = asdu_pos (length xs) k + 8"
    using assms(2,3) by (simp only: length_append length_apdu_head length_asdus length_ascii)
      (auto simp: asdu_pos_def)
  show "sv_gen_apdu synch (xs[k := (t, n)]) = ?A @ t @ [0x82, 2] @ put16 n @ ?B" if "length t = 4" for t n
    using that ids_ok_update [OF assms(1) that, of k n] assms(2)
    by (simp add: sv_gen_apdu_split concat_update sv_gen_asdu_bytes)
qed

text \<open>The offsets of the fields of ASDU \<open>k\<close> of \<open>m\<close>, in an APDU that starts at \<open>h\<close>.\<close>

definition asdu_offsets :: "nat \<Rightarrow> nat \<Rightarrow> nat \<Rightarrow> (SV_ASDU_OFFSETS \<Rightarrow> u16) \<Rightarrow> bool" where
  "asdu_offsets h m k offs \<longleftrightarrow> unat (offs SV_SVID_OFFSET) = h + asdu_pos m k + 4 \<and> unat (offs SV_SMP_CNT_OFFSET) = h + asdu_pos m k + 14"

lemma amend_asdu_apdu:
  assumes "ids_ok xs" and "k < length xs" and "length xs = 1 \<or> length xs = 8"
    and "asdu_offsets (length H) (length xs) k offs" and "4 \<le> length (si_sID ied)"
  shows "amend_asdu offs freq (H @ sv_gen_apdu synch xs @ r, ied) =
    Some (H @ sv_gen_apdu synch (xs[k := (take 4 (si_sID ied), si_smpCnt ied)]) @ r,
      ied\<lparr> si_smpCnt := next_smpCnt freq (si_smpCnt ied) \<rparr>)"
proof -
  let ?t = "take 4 (si_sID ied)" and ?n = "si_smpCnt ied"
  have t: "length ?t = 4" using assms(5) by simp
  obtain A B where A: "length A = asdu_pos (length xs) k + 8"
    and f: "\<And>t n. length t = 4 \<Longrightarrow> sv_gen_apdu synch (xs[k := (t, n)]) = A @ t @ [0x82, 2] @ put16 n @ B"
    using sv_gen_apdu_asdu [OF assms(1-3)] by blast
  obtain t0 n0 where x: "xs ! k = (t0, n0)" and t0: "length t0 = 4" using assms(1,2) by (cases "xs ! k") (auto simp: ids_ok_def dest!: nth_mem)
  have "xs[k := (t0, n0)] = xs" using x by (metis list_update_id)
  then have old: "H @ sv_gen_apdu synch xs @ r = (H @ A) @ t0 @ ([0x82, 2] @ put16 n0 @ B @ r)" using f [OF t0, of n0] by (simp only: append_assoc)
  have w1: "wrs (H @ sv_gen_apdu synch xs @ r) (unat (offs SV_SVID_OFFSET) + 4) ?t = Some ((H @ A) @ ?t @ [0x82, 2] @ put16 n0 @ B @ r)"
    unfolding old by (rule wrs_append) (use A assms(4) t t0 in \<open>simp_all add: asdu_offsets_def\<close>)
  have w2: "put_u16 ((H @ A @ ?t @ [0x82, 2]) @ put16 n0 @ B @ r) (unat (offs SV_SMP_CNT_OFFSET)) ?n =
      Some ((H @ A @ ?t @ [0x82, 2]) @ put16 ?n @ B @ r)"
    unfolding put_u16_def by (rule wrs_append) (use A assms(4) t in \<open>simp_all add: asdu_offsets_def\<close>)
  show ?thesis using w1 w2 by (simp add: amend_asdu_def f [OF t])
qed


text \<open>The sample counts of the ASDUs of a frame, and the counter after it.\<close>

primrec amended_asdus :: "u32 \<Rightarrow> bytes \<Rightarrow> nat \<Rightarrow> u16 \<Rightarrow> (bytes \<times> u16) list" where
  "amended_asdus freq t 0 n = []"
| "amended_asdus freq t (Suc k) n = (t, n) # amended_asdus freq t k (next_smpCnt freq n)"

lemma length_amended_asdus [simp]: "length (amended_asdus freq t k n) = k"
  by (induction k arbitrary: n) simp_all

lemma ids_ok_append: "ids_ok (xs @ ys) \<longleftrightarrow> ids_ok xs \<and> ids_ok ys"
  by (auto simp: ids_ok_def)

lemma ids_ok_amended: "length t = 4 \<Longrightarrow> ids_ok (amended_asdus freq t k n)"
  by (induction k arbitrary: n) (simp_all add: ids_ok_def)

lemma amend_asdus_apdu:
  assumes "\<forall>k < m. asdu_offsets (length H) m k (offs k)" and "m = 1 \<or> m = 8"
    and "ids_ok (xs @ ys)" and "length (xs @ ys) = m" and "4 \<le> length (si_sID ied)"
  shows "amend_asdus offs freq [length xs..<m] (H @ sv_gen_apdu synch (xs @ ys) @ r, ied) =
    Some (H @ sv_gen_apdu synch (xs @ amended_asdus freq (take 4 (si_sID ied)) (length ys) (si_smpCnt ied)) @ r,
      ied\<lparr> si_smpCnt := (next_smpCnt freq ^^ length ys) (si_smpCnt ied) \<rparr>)"
  using assms(3-5)
proof (induction ys arbitrary: xs ied)
  case Nil
  then show ?case by simp
next
  case (Cons y ys)
  let ?x = "(take 4 (si_sID ied), si_smpCnt ied)" and ?ied = "ied\<lparr> si_smpCnt := next_smpCnt freq (si_smpCnt ied) \<rparr>"
  have k: "[length xs..<m] = length xs # [length (xs @ [?x])..<m]" using Cons.prems(2) by (auto simp: upt_conv_Cons)
  have "amend_asdu (offs (length xs)) freq (H @ sv_gen_apdu synch (xs @ y # ys) @ r, ied) =
      Some (H @ sv_gen_apdu synch ((xs @ y # ys)[length xs := ?x]) @ r, ?ied)"
    by (rule amend_asdu_apdu) (use assms(1,2) Cons.prems in auto)
  moreover have "amend_asdus offs freq [length (xs @ [?x])..<m] (H @ sv_gen_apdu synch ((xs @ [?x]) @ ys) @ r, ?ied) =
      Some (H @ sv_gen_apdu synch ((xs @ [?x]) @ amended_asdus freq (take 4 (si_sID ?ied)) (length ys) (si_smpCnt ?ied)) @ r,
        ?ied\<lparr> si_smpCnt := (next_smpCnt freq ^^ length ys) (si_smpCnt ?ied) \<rparr>)"
    by (rule Cons.IH) (use Cons.prems in \<open>auto simp: ids_ok_def\<close>)
  ultimately show ?case by (simp add: k funpow_swap1 del: upt_Suc)
qed

lemma put_appid_frame:
  assumes "length (se_res e) = 6"
  shows "put_u16 (sv_gen_frame e old xs @ r) (appid_pos e) appid = Some (sv_gen_frame e appid xs @ r)"
proof -
  let ?A = "mac_data (dstAddress svCommParameters) @ mac_data (se_smac e) @
      (case se_vlan e of None \<Rightarrow> [] | Some (t, u) \<Rightarrow> [0x81, 0x00, t, u]) @ [0x88, 0xBA]"
  have f: "sv_gen_frame e a xs @ r = ?A @ put16 a @ (se_res e @ sv_gen_apdu (se_smpSynch e) xs @ r)" for a
    by (simp add: sv_gen_frame_def sv_gen_header_def l2_header_def)
  have "length ?A = appid_pos e" by (auto simp: appid_pos_def split: option.split)
  then show ?thesis unfolding f put_u16_def by (intro wrs_append) simp_all
qed

text \<open>The two routines as one, over the number of ASDUs.\<close>

definition sv_amend :: "nat \<Rightarrow> PacketDesc \<Rightarrow> bytes \<Rightarrow> SVTrafficGen \<Rightarrow> (bytes \<times> nat \<times> SVTrafficGen) option" where
  "sv_amend m desc packet gen = do {
     ied \<leftarrow> at_index (sg_ieds gen) (idx desc);
     packet \<leftarrow> put_u16 packet (unat (sg_appidOffset gen)) (ucast (idx desc + 1));
     (packet, ied) \<leftarrow> amend_asdus (sg_asduOffs gen) (sg_freq gen) [0..<m] (packet, ied);
     Some (packet, sg_skeletonSize gen, gen\<lparr> sg_ieds := (sg_ieds gen)[unat (idx desc) := ied] \<rparr>) }"

lemma sv_amend_eq: "AmendPacketSV80 = sv_amend 1" "AmendPacketSV256 = sv_amend 8"
  by (simp_all add: fun_eq_iff AmendPacketSV80_def AmendPacketSV256_def sv_amend_def)

text \<open>A generator whose offsets are those of the frames in its buffers.\<close>

definition sv_gen_ok :: "nat \<Rightarrow> SVEnv \<Rightarrow> SVTrafficGen \<Rightarrow> bool" where
  "sv_gen_ok m e gen \<longleftrightarrow> (m = 1 \<or> m = 8) \<and> length (se_res e) = 6 \<and> unat (sg_appidOffset gen) = appid_pos e \<and>
     (\<forall>k < m. asdu_offsets (appid_pos e + 8) m k (sg_asduOffs gen k)) \<and>
     (\<forall>ied \<in> set (sg_ieds gen). 4 \<le> length (si_sID ied))"

definition sent_ied :: "nat \<Rightarrow> u32 \<Rightarrow> SVSourceIED \<Rightarrow> SVSourceIED" where
  "sent_ied m freq ied = ied\<lparr> si_smpCnt := (next_smpCnt freq ^^ m) (si_smpCnt ied) \<rparr>"

lemma sv_amend_frame:
  assumes "sv_gen_ok m e gen" and "unat (idx desc) < length (sg_ieds gen)" and "ids_ok xs" and "length xs = m"
    and "ied = sg_ieds gen ! unat (idx desc)"
  shows "sv_amend m desc (sv_gen_frame e appid xs @ r) gen =
    Some (sv_gen_frame e (ucast (idx desc + 1)) (amended_asdus (sg_freq gen) (take 4 (si_sID ied)) m (si_smpCnt ied)) @ r,
      sg_skeletonSize gen, gen\<lparr> sg_ieds := (sg_ieds gen)[unat (idx desc) := sent_ied m (sg_freq gen) ied] \<rparr>)"
proof -
  have i: "at_index (sg_ieds gen) (idx desc) = Some ied" using assms(2,5) by (simp add: at_index_def)
  have res: "length (se_res e) = 6" and pos: "unat (sg_appidOffset gen) = appid_pos e" using assms(1) by (simp_all add: sv_gen_ok_def)
  have "4 \<le> length (si_sID ied)" using assms(1,2,5) by (auto simp: sv_gen_ok_def)
  then have "amend_asdus (sg_asduOffs gen) (sg_freq gen) [length ([] :: (bytes \<times> u16) list)..<m]
      (sv_gen_header e (ucast (idx desc + 1)) @ sv_gen_apdu (se_smpSynch e) ([] @ xs) @ r, ied) =
      Some (sv_gen_header e (ucast (idx desc + 1)) @
          sv_gen_apdu (se_smpSynch e) ([] @ amended_asdus (sg_freq gen) (take 4 (si_sID ied)) (length xs) (si_smpCnt ied)) @ r,
        ied\<lparr> si_smpCnt := (next_smpCnt (sg_freq gen) ^^ length xs) (si_smpCnt ied) \<rparr>)"
    by (intro amend_asdus_apdu) (use assms(1,3,4) in \<open>auto simp: sv_gen_ok_def ids_ok_def length_sv_gen_header [OF res]\<close>)
  then show ?thesis using i assms(4) put_appid_frame [OF res, of appid xs r]
    by (simp add: sv_amend_def pos sent_ied_def) (simp add: sv_gen_frame_def)
qed

subsection \<open>What the receiver reads in it\<close>

lemma length_sv_gen_frame:
  assumes "ids_ok xs" and "length xs = 1 \<or> length xs = 8" and "length (se_res e) = 6"
  shows "length (sv_gen_frame e appid xs) = appid_pos e + 8 + asdu_pos (length xs) (length xs)"
  using length_asdus [OF assms(1), of "se_smpSynch e"] length_apdu_head [OF assms(2)]
  by (simp add: sv_gen_frame_def length_sv_gen_header [OF assms(3)] sv_gen_apdu_split [OF assms(1)] asdu_pos_def)

lemma same_stream_amended:
  assumes "length t = 4"
  shows "same_stream (map (sv_gen_asdu synch) (amended_asdus freq t k n))"
proof -
  let ?xs = "amended_asdus freq t k n"
  have t: "\<forall>x \<in> set ?xs. fst x = t" by (induction k arbitrary: n) auto
  have ok: "asdu_ok (sv_gen_asdu synch x)" if "fst x = t" for x
    using that assms by (auto simp: asdu_ok_def sv_gen_asdu_def init_asdu_data_def)
  show ?thesis
    unfolding same_stream_def
  proof
    fix a assume "a \<in> set (map (sv_gen_asdu synch) ?xs)"
    then obtain x where x: "a = sv_gen_asdu synch x" "x \<in> set ?xs" by auto
    then have "?xs \<noteq> []" by auto
    then have "hd (map (sv_gen_asdu synch) ?xs) = sv_gen_asdu synch (hd ?xs)" "hd ?xs \<in> set ?xs" by (simp_all add: hd_map)
    with t x ok show "asdu_ok a \<and> as_svid a = as_svid (hd (map (sv_gen_asdu synch) ?xs)) \<and>
        as_confRev a = as_confRev (hd (map (sv_gen_asdu synch) ?xs))"
      by (simp add: sv_gen_asdu_def)
  qed
qed

lemma parse_sv_gen_frame:
  assumes "m = 1 \<or> m = 8" and "length (se_res e) = 6" and "length t = 4" and "xs = amended_asdus freq t m n"
    and "frame = sv_gen_frame e appid xs @ pad"
  shows "parse_sv_packet frame (length frame) passport state =
    Some (Some (Inr (passport\<lparr> vp_dmac := dstAddress svCommParameters, vp_appid := appid, vp_num := of_nat m,
      vp_svid := ascii ''SVID'' @ t, vp_crev := 1 \<rparr>, state\<lparr> sv_smpCnt := n \<rparr>)))"
proof -
  have xs: "length xs = m" "ids_ok xs" using assms(3,4) by (simp_all add: ids_ok_amended)
  let ?as = "map (sv_gen_asdu (se_smpSynch e)) xs"
  have "length frame = appid_pos e + 8 + asdu_pos m m + length pad"
    using length_sv_gen_frame [OF xs(2) _ assms(2)] assms(1,5) xs(1) by auto
  then have len: "64 \<le> length frame" "length (sv_apdu [of_nat m] ?as) < 65536"
    using assms(1) length_asdus [OF xs(2), of "se_smpSynch e"] length_apdu_head [OF assms(1)] sv_gen_apdu_split [OF xs(2), of "se_smpSynch e"] xs(1)
    by (auto simp: asdu_pos_def sv_gen_apdu_def appid_pos_def)
  have hd: "hd ?as = sv_gen_asdu (se_smpSynch e) (t, n)" "?as \<noteq> []" using assms(1,4) by (auto simp: numeral_eq_Suc)
  have num: "be_number [of_nat m] = of_nat m" "(of_nat m :: u32) \<noteq> 0" "unat (of_nat m :: u32) = m" "ucast (of_nat m :: u32) = (of_nat m :: u16)"
    using assms(1) by (auto simp: be_number_def)
  have frame: "frame = l2_header (dstAddress svCommParameters) (se_smac e) (se_vlan e) 0xBA appid (se_res e) @ sv_apdu [of_nat m] ?as @ pad"
    using assms(5) xs(1) by (simp add: sv_gen_frame_def sv_gen_header_def sv_gen_apdu_def)
  have ss: "same_stream ?as" unfolding assms(4) by (rule same_stream_amended [OF assms(3)])
  show ?thesis
    using parse_sv_frame [OF hd(2) ss _ _ len(2) assms(2) frame len(1), of passport state] num
    by (simp add: hd(1) xs(1)) (simp add: sv_gen_asdu_def)
qed


subsection \<open>The generator that the constructor makes\<close>

definition sv_asdu_num :: "SV_TYPE \<Rightarrow> nat" where
  "sv_asdu_num type = (case type of SV80 \<Rightarrow> 1 | SV256 \<Rightarrow> 8)"

definition sv_rate :: "SV_TYPE \<Rightarrow> u32" where
  "sv_rate type = (case type of SV80 \<Rightarrow> 4000 | SV256 \<Rightarrow> 12800)"

lemma sv_skeleton:
  assumes "sv_lib_ok lib m e" and "m = 1 \<or> m = 8" and "length (sg_skeleton gen) = MAX_SV_PACKET_SIZE"
    and "\<forall>ied \<in> set (sg_ieds gen). 4 \<le> length (si_sID ied)"
  obtains gen' where "sv_MakeSkeleton lib m gen = Some (Inr gen')" and "sv_gen_ok m e gen'" and "sg_ieds gen' = sg_ieds gen"
    and "sg_freq gen' = sg_freq gen"
    and "take (sg_skeletonSize gen') (sg_skeleton gen') = sv_gen_frame e (appId svCommParameters) (replicate m (ascii ''1234'', 0))"
    and "sg_skeletonSize gen' = length (sv_gen_frame e (appId svCommParameters) (replicate m (ascii ''1234'', 0)))"
proof -
  obtain msg where msg: "SVPublisher_message lib (sv_publisher m) = Some msg" using assms(1) by (auto simp: sv_lib_ok_def split: option.splits)
  let ?frame = "sv_gen_frame e (appId svCommParameters) (replicate m (ascii ''1234'', 0))"
  have lib: "length (se_res e) = 6" "sm_buffer msg = ?frame" using assms(1) msg by (auto simp: sv_lib_ok_def)
  have "ids_ok (replicate m (ascii ''1234'', 0))" by (auto simp: ids_ok_def)
  from length_sv_gen_frame [OF this _ lib(1)] assms(2) have "length ?frame \<le> MAX_SV_PACKET_SIZE"
    by (auto simp: appid_pos_def asdu_pos_def)
  then have w: "wrs (sg_skeleton gen) 0 (sm_buffer msg) = Some (patch (sg_skeleton gen) 0 ?frame)"
    using assms(3) lib(2) by (simp add: wrs_def)
  show thesis
    by (rule that [of "gen\<lparr> sg_appidOffset := sm_appidOffset msg, sg_asduOffs := (\<lambda>i f. if i < m then sm_asduOffset msg i f else sg_asduOffs gen i f),
        sg_skeleton := patch (sg_skeleton gen) 0 ?frame, sg_skeletonSize := length ?frame \<rparr>"])
      (use assms msg lib w in \<open>auto simp: sv_MakeSkeleton_def sv_gen_ok_def sv_lib_ok_def asdu_offsets_def patch_def\<close>)
qed

lemma length_dec_padded: "w \<le> length (dec_padded w n)"
  by (simp add: dec_padded_def)

lemma length_print_id: "0 < n \<Longrightarrow> length (print_id n s) = n"
  by (auto simp: print_id_def Let_def min_def)

lemma sv_new:
  assumes "sv_lib_ok lib (sv_asdu_num type) e"
  obtains gen where "SVTrafficGen_new lib num type = Some (Inr gen)" and "sv_gen_ok (sv_asdu_num type) e gen"
    and "sg_ieds gen = map (\<lambda>i. sv_InitIED (of_nat i + 1) SVSourceIED_init) [0..<unat num]"
    and "sg_freq gen = sv_rate type" and "sg_units gen = CreateTxUnits num (uint (sv_rate type) div int (sv_asdu_num type))"
    and "take (sg_skeletonSize gen) (sg_skeleton gen) = sv_gen_frame e (appId svCommParameters) (replicate (sv_asdu_num type) (ascii ''1234'', 0))"
    and "sg_skeletonSize gen = length (sv_gen_frame e (appId svCommParameters) (replicate (sv_asdu_num type) (ascii ''1234'', 0)))"
proof -
  let ?gen = "\<lparr> sg_ieds = map (\<lambda>i. sv_InitIED (of_nat i + 1) SVSourceIED_init) [0..<unat num], sg_units = [],
            sg_appidOffset = 0, sg_asduOffs = (\<lambda>_ _. 0), sg_skeleton = replicate MAX_SV_PACKET_SIZE 0, sg_skeletonSize = 0,
            sg_freq = sv_rate type \<rparr>"
  have "sv_asdu_num type = 1 \<or> sv_asdu_num type = 8" by (cases type) (simp_all add: sv_asdu_num_def)
  then obtain gen where gen: "sv_MakeSkeleton lib (sv_asdu_num type) ?gen = Some (Inr gen)" "sv_gen_ok (sv_asdu_num type) e gen"
    "sg_ieds gen = sg_ieds ?gen" "sg_freq gen = sg_freq ?gen"
    "take (sg_skeletonSize gen) (sg_skeleton gen) = sv_gen_frame e (appId svCommParameters) (replicate (sv_asdu_num type) (ascii ''1234'', 0))"
    "sg_skeletonSize gen = length (sv_gen_frame e (appId svCommParameters) (replicate (sv_asdu_num type) (ascii ''1234'', 0)))"
    by (rule sv_skeleton [OF assms, where gen = ?gen]) (auto simp: sv_InitIED_def length_print_id)
  show thesis
  proof (rule that [of "gen\<lparr> sg_units := CreateTxUnits num (uint (sv_rate type) div int (sv_asdu_num type)) \<rparr>"])
    show "SVTrafficGen_new lib num type = Some (Inr (gen\<lparr> sg_units := CreateTxUnits num (uint (sv_rate type) div int (sv_asdu_num type)) \<rparr>))"
      using gen(1,4)
      by (cases type) (simp_all add: SVTrafficGen_new_def Let_def MakeSkeletonSV80_def MakeSkeletonSV256_def sv_asdu_num_def sv_rate_def)
  qed (use gen(2-) in \<open>auto simp: sv_gen_ok_def\<close>)
qed

subsection \<open>Sample counts\<close>

lemma next_smpCnt_run:
  assumes "unat n + j < unat freq" and "unat freq \<le> 65536"
  shows "(next_smpCnt freq ^^ j) n = n + of_nat j" and "unat (n + of_nat j) = unat n + j"
  using assms(1)
proof (induction j)
  case (Suc j)
  { case 1
    have j: "(next_smpCnt freq ^^ j) n = n + of_nat j" "unat (n + of_nat j) = unat n + j" using Suc 1 by simp_all
    have "unat (ucast (n + of_nat j) + 1 :: u32) = unat n + j + 1"
      using j(2) 1 assms(2) by (simp add: unat_word_ariths)
    then have "ucast (n + of_nat j) + 1 < freq" using 1 by (simp add: word_less_nat_alt)
    then have "next_smpCnt freq (n + of_nat j) = n + of_nat j + 1" by (simp add: next_smpCnt_def)
    then show ?case by (simp add: j(1) add.commute add.left_commute) }
  { case 2
    have j: "unat (n + of_nat j) = unat n + j" using Suc 2 by simp
    have "unat (n + of_nat j + 1) = unat n + j + 1" using j 2 assms(2) by (simp add: unat_word_ariths)
    then show ?case by (simp add: add.commute add.left_commute) }
qed simp_all

lemma next_smpCnt_frame:
  assumes "unat n + m \<le> unat freq" and "0 < m" and "unat freq \<le> 65536"
  shows "(next_smpCnt freq ^^ m) n = (if unat n + m < unat freq then n + of_nat m else 0)"
proof -
  obtain j where j: "m = Suc j" using assms(2) by (cases m) auto
  have run: "(next_smpCnt freq ^^ j) n = n + of_nat j" "unat (n + of_nat j) = unat n + j"
    using next_smpCnt_run [of n j freq] assms j by simp_all
  show ?thesis
  proof (cases "unat n + m < unat freq")
    case True
    then show ?thesis using next_smpCnt_run(1) [of n m freq] assms(3) by simp
  next
    case False
    have "unat (ucast (n + of_nat j) + 1 :: u32) = unat n + m" using run(2) j assms by (simp add: unat_word_ariths)
    with False have "\<not> ucast (n + of_nat j) + 1 < freq" by (simp add: word_less_nat_alt)
    with False show ?thesis by (simp add: j run(1) next_smpCnt_def)
  qed
qed

end
