(* ===== verification/Tx_Loop.thy ===== *)
theory Tx_Loop
  imports Traffic_Gen "HOL-Library.Multiset" "HOL-Library.Sublist"
begin

text \<open>
  The sending loops of \<open>src/bus_generator/gen_application.cpp\<close>: the paced loop (\<open>tx_packets_cycle\<close> and
  \<open>tx_r_worker_cycle\<close>, which are the same code) and the burst loop (\<open>tx_burst_worker_cycle\<close>).

  The loops run against DPDK's buffer pool, the card and a stop flag that another thread clears. They
  are step relations: a step is a round of the inner loops, and what the environment decides (whether
  the pool has buffers, how many frames the card takes, when a sent buffer comes back, when the flag is
  cleared) is left open. A buffer is its content; \<open>free\<close> are the buffers in the pool, \<open>flight\<close> those the
  card has not given back. The fields \<open>descs\<close>, \<open>made\<close> and \<open>wire\<close> are logs: the descriptors used, the
  frames built and the frames the card took. Pacing by the tick counter has no effect on them.
\<close>

abbreviation (input) BURST_SIZE :: nat where "BURST_SIZE \<equiv> 32"

record GenAppStat =
  errSendCnt :: u32
  txPktCnt :: u64
  txRetryCnt :: u64
  txLateCnt :: u64

definition GenAppStat_init :: GenAppStat where
  "GenAppStat_init = \<lparr> errSendCnt = 0, txPktCnt = 0, txRetryCnt = 0, txLateCnt = 0 \<rparr>"

text \<open>
  The loop that amends a bunch of buffers: the buffers and the frames in them, which are the first
  \<open>pkt_len\<close> bytes. The generator's routine is the argument \<open>amend\<close>.
\<close>

type_synonym 'g amend = "PacketDesc \<Rightarrow> bytes \<Rightarrow> 'g \<Rightarrow> (bytes \<times> nat \<times> 'g) option"

primrec amend_all :: "'g amend \<Rightarrow> (PacketDesc \<times> bytes) list \<Rightarrow> 'g \<Rightarrow> ((bytes \<times> bytes) list \<times> 'g) option" where
  "amend_all amend [] gen = Some ([], gen)"
| "amend_all amend (x # xs) gen = do {
     (packet, pkt_len, gen) \<leftarrow> amend (fst x) (snd x) gen;
     (ps, gen) \<leftarrow> amend_all amend xs gen;
     Some ((packet, take pkt_len packet) # ps, gen) }"

subsection \<open>The paced loop\<close>

record 'g TxLoop =
  tl_gen :: 'g
  tl_stat :: GenAppStat
  tl_doWork :: bool
  tl_running :: bool
  tl_txUnitIdx :: nat
  tl_blk :: nat
  tl_sendNum :: nat
  tl_free :: "bytes multiset"
  tl_flight :: "bytes multiset"
  tl_descs :: "PacketDesc list"
  tl_made :: "bytes list"
  tl_wire :: "bytes list"

definition tx_start :: "'g \<Rightarrow> bytes multiset \<Rightarrow> 'g TxLoop" where
  "tx_start gen pool = \<lparr> tl_gen = gen, tl_stat = GenAppStat_init, tl_doWork = True, tl_running = True, tl_txUnitIdx = 0, tl_blk = 0,
     tl_sendNum = 0, tl_free = pool, tl_flight = {#}, tl_descs = [], tl_made = [], tl_wire = [] \<rparr>"

text \<open>\<open>tx_packets_cycle\<close> refuses an empty schedule; \<open>tx_r_worker_cycle\<close> does not.\<close>

definition tx_packets_cycle_entry :: "TxUnit list \<Rightarrow> 'g \<Rightarrow> bytes multiset \<Rightarrow> GenError + 'g TxLoop" where
  "tx_packets_cycle_entry txUnits gen pool =
     (if txUnits = [] then Inl (RuntimeError ''TX unit array is empty! Nothing to send!'') else Inr (tx_start gen pool))"

text \<open>The packets of the current block.\<close>

definition block_packets :: "TxUnit list \<Rightarrow> 'g TxLoop \<Rightarrow> PacketDesc list" where
  "block_packets txUnits s = packets (blocks (txUnits ! tl_txUnitIdx s) ! tl_blk s)"

text \<open>A bunch of frames goes to the card, which takes the first \<open>nb\<close>; the others are freed and counted.\<close>

definition tx_burst :: "nat \<Rightarrow> PacketDesc list \<Rightarrow> (bytes \<times> bytes) list \<Rightarrow> 'g \<Rightarrow> bytes list \<Rightarrow> 'g TxLoop \<Rightarrow> 'g TxLoop" where
  "tx_burst nb ds ps gen bufs s =
     s\<lparr> tl_gen := gen, tl_sendNum := tl_sendNum s + length ds,
        tl_stat := (tl_stat s)\<lparr> txPktCnt := txPktCnt (tl_stat s) + of_nat nb,
          errSendCnt := errSendCnt (tl_stat s) + (if nb < length ps then of_nat (length ps - nb) else 0) \<rparr>,
        tl_free := tl_free s - mset bufs + mset (map fst (drop nb ps)),
        tl_flight := tl_flight s + mset (map fst (take nb ps)),
        tl_descs := tl_descs s @ ds, tl_made := tl_made s @ map snd ps, tl_wire := tl_wire s @ map snd (take nb ps) \<rparr>"

inductive tx_step :: "'g amend \<Rightarrow> TxUnit list \<Rightarrow> 'g TxLoop \<Rightarrow> 'g TxLoop \<Rightarrow> bool" for amend txUnits where
  send: "tx_step amend txUnits s (tx_burst nb ds ps gen bufs s)"
    if "tl_running s" and "tl_txUnitIdx s < length txUnits" and "tl_blk s < length (blocks (txUnits ! tl_txUnitIdx s))"
      and "tl_sendNum s < length (block_packets txUnits s)"
      and "ds = take BURST_SIZE (drop (tl_sendNum s) (block_packets txUnits s))"
      and "length bufs = length ds" and "mset bufs \<subseteq># tl_free s"
      and "amend_all amend (zip ds bufs) (tl_gen s) = Some (ps, gen)" and "nb \<le> length ps"
| give_up: "tx_step amend txUnits s (s\<lparr> tl_blk := tl_blk s + 1, tl_sendNum := 0 \<rparr>)"
    if "tl_running s" and "\<not> tl_doWork s" and "tl_txUnitIdx s < length txUnits"
      and "tl_blk s < length (blocks (txUnits ! tl_txUnitIdx s))" and "tl_sendNum s < length (block_packets txUnits s)"
| next_block: "tx_step amend txUnits s (s\<lparr> tl_blk := tl_blk s + 1, tl_sendNum := 0 \<rparr>)"
    if "tl_running s" and "tl_txUnitIdx s < length txUnits"
      and "tl_blk s < length (blocks (txUnits ! tl_txUnitIdx s))" and "length (block_packets txUnits s) \<le> tl_sendNum s"
| next_unit: "tx_step amend txUnits s (s\<lparr> tl_txUnitIdx := (tl_txUnitIdx s + 1) mod length txUnits, tl_blk := 0, tl_sendNum := 0,
      tl_running := tl_doWork s \<rparr>)"
    if "tl_running s" and "tl_txUnitIdx s < length txUnits" and "tl_blk s = length (blocks (txUnits ! tl_txUnitIdx s))"
| reclaim: "tx_step amend txUnits s (s\<lparr> tl_flight := tl_flight s - {#b#}, tl_free := add_mset b (tl_free s) \<rparr>)"
    if "b \<in># tl_flight s"
| stop_signal: "tx_step amend txUnits s (s\<lparr> tl_doWork := False \<rparr>)"

inductive tx_run :: "'g amend \<Rightarrow> TxUnit list \<Rightarrow> 'g TxLoop \<Rightarrow> 'g TxLoop \<Rightarrow> bool" for amend txUnits s0 where
  start: "tx_run amend txUnits s0 s0"
| step: "tx_run amend txUnits s0 s \<Longrightarrow> tx_step amend txUnits s s' \<Longrightarrow> tx_run amend txUnits s0 s'"

subsection \<open>The burst loop\<close>

record 'g BurstLoop =
  bl_gen :: 'g
  bl_stat :: GenAppStat
  bl_doWork :: bool
  bl_running :: bool
  bl_firing :: bool
  bl_staged :: "(bytes \<times> bytes) list"
  bl_sent :: nat
  bl_free :: "bytes multiset"
  bl_flight :: "bytes multiset"
  bl_descs :: "PacketDesc list"
  bl_made :: "bytes list"
  bl_wire :: "bytes list"

definition burst_start :: "'g \<Rightarrow> bytes multiset \<Rightarrow> 'g BurstLoop" where
  "burst_start gen pool = \<lparr> bl_gen = gen, bl_stat = GenAppStat_init, bl_doWork = True, bl_running = True, bl_firing = False,
     bl_staged = [], bl_sent = 0, bl_free = pool, bl_flight = {#}, bl_descs = [], bl_made = [], bl_wire = [] \<rparr>"

definition tx_burst_worker_entry :: "PacketDesc list \<Rightarrow> 'g \<Rightarrow> bytes multiset \<Rightarrow> GenError + 'g BurstLoop" where
  "tx_burst_worker_entry plan gen pool =
     (if length plan = 0 then Inl (RuntimeError ''Burst plan is empty! Nothing to send!'') else Inr (burst_start gen pool))"

definition stage_bunch :: "PacketDesc list \<Rightarrow> (bytes \<times> bytes) list \<Rightarrow> 'g \<Rightarrow> bytes list \<Rightarrow> 'g BurstLoop \<Rightarrow> 'g BurstLoop" where
  "stage_bunch ds ps gen bufs s = s\<lparr> bl_gen := gen, bl_staged := bl_staged s @ ps, bl_free := bl_free s - mset bufs,
     bl_descs := bl_descs s @ ds, bl_made := bl_made s @ map snd ps \<rparr>"

text \<open>The flag \<open>late\<close> says that staging has overrun its second.\<close>

definition begin_burst :: "bool \<Rightarrow> 'g BurstLoop \<Rightarrow> 'g BurstLoop" where
  "begin_burst late s = s\<lparr> bl_firing := True, bl_sent := 0,
     bl_stat := (bl_stat s)\<lparr> txLateCnt := txLateCnt (bl_stat s) + (if late then 1 else 0) \<rparr> \<rparr>"

definition fire_bunch :: "nat \<Rightarrow> 'g BurstLoop \<Rightarrow> 'g BurstLoop" where
  "fire_bunch nb s = (let ps = take nb (drop (bl_sent s) (bl_staged s)) in
     s\<lparr> bl_sent := bl_sent s + nb,
        bl_stat := (bl_stat s)\<lparr> txRetryCnt := txRetryCnt (bl_stat s) + (if nb = 0 then 1 else 0) \<rparr>,
        bl_flight := bl_flight s + mset (map fst ps), bl_wire := bl_wire s @ map snd ps \<rparr>)"

definition end_burst :: "'g BurstLoop \<Rightarrow> 'g BurstLoop" where
  "end_burst s = s\<lparr> bl_firing := False,
     bl_stat := (bl_stat s)\<lparr> txPktCnt := txPktCnt (bl_stat s) + of_nat (bl_sent s) \<rparr>,
     bl_free := bl_free s + mset (map fst (drop (bl_sent s) (bl_staged s))), bl_staged := [], bl_sent := 0 \<rparr>"

inductive burst_step :: "'g amend \<Rightarrow> PacketDesc list \<Rightarrow> 'g BurstLoop \<Rightarrow> 'g BurstLoop \<Rightarrow> bool" for amend plan where
  stage: "burst_step amend plan s (stage_bunch ds ps gen bufs s)"
    if "bl_running s" and "\<not> bl_firing s" and "bl_doWork s" and "length (bl_staged s) < length plan"
      and "ds = take BURST_SIZE (drop (length (bl_staged s)) plan)"
      and "length bufs = length ds" and "mset bufs \<subseteq># bl_free s" and "amend_all amend (zip ds bufs) (bl_gen s) = Some (ps, gen)"
| fire_begin: "burst_step amend plan s (begin_burst late s)"
    if "bl_running s" and "\<not> bl_firing s" and "bl_doWork s" and "length (bl_staged s) = length plan"
| fire: "burst_step amend plan s (fire_bunch nb s)"
    if "bl_running s" and "bl_firing s" and "bl_doWork s" and "bl_sent s < length (bl_staged s)"
      and "nb \<le> min BURST_SIZE (length (bl_staged s) - bl_sent s)"
| finish: "burst_step amend plan s (end_burst s)"
    if "bl_running s" and "bl_firing s" and "bl_sent s = length (bl_staged s) \<or> \<not> bl_doWork s"
| stop: "burst_step amend plan s (s\<lparr> bl_running := False, bl_free := bl_free s + mset (map fst (bl_staged s)), bl_staged := [] \<rparr>)"
    if "bl_running s" and "\<not> bl_firing s" and "\<not> bl_doWork s"
| reclaim: "burst_step amend plan s (s\<lparr> bl_flight := bl_flight s - {#b#}, bl_free := add_mset b (bl_free s) \<rparr>)"
    if "b \<in># bl_flight s"
| stop_signal: "burst_step amend plan s (s\<lparr> bl_doWork := False \<rparr>)"

inductive burst_run :: "'g amend \<Rightarrow> PacketDesc list \<Rightarrow> 'g BurstLoop \<Rightarrow> 'g BurstLoop \<Rightarrow> bool" for amend plan s0 where
  start: "burst_run amend plan s0 s0"
| step: "burst_run amend plan s0 s \<Longrightarrow> burst_step amend plan s s' \<Longrightarrow> burst_run amend plan s0 s'"


subsection \<open>Amending a bunch\<close>

lemma amend_all_length: "amend_all amend xs gen = Some (ps, gen') \<Longrightarrow> length ps = length xs"
  by (induction xs arbitrary: gen ps) (auto simp: bind_eq_Some_conv split: prod.splits)

lemma step_lengths:
  assumes "length bufs = length ds" and "amend_all amend (zip ds bufs) gen = Some (ps, gen')"
  shows "length ps = length ds"
  using amend_all_length [OF assms(2)] assms(1) by simp

text \<open>
  The interface of a generator to the loops. A buffer of the pool can always be amended for a stream of
  the generator and stays a buffer of the pool; the frame and the new state of the generator depend on
  the generator and the descriptor, not on what the buffer held before.
\<close>

primrec frames_of :: "('g \<Rightarrow> PacketDesc \<Rightarrow> bytes) \<Rightarrow> ('g \<Rightarrow> PacketDesc \<Rightarrow> 'g) \<Rightarrow> 'g \<Rightarrow> PacketDesc list \<Rightarrow> bytes list" where
  "frames_of frame after gen [] = []"
| "frames_of frame after gen (d # ds) = frame gen d # frames_of frame after (after gen d) ds"

lemma length_frames_of [simp]: "length (frames_of frame after gen ds) = length ds"
  by (induction ds arbitrary: gen) simp_all

lemma frames_of_append:
  "frames_of frame after gen (ds @ es) = frames_of frame after gen ds @ frames_of frame after (foldl after gen ds) es"
  by (induction ds arbitrary: gen) simp_all

locale traffic_gen =
  fixes amend :: "'g amend" and good :: "'g \<Rightarrow> bool" and pool :: "bytes \<Rightarrow> bool" and streams :: nat
    and frame :: "'g \<Rightarrow> PacketDesc \<Rightarrow> bytes" and after :: "'g \<Rightarrow> PacketDesc \<Rightarrow> 'g"
  assumes amend: "good g \<Longrightarrow> pool b \<Longrightarrow> unat (idx d) < streams \<Longrightarrow>
      \<exists>b' n. amend d b g = Some (b', n, after g d) \<and> take n b' = frame g d \<and> pool b'"
    and good_after: "good g \<Longrightarrow> unat (idx d) < streams \<Longrightarrow> good (after g d)"
begin

lemma amend_all_frames:
  assumes "good g" and "\<forall>d \<in> set ds. unat (idx d) < streams" and "\<forall>b \<in> set bufs. pool b" and "length bufs = length ds"
  shows "\<exists>ps. amend_all amend (zip ds bufs) g = Some (ps, foldl after g ds) \<and> map snd ps = frames_of frame after g ds \<and>
    (\<forall>b \<in> set (map fst ps). pool b)"
  using assms
proof (induction ds arbitrary: g bufs)
  case (Cons d ds)
  then obtain b bs where bufs: "bufs = b # bs" by (cases bufs) auto
  obtain b' n where b': "amend d b g = Some (b', n, after g d)" "take n b' = frame g d" "pool b'"
    using amend [of g b d] Cons.prems bufs by auto
  obtain ps where "amend_all amend (zip ds bs) (after g d) = Some (ps, foldl after (after g d) ds)"
    "map snd ps = frames_of frame after (after g d) ds" "\<forall>b \<in> set (map fst ps). pool b"
    using Cons.IH [of "after g d" bs] Cons.prems bufs good_after by auto
  with b' bufs show ?case by auto
qed simp

lemma good_run: "good g \<Longrightarrow> \<forall>d \<in> set ds. unat (idx d) < streams \<Longrightarrow> good (foldl after g ds)"
  by (induction ds arbitrary: g) (simp_all add: good_after)

text \<open>What a bunch of the loops makes.\<close>

lemma bunch:
  assumes "good g" and "\<forall>d \<in> set ds. unat (idx d) < streams" and "mset bufs \<subseteq># M" and "\<forall>b \<in># M. pool b"
    and "length bufs = length ds" and "amend_all amend (zip ds bufs) g = Some (ps, g')"
  shows "g' = foldl after g ds" and "map snd ps = frames_of frame after g ds" and "\<forall>b \<in> set (map fst ps). pool b"
proof -
  have "\<forall>b \<in> set bufs. pool b" using assms(3,4) by (metis mset_subset_eqD set_mset_mset)
  from amend_all_frames [OF assms(1,2) this assms(5)] assms(6)
  show "g' = foldl after g ds" "map snd ps = frames_of frame after g ds" "\<forall>b \<in> set (map fst ps). pool b" by auto
qed

text \<open>
  Every state the paced loop reaches: the frames built are those of the descriptors used, and all
  buffers are buffers of the pool.
\<close>

lemma tx_reachable:
  assumes "tx_run amend txUnits (tx_start gen M) s" and "good gen" and "\<forall>b \<in># M. pool b"
    and "\<forall>u \<in> set txUnits. \<forall>d \<in> set (unit_packets u). unat (idx d) < streams"
  shows "tl_gen s = foldl after gen (tl_descs s) \<and> tl_made s = frames_of frame after gen (tl_descs s) \<and>
    (\<forall>d \<in> set (tl_descs s). unat (idx d) < streams) \<and> (\<forall>b \<in># tl_free s + tl_flight s. pool b)"
  using assms(1)
proof induction
  case start
  then show ?case using assms(3) by (simp add: tx_start_def)
next
  case (step s s')
  note inv = step.IH
  from step.hyps(2) show ?case
  proof cases
    case (send ds bufs ps gen' nb)
    have "set ds \<subseteq> set (unit_packets (txUnits ! tl_txUnitIdx s))"
      using send(4) set_take_subset set_drop_subset nth_mem unfolding send(6) unit_packets_def block_packets_def by fastforce
    then have ds: "\<forall>d \<in> set ds. unat (idx d) < streams" using assms(4) send(3) by (meson nth_mem subsetD)
    have "good (tl_gen s)" using inv good_run [OF assms(2), of "tl_descs s"] by simp
    moreover have "\<forall>b \<in># tl_free s. pool b" using inv by simp
    ultimately have b: "gen' = foldl after (tl_gen s) ds" "map snd ps = frames_of frame after (tl_gen s) ds" "\<forall>b \<in> set (map fst ps). pool b"
      using bunch [OF _ ds send(8) _ send(7,9)] by blast+
    have "\<forall>b \<in># tl_free s - mset bufs. pool b" using inv by (meson in_diffD union_iff)
    then show ?thesis
      using inv b ds unfolding send(1) tx_burst_def by (auto simp: frames_of_append dest!: in_set_takeD in_set_dropD)
  next
    case (reclaim b)
    then show ?thesis using inv by (auto dest: in_diffD)
  qed (use inv in simp_all)
qed

lemma burst_reachable:
  assumes "burst_run amend plan (burst_start gen M) s" and "good gen" and "\<forall>b \<in># M. pool b"
    and "\<forall>d \<in> set plan. unat (idx d) < streams"
  shows "bl_gen s = foldl after gen (bl_descs s) \<and> bl_made s = frames_of frame after gen (bl_descs s) \<and>
    (\<forall>d \<in> set (bl_descs s). unat (idx d) < streams) \<and> (\<forall>b \<in># bl_free s + bl_flight s + mset (map fst (bl_staged s)). pool b)"
  using assms(1)
proof induction
  case start
  then show ?case using assms(3) by (simp add: burst_start_def)
next
  case (step s s')
  note inv = step.IH
  from step.hyps(2) show ?case
  proof cases
    case (stage ds bufs ps gen')
    have ds: "\<forall>d \<in> set ds. unat (idx d) < streams" using assms(4) stage(6) by (meson in_set_dropD in_set_takeD)
    have "good (bl_gen s)" using inv good_run [OF assms(2), of "bl_descs s"] by simp
    moreover have "\<forall>b \<in># bl_free s. pool b" using inv by simp
    ultimately have b: "gen' = foldl after (bl_gen s) ds" "map snd ps = frames_of frame after (bl_gen s) ds" "\<forall>b \<in> set (map fst ps). pool b"
      using bunch [OF _ ds stage(8) _ stage(7,9)] by blast+
    have "\<forall>b \<in># bl_free s - mset bufs. pool b" using inv by (meson in_diffD union_iff)
    then show ?thesis using inv b ds unfolding stage(1) stage_bunch_def by (auto simp: frames_of_append)
  next
    case (fire nb)
    then show ?thesis using inv by (auto simp: fire_bunch_def Let_def dest!: in_set_takeD in_set_dropD)
  next
    case finish
    then show ?thesis using inv by (auto simp: end_burst_def dest!: in_set_dropD)
  next
    case (reclaim b)
    then show ?thesis using inv by (auto dest: in_diffD)
  qed (use inv in \<open>auto simp: begin_burst_def\<close>)
qed

end


subsection \<open>Counters, order and buffers of the paced loop\<close>

text \<open>The local part of a loop's accounts; a step keeps it and loses no buffer.\<close>

definition tx_counts :: "'g TxLoop \<Rightarrow> bool" where
  "tx_counts s \<longleftrightarrow> txPktCnt (tl_stat s) = of_nat (length (tl_wire s)) \<and>
     errSendCnt (tl_stat s) = of_nat (length (tl_made s) - length (tl_wire s)) \<and>
     subseq (tl_wire s) (tl_made s) \<and> length (tl_made s) = length (tl_descs s)"

lemma tx_counts_start [simp]: "tx_counts (tx_start gen M)" "tl_free (tx_start gen M) = M" "tl_flight (tx_start gen M) = {#}"
  by (simp_all add: tx_counts_def tx_start_def GenAppStat_init_def)

lemma tx_step_counts:
  assumes "tx_step amend txUnits s s'" and "tx_counts s"
  shows "tx_counts s' \<and> size (tl_free s') + size (tl_flight s') = size (tl_free s) + size (tl_flight s)"
  using assms(1)
proof cases
  case (send ds bufs ps gen' nb)
  have l: "length ps = length ds" by (rule step_lengths [OF send(7,9)])
  have le: "length (tl_wire s) \<le> length (tl_made s)" using assms(2) list_emb_length unfolding tx_counts_def by blast
  have sz: "size (tl_free s - mset bufs) + length bufs = size (tl_free s)"
    using send(8) by (metis size_Diff_submset size_mset size_mset_mono add.commute le_add_diff_inverse)
  have nb: "length (take nb ps) = nb" using send(10) by simp
  let ?s = "tx_burst nb ds ps gen' bufs s"
  have f: "tl_wire ?s = tl_wire s @ map snd (take nb ps)" "tl_made ?s = tl_made s @ map snd ps" "tl_descs ?s = tl_descs s @ ds"
    "txPktCnt (tl_stat ?s) = txPktCnt (tl_stat s) + of_nat nb"
    "errSendCnt (tl_stat ?s) = errSendCnt (tl_stat s) + of_nat (length ps - nb)"
    "size (tl_free ?s) + size (tl_flight ?s) = size (tl_free s - mset bufs) + (length ps - nb) + size (tl_flight s) + nb"
    using nb send(10) by (auto simp: tx_burst_def)
  have "subseq (tl_wire s @ map snd (take nb ps)) (tl_made s @ map snd ps)"
    using assms(2) unfolding tx_counts_def
    by (intro list_emb_append_mono) (auto simp: take_map [symmetric] take_is_prefix intro!: prefix_imp_subseq)
  moreover have "length (tl_made ?s) - length (tl_wire ?s) = (length (tl_made s) - length (tl_wire s)) + (length ps - nb)"
    unfolding f using le nb send(10) by simp
  moreover have "size (tl_free ?s) + size (tl_flight ?s) = size (tl_free s) + size (tl_flight s)"
    unfolding f(6) using sz l send(7,10) by simp
  ultimately show ?thesis using assms(2) nb l unfolding send(1) tx_counts_def by (simp add: f(1-5))
next
  case (reclaim b)
  then show ?thesis using assms(2) by (auto simp: tx_counts_def size_Diff_singleton dest!: multi_member_split)
qed (use assms(2) in \<open>simp_all add: tx_counts_def\<close>)

lemma tx_accounts:
  assumes "tx_run amend txUnits (tx_start gen M) s"
  shows "txPktCnt (tl_stat s) = of_nat (length (tl_wire s))"
    and "errSendCnt (tl_stat s) = of_nat (length (tl_made s) - length (tl_wire s))"
    and "subseq (tl_wire s) (tl_made s)" and "length (tl_made s) = length (tl_descs s)"
    and "size (tl_free s) + size (tl_flight s) = size M"
proof -
  have "tx_counts s \<and> size (tl_free s) + size (tl_flight s) = size M"
    using assms by induction (simp_all add: tx_step_counts)
  then show "txPktCnt (tl_stat s) = of_nat (length (tl_wire s))"
    "errSendCnt (tl_stat s) = of_nat (length (tl_made s) - length (tl_wire s))"
    "subseq (tl_wire s) (tl_made s)" "length (tl_made s) = length (tl_descs s)"
    "size (tl_free s) + size (tl_flight s) = size M" unfolding tx_counts_def by blast+
qed

text \<open>The descriptors of a second, and those used up to the loop's position in it.\<close>

definition second :: "TxUnit list \<Rightarrow> PacketDesc list" where
  "second txUnits = concat (map unit_packets txUnits)"

definition progress :: "TxUnit list \<Rightarrow> 'g TxLoop \<Rightarrow> PacketDesc list" where
  "progress txUnits s = concat (map unit_packets (take (tl_txUnitIdx s) txUnits)) @
     concat (map packets (take (tl_blk s) (blocks (txUnits ! tl_txUnitIdx s)))) @
     (if tl_blk s < length (blocks (txUnits ! tl_txUnitIdx s)) then take (tl_sendNum s) (block_packets txUnits s) else [])"

lemma concat_replicate_Suc: "concat (replicate (Suc n) x) = concat (replicate n x) @ x"
  by (induction n) simp_all

lemma progress_prefix:
  assumes "tl_txUnitIdx s < length txUnits"
  shows "prefix (progress txUnits s) (second txUnits)"
proof -
  let ?u = "txUnits ! tl_txUnitIdx s" and ?b = "tl_blk s"
  have u: "second txUnits = concat (map unit_packets (take (tl_txUnitIdx s) txUnits)) @ unit_packets ?u @
      concat (map unit_packets (drop (Suc (tl_txUnitIdx s)) txUnits))"
    using id_take_nth_drop [OF assms] unfolding second_def by (metis concat.simps(2) concat_append list.simps(9) map_append)
  have "prefix (concat (map packets (take ?b (blocks ?u))) @
      (if ?b < length (blocks ?u) then take (tl_sendNum s) (block_packets txUnits s) else [])) (unit_packets ?u)"
  proof (cases "?b < length (blocks ?u)")
    case True
    have "unit_packets ?u = concat (map packets (take ?b (blocks ?u))) @ packets (blocks ?u ! ?b) @
        concat (map packets (drop (Suc ?b) (blocks ?u)))"
      using id_take_nth_drop [OF True] unfolding unit_packets_def by (metis concat.simps(2) concat_append list.simps(9) map_append)
    then show ?thesis using True by (simp add: block_packets_def take_is_prefix prefix_prefix)
  next
    case False
    then show ?thesis by (simp add: unit_packets_def)
  qed
  then show ?thesis by (simp add: u progress_def prefix_prefix)
qed

lemma tx_follows_schedule:
  assumes "tx_run amend txUnits (tx_start gen M) s" and "txUnits \<noteq> []" and "tl_doWork s"
  shows "tl_txUnitIdx s < length txUnits \<and> tl_blk s \<le> length (blocks (txUnits ! tl_txUnitIdx s)) \<and> tl_running s \<and>
    (\<exists>rounds. tl_descs s = concat (replicate rounds (second txUnits)) @ progress txUnits s)"
  using assms(1,3)
proof induction
  case start
  then show ?case using assms(2) by (simp add: tx_start_def progress_def block_packets_def exI [of _ 0])
next
  case (step s s')
  from step.hyps(2) show ?case
  proof cases
    case (send ds bufs ps gen' nb)
    then have inv: "tl_txUnitIdx s < length txUnits" "tl_blk s < length (blocks (txUnits ! tl_txUnitIdx s))"
      "\<exists>rounds. tl_descs s = concat (replicate rounds (second txUnits)) @ progress txUnits s" "tl_running s"
      using step.IH step.prems by (simp_all add: tx_burst_def)
    have "take (tl_sendNum s + length ds) (block_packets txUnits s) = take (tl_sendNum s) (block_packets txUnits s) @ ds"
      using send(6) by (simp add: take_add min_def)
    then show ?thesis using inv unfolding send(1) by (auto simp: tx_burst_def progress_def block_packets_def)
  next
    case next_block
    then have inv: "tl_txUnitIdx s < length txUnits" "tl_blk s < length (blocks (txUnits ! tl_txUnitIdx s))"
      "\<exists>rounds. tl_descs s = concat (replicate rounds (second txUnits)) @ progress txUnits s" "tl_running s"
      using step.IH step.prems by simp_all
    then show ?thesis using next_block(1,5) by (auto simp: progress_def block_packets_def take_Suc_conv_app_nth)
  next
    case next_unit
    then have inv: "tl_txUnitIdx s < length txUnits" "tl_running s" using step.IH step.prems by simp_all
    obtain rounds where r: "tl_descs s = concat (replicate rounds (second txUnits)) @ progress txUnits s"
      using step.IH step.prems next_unit(1) by auto
    have p: "progress txUnits s = concat (map unit_packets (take (Suc (tl_txUnitIdx s)) txUnits))"
      using inv(1) next_unit(4) by (simp add: progress_def unit_packets_def take_Suc_conv_app_nth)
    show ?thesis
    proof (cases "Suc (tl_txUnitIdx s) = length txUnits")
      case True
      then have "tl_descs s = concat (replicate (Suc rounds) (second txUnits))"
        using r p by (simp only: concat_replicate_Suc) (simp add: second_def)
      then show ?thesis using True inv step.prems next_unit(1) assms(2)
        by (auto simp: progress_def block_packets_def intro!: exI [of _ "Suc rounds"])
    next
      case False
      then have "(tl_txUnitIdx s + 1) mod length txUnits = Suc (tl_txUnitIdx s)" "Suc (tl_txUnitIdx s) < length txUnits" using inv(1) by simp_all
      then show ?thesis using r p step.prems next_unit(1) inv by (auto simp: progress_def block_packets_def)
    qed
  qed (use step in \<open>auto simp: progress_def block_packets_def\<close>)
qed


subsection \<open>Counters, order and buffers of the burst loop\<close>

definition unsent :: "'g BurstLoop \<Rightarrow> (bytes \<times> bytes) list" where
  "unsent s = drop (bl_sent s) (bl_staged s)"

definition burst_counts :: "PacketDesc list \<Rightarrow> 'g BurstLoop \<Rightarrow> bool" where
  "burst_counts plan s \<longleftrightarrow> errSendCnt (bl_stat s) = 0 \<and> txPktCnt (bl_stat s) + of_nat (bl_sent s) = of_nat (length (bl_wire s)) \<and>
     bl_sent s \<le> length (bl_staged s) \<and> (\<not> bl_firing s \<longrightarrow> bl_sent s = 0) \<and> length (bl_staged s) \<le> length plan"

lemma burst_counts_start [simp]:
  "burst_counts plan (burst_start gen M)" "bl_free (burst_start gen M) = M" "bl_flight (burst_start gen M) = {#}" "unsent (burst_start gen M) = []"
  by (simp_all add: burst_counts_def burst_start_def GenAppStat_init_def unsent_def)

lemma burst_step_counts:
  assumes "burst_step amend plan s s'" and "burst_counts plan s"
  shows "burst_counts plan s' \<and> size (bl_free s') + size (bl_flight s') + length (unsent s') = size (bl_free s) + size (bl_flight s) + length (unsent s)"
  using assms(1)
proof cases
  case (stage ds bufs ps gen')
  have l: "length ps = length ds" by (rule step_lengths [OF stage(7,9)])
  have "size (bl_free s - mset bufs) + length bufs = size (bl_free s)"
    using stage(8) by (metis size_Diff_submset size_mset size_mset_mono add.commute le_add_diff_inverse)
  moreover have "length (bl_staged s) + length ds \<le> length plan" using stage(5,6) by simp
  ultimately show ?thesis using assms(2) l stage(3,7) unfolding stage(1) by (auto simp: burst_counts_def stage_bunch_def unsent_def)
next
  case (fire nb)
  then show ?thesis using assms(2) by (auto simp: burst_counts_def fire_bunch_def Let_def unsent_def algebra_simps)
next
  case finish
  then show ?thesis using assms(2) by (auto simp: burst_counts_def end_burst_def unsent_def)
next
  case stop
  then show ?thesis using assms(2) by (auto simp: burst_counts_def unsent_def)
next
  case (reclaim b)
  then show ?thesis using assms(2) by (auto simp: burst_counts_def unsent_def size_Diff_singleton dest!: multi_member_split)
qed (use assms(2) in \<open>auto simp: burst_counts_def begin_burst_def unsent_def\<close>)

lemma burst_accounts:
  assumes "burst_run amend plan (burst_start gen M) s"
  shows "errSendCnt (bl_stat s) = 0" and "txPktCnt (bl_stat s) + of_nat (bl_sent s) = of_nat (length (bl_wire s))"
    and "bl_sent s \<le> length (bl_staged s)" and "\<not> bl_firing s \<Longrightarrow> bl_sent s = 0"
    and "size (bl_free s) + size (bl_flight s) + length (unsent s) = size M"
proof -
  have "burst_counts plan s \<and> size (bl_free s) + size (bl_flight s) + length (unsent s) = size M"
    using assms by induction (simp_all add: burst_step_counts)
  then show "errSendCnt (bl_stat s) = 0" "txPktCnt (bl_stat s) + of_nat (bl_sent s) = of_nat (length (bl_wire s))"
    "bl_sent s \<le> length (bl_staged s)" "\<not> bl_firing s \<Longrightarrow> bl_sent s = 0"
    "size (bl_free s) + size (bl_flight s) + length (unsent s) = size M" unfolding burst_counts_def by blast+
qed

text \<open>Until the stop signal: nothing is lost, and the plan is sent over and over.\<close>

lemma burst_follows_plan:
  assumes "burst_run amend plan (burst_start gen M) s" and "bl_doWork s"
  shows "bl_wire s @ map snd (unsent s) = bl_made s \<and> bl_running s \<and> (bl_firing s \<longrightarrow> length (bl_staged s) = length plan) \<and>
    length (bl_staged s) \<le> length plan \<and>
    (\<exists>rounds. bl_descs s = concat (replicate rounds plan) @ take (length (bl_staged s)) plan)"
  using assms
proof induction
  case start
  then show ?case by (simp add: burst_start_def unsent_def exI [of _ 0])
next
  case (step s s')
  note acc = burst_accounts [OF step.hyps(1)]
  from step.hyps(2) show ?case
  proof cases
    case (stage ds bufs ps gen')
    have l: "length ps = length ds" by (rule step_lengths [OF stage(7,9)])
    have d: "take (length (bl_staged s) + length ds) plan = take (length (bl_staged s)) plan @ ds"
      using stage(6) by (simp add: take_add min_def)
    have "length (bl_staged s) + length ds \<le> length plan" using stage(5,6) by simp
    moreover have "bl_sent s = 0" using acc(4) stage(3) by simp
    ultimately show ?thesis
      using step.IH stage(4) l d stage(3) unfolding stage(1) by (auto simp: stage_bunch_def unsent_def)
  next
    case (fire_begin late)
    then show ?thesis using step.IH acc(4) by (auto simp: begin_burst_def unsent_def)
  next
    case (fire nb)
    have "take nb (drop (bl_sent s) (bl_staged s)) @ drop (bl_sent s + nb) (bl_staged s) = drop (bl_sent s) (bl_staged s)"
      by (metis append_take_drop_id drop_drop add.commute)
    then have "map snd (take nb (drop (bl_sent s) (bl_staged s))) @ map snd (drop (bl_sent s + nb) (bl_staged s)) = map snd (unsent s)"
      unfolding unsent_def by (metis map_append)
    then show ?thesis using fire(1,4) step.IH by (auto simp: fire_bunch_def Let_def unsent_def)
  next
    case finish
    then have "bl_sent s = length (bl_staged s)" "bl_doWork s" using step.prems by (auto simp: end_burst_def)
    then obtain rounds where "bl_descs s = concat (replicate rounds plan) @ plan" "bl_wire s = bl_made s" "bl_running s"
      using step.IH finish(3) by (auto simp: unsent_def)
    then show ?thesis using finish(1)
      by (auto simp: end_burst_def unsent_def concat_replicate_Suc [symmetric] intro!: exI [of _ "Suc rounds"] simp del: replicate_Suc)
  next
    case stop
    then show ?thesis using step.prems by simp
  qed (use step in \<open>auto simp: unsent_def\<close>)
qed

subsection \<open>The SV generators meet the interface\<close>

definition sv_pool :: "nat \<Rightarrow> SVEnv \<Rightarrow> bytes \<Rightarrow> bool" where
  "sv_pool m e b \<longleftrightarrow> (\<exists>appid xs r. b = sv_gen_frame e appid xs @ r \<and> ids_ok xs \<and> length xs = m)"

definition sv_good :: "nat \<Rightarrow> SVEnv \<Rightarrow> nat \<Rightarrow> SVTrafficGen \<Rightarrow> bool" where
  "sv_good m e num gen \<longleftrightarrow> sv_gen_ok m e gen \<and> length (sg_ieds gen) = num \<and>
     sg_skeletonSize gen = appid_pos e + 8 + asdu_pos m m"

definition sv_frame :: "nat \<Rightarrow> SVEnv \<Rightarrow> SVTrafficGen \<Rightarrow> PacketDesc \<Rightarrow> bytes" where
  "sv_frame m e gen d = (let ied = sg_ieds gen ! unat (idx d) in
     sv_gen_frame e (ucast (idx d + 1)) (amended_asdus (sg_freq gen) (take 4 (si_sID ied)) m (si_smpCnt ied)))"

definition sv_after :: "nat \<Rightarrow> SVTrafficGen \<Rightarrow> PacketDesc \<Rightarrow> SVTrafficGen" where
  "sv_after m gen d = gen\<lparr> sg_ieds := (sg_ieds gen)[unat (idx d) := sent_ied m (sg_freq gen) (sg_ieds gen ! unat (idx d))] \<rparr>"

interpretation sv_tx: traffic_gen "sv_amend m" "sv_good m e num" "sv_pool m e" num "sv_frame m e" "sv_after m" for m e num
proof unfold_locales
  fix g b and d :: PacketDesc
  assume g: "sv_good m e num g" and b: "sv_pool m e b" and d: "unat (idx d) < num"
  obtain appid xs r where xs: "b = sv_gen_frame e appid xs @ r" "ids_ok xs" "length xs = m" using b by (auto simp: sv_pool_def)
  have ok: "sv_gen_ok m e g" "unat (idx d) < length (sg_ieds g)" using g d by (auto simp: sv_good_def)
  have m: "m = 1 \<or> m = 8" and e: "length (se_res e) = 6" and i: "\<forall>ied \<in> set (sg_ieds g). 4 \<le> length (si_sID ied)"
    using ok(1) by (auto simp: sv_gen_ok_def)
  let ?ied = "sg_ieds g ! unat (idx d)"
  let ?ys = "amended_asdus (sg_freq g) (take 4 (si_sID ?ied)) m (si_smpCnt ?ied)"
  have ys: "ids_ok ?ys" "length ?ys = m" using i ok(2) by (auto intro: ids_ok_amended)
  then have pool: "sv_pool m e (sv_frame m e g d @ r)" unfolding sv_pool_def sv_frame_def Let_def by blast
  have "length (sv_frame m e g d) = sg_skeletonSize g"
    using length_sv_gen_frame [OF ys(1) _ e] m g by (simp add: sv_frame_def sv_good_def Let_def)
  then show "\<exists>b' n. sv_amend m d b g = Some (b', n, sv_after m g d) \<and> take n b' = sv_frame m e g d \<and> sv_pool m e b'"
    using sv_amend_frame [OF ok xs(2,3) refl, of appid r] xs(1) pool
    by (simp add: sv_frame_def sv_after_def Let_def)
next
  fix g and d :: PacketDesc
  assume "sv_good m e num g" and "unat (idx d) < num"
  then show "sv_good m e num (sv_after m g d)"
    by (auto simp: sv_good_def sv_gen_ok_def sv_after_def sent_ied_def dest!: set_update_subset_insert [THEN subsetD])
qed


subsection \<open>Properties\<close>

text \<open>
  C29: the books of the paced loop balance. In every state the loop can reach, for any behaviour of the
  pool and the card, the packet counter is the number of frames the card took and the error counter the
  number of frames built and not taken (both modulo their width); the frames on the wire are a
  subsequence of the frames built, so none is sent twice or out of order; and no buffer is lost.
\<close>

theorem tx_loop_accounts:
  assumes "tx_run amend txUnits (tx_start gen M) s"
  shows "txPktCnt (tl_stat s) = of_nat (length (tl_wire s)) \<and>
    errSendCnt (tl_stat s) = of_nat (length (tl_made s) - length (tl_wire s)) \<and>
    subseq (tl_wire s) (tl_made s) \<and> length (tl_made s) = length (tl_descs s) \<and>
    size (tl_free s) + size (tl_flight s) = size M"
  using tx_accounts [OF assms] by blast

text \<open>A small generator with one stream and the first bunch it sends, for the witnesses.\<close>

definition sample_sv_gen :: SVTrafficGen where
  "sample_sv_gen = \<lparr> sg_ieds = [sv_InitIED 1 SVSourceIED_init], sg_units = CreateTxUnits 1 1, sg_appidOffset = 0,
     sg_asduOffs = (\<lambda>i f. case f of SV_SVID_OFFSET \<Rightarrow> 2 | SV_SMP_CNT_OFFSET \<Rightarrow> 10 | SV_DATA_OFFSET \<Rightarrow> 0),
     sg_skeleton = replicate 12 0, sg_skeletonSize = 12, sg_freq = 4000 \<rparr>"

definition sample_buffer :: bytes where "sample_buffer = [0, 0, 0, 0, 0, 0, 0, 0, 0, 0, 0, 0]"
definition sample_frame :: bytes where "sample_frame = [0, 1, 0, 0, 0, 0, 48, 48, 48, 49, 0, 0]"

definition sample_sent_gen :: SVTrafficGen where
  "sample_sent_gen = sample_sv_gen\<lparr> sg_ieds := [(sv_InitIED 1 SVSourceIED_init)\<lparr> si_smpCnt := 1 \<rparr>] \<rparr>"

lemma sample_sID: "si_sID (sv_InitIED 1 SVSourceIED_init) = [48, 48, 48, 49, 0]"
  by code_simp

lemma sample_smpCnt: "si_smpCnt (sv_InitIED 1 SVSourceIED_init) = 0"
  by (simp add: sv_InitIED_def SVSourceIED_init_def)

lemma sample_amend:
  "amend_all AmendPacketSV80 (zip [\<lparr> idx = 0 \<rparr>] [sample_buffer]) sample_sv_gen = Some ([(sample_frame, sample_frame)], sample_sent_gen)"
  by (simp add: AmendPacketSV80_def amend_asdu_def at_index_def sample_sv_gen_def sample_sent_gen_def sample_buffer_def sample_frame_def
      sample_sID sample_smpCnt put_u16_def wrs_def patch_def put16_def next_smpCnt_def take_Cons' drop_Cons')

definition sample_units :: "TxUnit list" where
  "sample_units = CreateTxUnits 1 1"

lemma sample_units_eq: "sample_units = [\<lparr> offsetUS = 0, blocks = [\<lparr> packets = [\<lparr> idx = 0 \<rparr>] \<rparr>] \<rparr>]"
  by (simp add: sample_units_def CreateTxUnits_def unit_blocks_def)

lemma sample_tx_run:
  "tx_run AmendPacketSV80 sample_units (tx_start sample_sv_gen {#sample_buffer#})
    (tx_burst 1 [\<lparr> idx = 0 \<rparr>] [(sample_frame, sample_frame)] sample_sent_gen [sample_buffer] (tx_start sample_sv_gen {#sample_buffer#}))"
  by (rule tx_run.step [OF tx_run.start], rule tx_step.send [where bufs = "[sample_buffer]"])
    (use sample_amend in \<open>simp_all add: tx_start_def sample_units_eq block_packets_def\<close>)

theorem tx_loop_accounts_witness:
  "txPktCnt (tl_stat (tx_burst 1 [\<lparr> idx = 0 \<rparr>] [(sample_frame, sample_frame)] sample_sent_gen [sample_buffer]
    (tx_start sample_sv_gen {#sample_buffer#}))) = 1"
  using tx_loop_accounts [OF sample_tx_run] by (simp add: tx_burst_def tx_start_def)

text \<open>
  C30: the paced loop walks the schedule. Until the stop signal the descriptors used are a prefix of the
  schedule repeated second by second: each stream is served in its turn, whatever the pool and the card do.
\<close>

theorem tx_loop_follows_schedule:
  assumes "tx_run amend txUnits (tx_start gen M) s" and "txUnits \<noteq> []" and "tl_doWork s"
  shows "\<exists>rounds. prefix (tl_descs s) (concat (replicate rounds (concat (map unit_packets txUnits))))"
proof -
  obtain rounds where "tl_txUnitIdx s < length txUnits"
    and "tl_descs s = concat (replicate rounds (second txUnits)) @ progress txUnits s"
    using tx_follows_schedule [OF assms] by blast
  with progress_prefix [of s txUnits] have "prefix (tl_descs s) (concat (replicate (Suc rounds) (second txUnits)))"
    by (simp only: concat_replicate_Suc same_prefix_prefix)
  then show ?thesis unfolding second_def by blast
qed

theorem tx_loop_follows_schedule_witness:
  "\<exists>rounds. prefix [\<lparr> idx = 0 \<rparr>] (concat (replicate rounds (concat (map unit_packets sample_units))))"
  using tx_loop_follows_schedule [OF sample_tx_run] by (simp add: tx_burst_def tx_start_def sample_units_eq)

text \<open>
  C31: the burst loop loses nothing. Whatever the pool and the card do, no send error is counted and no
  buffer is lost; and until the stop signal, between two bursts the card has taken every frame built, in
  order, and the descriptors are a whole number of plans. Frames the card refuses are offered again.
\<close>

theorem burst_loop_sends_everything:
  assumes "burst_run amend plan (burst_start gen M) s"
  shows "errSendCnt (bl_stat s) = 0 \<and> size (bl_free s) + size (bl_flight s) + length (drop (bl_sent s) (bl_staged s)) = size M \<and>
    (bl_doWork s \<and> \<not> bl_firing s \<and> bl_staged s = [] \<longrightarrow>
      bl_wire s = bl_made s \<and> (\<exists>rounds. bl_descs s = concat (replicate rounds plan)) \<and>
      txPktCnt (bl_stat s) = of_nat (length (bl_wire s)))"
  using burst_accounts [OF assms] burst_follows_plan [OF assms] by (auto simp: unsent_def)


lemma sample_burst_run:
  "burst_run AmendPacketSV80 [\<lparr> idx = 0 \<rparr>] (burst_start sample_sv_gen {#sample_buffer#})
    (end_burst (fire_bunch 1 (fire_bunch 0 (begin_burst False (stage_bunch [\<lparr> idx = 0 \<rparr>] [(sample_frame, sample_frame)] sample_sent_gen
      [sample_buffer] (burst_start sample_sv_gen {#sample_buffer#}))))))"
proof -
  let ?s1 = "stage_bunch [\<lparr> idx = 0 \<rparr>] [(sample_frame, sample_frame)] sample_sent_gen [sample_buffer] (burst_start sample_sv_gen {#sample_buffer#})"
  let ?run = "burst_run AmendPacketSV80 [\<lparr> idx = 0 \<rparr>] (burst_start sample_sv_gen {#sample_buffer#})"
  have "?run ?s1"
    by (rule burst_run.step [OF burst_run.start], rule burst_step.stage [where bufs = "[sample_buffer]"])
      (use sample_amend in \<open>simp_all add: burst_start_def\<close>)
  then have "?run (begin_burst False ?s1)"
    by (rule burst_run.step) (rule burst_step.fire_begin; simp add: stage_bunch_def burst_start_def)
  then have "?run (fire_bunch 0 (begin_burst False ?s1))"
    by (rule burst_run.step) (rule burst_step.fire; simp add: begin_burst_def stage_bunch_def burst_start_def)
  then have "?run (fire_bunch 1 (fire_bunch 0 (begin_burst False ?s1)))"
    by (rule burst_run.step) (rule burst_step.fire; simp add: fire_bunch_def begin_burst_def stage_bunch_def burst_start_def)
  then show ?thesis
    by (rule burst_run.step) (rule burst_step.finish; simp add: fire_bunch_def begin_burst_def stage_bunch_def burst_start_def)
qed

theorem burst_loop_sends_everything_witness:
  "let s = end_burst (fire_bunch 1 (fire_bunch 0 (begin_burst False (stage_bunch [\<lparr> idx = 0 \<rparr>] [(sample_frame, sample_frame)] sample_sent_gen
      [sample_buffer] (burst_start sample_sv_gen {#sample_buffer#})))))
   in bl_wire s = [sample_frame] \<and> txPktCnt (bl_stat s) = 1 \<and> txRetryCnt (bl_stat s) = 1 \<and> errSendCnt (bl_stat s) = 0"
  using burst_loop_sends_everything [OF sample_burst_run]
  by (simp add: end_burst_def fire_bunch_def begin_burst_def stage_bunch_def burst_start_def GenAppStat_init_def)

end
