(* ===== verification/Clean_Link.thy ===== *)
theory Clean_Link
  imports RX_App Tx_Loop
begin

text \<open>
  The contract between a generator and a receiver, over what both programs are: a generator is a
  \<open>traffic_gen\<close>, a receiver the single-core loop with its stream containers. The locale \<open>stream_link\<close>
  says what a family of streams has to provide: a link between the state of the generator and that of the receiver,
  which each frame that arrives keeps. Its lemma is that a run without send errors whose frames all
  arrive ends in linked states, with every frame counted.
\<close>

subsection \<open>Registered streams\<close>

text \<open>
  Stream \<open>i\<close> is registered under the passport \<open>pass i\<close> with a source in the relation \<open>P i\<close>, and every
  source of the container satisfies \<open>zero\<close>.
\<close>

definition streams_linked ::
  "('k \<Rightarrow> u16) \<Rightarrow> ('k \<Rightarrow> 'k \<Rightarrow> bool) \<Rightarrow> ('v \<Rightarrow> bool) \<Rightarrow> (nat \<Rightarrow> 'k) \<Rightarrow> nat set \<Rightarrow> (nat \<Rightarrow> 'v \<Rightarrow> bool) \<Rightarrow> ('k, 'v) AppIdContainer \<Rightarrow> bool" where
  "streams_linked appid eq zero pass S P c \<longleftrightarrow> (\<forall>x \<in> set (m_values c). zero (snd x)) \<and>
     (\<forall>i \<in> S. \<exists>k src. container_find appid eq c (pass i) = Some k \<and> m_values c ! k = (pass i, src) \<and> P i src)"

lemma assign_values:
  assumes "\<forall>x \<in> set (m_values c). P (snd x)" and "P dflt" and "P v"
  shows "\<forall>x \<in> set (m_values (container_assign appid dflt c k v)). P (snd x)"
proof -
  obtain c' i where c': "container_subscript appid dflt c k = (c', i)" by (cases "container_subscript appid dflt c k")
  then have "\<forall>x \<in> set (m_values c'). P (snd x)"
    using assms(1,2) by (auto simp: container_subscript_def container_insert_def Let_def split: if_splits)
  moreover have "set (m_values (container_assign appid dflt c k v)) \<subseteq> insert (fst (m_values c' ! i), v) (set (m_values c'))"
    unfolding container_assign_def container_modify_def c' by (simp add: set_update_subset_insert)
  ultimately show ?thesis using assms(3) by auto
qed

context appid_key
begin

lemma streams_linked_modify:
  assumes "streams_linked appid eq zero pass S P c" and "i \<in> S" and "inj_on (appid \<circ> pass) S"
    and "\<And>src. P i src \<Longrightarrow> zero src \<Longrightarrow> zero (f src) \<and> Q i (f src)" and "\<And>j src. j \<in> S \<Longrightarrow> j \<noteq> i \<Longrightarrow> P j src \<Longrightarrow> Q j src"
  obtains k where "container_find appid eq c (pass i) = Some k" and "streams_linked appid eq zero pass S Q (container_modify c k f)"
proof -
  have zero: "\<forall>x \<in> set (m_values c). zero (snd x)" using assms(1) by (simp add: streams_linked_def)
  obtain k src where k: "container_find appid eq c (pass i) = Some k" "m_values c ! k = (pass i, src)" and P: "P i src"
    using assms(1,2) unfolding streams_linked_def by blast
  have klt: "k < length (m_values c)" by (rule find_sound(1) [OF k(1)])
  have "zero src" using zero klt k(2) by (metis nth_mem snd_conv)
  with assms(4) P have new: "zero (f src)" "Q i (f src)" by simp_all
  have vals: "m_values (container_modify c k f) = (m_values c)[k := (pass i, f src)]" by (simp add: container_modify_def k(2))
  have "\<forall>x \<in> set (m_values (container_modify c k f)). zero (snd x)"
    using zero new(1) set_update_subset_insert [of "m_values c" k "(pass i, f src)"] unfolding vals by auto
  moreover have "\<exists>k' src'. container_find appid eq (container_modify c k f) (pass j) = Some k' \<and>
      m_values (container_modify c k f) ! k' = (pass j, src') \<and> Q j src'" if j: "j \<in> S" for j
  proof (cases "j = i")
    case True
    then show ?thesis using k(1) klt new(2) by (intro exI [of _ k] exI [of _ "f src"]) (simp add: find_modify vals)
  next
    case False
    obtain k' src' where k': "container_find appid eq c (pass j) = Some k'" "m_values c ! k' = (pass j, src')" "P j src'"
      using assms(1) j unfolding streams_linked_def by blast
    have "k' \<noteq> k"
    proof
      assume "k' = k"
      then have "pass j = pass i" using k(2) k'(2) by simp
      with False j assms(2,3) show False by (auto simp: inj_on_def)
    qed
    with k' assms(5) [OF j False] show ?thesis by (intro exI [of _ k'] exI [of _ src']) (simp add: find_modify vals)
  qed
  ultimately have "streams_linked appid eq zero pass S Q (container_modify c k f)" by (simp add: streams_linked_def)
  with k(1) show thesis by (rule that)
qed

lemma register_all_values:
  assumes "\<forall>x \<in> set (m_values c). zero (snd x)" and "zero dflt" and "\<forall>kv \<in> set kvs. zero (snd kv)"
  shows "\<forall>x \<in> set (m_values (register_all dflt c kvs)). zero (snd x)"
  using assms(1,3)
proof (induction kvs arbitrary: c)
  case (Cons kv kvs)
  then have "\<forall>x \<in> set (m_values (container_assign appid dflt c (fst kv) (snd kv))). zero (snd x)"
    by (intro assign_values [where P = zero] assms(2)) simp_all
  then show ?case using Cons.IH Cons.prems(2) by (simp add: register_all_def case_prod_beta)
qed (simp add: register_all_def)

end

lemma streams_linked_zero: "streams_linked appid eq zero pass S P c \<Longrightarrow> \<forall>x \<in> set (m_values c). zero (snd x)"
  by (simp add: streams_linked_def)

subsection \<open>Bursts of one kind\<close>

primrec stage_packet :: "Crypto \<Rightarrow> EnumStages \<Rightarrow> mbuf \<Rightarrow> RX_Application \<Rightarrow> RX_Application option option" where
  "stage_packet crypto ROUTER = (\<lambda>_ app. Some (Some app))"
| "stage_packet crypto GOOSE = goose_packet"
| "stage_packet crypto SV = sv_packet"
| "stage_packet crypto R_GOOSE = r_goose_packet crypto"
| "stage_packet crypto R_SV = r_sv_packet crypto"
| "stage_packet crypto IP = (\<lambda>_ app. Some (Some (app\<lparr> m_pktToKernelCnt := m_pktToKernelCnt app + 1 \<rparr>)))"

lemma and_then_id: "and_then r (\<lambda>x. Some (Some x)) = r"
  by (auto simp: and_then_def split: option.splits)

lemma batch_one_stage:
  assumes "\<forall>m \<in> set bs. in_stage s m" and "s \<noteq> ROUTER" and "s \<noteq> IP"
  shows "batch crypto bs app = for_each (stage_packet crypto s) bs app"
proof -
  have f: "filter (in_stage s') bs = (if s' = s then bs else [])" for s'
    using assms(1) by (auto simp: filter_id_conv filter_empty_conv in_stage_def split: option.splits)
  show ?thesis using assms(2,3) by (cases s) (simp_all add: batch_def f and_then_id)
qed

lemma bursts_one_stage:
  assumes "idle matrix" and "\<forall>bufs \<in> set bursts. burst_ok bufs \<and> (\<forall>m \<in> set bufs. in_stage s m)" and "s \<noteq> ROUTER" "s \<noteq> IP"
    and "for_each (stage_packet (dm_crypto matrix) s) (concat bursts) (dm_app matrix) = Some (Some app')"
  shows "\<exists>matrix'. for_each process_burst bursts matrix = Some (Some matrix') \<and> dm_app matrix' = app'"
  using assms(1,2,5)
proof (induction bursts arbitrary: matrix)
  case (Cons bufs bursts)
  let ?p = "stage_packet (dm_crypto matrix) s"
  obtain a where a: "for_each ?p bufs (dm_app matrix) = Some (Some a)" "for_each ?p (concat bursts) a = Some (Some app')"
    using Cons.prems(3) by (auto simp: for_each_append and_then_eq_Some)
  have ok: "burst_ok bufs" "\<forall>m \<in> set bufs. in_stage s m" using Cons.prems(2) by simp_all
  obtain st where st: "\<forall>s. holds (st s) []" "process_burst bufs matrix =
      and_then (batch (dm_crypto matrix) bufs (dm_app matrix)) (\<lambda>app. Some (Some (matrix\<lparr> dm_stages := st, dm_app := app \<rparr>)))"
    using process_burst_batch [OF Cons.prems(1) ok(1)] by blast
  then have "process_burst bufs matrix = Some (Some (matrix\<lparr> dm_stages := st, dm_app := a \<rparr>))"
    using a(1) by (simp add: batch_one_stage [OF ok(2) assms(3,4)])
  moreover have "idle (matrix\<lparr> dm_stages := st, dm_app := a \<rparr>)" using st(1) by (simp add: idle_def)
  ultimately show ?case using Cons.IH [of "matrix\<lparr> dm_stages := st, dm_app := a \<rparr>"] Cons.prems(2) a(2) by simp
qed simp

lemma single_core_one_stage:
  assumes "\<forall>bufs \<in> set bursts. burst_ok bufs \<and> (\<forall>m \<in> set bufs. in_stage s m)" and "s \<noteq> ROUTER" "s \<noteq> IP"
    and "for_each (stage_packet crypto s) (concat bursts) (MarkRunStarted app) = Some (Some app')"
  shows "single_core bursts app crypto = Some (Some app')"
  using bursts_one_stage [OF idle_new assms(1-3), of "MarkRunStarted app" crypto app'] assms(4)
  by (auto simp: single_core_def DataMatrix_new_def)

subsection \<open>The link\<close>

text \<open>A buffer that holds a frame as it was sent.\<close>

definition carries :: "mbuf \<Rightarrow> bytes \<Rightarrow> bool" where
  "carries b frame \<longleftrightarrow> mb_data b = frame \<and> mb_len b = length frame \<and> mb_cksum b \<noteq> IP_CKSUM_BAD"

text \<open>
  \<open>link\<close> relates the generator to the receiver; \<open>count\<close> is the counter of the family's frames and
  \<open>rest\<close> what else the receiver counts.
\<close>

locale stream_link = traffic_gen amend good pool streams frame after
  for amend :: "'g amend" and good pool streams frame after +
  fixes crypto :: Crypto and stage :: EnumStages and link :: "'g \<Rightarrow> RX_Application \<Rightarrow> bool"
    and count :: "RX_Application \<Rightarrow> u64" and rest :: "RX_Application \<Rightarrow> 'c"
  assumes stage: "stage \<noteq> ROUTER" "stage \<noteq> IP"
    and in_stage: "good g \<Longrightarrow> unat (idx d) < streams \<Longrightarrow> carries b (frame g d) \<Longrightarrow> in_stage stage b \<and> buffer_ok b"
    and packet: "good g \<Longrightarrow> unat (idx d) < streams \<Longrightarrow> carries b (frame g d) \<Longrightarrow> link g app \<Longrightarrow>
      \<exists>app'. stage_packet crypto stage b app = Some (Some app') \<and> link (after g d) app' \<and> count app' = count app + 1 \<and> rest app' = rest app"
begin

lemma frames_in_stage:
  assumes "good g" and "\<forall>d \<in> set ds. unat (idx d) < streams" and "list_all2 carries bs (frames_of frame after g ds)"
  shows "\<forall>b \<in> set bs. in_stage stage b \<and> buffer_ok b"
  using assms
proof (induction ds arbitrary: g bs)
  case (Cons d ds)
  then obtain b bs' where bs: "bs = b # bs'" "carries b (frame g d)" "list_all2 carries bs' (frames_of frame after (after g d) ds)"
    by (auto simp: list_all2_Cons2)
  with Cons in_stage [of g d b] good_after [of g d] show ?case by auto
qed simp

lemma frames_linked:
  assumes "good g" and "\<forall>d \<in> set ds. unat (idx d) < streams" and "list_all2 carries bs (frames_of frame after g ds)" and "link g app"
  shows "\<exists>app'. for_each (stage_packet crypto stage) bs app = Some (Some app') \<and> link (foldl after g ds) app' \<and>
    count app' = count app + of_nat (length ds) \<and> rest app' = rest app"
  using assms
proof (induction ds arbitrary: g bs app)
  case (Cons d ds)
  then obtain b bs' where bs: "bs = b # bs'" "carries b (frame g d)" "list_all2 carries bs' (frames_of frame after (after g d) ds)"
    by (auto simp: list_all2_Cons2)
  have d: "unat (idx d) < streams" using Cons.prems(2) by simp
  obtain app1 where app1: "stage_packet crypto stage b app = Some (Some app1)" "link (after g d) app1" "count app1 = count app + 1" "rest app1 = rest app"
    using packet [OF Cons.prems(1) d bs(2) Cons.prems(4)] by blast
  then show ?case using Cons.IH [OF good_after [OF Cons.prems(1) d] _ bs(3) app1(2)] Cons.prems(2) bs(1) by auto
qed simp

text \<open>A run of the generator whose frames all leave and all arrive.\<close>

lemma clean_run:
  assumes "good gen" and "\<forall>b \<in># M. pool b" and "\<forall>u \<in> set txUnits. \<forall>d \<in> set (unit_packets u). unat (idx d) < streams"
    and "link gen (MarkRunStarted app)" and "tx_run amend txUnits (tx_start gen M) s" and "errSendCnt (tl_stat s) = 0"
    and "length (tl_made s) < 2 ^ 32" and "list_all2 carries (concat bursts) (tl_wire s)" and "\<forall>bufs \<in> set bursts. length bufs \<le> RX_BURST_SIZE"
  shows "\<exists>app'. single_core bursts app crypto = Some (Some app') \<and> link (tl_gen s) app' \<and>
    count app' = count (MarkRunStarted app) + of_nat (length (tl_wire s)) \<and> rest app' = rest (MarkRunStarted app)"
proof -
  note acc = tx_accounts [OF assms(5)]
  let ?k = "length (tl_made s) - length (tl_wire s)"
  have "unat (of_nat ?k :: u32) = ?k" by (rule unat_of_nat_small) (use assms(7) in simp)
  then have "?k = 0" using acc(2) assms(6) by simp
  moreover have "length (tl_wire s) \<le> length (tl_made s)" using acc(3) by (rule list_emb_length)
  ultimately have "tl_wire s = tl_made s" using subseq_same_length [OF acc(3)] by simp
  then have made: "tl_wire s = frames_of frame after gen (tl_descs s)" "tl_gen s = foldl after gen (tl_descs s)"
    "\<forall>d \<in> set (tl_descs s). unat (idx d) < streams"
    using tx_reachable [OF assms(5,1-3)] by simp_all
  have b: "list_all2 carries (concat bursts) (frames_of frame after gen (tl_descs s))" using assms(8) made(1) by simp
  obtain app' where app': "for_each (stage_packet crypto stage) (concat bursts) (MarkRunStarted app) = Some (Some app')"
    "link (tl_gen s) app'" "count app' = count (MarkRunStarted app) + of_nat (length (tl_descs s))" "rest app' = rest (MarkRunStarted app)"
    using frames_linked [OF assms(1) made(3) b assms(4)] made(2) by auto
  have "\<forall>bufs \<in> set bursts. burst_ok bufs \<and> (\<forall>b \<in> set bufs. in_stage stage b)"
    using frames_in_stage [OF assms(1) made(3) b] assms(9) by (auto simp: burst_ok_def)
  then have "single_core bursts app crypto = Some (Some app')" using app'(1) stage by (intro single_core_one_stage)
  moreover have "length (tl_descs s) = length (tl_wire s)" by (simp add: made(1))
  ultimately show ?thesis using app'(2-4) by auto
qed

end

end
