(* ===== verification/R_Traffic_Gen.thy ===== *)
theory R_Traffic_Gen
  imports Traffic_Gen R_Parser
begin

text \<open>
  The routable generators: \<open>src/bus_generator/r_goose_traffic_gen.cpp\<close>, \<open>r_goose_traffic_gen.hpp\<close>,
  \<open>r_sv_traffic_gen.cpp\<close> and \<open>r_sv_traffic_gen.hpp\<close>. The skeleton is the prefix of the frame, an empty
  session PDU and the APDU of an L2 skeleton; a frame is made by writing the stream's group, ports,
  session number and message fields, and by sealing the result. Under AES-GCM the message is written
  into a plaintext copy first, because the buffer still holds an older ciphertext.

  The security mode is a template parameter of the source and an argument here; the crypto backend
  is the record \<open>Crypto\<close> of \<open>R_Session\<close>, its readiness the argument \<open>ready\<close>.
\<close>

subsection \<open>The skeleton\<close>

text \<open>What the two \<open>MakeSkeletonPacket\<close> routines have in common.\<close>

record RSkeleton =
  rk_skeleton :: bytes
  rk_skeletonSize :: nat
  rk_dst :: "DstFields list"
  rk_regionOffset :: u16
  rk_spduOffset :: u16
  rk_plain :: bytes
  rk_l2ApduOff :: nat

primrec dst_fields_list :: "bytes \<Rightarrow> u32 \<Rightarrow> nat list \<Rightarrow> DstFields list option" where
  "dst_fields_list skeleton dstIP [] = Some []"
| "dst_fields_list skeleton dstIP (i # is) = do {
     d \<leftarrow> make_dst_fields skeleton (stream_dst_ip dstIP (of_nat i));
     ds \<leftarrow> dst_fields_list skeleton dstIP is;
     Some (d # ds) }"

definition r_params :: "u8 \<Rightarrow> u8 \<Rightarrow> SecurityMode \<Rightarrow> u16 \<Rightarrow> BuildParams" where
  "r_params si payloadType mode apduLen = \<lparr> bp_si = si, bp_payloadType = payloadType, bp_mode = mode, bp_spduNumber = 0,
     bp_keyId = KEY_ID, bp_appid = 0, bp_apduLength = apduLen, bp_simulation = False \<rparr>"

definition make_r_skeleton ::
  "string \<Rightarrow> u8 \<Rightarrow> u8 \<Rightarrow> nat \<Rightarrow> bytes \<Rightarrow> nat \<Rightarrow> nat \<Rightarrow> RFrameConfig \<Rightarrow> (GenError + RSkeleton) option" where
  "make_r_skeleton name si payloadType MAX_PACKET_SIZE l2Buf l2AppidOff l2Size cfg = do {
     let l2ApduOff = l2AppidOff + 8;
     lengthField \<leftarrow> get_u16 l2Buf (l2AppidOff + 2);
     if lengthField < 8 \<or> l2Size < l2ApduOff + (unat lengthField - 8)
     then Some (Inl (RuntimeError (''L2 '' @ name @ '' skeleton has an inconsistent length field'')))
     else do {
       let apduLen = lengthField - 8;
       let ivLen = iv_length (rf_mode cfg);
       let udpPayloadSize = udp_payload_size (rf_mode cfg) (unat apduLen);
       let skeletonSize = OFF_UDP_PAYLOAD + udpPayloadSize;
       if MAX_PACKET_SIZE < skeletonSize
       then Some (Inl (RuntimeError (''R-'' @ name @ '' frame exceeds '' @ dec MAX_PACKET_SIZE @ '' bytes'')))
       else do {
         (skeleton, _) \<leftarrow> build_prefix (replicate MAX_PACKET_SIZE 0) cfg udpPayloadSize;
         dst \<leftarrow> dst_fields_list skeleton (rf_dstIP cfg) [0..<unat R_DST_SPREAD];
         (apduOff, skeleton) \<leftarrow> within skeleton OFF_UDP_PAYLOAD
           (\<lambda>pdu. map_option prod.swap (build pdu (r_params si payloadType (rf_mode cfg) apduLen)));
         apdu \<leftarrow> rds l2Buf l2ApduOff (unat apduLen);
         skeleton \<leftarrow> wrs skeleton (OFF_UDP_PAYLOAD + apduOff) apdu;
         let regionOff = OFF_UDP_PAYLOAD + payload_hdr_offset ivLen + 4;
         plain \<leftarrow> rds skeleton regionOff (PAYLOAD_ELEM_SIZE + unat apduLen);
         Some (Inr \<lparr> rk_skeleton = skeleton, rk_skeletonSize = skeletonSize, rk_dst = dst,
           rk_regionOffset = of_nat regionOff, rk_spduOffset = of_nat (OFF_UDP_PAYLOAD + OFF_SPDU_NUMBER),
           rk_plain = plain, rk_l2ApduOff = l2ApduOff \<rparr>) } } }"

text \<open>An offset of the L2 frame seen from the payload header; the sum is truncated to 16 bits.\<close>

definition rebase :: "nat \<Rightarrow> u16 \<Rightarrow> u16" where
  "rebase l2ApduOff off = of_nat PAYLOAD_ELEM_SIZE + (off - of_nat l2ApduOff)"

subsection \<open>Frame fields common to both generators\<close>

definition amend_r_envelope :: "DstFields list \<Rightarrow> u16 \<Rightarrow> u32 \<Rightarrow> u16 \<Rightarrow> u32 \<Rightarrow> bytes \<Rightarrow> bytes option" where
  "amend_r_envelope dst_fields appid stream spduOffset spduNumber packet = do {
     packet \<leftarrow> put_u16 packet OFF_UDP_SRC_PORT appid;
     dst \<leftarrow> at_index dst_fields (stream AND (R_DST_SPREAD - 1));
     packet \<leftarrow> wrs packet OFF_ETH_DMAC (df_dmac dst);
     packet \<leftarrow> wrs packet OFF_IP_DST (df_dstIP_be dst);
     packet \<leftarrow> wrs packet OFF_IP_CSUM (df_ipCsum_be dst);
     put_u32 packet (unat spduOffset) spduNumber }"

text \<open>
  The routine \<open>f\<close> on the region: on the plaintext copy under GCM, which is then copied into the packet,
  and in the packet otherwise. The result is the state, the packet and the copy.
\<close>

definition amend_region :: "SecurityMode \<Rightarrow> u16 \<Rightarrow> (bytes \<Rightarrow> (bytes \<times> 's) option) \<Rightarrow> bytes \<Rightarrow> bytes \<Rightarrow> ('s \<times> bytes \<times> bytes) option" where
  "amend_region mode regionOffset f plain packet =
     (if mode = SEC_GCM then do {
        (plain, s) \<leftarrow> f plain;
        packet \<leftarrow> wrs packet (unat regionOffset) plain;
        Some (s, packet, plain) }
      else do {
        (s, packet) \<leftarrow> within packet (unat regionOffset) (\<lambda>region. map_option prod.swap (f region));
        Some (s, packet, plain) })"

text \<open>The result of \<open>seal\<close> is not looked at.\<close>

definition seal_packet :: "SecurityMode \<Rightarrow> Crypto \<Rightarrow> bytes \<Rightarrow> bytes option" where
  "seal_packet mode crypto packet =
     (if mode \<noteq> SEC_NONE then map_option snd (within packet OFF_UDP_PAYLOAD (\<lambda>pdu. seal pdu mode crypto)) else Some packet)"

subsection \<open>R-GOOSE\<close>

record RGooseTrafficGen =
  rg_ieds :: "GooseSourceIED list"
  rg_units :: "TxUnit list"
  rg_crypto :: Crypto
  rg_baseIdx :: u32
  rg_tsDeltaChange :: u32
  rg_offsets :: "GOOSE_PARAM_OFFSETS \<Rightarrow> u16"
  rg_regionOffset :: u16
  rg_spduOffset :: u16
  rg_plain :: bytes
  rg_dst :: "DstFields list"
  rg_skeleton :: bytes
  rg_skeletonSize :: nat

definition rgoose_MakeSkeletonPacket :: "GooseTrafficGen \<Rightarrow> RFrameConfig \<Rightarrow> RGooseTrafficGen \<Rightarrow> (GenError + RGooseTrafficGen) option" where
  "rgoose_MakeSkeletonPacket l2 cfg gen =
     map_option (map_sum id (\<lambda>k. gen\<lparr> rg_skeleton := rk_skeleton k, rg_skeletonSize := rk_skeletonSize k, rg_dst := rk_dst k,
         rg_regionOffset := rk_regionOffset k, rg_spduOffset := rk_spduOffset k, rg_plain := rk_plain k,
         rg_offsets := (\<lambda>i. if i = GOOSE_APPID_OFFSET then 2 else rebase (rk_l2ApduOff k) (gt_offsets l2 i)) \<rparr>))
       (make_r_skeleton ''GOOSE'' SI_R_GOOSE PAYLOAD_TYPE_GOOSE MAX_GOOSE_PACKET_SIZE (gt_skeleton l2)
         (unat (gt_offsets l2 GOOSE_APPID_OFFSET)) (gt_skeletonSize l2) cfg)"

definition RGooseTrafficGen_new ::
  "Iec61850 \<Rightarrow> Crypto \<Rightarrow> bool \<Rightarrow> u32 \<Rightarrow> u32 \<Rightarrow> u32 \<Rightarrow> RFrameConfig \<Rightarrow> u32 \<Rightarrow> (GenError + RGooseTrafficGen) option" where
  "RGooseTrafficGen_new lib crypto ready MaxGooseNum SndFreq SignalsPerGoose cfg baseIdx =
     (if \<not> ready then Some (Inl (RuntimeError ''Failed to initialise crypto contexts for R-GOOSE''))
      else do {
        r \<leftarrow> GooseTrafficGen_new lib MaxGooseNum SndFreq SignalsPerGoose;
        case r of Inl e \<Rightarrow> Some (Inl e)
        | Inr l2 \<Rightarrow>
            map_option (map_sum id (\<lambda>gen. gen\<lparr> rg_units := gt_units l2 \<rparr>))
              (rgoose_MakeSkeletonPacket l2 cfg
                \<lparr> rg_ieds = map (\<lambda>i. GooseSourceIED_init\<lparr> gi_sID := print_id 9 (dec_padded 8 (unat baseIdx + i + 1)) \<rparr>) [0..<unat MaxGooseNum],
                  rg_units = [], rg_crypto = crypto, rg_baseIdx = baseIdx, rg_tsDeltaChange = 0, rg_offsets = (\<lambda>_. 0),
                  rg_regionOffset = 0, rg_spduOffset = 0, rg_plain = [], rg_dst = [],
                  rg_skeleton = replicate MAX_GOOSE_PACKET_SIZE 0, rg_skeletonSize = 0 \<rparr>) })"

definition rgoose_AmendPacket :: "SecurityMode \<Rightarrow> PacketDesc \<Rightarrow> bytes \<Rightarrow> RGooseTrafficGen \<Rightarrow> (bytes \<times> nat \<times> RGooseTrafficGen) option" where
  "rgoose_AmendPacket mode desc packet gen = do {
     ied \<leftarrow> at_index (rg_ieds gen) (idx desc);
     let stream = idx desc + rg_baseIdx gen;
     let appid = (ucast (stream + 1) :: u16);
     let ied = ied\<lparr> gi_spduNumber := gi_spduNumber ied + 1 \<rparr>;
     packet \<leftarrow> amend_r_envelope (rg_dst gen) appid stream (rg_spduOffset gen) (gi_spduNumber ied) packet;
     (ied, packet, plain) \<leftarrow> amend_region mode (rg_regionOffset gen)
       (amend_goose_fields (rg_offsets gen) (rg_tsDeltaChange gen) appid ied) (rg_plain gen) packet;
     packet \<leftarrow> seal_packet mode (rg_crypto gen) packet;
     Some (packet, rg_skeletonSize gen, gen\<lparr> rg_ieds := (rg_ieds gen)[unat (idx desc) := ied], rg_plain := plain \<rparr>) }"

subsection \<open>R-SV\<close>

record RSVTrafficGen =
  rv_ieds :: "SVSourceIED list"
  rv_units :: "TxUnit list"
  rv_crypto :: Crypto
  rv_baseIdx :: u32
  rv_appidOffset :: u16
  rv_asduOffs :: "nat \<Rightarrow> SV_ASDU_OFFSETS \<Rightarrow> u16"
  rv_regionOffset :: u16
  rv_spduOffset :: u16
  rv_plain :: bytes
  rv_dst :: "DstFields list"
  rv_skeleton :: bytes
  rv_skeletonSize :: nat
  rv_freq :: u32

definition rsv_MakeSkeletonPacket :: "SVTrafficGen \<Rightarrow> RFrameConfig \<Rightarrow> RSVTrafficGen \<Rightarrow> (GenError + RSVTrafficGen) option" where
  "rsv_MakeSkeletonPacket l2 cfg gen =
     map_option (map_sum id (\<lambda>k. gen\<lparr> rv_skeleton := rk_skeleton k, rv_skeletonSize := rk_skeletonSize k, rv_dst := rk_dst k,
         rv_regionOffset := rk_regionOffset k, rv_spduOffset := rk_spduOffset k, rv_plain := rk_plain k, rv_appidOffset := 2,
         rv_asduOffs := (\<lambda>i f. let off = sg_asduOffs l2 i f in if off = 0 then 0 else rebase (rk_l2ApduOff k) off) \<rparr>))
       (make_r_skeleton ''SV'' SI_R_SV PAYLOAD_TYPE_SV MAX_SV_PACKET_SIZE (sg_skeleton l2)
         (unat (sg_appidOffset l2)) (sg_skeletonSize l2) cfg)"

definition RSVTrafficGen_new ::
  "Iec61850 \<Rightarrow> Crypto \<Rightarrow> bool \<Rightarrow> u32 \<Rightarrow> SV_TYPE \<Rightarrow> RFrameConfig \<Rightarrow> u32 \<Rightarrow> (GenError + RSVTrafficGen) option" where
  "RSVTrafficGen_new lib crypto ready num type cfg baseIdx =
     (if \<not> ready then Some (Inl (RuntimeError ''Failed to initialise crypto contexts for R-SV''))
      else do {
        r \<leftarrow> SVTrafficGen_new lib num type;
        case r of Inl e \<Rightarrow> Some (Inl e)
        | Inr l2 \<Rightarrow>
            map_option (map_sum id (\<lambda>gen. gen\<lparr> rv_units := sg_units l2 \<rparr>))
              (rsv_MakeSkeletonPacket l2 cfg
                \<lparr> rv_ieds = map (\<lambda>i. sv_InitIED (of_nat (unat baseIdx + i + 1)) SVSourceIED_init) [0..<unat num],
                  rv_units = [], rv_crypto = crypto, rv_baseIdx = baseIdx, rv_appidOffset = 0, rv_asduOffs = (\<lambda>_ _. 0),
                  rv_regionOffset = 0, rv_spduOffset = 0, rv_plain = [], rv_dst = [],
                  rv_skeleton = replicate MAX_SV_PACKET_SIZE 0, rv_skeletonSize = 0, rv_freq = sg_freq l2 \<rparr>) })"

text \<open>\<open>PrepareFrame\<close>: the envelope, the session number of the stream, and the APPID of the region.\<close>

definition PrepareFrame :: "SecurityMode \<Rightarrow> PacketDesc \<Rightarrow> SVSourceIED \<Rightarrow> RSVTrafficGen \<Rightarrow> bytes \<Rightarrow> (SVSourceIED \<times> bytes \<times> bytes) option" where
  "PrepareFrame mode desc ied gen packet = do {
     let stream = idx desc + rv_baseIdx gen;
     let appid = (ucast (stream + 1) :: u16);
     let ied = ied\<lparr> si_spduNumber := si_spduNumber ied + 1 \<rparr>;
     packet \<leftarrow> amend_r_envelope (rv_dst gen) appid stream (rv_spduOffset gen) (si_spduNumber ied) packet;
     if mode = SEC_GCM then do { plain \<leftarrow> put_u16 (rv_plain gen) (unat (rv_appidOffset gen)) appid; Some (ied, packet, plain) }
     else do { packet \<leftarrow> put_u16 packet (unat (rv_regionOffset gen) + unat (rv_appidOffset gen)) appid; Some (ied, packet, rv_plain gen) } }"

definition FinishFrame :: "SecurityMode \<Rightarrow> RSVTrafficGen \<Rightarrow> bytes \<Rightarrow> (bytes \<times> nat) option" where
  "FinishFrame mode gen packet = do {
     packet \<leftarrow> (if mode = SEC_GCM then wrs packet (unat (rv_regionOffset gen)) (rv_plain gen) else Some packet);
     packet \<leftarrow> seal_packet mode (rv_crypto gen) packet;
     Some (packet, rv_skeletonSize gen) }"

text \<open>The ASDUs \<open>is\<close> written into the region, which is the plaintext copy under GCM.\<close>

definition rsv_amend :: "nat list \<Rightarrow> SecurityMode \<Rightarrow> PacketDesc \<Rightarrow> bytes \<Rightarrow> RSVTrafficGen \<Rightarrow> (bytes \<times> nat \<times> RSVTrafficGen) option" where
  "rsv_amend is mode desc packet gen = do {
     ied \<leftarrow> at_index (rv_ieds gen) (idx desc);
     (ied, packet, plain) \<leftarrow> PrepareFrame mode desc ied gen packet;
     (packet, plain, ied) \<leftarrow>
       (if mode = SEC_GCM then do { (plain, ied) \<leftarrow> amend_asdus (rv_asduOffs gen) (rv_freq gen) is (plain, ied); Some (packet, plain, ied) }
        else do { (ied, packet) \<leftarrow> within packet (unat (rv_regionOffset gen))
                    (\<lambda>region. map_option prod.swap (amend_asdus (rv_asduOffs gen) (rv_freq gen) is (region, ied)));
                  Some (packet, plain, ied) });
     let gen = gen\<lparr> rv_ieds := (rv_ieds gen)[unat (idx desc) := ied], rv_plain := plain \<rparr>;
     (packet, size) \<leftarrow> FinishFrame mode gen packet;
     Some (packet, size, gen) }"

definition rsv_AmendPacketSV80 :: "SecurityMode \<Rightarrow> PacketDesc \<Rightarrow> bytes \<Rightarrow> RSVTrafficGen \<Rightarrow> (bytes \<times> nat \<times> RSVTrafficGen) option" where
  "rsv_AmendPacketSV80 mode desc packet gen = rsv_amend [0] mode desc packet gen"

definition rsv_AmendPacketSV256 :: "SecurityMode \<Rightarrow> PacketDesc \<Rightarrow> bytes \<Rightarrow> RSVTrafficGen \<Rightarrow> (bytes \<times> nat \<times> RSVTrafficGen) option" where
  "rsv_AmendPacketSV256 mode desc packet gen = rsv_amend [0..<MAX_SV_ASDU_NUM] mode desc packet gen"

end
