(* ===== verification/R_Gen_Frames.thy ===== *)
theory R_Gen_Frames
  imports R_Traffic_Gen Tx_Loop
begin

text \<open>
  What the routable SV generator puts into a buffer: the prefix of the stream's group, and the sealed
  session PDU with the stream's next number and samples. A buffer that comes back from the card holds
  an older frame, under AES-GCM as ciphertext; the lemmas say that \<open>AmendPacket\<close> turns it into the next
  frame all the same, so that the generator meets the interface \<open>traffic_gen\<close> of the sending loops.
\<close>

subsection \<open>The parts of a buffer\<close>

lemma wrs_behind:
  assumes "n = length a + k"
  shows "wrs (a @ x) n v = map_option ((@) a) (wrs x k v)" and "put_u16 (a @ x) n w = map_option ((@) a) (put_u16 x k w)"
    and "put_u32 (a @ x) n u = map_option ((@) a) (put_u32 x k u)"
proof -
  have *: "wrs (a @ x) n v = map_option ((@) a) (wrs x k v)" for v
    by (simp add: assms wrs_def patch_def)
  show "wrs (a @ x) n v = map_option ((@) a) (wrs x k v)" "put_u16 (a @ x) n w = map_option ((@) a) (put_u16 x k w)"
    "put_u32 (a @ x) n u = map_option ((@) a) (put_u32 x k u)"
    by (simp_all add: put_u16_def put_u32_def *)
qed

definition r_pdu :: "RFrameConfig \<Rightarrow> u8 \<Rightarrow> u8 \<Rightarrow> nat \<Rightarrow> u32 \<Rightarrow> u16 \<Rightarrow> BuildParams" where
  "r_pdu cfg si ty len spdu appid = (r_params si ty (rf_mode cfg) (of_nat len))\<lparr> bp_spduNumber := spdu, bp_appid := appid \<rparr>"

lemma r_pdu_sel [simp]:
  "bp_si (r_pdu cfg si ty len spdu appid) = si" "bp_payloadType (r_pdu cfg si ty len spdu appid) = ty"
  "bp_mode (r_pdu cfg si ty len spdu appid) = rf_mode cfg" "bp_spduNumber (r_pdu cfg si ty len spdu appid) = spdu"
  "bp_appid (r_pdu cfg si ty len spdu appid) = appid" "bp_apduLength (r_pdu cfg si ty len spdu appid) = of_nat len"
  by (simp_all add: r_pdu_def r_params_def)

lemma r_pdu_parts:
  "session_image (r_pdu cfg si ty len spdu appid) iv = session_image (r_pdu cfg si ty len spdu 0) iv"
  "payload_elem (r_pdu cfg si ty len spdu appid) = payload_elem (r_pdu cfg si ty len 0 appid)"
  by (simp_all add: session_image_def payload_elem_def payload_len_def r_pdu_def r_params_def)

text \<open>A message between payload header and trailer.\<close>

definition region_ok :: "RFrameConfig \<Rightarrow> u8 \<Rightarrow> u8 \<Rightarrow> nat \<Rightarrow> (bytes \<Rightarrow> bool) \<Rightarrow> bytes \<Rightarrow> bool" where
  "region_ok cfg si ty len A data \<longleftrightarrow> (\<exists>appid apdu. data = payload_elem (r_pdu cfg si ty len 0 appid) @ apdu \<and> length apdu = len \<and> A apdu)"

definition r_buffer :: "RFrameConfig \<Rightarrow> u8 \<Rightarrow> u8 \<Rightarrow> nat \<Rightarrow> (bytes \<Rightarrow> bool) \<Rightarrow> bytes \<Rightarrow> bool" where
  "r_buffer cfg si ty len A b \<longleftrightarrow> (\<exists>ip port spdu iv data space r.
     b = udp_prefix (cfg\<lparr> rf_dstIP := ip \<rparr>) (udp_payload_size (rf_mode cfg) len) port @
       session_image (r_pdu cfg si ty len spdu 0) iv @ data @ space @ r \<and>
     length iv = unat (iv_length (rf_mode cfg)) \<and> length data = 6 + len \<and> length space = trailer_size (rf_mode cfg) \<and>
     (rf_mode cfg \<noteq> SEC_GCM \<longrightarrow> region_ok cfg si ty len A data))"

definition group_fields :: "RFrameConfig \<Rightarrow> nat \<Rightarrow> u32 \<Rightarrow> DstFields" where
  "group_fields cfg n ip = \<lparr> df_dmac = mac_data (multicast_mac ip), df_dstIP_be = put32 ip, df_ipCsum_be = put16 (ip_csum (cfg\<lparr> rf_dstIP := ip \<rparr>) n) \<rparr>"

definition dst_ok :: "RFrameConfig \<Rightarrow> nat \<Rightarrow> DstFields list \<Rightarrow> bool" where
  "dst_ok cfg n dst \<longleftrightarrow> dst = map (\<lambda>i. group_fields cfg n (stream_dst_ip (rf_dstIP cfg) (of_nat i))) [0..<unat R_DST_SPREAD]"

lemma stream_group:
  assumes "dst_ok cfg n dst"
  shows "at_index dst (stream AND (R_DST_SPREAD - 1)) = Some (group_fields cfg n (stream_dst_ip (rf_dstIP cfg) stream))"
proof -
  have "stream AND 127 = take_bit 7 stream" by (simp add: take_bit_eq_mask mask_eq_exp_minus_1)
  then have lt: "unat (stream AND 127) < 128" using take_bit_nat_less_exp [of 7 "unat stream"] by (simp add: unsigned_take_bit_eq)
  have "stream_dst_ip (rf_dstIP cfg) (of_nat (unat (stream AND 127))) = stream_dst_ip (rf_dstIP cfg) stream"
    by (simp add: stream_dst_ip_def and.assoc)
  with lt assms show ?thesis by (simp add: dst_ok_def at_index_def)
qed

lemma put_spdu:
  "put_u32 (session_image (r_pdu cfg si ty len old 0) iv @ rest) 10 spdu = Some (session_image (r_pdu cfg si ty len spdu 0) iv @ rest)"
proof -
  let ?p = "r_pdu cfg si ty len"
  let ?A = "[CLTP_LI, CLTP_UD, si, SESSION_HDR_LI, PI_COMMON_HDR, COMMON_HDR_LI2] @ put32 (20 + payload_len (?p 0 0))"
  let ?B = "put16 SESSION_VERSION @ put32 0 @ put16 0 @ put32 (bp_keyId (?p 0 0)) @ [of_nat (length iv)] @ iv @ put32 (payload_len (?p 0 0)) @ rest"
  have f: "session_image (?p n 0) iv @ rest = ?A @ put32 n @ ?B" for n
    by (simp add: session_image_def payload_len_def r_pdu_def r_params_def)
  show ?thesis unfolding f put_u32_def by (rule wrs_append) simp_all
qed

lemma amend_envelope:
  assumes "dst_ok cfg n dst"
  shows "amend_r_envelope dst appid stream 52 spdu
      (udp_prefix (cfg\<lparr> rf_dstIP := ip \<rparr>) n port @ session_image (r_pdu cfg si ty len old 0) iv @ rest) =
    Some (udp_prefix (cfg\<lparr> rf_dstIP := stream_dst_ip (rf_dstIP cfg) stream \<rparr>) n appid @ session_image (r_pdu cfg si ty len spdu 0) iv @ rest)"
proof -
  let ?ip = "stream_dst_ip (rf_dstIP cfg) stream" and ?c = "cfg\<lparr> rf_dstIP := ip \<rparr>"
  let ?img = "\<lambda>k. session_image (r_pdu cfg si ty len k 0) iv @ rest"
  have cc: "?c\<lparr> rf_dstIP := ?ip \<rparr> = cfg\<lparr> rf_dstIP := ?ip \<rparr>" by simp
  note patch = patch_dst_fields [of ?c n appid "?img old" ?ip, unfolded cc]
  have s: "put_u32 (udp_prefix c n appid @ ?img old) 52 spdu = Some (udp_prefix c n appid @ ?img spdu)" for c
    using wrs_behind(3) [of 52 "udp_prefix c n appid" 10 "?img old" spdu] by (simp add: put_spdu del: put_u32_Some)
  have "amend_r_envelope dst appid stream 52 spdu (udp_prefix ?c n port @ ?img old) =
      Option.bind (do { buf \<leftarrow> wrs (udp_prefix ?c n appid @ ?img old) OFF_ETH_DMAC (mac_data (multicast_mac ?ip));
        buf \<leftarrow> wrs buf OFF_IP_DST (put32 ?ip);
        wrs buf OFF_IP_CSUM (put16 (ip_csum (cfg\<lparr> rf_dstIP := ?ip \<rparr>) n)) }) (\<lambda>b. put_u32 b 52 spdu)"
    unfolding amend_r_envelope_def put_src_port stream_group [OF assms] Option.bind.simps
    by (simp add: group_fields_def bind_assoc del: put_u32_Some)
  also have "\<dots> = Some (udp_prefix (cfg\<lparr> rf_dstIP := ?ip \<rparr>) n appid @ ?img spdu)"
    unfolding patch Option.bind.simps by (rule s)
  finally show ?thesis .
qed

subsection \<open>Sealing in the buffer\<close>

text \<open>The layout of a sealed PDU, whatever the mode.\<close>

lemma sealed_pdu_parts:
  assumes "length apdu = unat (bp_apduLength p)" and "hmac_works crypto" "gcm_works crypto"
  obtains iv data space where "sealed_pdu crypto p apdu = session_image p iv @ data @ space"
    and "length iv = unat (iv_length (bp_mode p))" and "length data = 6 + length apdu" and "length space = trailer_size (bp_mode p)"
    and "bp_mode p \<noteq> SEC_GCM \<Longrightarrow> data = payload_elem p @ apdu"
proof (cases "bp_mode p")
  case SEC_NONE
  then show thesis using that [of "[]" "payload_elem p @ apdu" "[]"] by (simp add: sealed_pdu_def layout_defs)
next
  case SEC_HMAC
  obtain t where t: "c_HMAC crypto (session_image p [] @ payload_elem p @ apdu) = Some t" "length t = 16"
    using assms(2) unfolding hmac_works_def by blast
  show thesis
    by (rule that [of "[]" "payload_elem p @ apdu" "SIGNATURE_TAG # of_nat TAG_SIZE # t"])
      (use t SEC_HMAC in \<open>simp_all add: sealed_pdu_def layout_defs\<close>)
next
  case SEC_GCM
  let ?iv = "DeriveIV (bp_keyId p) (bp_spduNumber p)"
  obtain ct t where enc: "c_Encrypt crypto ?iv (session_image p ?iv) (payload_elem p @ apdu) = (True, ct, t)"
    and len: "length ct = length (payload_elem p @ apdu)" "length t = 16"
    using gcm_worksE [OF assms(3) length_DeriveIV] by blast
  show thesis
    by (rule that [of ?iv ct "SIGNATURE_TAG # of_nat TAG_SIZE # t"])
      (use enc len SEC_GCM in \<open>simp_all add: sealed_pdu_def layout_defs\<close>)
qed

lemma seal_packet_image:
  assumes "length apdu = len" and "len < 65536" and "hmac_works crypto" "gcm_works crypto"
    and "length iv = unat (iv_length (rf_mode cfg))" and "length space = trailer_size (rf_mode cfg)"
  shows "seal_packet (rf_mode cfg) crypto (udp_prefix c n port @ session_image (r_pdu cfg si ty len spdu 0) iv @
      (payload_elem (r_pdu cfg si ty len 0 appid) @ apdu) @ space @ r) =
    Some (udp_prefix c n port @ sealed_pdu crypto (r_pdu cfg si ty len spdu appid) apdu @ r)"
proof -
  let ?p = "r_pdu cfg si ty len spdu appid"
  have u: "length apdu = unat (bp_apduLength ?p)" using assms(1,2) by (simp add: unat_of_nat_small)
  have s: "seal (session_image ?p iv @ payload_elem ?p @ apdu @ space @ r) (rf_mode cfg) crypto = Some (True, sealed_pdu crypto ?p apdu @ r)"
    using seal_pdu(1) [OF u assms(3,4), of iv space r] assms(5,6) by simp
  have "seal_packet (rf_mode cfg) crypto (udp_prefix c n port @ session_image ?p iv @ payload_elem ?p @ apdu @ space @ r) =
      Some (udp_prefix c n port @ sealed_pdu crypto ?p apdu @ r)"
    using s by (cases "rf_mode cfg = SEC_NONE") (simp_all add: seal_packet_def within_def seal_def)
  then show ?thesis by (simp add: r_pdu_parts(1) [of cfg si ty len spdu appid] r_pdu_parts(2) [of cfg si ty len spdu appid])
qed

lemma sealed_buffer:
  assumes "length apdu = len" and "len < 65536" and "hmac_works crypto" "gcm_works crypto" and "A apdu"
    and "n = udp_payload_size (rf_mode cfg) len"
  shows "r_buffer cfg si ty len A (udp_prefix (cfg\<lparr> rf_dstIP := ip \<rparr>) n port @ sealed_pdu crypto (r_pdu cfg si ty len spdu appid) apdu @ r)"
proof -
  let ?p = "r_pdu cfg si ty len spdu appid"
  have u: "length apdu = unat (bp_apduLength ?p)" using assms(1,2) by (simp add: unat_of_nat_small)
  obtain iv data space where p: "sealed_pdu crypto ?p apdu = session_image ?p iv @ data @ space"
    "length iv = unat (iv_length (rf_mode cfg))" "length data = 6 + length apdu" "length space = trailer_size (rf_mode cfg)"
    "rf_mode cfg \<noteq> SEC_GCM \<Longrightarrow> data = payload_elem ?p @ apdu"
    using sealed_pdu_parts [OF u assms(3,4)] unfolding r_pdu_sel by metis
  have "rf_mode cfg \<noteq> SEC_GCM \<longrightarrow> region_ok cfg si ty len A data"
    using p(5) assms(1,5) by (auto simp: region_ok_def r_pdu_parts(2) [of cfg si ty len spdu appid])
  then show ?thesis
    unfolding r_buffer_def using p(1-4) assms(1,6)
    by (intro exI [of _ ip] exI [of _ port] exI [of _ spdu] exI [of _ iv] exI [of _ data] exI [of _ space] exI [of _ r])
      (simp add: r_pdu_parts(1) [of cfg si ty len spdu appid])
qed

lemma put_region_appid:
  "put_u16 (payload_elem (r_pdu cfg si ty len 0 old) @ rest) 2 appid = Some (payload_elem (r_pdu cfg si ty len 0 appid) @ rest)"
proof -
  have f: "payload_elem (r_pdu cfg si ty len 0 a) @ rest = [ty, 0] @ put16 a @ (put16 (of_nat len) @ rest)" for a
    by (simp add: payload_elem_def r_pdu_def r_params_def)
  show ?thesis unfolding f put_u16_def by (rule wrs_append) simp_all
qed

subsection \<open>R-SV\<close>

abbreviation sv_message :: "nat \<Rightarrow> u8 \<Rightarrow> bytes \<Rightarrow> bool" where
  "sv_message m synch apdu \<equiv> \<exists>xs. apdu = sv_gen_apdu synch xs \<and> ids_ok xs \<and> length xs = m"

abbreviation sv_len :: "nat \<Rightarrow> nat" where "sv_len m \<equiv> asdu_pos m m"

abbreviation sv_pdu :: "RFrameConfig \<Rightarrow> nat \<Rightarrow> u32 \<Rightarrow> u16 \<Rightarrow> BuildParams" where
  "sv_pdu cfg m \<equiv> r_pdu cfg SI_R_SV PAYLOAD_TYPE_SV (sv_len m)"

lemma length_sv_gen_apdu: "ids_ok xs \<Longrightarrow> length xs = m \<Longrightarrow> m = 1 \<or> m = 8 \<Longrightarrow> length (sv_gen_apdu synch xs) = sv_len m"
  using length_asdus [of xs synch] length_apdu_head [of m] by (auto simp: sv_gen_apdu_split asdu_pos_def)

lemma sv_len_small: "m = 1 \<or> m = 8 \<Longrightarrow> sv_len m < 65536"
  by (auto simp: asdu_pos_def)

definition rsv_gen_ok :: "RFrameConfig \<Rightarrow> nat \<Rightarrow> u8 \<Rightarrow> RSVTrafficGen \<Rightarrow> bool" where
  "rsv_gen_ok cfg m synch gen \<longleftrightarrow> (m = 1 \<or> m = 8) \<and> hmac_works (rv_crypto gen) \<and> gcm_works (rv_crypto gen) \<and>
     dst_ok cfg (udp_payload_size (rf_mode cfg) (sv_len m)) (rv_dst gen) \<and>
     unat (rv_regionOffset gen) = 73 + unat (iv_length (rf_mode cfg)) \<and> rv_spduOffset gen = 52 \<and> rv_appidOffset gen = 2 \<and>
     (\<forall>k < m. asdu_offsets 6 m k (rv_asduOffs gen k)) \<and>
     region_ok cfg SI_R_SV PAYLOAD_TYPE_SV (sv_len m) (sv_message m synch) (rv_plain gen) \<and>
     rv_skeletonSize gen = 42 + udp_payload_size (rf_mode cfg) (sv_len m) \<and>
     (\<forall>ied \<in> set (rv_ieds gen). 4 \<le> length (si_sID ied))"

definition rsv_sent_ied :: "nat \<Rightarrow> u32 \<Rightarrow> SVSourceIED \<Rightarrow> SVSourceIED" where
  "rsv_sent_ied m freq ied = ied\<lparr> si_spduNumber := si_spduNumber ied + 1, si_smpCnt := (next_smpCnt freq ^^ m) (si_smpCnt ied) \<rparr>"

definition rsv_message :: "nat \<Rightarrow> u8 \<Rightarrow> RSVTrafficGen \<Rightarrow> PacketDesc \<Rightarrow> bytes" where
  "rsv_message m synch gen d = (let ied = rv_ieds gen ! unat (idx d) in
     sv_gen_apdu synch (amended_asdus (rv_freq gen) (take 4 (si_sID ied)) m (si_smpCnt ied)))"

definition rsv_frame :: "RFrameConfig \<Rightarrow> nat \<Rightarrow> u8 \<Rightarrow> RSVTrafficGen \<Rightarrow> PacketDesc \<Rightarrow> bytes" where
  "rsv_frame cfg m synch gen d =
     (let stream = idx d + rv_baseIdx gen; appid = ucast (stream + 1)
      in udp_prefix (cfg\<lparr> rf_dstIP := stream_dst_ip (rf_dstIP cfg) stream \<rparr>) (udp_payload_size (rf_mode cfg) (sv_len m)) appid @
         sealed_pdu (rv_crypto gen) (sv_pdu cfg m (si_spduNumber (rv_ieds gen ! unat (idx d)) + 1) appid) (rsv_message m synch gen d))"

definition rsv_after :: "RFrameConfig \<Rightarrow> nat \<Rightarrow> u8 \<Rightarrow> RSVTrafficGen \<Rightarrow> PacketDesc \<Rightarrow> RSVTrafficGen" where
  "rsv_after cfg m synch gen d = gen\<lparr> rv_ieds := (rv_ieds gen)[unat (idx d) := rsv_sent_ied m (rv_freq gen) (rv_ieds gen ! unat (idx d))],
     rv_plain := (if rf_mode cfg = SEC_GCM then payload_elem (sv_pdu cfg m 0 (ucast (idx d + rv_baseIdx gen + 1))) @ rsv_message m synch gen d
                  else rv_plain gen) \<rparr>"

lemma amend_message:
  assumes "\<forall>k < m. asdu_offsets 6 m k (offs k)" and "m = 1 \<or> m = 8" and "ids_ok xs" and "length xs = m" and "4 \<le> length (si_sID ied)"
    and "length H = 6"
  shows "amend_asdus offs freq [0..<m] (H @ sv_gen_apdu synch xs @ r, ied) =
    Some (H @ sv_gen_apdu synch (amended_asdus freq (take 4 (si_sID ied)) m (si_smpCnt ied)) @ r,
      ied\<lparr> si_smpCnt := (next_smpCnt freq ^^ m) (si_smpCnt ied) \<rparr>)"
  using amend_asdus_apdu [of m H offs "[]" xs ied freq synch r] assms by simp

lemma within_behind: "n = length a \<Longrightarrow> within (a @ x) n f = map_option (\<lambda>(s, y). (s, a @ y)) (f x)"
  by (cases "f x") (auto simp: within_def)

lemma rsv_amend_frame:
  assumes ok: "rsv_gen_ok cfg m synch gen" and d: "unat (idx desc) < length (rv_ieds gen)"
    and b: "r_buffer cfg SI_R_SV PAYLOAD_TYPE_SV (sv_len m) (sv_message m synch) b"
  obtains r where "rsv_amend [0..<m] (rf_mode cfg) desc b gen =
    Some (rsv_frame cfg m synch gen desc @ r, rv_skeletonSize gen, rsv_after cfg m synch gen desc)"
proof -
  let ?n = "udp_payload_size (rf_mode cfg) (sv_len m)" and ?p = "sv_pdu cfg m"
  let ?stream = "idx desc + rv_baseIdx gen" let ?appid = "ucast (?stream + 1) :: u16"
  let ?ied = "rv_ieds gen ! unat (idx desc)" let ?spdu = "si_spduNumber ?ied + 1"
  let ?ied1 = "?ied\<lparr> si_spduNumber := ?spdu \<rparr>"
  let ?xs = "amended_asdus (rv_freq gen) (take 4 (si_sID ?ied)) m (si_smpCnt ?ied)" let ?apdu = "sv_gen_apdu synch ?xs"
  let ?pre = "udp_prefix (cfg\<lparr> rf_dstIP := stream_dst_ip (rf_dstIP cfg) ?stream \<rparr>) ?n ?appid"
  have g: "m = 1 \<or> m = 8" "hmac_works (rv_crypto gen)" "gcm_works (rv_crypto gen)" "dst_ok cfg ?n (rv_dst gen)"
    "unat (rv_regionOffset gen) = 73 + unat (iv_length (rf_mode cfg))" "rv_spduOffset gen = 52" "rv_appidOffset gen = 2"
    "\<forall>k < m. asdu_offsets 6 m k (rv_asduOffs gen k)" "4 \<le> length (si_sID ?ied)"
    using ok d by (auto simp: rsv_gen_ok_def)
  obtain old pxs where plain: "rv_plain gen = payload_elem (?p 0 old) @ sv_gen_apdu synch pxs" "ids_ok pxs" "length pxs = m"
    using ok by (auto simp: rsv_gen_ok_def region_ok_def)
  obtain ip port spdu iv data space r where buf: "b = udp_prefix (cfg\<lparr> rf_dstIP := ip \<rparr>) ?n port @ session_image (?p spdu 0) iv @ data @ space @ r"
    and len: "length iv = unat (iv_length (rf_mode cfg))" "length data = 6 + sv_len m" "length space = trailer_size (rf_mode cfg)"
    and region: "rf_mode cfg \<noteq> SEC_GCM \<longrightarrow> region_ok cfg SI_R_SV PAYLOAD_TYPE_SV (sv_len m) (sv_message m synch) data"
    using b unfolding r_buffer_def by blast
  have i: "at_index (rv_ieds gen) (idx desc) = Some ?ied" using d by (simp add: at_index_def)
  let ?head = "?pre @ session_image (?p ?spdu 0) iv"
  have h: "unat (rv_regionOffset gen) = length ?head" using g(5) len(1) by simp
  have env: "amend_r_envelope (rv_dst gen) ?appid ?stream (rv_spduOffset gen) ?spdu b = Some (?head @ data @ space @ r)"
    using amend_envelope [OF g(4), of ?appid ?stream ?spdu ip port SI_R_SV PAYLOAD_TYPE_SV "sv_len m" spdu iv "data @ space @ r"]
    by (simp add: buf g(6))
  have ids: "ids_ok ?xs" using g(9) by (intro ids_ok_amended) simp
  have la: "length ?apdu = sv_len m" using length_sv_gen_apdu [OF ids _ g(1)] by simp
  have msg: "amend_asdus (rv_asduOffs gen) (rv_freq gen) [0..<m] (payload_elem (?p 0 ?appid) @ sv_gen_apdu synch xs @ q, ?ied1) =
      Some (payload_elem (?p 0 ?appid) @ ?apdu @ q, rsv_sent_ied m (rv_freq gen) ?ied)" if "ids_ok xs" "length xs = m" for xs q
    using amend_message [OF g(8,1) that, of ?ied1 "payload_elem (?p 0 ?appid)" "rv_freq gen" synch q] g(9) by (simp add: rsv_sent_ied_def)
  have seal: "seal_packet (rf_mode cfg) (rv_crypto gen) (?head @ (payload_elem (?p 0 ?appid) @ ?apdu) @ space @ r) =
      Some (?pre @ sealed_pdu (rv_crypto gen) (?p ?spdu ?appid) ?apdu @ r)"
    using seal_packet_image [OF la sv_len_small [OF g(1)] g(2,3) len(1,3)] by simp
  have "rsv_amend [0..<m] (rf_mode cfg) desc b gen =
      Some (rsv_frame cfg m synch gen desc @ r, rv_skeletonSize gen, rsv_after cfg m synch gen desc)"
  proof (cases "rf_mode cfg = SEC_GCM")
    case True
    have prep: "PrepareFrame (rf_mode cfg) desc ?ied gen b = Some (?ied1, ?head @ data @ space @ r, payload_elem (?p 0 ?appid) @ sv_gen_apdu synch pxs)"
      using put_region_appid [of cfg SI_R_SV PAYLOAD_TYPE_SV "sv_len m" old "sv_gen_apdu synch pxs" ?appid] True
      by (simp add: PrepareFrame_def Let_def env plain(1) g(7) del: append_assoc)
    have w: "wrs (?head @ data @ space @ r) (unat (rv_regionOffset gen)) (payload_elem (?p 0 ?appid) @ ?apdu) =
        Some (?head @ (payload_elem (?p 0 ?appid) @ ?apdu) @ space @ r)"
      by (rule wrs_append [OF h]) (use len(2) la in simp)
    show ?thesis
      using i prep True msg [OF plain(2,3), of "[]"] w seal
      by (simp add: rsv_amend_def FinishFrame_def rsv_frame_def rsv_after_def rsv_message_def Let_def del: append_assoc upt_Suc)
  next
    case False
    then obtain o2 xs where data: "data = payload_elem (?p 0 o2) @ sv_gen_apdu synch xs" "ids_ok xs" "length xs = m"
      using region by (auto simp: region_ok_def)
    have "put_u16 (?head @ data @ space @ r) (unat (rv_regionOffset gen) + unat (rv_appidOffset gen)) ?appid =
        Some (?head @ payload_elem (?p 0 ?appid) @ sv_gen_apdu synch xs @ space @ r)"
    proof -
      have "put_u16 (?head @ data @ space @ r) (unat (rv_regionOffset gen) + unat (rv_appidOffset gen)) ?appid =
          map_option ((@) ?head) (put_u16 (data @ space @ r) 2 ?appid)"
        by (rule wrs_behind(2)) (simp add: h g(7))
      then show ?thesis by (simp add: data(1) put_region_appid del: put_u16_Some)
    qed
    then have prep: "PrepareFrame (rf_mode cfg) desc ?ied gen b =
        Some (?ied1, ?head @ payload_elem (?p 0 ?appid) @ sv_gen_apdu synch xs @ space @ r, rv_plain gen)"
      using False by (simp add: PrepareFrame_def Let_def env del: append_assoc put_u16_Some)
    have w: "within (?head @ payload_elem (?p 0 ?appid) @ sv_gen_apdu synch xs @ space @ r) (unat (rv_regionOffset gen))
        (\<lambda>region. map_option prod.swap (amend_asdus (rv_asduOffs gen) (rv_freq gen) [0..<m] (region, ?ied1))) =
      Some (rsv_sent_ied m (rv_freq gen) ?ied, ?head @ payload_elem (?p 0 ?appid) @ ?apdu @ space @ r)"
      unfolding within_behind [OF h] msg [OF data(2,3)] by simp
    show ?thesis
      using i prep False w seal
      by (simp add: rsv_amend_def FinishFrame_def rsv_frame_def rsv_after_def rsv_message_def Let_def del: upt_Suc)
  qed
  then show thesis by (rule that)
qed

definition rsv_good :: "RFrameConfig \<Rightarrow> nat \<Rightarrow> u8 \<Rightarrow> Crypto \<Rightarrow> u32 \<Rightarrow> nat \<Rightarrow> RSVTrafficGen \<Rightarrow> bool" where
  "rsv_good cfg m synch crypto base num gen \<longleftrightarrow> rsv_gen_ok cfg m synch gen \<and> rv_crypto gen = crypto \<and> rv_baseIdx gen = base \<and>
     length (rv_ieds gen) = num"

lemma rsv_message_ok:
  assumes "rsv_gen_ok cfg m synch gen" and "unat (idx d) < length (rv_ieds gen)"
  shows "sv_message m synch (rsv_message m synch gen d)" and "length (rsv_message m synch gen d) = sv_len m"
proof -
  let ?ied = "rv_ieds gen ! unat (idx d)"
  have m: "m = 1 \<or> m = 8" and "4 \<le> length (si_sID ?ied)" using assms by (auto simp: rsv_gen_ok_def)
  then have ids: "ids_ok (amended_asdus (rv_freq gen) (take 4 (si_sID ?ied)) m (si_smpCnt ?ied))" by (intro ids_ok_amended) simp
  then show "sv_message m synch (rsv_message m synch gen d)" by (auto simp: rsv_message_def Let_def)
  show "length (rsv_message m synch gen d) = sv_len m" using length_sv_gen_apdu [OF ids _ m] by (simp add: rsv_message_def Let_def)
qed

text \<open>The PDU of a frame opens at the receiver.\<close>

lemma sealed_pdu_opens:
  assumes "length apdu = len" and "len < 65536" and "hmac_works crypto" "gcm_works crypto"
  shows "pdu_opens crypto (r_pdu cfg si ty len spdu appid) apdu (sealed_pdu crypto (r_pdu cfg si ty len spdu appid) apdu)"
    and "length (sealed_pdu crypto (r_pdu cfg si ty len spdu appid) apdu) = udp_payload_size (rf_mode cfg) len"
proof -
  let ?p = "r_pdu cfg si ty len spdu appid"
  have u: "length apdu = unat (bp_apduLength ?p)" using assms(1,2) by (simp add: unat_of_nat_small)
  show o: "pdu_opens crypto ?p apdu (sealed_pdu crypto ?p apdu)"
    by (rule seal_pdu(2) [OF u assms(3,4), of "replicate (unat (iv_length (bp_mode ?p))) 0" "replicate (trailer_size (bp_mode ?p)) 0"]) simp_all
  show "length (sealed_pdu crypto ?p apdu) = udp_payload_size (rf_mode cfg) len"
    using o assms(1) by (simp add: pdu_opens_def)
qed

interpretation rsv_tx: traffic_gen "rsv_amend [0..<m] (rf_mode cfg)" "rsv_good cfg m synch crypto base num"
  "r_buffer cfg SI_R_SV PAYLOAD_TYPE_SV (sv_len m) (sv_message m synch)" num "rsv_frame cfg m synch" "rsv_after cfg m synch"
  for cfg m synch crypto base num
proof unfold_locales
  fix g b and d :: PacketDesc
  assume g: "rsv_good cfg m synch crypto base num g" and b: "r_buffer cfg SI_R_SV PAYLOAD_TYPE_SV (sv_len m) (sv_message m synch) b"
    and d: "unat (idx d) < num"
  have ok: "rsv_gen_ok cfg m synch g" "unat (idx d) < length (rv_ieds g)" using g d by (auto simp: rsv_good_def)
  obtain r where r: "rsv_amend [0..<m] (rf_mode cfg) d b g = Some (rsv_frame cfg m synch g d @ r, rv_skeletonSize g, rsv_after cfg m synch g d)"
    by (rule rsv_amend_frame [OF ok b])
  have c: "m = 1 \<or> m = 8" "hmac_works (rv_crypto g)" "gcm_works (rv_crypto g)" using ok(1) by (auto simp: rsv_gen_ok_def)
  note msg = rsv_message_ok [OF ok]
  have "length (rsv_frame cfg m synch g d) = rv_skeletonSize g"
    using sealed_pdu_opens(2) [OF msg(2) sv_len_small [OF c(1)] c(2,3)] ok(1) by (simp add: rsv_frame_def Let_def rsv_gen_ok_def)
  moreover have "r_buffer cfg SI_R_SV PAYLOAD_TYPE_SV (sv_len m) (sv_message m synch) (rsv_frame cfg m synch g d @ r)"
    unfolding rsv_frame_def Let_def append_assoc
    by (rule sealed_buffer [where A = "sv_message m synch"]) (use msg c sv_len_small [OF c(1)] in simp_all)
  ultimately show "\<exists>b' n. rsv_amend [0..<m] (rf_mode cfg) d b g = Some (b', n, rsv_after cfg m synch g d) \<and> take n b' = rsv_frame cfg m synch g d \<and>
      r_buffer cfg SI_R_SV PAYLOAD_TYPE_SV (sv_len m) (sv_message m synch) b'"
    using r by simp
next
  fix g and d :: PacketDesc
  assume g: "rsv_good cfg m synch crypto base num g" and d: "unat (idx d) < num"
  then have ok: "rsv_gen_ok cfg m synch g" "unat (idx d) < length (rv_ieds g)" by (auto simp: rsv_good_def)
  note msg = rsv_message_ok [OF ok]
  have "region_ok cfg SI_R_SV PAYLOAD_TYPE_SV (sv_len m) (sv_message m synch) (rv_plain (rsv_after cfg m synch g d))"
    using ok(1) msg by (auto simp: rsv_after_def rsv_gen_ok_def region_ok_def)
  then show "rsv_good cfg m synch crypto base num (rsv_after cfg m synch g d)"
    using g ok by (auto simp: rsv_good_def rsv_gen_ok_def rsv_after_def rsv_sent_ied_def dest!: set_update_subset_insert [THEN subsetD])
qed

subsection \<open>The generator that the constructor makes\<close>

lemma dst_fields_all:
  "dst_fields_list (udp_prefix cfg n port @ rest) dstIP is = Some (map (\<lambda>i. group_fields cfg n (stream_dst_ip dstIP (of_nat i))) is)"
  by (induction "is") (simp_all add: make_dst_fields_image group_fields_def)

lemma make_r_skeleton_image:
  assumes l2: "l2Buf = pre @ put16 (of_nat (8 + len)) @ res @ apdu @ l2Rest" "length pre = l2AppidOff + 2" "length res = 4" "length apdu = len"
    "l2Size = l2AppidOff + 8 + len"
    and size: "42 + udp_payload_size (rf_mode cfg) len \<le> maxSize" "maxSize < 65536"
  obtains r where "make_r_skeleton name si ty maxSize l2Buf l2AppidOff l2Size cfg = Some (Inr
    \<lparr> rk_skeleton = udp_prefix cfg (udp_payload_size (rf_mode cfg) len) 0 @
        session_image (r_pdu cfg si ty len 0 0) (replicate (unat (iv_length (rf_mode cfg))) 0) @
        (payload_elem (r_pdu cfg si ty len 0 0) @ apdu) @ replicate (trailer_size (rf_mode cfg)) 0 @ r,
      rk_skeletonSize = 42 + udp_payload_size (rf_mode cfg) len,
      rk_dst = map (\<lambda>i. group_fields cfg (udp_payload_size (rf_mode cfg) len) (stream_dst_ip (rf_dstIP cfg) (of_nat i))) [0..<unat R_DST_SPREAD],
      rk_regionOffset = of_nat (73 + unat (iv_length (rf_mode cfg))), rk_spduOffset = 52,
      rk_plain = payload_elem (r_pdu cfg si ty len 0 0) @ apdu, rk_l2ApduOff = l2AppidOff + 8 \<rparr>)"
proof -
  let ?n = "udp_payload_size (rf_mode cfg) len" and ?p = "r_pdu cfg si ty len 0 0"
  let ?iv = "replicate (unat (iv_length (rf_mode cfg))) (0 :: u8)" and ?t = "replicate (trailer_size (rf_mode cfg)) (0 :: u8)"
  define k where "k = maxSize - 42 - ?n"
  have n: "?n = 37 + length ?iv + len + length ?t" by (simp add: layout_defs)
  have k: "maxSize - 42 = ?n + k" using size by (simp add: k_def)
  have small: "8 + len < 65536" using size n by simp
  have lf: "get_u16 l2Buf (l2AppidOff + 2) = Some (of_nat (8 + len))"
    unfolding l2(1) using l2(2) by (intro get_u16_append) simp
  have lu: "unat (of_nat (8 + len) :: u16) = 8 + len" by (rule unat_of_nat_small) (use small in simp)
  have l8: "\<not> (of_nat (8 + len) :: u16) < 8" by (simp only: word_less_nat_alt lu) simp
  have sub: "of_nat (8 + len) - (8 :: u16) = of_nat len" by simp
  have lu': "unat (of_nat len :: u16) = len" by (rule unat_of_nat_small) (use small in simp)
  have "rds ((pre @ put16 (of_nat (8 + len)) @ res) @ apdu @ l2Rest) (l2AppidOff + 8) len = Some apdu"
    by (rule rds_append) (use l2(2-4) in simp_all)
  then have ap: "rds l2Buf (l2AppidOff + 8) len = Some apdu" by (simp only: l2(1) append_assoc)
  have pre: "build_prefix (replicate maxSize 0) cfg ?n = Some (udp_prefix cfg ?n 0 @ replicate (?n + k) 0, 42)"
    using build_prefix_image [of "replicate maxSize 0" cfg ?n] size by (simp add: filled_def k)
  have fit: "apdu_offset (iv_length (bp_mode ?p)) \<le> length (replicate (?n + k) (0 :: u8))" by (simp add: layout_defs)
  have b: "build (replicate (?n + k) 0) ?p = Some (session_image ?p ?iv @ payload_elem ?p @ replicate (len + length ?t + k) 0, 37 + length ?iv)"
    using build_image [OF fit] n by (simp add: filled_def layout_defs)
  have zeros: "replicate (len + length ?t + k) (0 :: u8) = replicate len 0 @ ?t @ replicate k 0" by (simp add: replicate_add)
  have "wrs ((udp_prefix cfg ?n 0 @ session_image ?p ?iv @ payload_elem ?p) @ replicate len 0 @ ?t @ replicate k 0) (79 + length ?iv) apdu =
      Some ((udp_prefix cfg ?n 0 @ session_image ?p ?iv @ payload_elem ?p) @ apdu @ ?t @ replicate k 0)"
    by (rule wrs_append) (use l2(4) in simp_all)
  then have w: "wrs (udp_prefix cfg ?n 0 @ session_image ?p ?iv @ payload_elem ?p @ replicate len 0 @ ?t @ replicate k 0) (79 + length ?iv) apdu =
      Some (udp_prefix cfg ?n 0 @ session_image ?p ?iv @ payload_elem ?p @ apdu @ ?t @ replicate k 0)" by (simp only: append_assoc)
  have "rds ((udp_prefix cfg ?n 0 @ session_image ?p ?iv) @ (payload_elem ?p @ apdu) @ ?t @ replicate k 0) (73 + length ?iv) (6 + len) =
      Some (payload_elem ?p @ apdu)"
    by (rule rds_append) (use l2(4) in simp_all)
  then have pl: "rds (udp_prefix cfg ?n 0 @ session_image ?p ?iv @ payload_elem ?p @ apdu @ ?t @ replicate k 0) (73 + length ?iv) (6 + len) =
      Some (payload_elem ?p @ apdu)" by (simp only: append_assoc)
  have params: "r_params si ty (rf_mode cfg) (of_nat len) = ?p" by (simp add: r_pdu_def r_params_def)
  have wi: "within (udp_prefix cfg ?n 0 @ replicate (?n + k) 0) 42 (\<lambda>pdu. map_option prod.swap (build pdu (r_params si ty (rf_mode cfg) (of_nat len)))) =
      Some (37 + length ?iv, udp_prefix cfg ?n 0 @ session_image ?p ?iv @ payload_elem ?p @ replicate len 0 @ ?t @ replicate k 0)"
    unfolding within_behind [OF length_udp_prefix [symmetric]] params b zeros by simp
  have c: "\<not> ((of_nat (8 + len) :: u16) < 8 \<or> l2Size < l2AppidOff + 8 + (unat (of_nat (8 + len) :: u16) - 8))"
    "\<not> maxSize < 42 + ?n" using l8 l2(5) size by (simp_all only: lu) simp_all
  have offs: "42 + (37 + length ?iv) = 79 + length ?iv" "42 + payload_hdr_offset (iv_length (rf_mode cfg)) + 4 = 73 + length ?iv"
    by (simp_all add: payload_hdr_offset_def)
  show thesis
  proof (rule that [of "replicate k 0"])
    show "make_r_skeleton name si ty maxSize l2Buf l2AppidOff l2Size cfg = Some (Inr
      \<lparr> rk_skeleton = udp_prefix cfg ?n 0 @ session_image ?p ?iv @ (payload_elem ?p @ apdu) @ ?t @ replicate k 0,
        rk_skeletonSize = 42 + ?n,
        rk_dst = map (\<lambda>i. group_fields cfg ?n (stream_dst_ip (rf_dstIP cfg) (of_nat i))) [0..<unat R_DST_SPREAD],
        rk_regionOffset = of_nat (73 + unat (iv_length (rf_mode cfg))), rk_spduOffset = 52,
        rk_plain = payload_elem ?p @ apdu, rk_l2ApduOff = l2AppidOff + 8 \<rparr>)"
      unfolding make_r_skeleton_def Let_def lf Option.bind.simps if_not_P [OF c(1)] sub lu' if_not_P [OF c(2)] pre prod.case
        dst_fields_all wi ap offs w pl by simp
  qed
qed

text \<open>The buffers that are filled with such a skeleton.\<close>

lemma skeleton_buffer:
  fixes cfg len si ty
  defines "n \<equiv> udp_payload_size (rf_mode cfg) len" and "p \<equiv> r_pdu cfg si ty len 0 0"
  assumes "length apdu = len" and "A apdu"
  shows "r_buffer cfg si ty len A (take (42 + n) (udp_prefix cfg n 0 @ session_image p (replicate (unat (iv_length (rf_mode cfg))) 0) @
    (payload_elem p @ apdu) @ replicate (trailer_size (rf_mode cfg)) 0 @ r) @ q)"
proof -
  let ?iv = "replicate (unat (iv_length (rf_mode cfg))) (0 :: u8)" and ?t = "replicate (trailer_size (rf_mode cfg)) (0 :: u8)"
  let ?f = "udp_prefix cfg n 0 @ session_image p ?iv @ (payload_elem p @ apdu) @ ?t"
  have "length ?f = 42 + n" using assms(3) by (simp add: layout_defs n_def p_def)
  then have "take (42 + n) (?f @ r) = ?f" by simp
  moreover have "region_ok cfg si ty len A (payload_elem p @ apdu)"
    unfolding region_ok_def p_def using assms(3,4) by (intro exI [of _ 0] exI [of _ apdu]) simp
  ultimately show ?thesis
    unfolding r_buffer_def using assms(3)
    by (intro exI [of _ "rf_dstIP cfg"] exI [of _ 0] exI [of _ ?iv] exI [of _ "payload_elem p @ apdu"] exI [of _ ?t] exI [of _ q])
      (simp add: n_def p_def)
qed

text \<open>
  The length word behind the APPID of the L2 skeleton (IEC 61850-9-2, Annex C) counts itself, the APPID,
  the reserved words and the APDU; the routable generators take the length of the APDU from it.
\<close>

definition length_word_ok :: "nat \<Rightarrow> SVEnv \<Rightarrow> bool" where
  "length_word_ok m e \<longleftrightarrow> take 2 (se_res e) = put16 (of_nat (8 + sv_len m))"

lemma unat_rebase:
  assumes "unat off = k + j" and "j < 60000"
  shows "unat (rebase k off) = 6 + j"
proof -
  have "k + j < 65536" using assms(1) unsigned_less [where 'a = nat, of off] by simp
  then have "unat (of_nat k :: u16) = k" by (intro unat_of_nat_small) simp
  then have "unat (off - of_nat k) = j" using assms(1) by (subst unat_sub) (simp_all add: word_le_nat_alt)
  then show ?thesis using assms(2) by (simp add: rebase_def unat_word_ariths)
qed

lemma asdu_pos_bound: "m = 1 \<or> m = 8 \<Longrightarrow> k < m \<Longrightarrow> asdu_pos m k \<le> 700"
  by (auto simp: asdu_pos_def)

lemma rsv_new:
  fixes type defines "m \<equiv> sv_asdu_num type"
  assumes "sv_lib_ok lib m e" and "length_word_ok m e" and "hmac_works crypto" "gcm_works crypto"
  obtains gen where "RSVTrafficGen_new lib crypto True num type cfg base = Some (Inr gen)"
    and "rsv_good cfg m (se_smpSynch e) crypto base (unat num) gen"
    and "rv_ieds gen = map (\<lambda>i. sv_InitIED (of_nat (unat base + i + 1)) SVSourceIED_init) [0..<unat num]"
    and "rv_freq gen = sv_rate type" and "rv_units gen = CreateTxUnits num (uint (sv_rate type) div int m)"
    and "\<forall>r. r_buffer cfg SI_R_SV PAYLOAD_TYPE_SV (sv_len m) (sv_message m (se_smpSynch e)) (take (rv_skeletonSize gen) (rv_skeleton gen) @ r)"
proof -
  let ?n = "udp_payload_size (rf_mode cfg) (sv_len m)" and ?xs = "replicate m (ascii ''1234'', 0 :: u16)"
  let ?apdu = "sv_gen_apdu (se_smpSynch e) ?xs" and ?iv = "replicate (unat (iv_length (rf_mode cfg))) (0 :: u8)"
  let ?t = "replicate (trailer_size (rf_mode cfg)) (0 :: u8)" and ?p = "r_pdu cfg SI_R_SV PAYLOAD_TYPE_SV (sv_len m) 0 0"
  have m: "m = 1 \<or> m = 8" unfolding m_def by (cases type) (simp_all add: sv_asdu_num_def)
  have ids: "ids_ok ?xs" by (auto simp: ids_ok_def)
  obtain l2 where l2: "SVTrafficGen_new lib num type = Some (Inr l2)" "sv_gen_ok m e l2" "sg_freq l2 = sv_rate type"
    "sg_units l2 = CreateTxUnits num (uint (sv_rate type) div int m)"
    "take (sg_skeletonSize l2) (sg_skeleton l2) = sv_gen_frame e (appId svCommParameters) ?xs"
    "sg_skeletonSize l2 = length (sv_gen_frame e (appId svCommParameters) ?xs)"
    using sv_new [OF assms(2) [unfolded m_def], of num] unfolding m_def by metis
  have e: "length (se_res e) = 6" and pos: "unat (sg_appidOffset l2) = appid_pos e"
    and offs: "\<forall>k < m. asdu_offsets (appid_pos e + 8) m k (sg_asduOffs l2 k)"
    using l2(2) by (auto simp: sv_gen_ok_def)
  have la: "length ?apdu = sv_len m" using length_sv_gen_apdu [OF ids _ m] by simp
  let ?eth = "mac_data (dstAddress svCommParameters) @ mac_data (se_smac e) @
      (case se_vlan e of None \<Rightarrow> [] | Some (t, u) \<Rightarrow> [0x81, 0x00, t, u]) @ [0x88, 0xBA] @ put16 (appId svCommParameters)"
  have res: "se_res e = put16 (of_nat (8 + sv_len m)) @ drop 2 (se_res e)"
    using assms(3) unfolding length_word_ok_def by (metis append_take_drop_id)
  have buf: "sg_skeleton l2 = ?eth @ put16 (of_nat (8 + sv_len m)) @ drop 2 (se_res e) @ ?apdu @ drop (sg_skeletonSize l2) (sg_skeleton l2)"
  proof -
    have "sv_gen_frame e (appId svCommParameters) ?xs = ?eth @ se_res e @ ?apdu"
      by (simp add: sv_gen_frame_def sv_gen_header_def l2_header_def)
    then have "sv_gen_frame e (appId svCommParameters) ?xs = ?eth @ (put16 (of_nat (8 + sv_len m)) @ drop 2 (se_res e)) @ ?apdu"
      by (simp only: res [symmetric])
    then show ?thesis using l2(5) by (metis append_assoc append_take_drop_id)
  qed
  have leth: "length ?eth = unat (sg_appidOffset l2) + 2" by (auto simp: pos appid_pos_def split: option.split)
  have size: "sg_skeletonSize l2 = unat (sg_appidOffset l2) + 8 + sv_len m"
    using length_sv_gen_frame [OF ids _ e] m by (simp add: l2(6) pos)
  have fit: "42 + ?n \<le> MAX_SV_PACKET_SIZE" "MAX_SV_PACKET_SIZE < (65536 :: nat)" using m by (auto simp: layout_defs asdu_pos_def)
  obtain r where sk: "make_r_skeleton ''SV'' SI_R_SV PAYLOAD_TYPE_SV MAX_SV_PACKET_SIZE (sg_skeleton l2) (unat (sg_appidOffset l2)) (sg_skeletonSize l2) cfg =
    Some (Inr \<lparr> rk_skeleton = udp_prefix cfg ?n 0 @ session_image ?p ?iv @ (payload_elem ?p @ ?apdu) @ ?t @ r,
      rk_skeletonSize = 42 + ?n,
      rk_dst = map (\<lambda>i. group_fields cfg ?n (stream_dst_ip (rf_dstIP cfg) (of_nat i))) [0..<unat R_DST_SPREAD],
      rk_regionOffset = of_nat (73 + unat (iv_length (rf_mode cfg))), rk_spduOffset = 52,
      rk_plain = payload_elem ?p @ ?apdu, rk_l2ApduOff = unat (sg_appidOffset l2) + 8 \<rparr>)"
    by (rule make_r_skeleton_image [OF buf leth _ la size fit]) (use e in simp)
  let ?offs = "\<lambda>i f. let off = sg_asduOffs l2 i f in if off = 0 then 0 else rebase (unat (sg_appidOffset l2) + 8) off"
  let ?gen = "\<lparr> rv_ieds = map (\<lambda>i. sv_InitIED (of_nat (unat base + i + 1)) SVSourceIED_init) [0..<unat num],
    rv_units = CreateTxUnits num (uint (sv_rate type) div int m), rv_crypto = crypto, rv_baseIdx = base, rv_appidOffset = 2, rv_asduOffs = ?offs,
    rv_regionOffset = of_nat (73 + unat (iv_length (rf_mode cfg))), rv_spduOffset = 52, rv_plain = payload_elem ?p @ ?apdu,
    rv_dst = map (\<lambda>i. group_fields cfg ?n (stream_dst_ip (rf_dstIP cfg) (of_nat i))) [0..<unat R_DST_SPREAD],
    rv_skeleton = udp_prefix cfg ?n 0 @ session_image ?p ?iv @ (payload_elem ?p @ ?apdu) @ ?t @ r, rv_skeletonSize = 42 + ?n, rv_freq = sv_rate type \<rparr>"
  have o: "\<forall>k < m. asdu_offsets 6 m k (?offs k)"
  proof (intro allI impI)
    fix k assume k: "k < m"
    let ?h = "appid_pos e + 8"
    have u: "unat (sg_asduOffs l2 k SV_SVID_OFFSET) = ?h + (asdu_pos m k + 4)" "unat (sg_asduOffs l2 k SV_SMP_CNT_OFFSET) = ?h + (asdu_pos m k + 14)"
      using offs k by (simp_all add: asdu_offsets_def)
    then have "sg_asduOffs l2 k SV_SVID_OFFSET \<noteq> 0" "sg_asduOffs l2 k SV_SMP_CNT_OFFSET \<noteq> 0" by auto
    with unat_rebase [OF u(1)] unat_rebase [OF u(2)] asdu_pos_bound [OF m k] show "asdu_offsets 6 m k (?offs k)"
      by (simp add: asdu_offsets_def Let_def pos)
  qed
  have ro: "unat (of_nat (73 + unat (iv_length (rf_mode cfg))) :: u16) = 73 + unat (iv_length (rf_mode cfg))"
    by (rule unat_of_nat_small) (simp add: unat_iv_length)
  have reg: "region_ok cfg SI_R_SV PAYLOAD_TYPE_SV (sv_len m) (sv_message m (se_smpSynch e)) (payload_elem ?p @ ?apdu)"
    unfolding region_ok_def using la ids by (intro exI [of _ 0] exI [of _ ?apdu]) auto
  have ied: "\<forall>ied \<in> set (map (\<lambda>i. sv_InitIED (of_nat (unat base + i + 1)) SVSourceIED_init) [0..<unat num]). 4 \<le> length (si_sID ied)"
    by (simp add: sv_InitIED_def length_print_id)
  show thesis
  proof (rule that [of ?gen])
    show "RSVTrafficGen_new lib crypto True num type cfg base = Some (Inr ?gen)"
      by (simp add: RSVTrafficGen_new_def l2(1,3,4) rsv_MakeSkeletonPacket_def sk Let_def cong: if_cong)
    show "rsv_good cfg m (se_smpSynch e) crypto base (unat num) ?gen"
      using m assms(4,5) ro o reg ied by (simp add: rsv_good_def rsv_gen_ok_def dst_ok_def)
    show "\<forall>q. r_buffer cfg SI_R_SV PAYLOAD_TYPE_SV (sv_len m) (sv_message m (se_smpSynch e)) (take (rv_skeletonSize ?gen) (rv_skeleton ?gen) @ q)"
      unfolding RSVTrafficGen.simps by (intro allI skeleton_buffer [where A = "sv_message m (se_smpSynch e)"]) (use la ids in auto)
  qed simp_all
qed

end
