(* ===== verification/End_To_End.thy ===== *)
theory End_To_End
  imports Clean_Link R_Gen_Frames
begin

text \<open>
  The generator and the receiver together: what the frames of the SV generators, L2 and routable, do to a
  receiver that is configured for them. The frames that the card of the generator took are received in
  that order, in bursts of any sizes; everything else, from the schedule to the counters, is the code
  of both programs. Both families are instances of the locale \<open>stream_link\<close>.
\<close>

subsection \<open>The counters of a stream\<close>

definition no_gaps :: "SVStreamSource \<Rightarrow> bool" where
  "no_gaps src \<longleftrightarrow> vs_errSmpCnt src = 0 \<and> vs_errSpduCnt src = 0"

text \<open>The next sample count of the generator continues the last one of the receiver or starts over.\<close>

definition follows :: "nat \<Rightarrow> u32 \<Rightarrow> u16 \<Rightarrow> SVStreamSource \<Rightarrow> bool" where
  "follows m freq n src \<longleftrightarrow> m dvd unat n \<and> unat n < unat freq \<and> (n = 0 \<or> ucast n = vs_smpCnt src + of_nat m)"

definition rate_ok :: "nat \<Rightarrow> u32 \<Rightarrow> bool" where
  "rate_ok m freq \<longleftrightarrow> (m = 1 \<or> m = 8) \<and> m dvd unat freq \<and> unat freq \<le> 65535"

lemma next_count:
  assumes "m = 1 \<or> m = 8" and "m dvd unat freq" and "unat freq \<le> 65535" and "m dvd unat n" and "unat n < unat freq"
    and "n' = (next_smpCnt freq ^^ m) n"
  shows "m dvd unat n'" and "unat n' < unat freq" and "n' = 0 \<or> ucast n' = (ucast n :: u32) + of_nat m"
proof -
  have "unat n + m \<le> unat freq"
    using assms(1,2,4,5) by (auto elim!: dvdE)
  then have n': "n' = (if unat n + m < unat freq then n + of_nat m else 0)"
    unfolding assms(6) by (intro next_smpCnt_frame) (use assms(1,3) in auto)
  have u: "unat (n + of_nat m) = unat n + m" if "unat n + m < unat freq"
    using next_smpCnt_run(2) [OF that] assms(3) by simp
  show "m dvd unat n'" "unat n' < unat freq" unfolding n' using u assms(4,5) by (auto intro: dvd_add)
  show "n' = 0 \<or> ucast n' = (ucast n :: u32) + of_nat m"
  proof (cases "unat n + m < unat freq")
    case True
    have "unat (ucast (n + of_nat m) :: u32) = unat ((ucast n :: u32) + of_nat m)"
      using u [OF True] True assms(1,3) by (auto simp: unat_word_ariths)
    then show ?thesis using True n' by (simp add: word_unat_eq_iff)
  qed (simp add: n')
qed

lemma follows_step:
  assumes "follows m freq n src" and "rate_ok m freq" and "no_gaps src" and "vp_num pass = of_nat m"
  shows "no_gaps (sv_ProcessState pass (SVStreamState_init\<lparr> sv_smpCnt := n \<rparr>) src) \<and>
    follows m freq ((next_smpCnt freq ^^ m) n) (sv_ProcessState pass (SVStreamState_init\<lparr> sv_smpCnt := n \<rparr>) src)"
proof -
  let ?src = "sv_ProcessState pass (SVStreamState_init\<lparr> sv_smpCnt := n \<rparr>) src"
  have vp: "ucast (vp_num pass) = (of_nat m :: u32)" using assms(2,4) by (auto simp: rate_ok_def)
  have src: "vs_errSmpCnt ?src = vs_errSmpCnt src" "vs_errSpduCnt ?src = vs_errSpduCnt src" "vs_smpCnt ?src = ucast n"
    using assms(1) by (auto simp: follows_def sv_ProcessState_def Let_def vp)
  show ?thesis
    using next_count [of m freq n "(next_smpCnt freq ^^ m) n"] assms(1-3) src by (auto simp: no_gaps_def follows_def rate_ok_def)
qed

lemma follows_start: "follows m (sv_rate type) 0 src"
  by (cases type) (simp_all add: follows_def sv_rate_def)

lemma rate_ok_start: "rate_ok (sv_asdu_num type) (sv_rate type)"
  by (cases type) (simp_all add: rate_ok_def sv_rate_def sv_asdu_num_def)

lemma follows_session: "follows m freq n (sv_ProcessSessionState k src) = follows m freq n src"
  by (simp add: follows_def sv_tracking_frame)

subsection \<open>The frames of the L2 generator\<close>

text \<open>The identifiers of the generator are those of the receiver, up to the 9999 streams their four digits allow.\<close>

lemma length_dec: "n < 10 ^ Suc k \<Longrightarrow> length (dec n) \<le> Suc k"
proof (induction k arbitrary: n)
  case 0
  then show ?case by (subst dec.simps) simp
next
  case (Suc k)
  then have "length (dec (n div 10)) \<le> Suc k" by (intro Suc.IH less_mult_imp_div_less) simp
  then show ?case by (subst dec.simps) simp
qed

lemma take_print_id:
  assumes "n < 10 ^ k" and "0 < k"
  shows "take k (print_id (k + 1) (dec_padded k n)) = ascii (dec_padded k n)"
proof -
  have "length (dec n) \<le> k" using length_dec [of n "k - 1"] assms by simp
  then show ?thesis by (simp add: print_id_def Let_def dec_padded_def)
qed

definition stream_pass :: "nat \<Rightarrow> nat \<Rightarrow> SVStreamPassport" where
  "stream_pass m i = sv_GetPassport (l2_sv_source (of_nat m) (of_nat i))"

lemma stream_pass_eq:
  assumes "m = 1 \<or> m = 8" and "i < 9999"
  shows "stream_pass m i = SVStreamPassport_init\<lparr> vp_dmac := dstAddress svCommParameters, vp_appid := of_nat (i + 1), vp_num := of_nat m,
    vp_svid := ascii ''SVID'' @ ascii (dec_padded 4 (i + 1)), vp_crev := 1 \<rparr>"
proof -
  have "unat (of_nat (i + 1) :: u32) = i + 1" by (rule unat_of_nat_small) (use assms(2) in simp)
  then have "unat (of_nat i + 1 :: u32) = i + 1" by (simp only: of_nat_add of_nat_1)
  moreover have "ucast (1 + of_nat i :: u32) = (1 + of_nat i :: u16)"
    using appid_of_index [of i] by simp
  ultimately show ?thesis
    using assms(1) by (auto simp: stream_pass_def sv_GetPassport_def l2_sv_source_def sv_SetNumASDU_def sv_SetCRev_def sv_SetSVID_def
      sv_SetAppID_def sv_SetMAC_def SVStreamSource_init_def SVStreamPassport_init_def sv_svid_def svCommParameters_def SV_MAC_def ascii_def)
qed


lemma proto_type_l2:
  assumes "length res = 6"
  shows "get_proto_type (l2_header dmac smac vlan 0xBA appid res @ rest) a sz = Some (BUS_PROTO_SV, ucast appid)"
    and "get_proto_type (l2_header dmac smac vlan 0xB8 appid res @ rest) a sz = Some (BUS_PROTO_GOOSE, ucast appid)"
proof -
  obtain r0 r1 r2 r3 r4 r5 where r: "res = [r0, r1, r2, r3, r4, r5]"
    using assms by (auto simp: length_Suc_conv numeral_eq_Suc)
  obtain d0 d1 d2 d3 d4 d5 where d: "dmac = MAC d0 d1 d2 d3 d4 d5" by (cases dmac)
  obtain s0 s1 s2 s3 s4 s5 where m: "smac = MAC s0 s1 s2 s3 s4 s5" by (cases smac)
  let ?f = "\<lambda>lo. l2_header dmac smac vlan lo appid res @ rest"
  have reads: "vlan = None \<Longrightarrow> rd (?f lo) 12 = Some 0x88 \<and> rd (?f lo) 13 = Some lo \<and> get_u16 (?f lo) 14 = Some appid"
    "vlan \<noteq> None \<Longrightarrow> rd (?f lo) 12 = Some 0x81 \<and> rd (?f lo) 13 = Some 0 \<and> rd (?f lo) 16 = Some 0x88 \<and> rd (?f lo) 17 = Some lo \<and>
      get_u16 (?f lo) 18 = Some appid" for lo
    by (auto simp: l2_header_def r d m get_u16_def rd_def put16_def be16_put16)
  show "get_proto_type (?f 0xBA) a sz = Some (BUS_PROTO_SV, ucast appid)" "get_proto_type (?f 0xB8) a sz = Some (BUS_PROTO_GOOSE, ucast appid)"
    using reads [of "0xBA"] reads [of "0xB8"] by (cases "vlan = None"; simp add: get_proto_type_def get_appid_def)+
qed

text \<open>The state in which the generator and the receiver belong together.\<close>

definition sv_linked :: "nat \<Rightarrow> nat \<Rightarrow> SVTrafficGen \<Rightarrow> RX_Application \<Rightarrow> bool" where
  "sv_linked m num gen app \<longleftrightarrow> streams_linked vp_appid sv_eq no_gaps (stream_pass m) {..<num}
     (\<lambda>i src. take 4 (si_sID (sg_ieds gen ! i)) = ascii (dec_padded 4 (i + 1)) \<and> follows m (sg_freq gen) (si_smpCnt (sg_ieds gen ! i)) src)
     (m_svMap app)"

definition steady :: "nat \<Rightarrow> nat \<Rightarrow> SVEnv \<Rightarrow> SVTrafficGen \<Rightarrow> bool" where
  "steady m num e gen \<longleftrightarrow> sv_good m e num gen \<and> num \<le> 9999 \<and> rate_ok m (sg_freq gen)"

definition sv_errors :: "RX_Application \<Rightarrow> u64 \<times> u64 \<times> u64" where
  "sv_errors app = (m_rxUnknownSVCnt app, m_errSVParserCnt app, m_errAuthCnt app)"

lemma of_nat_u16_inj:
  assumes "(of_nat a :: u16) = of_nat b" and "a < 65536" and "b < 65536"
  shows "a = b"
proof -
  have "unat (of_nat a :: u16) = a" "unat (of_nat b :: u16) = b" by (rule unat_of_nat_small; use assms(2,3) in simp)+
  with assms(1) show ?thesis by metis
qed

lemma pass_appids:
  fixes pass :: "nat \<Rightarrow> 'k" and appid :: "'k \<Rightarrow> u16"
  assumes "\<And>i. i \<in> S \<Longrightarrow> appid (pass i) = of_nat (i + 1)" and "\<And>i. i \<in> S \<Longrightarrow> i < 65535"
  shows "inj_on (appid \<circ> pass) S"
proof (rule inj_onI)
  fix i j assume "i \<in> S" "j \<in> S" "(appid \<circ> pass) i = (appid \<circ> pass) j"
  then show "i = j" using assms of_nat_u16_inj [of "i + 1" "j + 1"] by fastforce
qed

lemma sv_frame_received:
  assumes "steady m num e gen" and "unat (idx d) < num" and "carries b (sv_frame m e gen d)" and "sv_linked m num gen app"
  shows "\<exists>app'. sv_packet b app = Some (Some app') \<and> sv_linked m num (sv_after m gen d) app' \<and>
    m_rxSVPktCnt app' = m_rxSVPktCnt app + 1 \<and> sv_errors app' = sv_errors app"
proof -
  let ?i = "unat (idx d)" let ?ied = "sg_ieds gen ! ?i" let ?n = "si_smpCnt ?ied"
  let ?P = "\<lambda>g i src. take 4 (si_sID (sg_ieds g ! i)) = ascii (dec_padded 4 (i + 1)) \<and> follows m (sg_freq g) (si_smpCnt (sg_ieds g ! i)) src"
  have m: "m = 1 \<or> m = 8" and e: "length (se_res e) = 6" and num: "num \<le> 9999" "length (sg_ieds gen) = num" and rate: "rate_ok m (sg_freq gen)"
    using assms(1) by (auto simp: steady_def sv_good_def sv_gen_ok_def)
  have id: "take 4 (si_sID ?ied) = ascii (dec_padded 4 (?i + 1))"
    using assms(2,4) unfolding sv_linked_def streams_linked_def by blast
  have t: "length (take 4 (si_sID ?ied)) = 4" using assms(1,2) num(2) by (auto simp: steady_def sv_good_def sv_gen_ok_def)
  have appid: "ucast (idx d + 1) = (of_nat (?i + 1) :: u16)" using appid_of_index [of ?i] by (simp add: add.commute)
  let ?st = "SVStreamState_init\<lparr> sv_smpCnt := ?n \<rparr>"
  have parse: "parse_sv_packet (mb_data b) (mb_len b) SVStreamPassport_init SVStreamState_init = Some (Some (Inr (stream_pass m ?i, ?st)))"
    using parse_sv_gen_frame [OF m e t refl, of "mb_data b" _ _ _ "[]"] assms(2,3) num(1) appid id
    by (simp add: carries_def sv_frame_def Let_def stream_pass_eq [OF m])
  have pass: "vp_num (stream_pass m i) = of_nat m" "vp_appid (stream_pass m i) = of_nat (i + 1)" if "i < num" for i
    using stream_pass_eq [OF m, of i] that num(1) by simp_all
  obtain k where k: "sv_find (m_svMap app) (stream_pass m ?i) = Some k"
    and linked: "streams_linked vp_appid sv_eq no_gaps (stream_pass m) {..<num} (?P (sv_after m gen d))
      (container_modify (m_svMap app) k (sv_ProcessState (stream_pass m ?i) ?st))"
  proof (rule sv_key.streams_linked_modify [OF assms(4) [unfolded sv_linked_def], of ?i "sv_ProcessState (stream_pass m ?i) ?st" "?P (sv_after m gen d)"])
    show "inj_on (vp_appid \<circ> stream_pass m) {..<num}" by (rule pass_appids) (use pass num(1) in auto)
    show "no_gaps (sv_ProcessState (stream_pass m ?i) ?st src) \<and> ?P (sv_after m gen d) ?i (sv_ProcessState (stream_pass m ?i) ?st src)"
      if "?P gen ?i src" "no_gaps src" for src
      using follows_step [OF _ rate that(2) pass(1)] that(1) assms(2) num(2) by (simp add: sv_after_def sent_ied_def)
  qed (use assms(2) in \<open>auto simp: sv_after_def\<close>)
  then show ?thesis by (simp add: sv_packet_def parse sv_linked_def sv_errors_def)
qed

interpretation sv_link: stream_link "sv_amend m" "steady m num e" "sv_pool m e" num "sv_frame m e" "sv_after m" crypto SV
  "sv_linked m num" m_rxSVPktCnt sv_errors for m num e crypto
proof unfold_locales
  fix g b and d :: PacketDesc
  assume g: "steady m num e g" and d: "unat (idx d) < num"
  have good: "sv_good m e num g" using g by (simp add: steady_def)
  show "steady m num e (sv_after m g d)" using g sv_tx.good_after [OF good d] by (simp add: steady_def sv_after_def)
  { assume "sv_pool m e b"
    then show "\<exists>b' n. sv_amend m d b g = Some (b', n, sv_after m g d) \<and> take n b' = sv_frame m e g d \<and> sv_pool m e b'"
      using sv_tx.amend good d by blast }
next
  fix g and d :: PacketDesc and b
  assume g: "steady m num e g" and d: "unat (idx d) < num" and b: "carries b (sv_frame m e g d)"
  have m: "m = 1 \<or> m = 8" and e: "length (se_res e) = 6" using g by (auto simp: steady_def sv_good_def sv_gen_ok_def)
  have "length (take 4 (si_sID (sg_ieds g ! unat (idx d)))) = 4" using g d by (auto simp: steady_def sv_good_def sv_gen_ok_def)
  then have "length (sv_frame m e g d) = appid_pos e + 8 + asdu_pos m m"
    unfolding sv_frame_def Let_def using m e by (subst length_sv_gen_frame) (auto simp: ids_ok_amended)
  then show "in_stage SV b \<and> buffer_ok b"
    using m b by (auto simp: carries_def buffer_ok_def appid_pos_def asdu_pos_def in_stage_def sv_frame_def Let_def sv_gen_frame_def
        sv_gen_header_def proto_type_l2 [OF e])
qed (use sv_frame_received in simp_all)

subsection \<open>The start\<close>

lemma registered_fresh:
  assumes "\<And>i. no_gaps (src i)"
  shows "\<forall>x \<in> set (m_values (register_sv num src container_new)). no_gaps (snd x)"
  unfolding register_sv_all
  by (rule sv_key.register_all_values) (use assms in \<open>auto simp: no_gaps_def SVStreamSource_init_def container_new_def\<close>)

text \<open>A freshly registered container is linked to generators whose streams it has.\<close>

lemma register_linked:
  assumes "\<And>i. vp_appid (sv_GetPassport (src (of_nat i))) = of_nat (i + 1)" and "\<And>i. no_gaps (src i)" and "unat num \<le> 9999"
    and "S \<subseteq> {..<unat num}" and "\<And>i. i \<in> S \<Longrightarrow> P i (src (of_nat i))"
  shows "streams_linked vp_appid sv_eq no_gaps (\<lambda>i. sv_GetPassport (src (of_nat i))) S P (register_sv num src container_new)"
proof -
  have "sv_registered (register_sv num src container_new) src num"
    by (rule register_sv_registered [OF assms(1)]) (use assms(3) in simp)
  then show ?thesis
    using registered_fresh [of src num, OF assms(2)] assms(4,5) unfolding streams_linked_def sv_registered_def by blast
qed

lemma init_id:
  assumes "n \<le> 9999"
  shows "take 4 (si_sID (sv_InitIED (of_nat n) SVSourceIED_init)) = ascii (dec_padded 4 n)"
    and "si_smpCnt (sv_InitIED (of_nat n) SVSourceIED_init) = 0" and "si_spduNumber (sv_InitIED (of_nat n) SVSourceIED_init) = 0"
proof -
  have "unat (of_nat n :: u32) = n" by (rule unat_of_nat_small) (use assms in simp)
  then show "take 4 (si_sID (sv_InitIED (of_nat n) SVSourceIED_init)) = ascii (dec_padded 4 n)"
    "si_smpCnt (sv_InitIED (of_nat n) SVSourceIED_init) = 0" "si_spduNumber (sv_InitIED (of_nat n) SVSourceIED_init) = 0"
    using take_print_id [of n 4] assms by (simp_all add: sv_InitIED_def SVSourceIED_init_def)
qed

text \<open>Every unit of a schedule sends streams of the generator.\<close>

lemma units_in_range: "\<forall>u \<in> set (CreateTxUnits num freq). \<forall>d \<in> set (unit_packets u). unat (idx d) < unat num"
proof -
  have "\<forall>p \<in> set (map unit_packets (CreateTxUnits num freq)). p = all_streams (unat num)" unfolding units_shape by auto
  then show ?thesis using unat_u32_less [of num] by (auto simp: all_streams_def unat_of_nat_small)
qed

lemma foldl_zeros: "\<forall>x \<in> set xs. f (snd x) = (0 :: u64) \<Longrightarrow> foldl (\<lambda>n (k, v). n + f v) n xs = n"
  by (induction xs arbitrary: n) auto

lemma gaps_counted: "\<forall>x \<in> set (m_values (m_svMap app)). no_gaps (snd x) \<Longrightarrow> snd (CountGaps app) = 0"
  unfolding CountGaps_def snd_conv by (intro foldl_zeros) (simp add: no_gaps_def)

text \<open>The pool after \<open>PoolSetter\<close>: every buffer starts with the skeleton.\<close>

definition filled_pool :: "bytes \<Rightarrow> nat \<Rightarrow> bytes multiset \<Rightarrow> bool" where
  "filled_pool skeleton n M \<longleftrightarrow> (\<forall>b \<in># M. \<exists>r. b = take n skeleton @ r)"

definition sv_AmendPacket :: "SV_TYPE \<Rightarrow> SVTrafficGen amend" where
  "sv_AmendPacket type = (case type of SV80 \<Rightarrow> AmendPacketSV80 | SV256 \<Rightarrow> AmendPacketSV256)"

lemma sv_AmendPacket_eq: "sv_AmendPacket type = sv_amend (sv_asdu_num type)"
  by (cases type) (simp_all add: sv_AmendPacket_def sv_asdu_num_def sv_amend_eq)

text \<open>A receiver that expects the streams of one L2 generator.\<close>

definition configured :: "SV_TYPE \<Rightarrow> u32 \<Rightarrow> RX_Application \<Rightarrow> bool" where
  "configured type num app \<longleftrightarrow> m_svMap app = container_new \<and>
     m_confSV80Num app = (if type = SV80 then num else 0) \<and> m_confSV256Num app = (if type = SV256 then num else 0) \<and>
     m_confRSV80Num app = 0 \<and> m_confRSV256Num app = 0"

lemma configured_map:
  "configured type num app \<Longrightarrow> m_svMap (Init_streams app) = register_sv num (l2_sv_source (of_nat (sv_asdu_num type))) container_new"
  by (cases type) (simp_all add: configured_def Init_streams_maps register_none sv_asdu_num_def)

lemma sv_generator_start:
  assumes "sv_lib_ok lib (sv_asdu_num type) e" and "SVTrafficGen_new lib num type = Some (Inr gen)" and "unat num \<le> 9999"
    and "filled_pool (sg_skeleton gen) (sg_skeletonSize gen) M" and "configured type num app"
  shows "steady (sv_asdu_num type) (unat num) e gen" and "\<forall>b \<in># M. sv_pool (sv_asdu_num type) e b"
    and "\<forall>u \<in> set (sg_units gen). \<forall>d \<in> set (unit_packets u). unat (idx d) < unat num"
    and "sv_linked (sv_asdu_num type) (unat num) gen (MarkRunStarted (Init_streams app))"
proof -
  let ?m = "sv_asdu_num type" and ?xs = "replicate (sv_asdu_num type) (ascii ''1234'', 0)"
  have g: "sv_gen_ok ?m e gen" "sg_ieds gen = map (\<lambda>i. sv_InitIED (of_nat i + 1) SVSourceIED_init) [0..<unat num]"
    "sg_freq gen = sv_rate type" "sg_units gen = CreateTxUnits num (uint (sv_rate type) div int ?m)"
    "take (sg_skeletonSize gen) (sg_skeleton gen) = sv_gen_frame e (appId svCommParameters) ?xs"
    "sg_skeletonSize gen = length (sv_gen_frame e (appId svCommParameters) ?xs)"
    using sv_new [OF assms(1), of num] assms(2) by (metis option.inject sum.inject(2))+
  have m: "?m = 1 \<or> ?m = 8" and e: "length (se_res e) = 6" using g(1) by (auto simp: sv_gen_ok_def)
  have ids: "ids_ok ?xs" by (auto simp: ids_ok_def)
  have size: "sg_skeletonSize gen = appid_pos e + 8 + asdu_pos ?m ?m"
    unfolding g(6) using length_sv_gen_frame [OF ids _ e] m by simp
  then show "steady ?m (unat num) e gen" using g(1-3) rate_ok_start [of type] assms(3) by (simp add: steady_def sv_good_def)
  show "\<forall>b \<in># M. sv_pool ?m e b" using assms(4) ids g(5) unfolding filled_pool_def sv_pool_def by (metis length_replicate)
  show "\<forall>u \<in> set (sg_units gen). \<forall>d \<in> set (unit_packets u). unat (idx d) < unat num" unfolding g(4) by (rule units_in_range)
  have ied: "take 4 (si_sID (sg_ieds gen ! i)) = ascii (dec_padded 4 (i + 1))" "si_smpCnt (sg_ieds gen ! i) = 0" if "i < unat num" for i
    using that init_id [of "i + 1"] assms(3) by (simp_all add: g(2) add.commute)
  have "no_gaps (l2_sv_source (of_nat ?m) i)" for i
    by (simp add: no_gaps_def SVStreamSource_init_def l2_sv_source_def sv_SetNumASDU_def sv_SetCRev_def sv_SetSVID_def sv_SetAppID_def sv_SetMAC_def)
  then have "streams_linked vp_appid sv_eq no_gaps (\<lambda>i. sv_GetPassport (l2_sv_source (of_nat ?m) (of_nat i))) {..<unat num}
     (\<lambda>i src. take 4 (si_sID (sg_ieds gen ! i)) = ascii (dec_padded 4 (i + 1)) \<and> follows ?m (sg_freq gen) (si_smpCnt (sg_ieds gen ! i)) src)
     (register_sv num (l2_sv_source (of_nat ?m)) container_new)"
    by (intro register_linked source_appids) (use assms(3) ied follows_start in \<open>simp_all add: g(3)\<close>)
  then show "sv_linked ?m (unat num) gen (MarkRunStarted (Init_streams app))"
    unfolding sv_linked_def stream_pass_def [abs_def] by (simp add: MarkRunStarted_def configured_map [OF assms(5)])
qed

subsection \<open>The frames of the routable generator\<close>

definition r_stream_pass :: "u32 \<Rightarrow> nat \<Rightarrow> nat \<Rightarrow> SVStreamPassport" where
  "r_stream_pass ip m i = sv_GetPassport (r_sv_source ip (of_nat m) (of_nat i))"

lemma r_stream_pass_eq:
  assumes "m = 1 \<or> m = 8" and "i < 9999"
  shows "r_stream_pass ip m i = SVStreamPassport_init\<lparr> vp_dmac := multicast_mac (stream_dst_ip ip (of_nat i)), vp_appid := of_nat (i + 1),
    vp_num := of_nat m, vp_svid := ascii ''SVID'' @ ascii (dec_padded 4 (i + 1)), vp_crev := 1, vp_dstIP := stream_dst_ip ip (of_nat i) \<rparr>"
proof -
  have "unat (of_nat (i + 1) :: u32) = i + 1" by (rule unat_of_nat_small) (use assms(2) in simp)
  then have "unat (of_nat i + 1 :: u32) = i + 1" by (simp only: of_nat_add of_nat_1)
  moreover have "ucast (1 + of_nat i :: u32) = (1 + of_nat i :: u16)"
    using appid_of_index [of i] by simp
  ultimately show ?thesis
    using assms(1) by (auto simp: r_stream_pass_def sv_GetPassport_def r_sv_source_def sv_SetDstIP_def sv_SetNumASDU_def sv_SetCRev_def
      sv_SetSVID_def sv_SetAppID_def sv_SetMAC_def SVStreamSource_init_def SVStreamPassport_init_def sv_svid_def ascii_def)
qed

text \<open>
  The generator serves the streams from \<open>base\<close> on. Beyond the sample counts, the session numbers of
  both sides agree.
\<close>

definition rsv_linked :: "RFrameConfig \<Rightarrow> nat \<Rightarrow> u32 \<Rightarrow> nat \<Rightarrow> RSVTrafficGen \<Rightarrow> RX_Application \<Rightarrow> bool" where
  "rsv_linked cfg m base num gen app \<longleftrightarrow> m_rMode app = rf_mode cfg \<and>
     streams_linked vp_appid sv_eq no_gaps (r_stream_pass (rf_dstIP cfg) m) {unat base..<unat base + num}
     (\<lambda>j src. let ied = rv_ieds gen ! (j - unat base) in take 4 (si_sID ied) = ascii (dec_padded 4 (j + 1)) \<and>
        follows m (rv_freq gen) (si_smpCnt ied) src \<and> vs_spduNumber src = si_spduNumber ied)
     (m_svMap app)"

definition rsv_steady :: "RFrameConfig \<Rightarrow> nat \<Rightarrow> u8 \<Rightarrow> Crypto \<Rightarrow> u32 \<Rightarrow> nat \<Rightarrow> RSVTrafficGen \<Rightarrow> bool" where
  "rsv_steady cfg m synch crypto base num gen \<longleftrightarrow> rsv_good cfg m synch crypto base num gen \<and> unat base + num \<le> 9999 \<and>
     rate_ok m (rv_freq gen) \<and> rf_dstPort cfg = UDP_DST_PORT"

lemma session_follows:
  assumes "no_gaps src" and "vs_spduNumber src = k"
  shows "no_gaps (sv_ProcessSessionState (k + 1) src)" and "vs_spduNumber (sv_ProcessSessionState (k + 1) src) = k + 1"
  using assms by (auto simp: no_gaps_def sv_ProcessSessionState_def Let_def)

lemma proto_type_r:
  assumes "rf_dstPort cfg = UDP_DST_PORT" and "length rest \<ge> 31" and "rd rest 2 = Some si" and "si = SI_R_GOOSE \<or> si = SI_R_SV"
  shows "get_proto_type (udp_prefix cfg n port @ rest) a (42 + length rest) =
    Some (if si = SI_R_GOOSE then BUS_PROTO_R_GOOSE else BUS_PROTO_R_SV, ucast port)"
proof -
  let ?f = "udp_prefix cfg n port @ rest"
  note r = prefix_reads [of cfg n port rest]
  have rd: "rd ?f 36 = Some 0" "rd ?f 37 = Some 0x66"
    by (simp_all add: udp_prefix_def ip_header_bytes rd_def nth_append put16_def assms(1))
  have "rd ?f 44 = Some si" using assms(2,3) by (simp add: rd_def nth_append split: if_splits)
  with r rd assms(2,4) show ?thesis by (auto simp: get_proto_type_def simp del: rd_Some get_u16_Some)
qed

lemma sealed_pdu_si:
  assumes "length apdu = unat (bp_apduLength p)" and "hmac_works crypto" "gcm_works crypto"
  shows "rd (sealed_pdu crypto p apdu) 2 = Some (bp_si p)" and "31 \<le> length (sealed_pdu crypto p apdu)"
proof -
  obtain iv data space where s: "sealed_pdu crypto p apdu = session_image p iv @ data @ space" "length data = 6 + length apdu"
    using sealed_pdu_parts [OF assms] by metis
  show "rd (sealed_pdu crypto p apdu) 2 = Some (bp_si p)"
    unfolding s(1) session_image_fixed append_assoc by (rule session_fixed_reads)
  show "31 \<le> length (sealed_pdu crypto p apdu)" by (simp add: s)
qed

text \<open>
  A sealed frame arrives: the envelope check, the classification and the unwrapping all give back what
  the generator put in.
\<close>

lemma sealed_frame_arrives:
  fixes cfg si ty len spdu appid crypto apdu ip
  defines "p \<equiv> r_pdu cfg si ty len spdu appid" and "n \<equiv> udp_payload_size (rf_mode cfg) len" and "c \<equiv> cfg\<lparr> rf_dstIP := ip \<rparr>"
  assumes "carries b (udp_prefix c n port @ sealed_pdu crypto p apdu)" and "length apdu = len" and "28 + n < 65536"
    and "hmac_works crypto" "gcm_works crypto" and "rf_dstPort cfg = UDP_DST_PORT" and "(si, stage) \<in> {(SI_R_GOOSE, R_GOOSE), (SI_R_SV, R_SV)}"
    and "valid_params p"
  obtains iv bb off rest where
    "unwrap_r_frame (mb_data b) (mb_len b) si ty (rf_mode cfg) crypto =
       Some (Inr (udp_prefix c n port @ bb, session_of p iv, payload_of p, 42 + off, length apdu))"
    and "drop (42 + off) (udp_prefix c n port @ bb) = apdu @ rest"
    and "validate_r_envelope (mb_data b) (mb_len b) (mb_cksum b) = Some (Inr ip)"
    and "in_stage stage b" and "buffer_ok b"
proof -
  let ?pdu = "sealed_pdu crypto p apdu"
  have small: "len < 65536" using assms(6) by (simp add: n_def layout_defs)
  have u: "length apdu = unat (bp_apduLength p)" using assms(5) small by (simp add: unat_of_nat_small p_def)
  have frame: "mb_data b = udp_prefix c n port @ ?pdu @ []" "mb_len b = length (mb_data b)" "mb_cksum b \<noteq> IP_CKSUM_BAD"
    using assms(4) by (simp_all add: carries_def)
  note opens = sealed_pdu_opens [OF assms(5) small assms(7,8), of cfg si ty spdu appid, folded p_def n_def]
  have n: "n = length ?pdu" using opens(2) by simp
  have len: "mb_len b = 42 + length (?pdu @ [])" by (simp add: frame)
  obtain iv bb off rest where un: "unwrap_r_frame (mb_data b) (mb_len b) si ty (rf_mode cfg) crypto =
       Some (Inr (udp_prefix c n port @ bb, session_of p iv, payload_of p, 42 + off, length apdu))"
    "drop (42 + off) (udp_prefix c n port @ bb) = apdu @ rest"
    unfolding frame(1) len using unwrap_sealed [OF opens(1) assms(11) u n assms(6), of c port "[]"] unfolding p_def by (metis r_pdu_sel(1-3))
  have env: "validate_r_envelope (mb_data b) (mb_len b) (mb_cksum b) = Some (Inr ip)"
    unfolding frame(1) using validate_prefix [of c n "?pdu @ []" "mb_cksum b" "mb_len b" port] assms(6,9) n frame(3) len by (simp add: c_def)
  have "get_proto_type (mb_data b) 0 (mb_len b) = Some (if si = SI_R_GOOSE then BUS_PROTO_R_GOOSE else BUS_PROTO_R_SV, ucast port)"
    unfolding frame(1) len append_Nil2
    by (rule proto_type_r [of c]) (use sealed_pdu_si [OF u assms(7,8)] assms(9,10) in \<open>auto simp: c_def p_def\<close>)
  then have "in_stage stage b" using assms(10) by (auto simp: in_stage_def)
  moreover have "buffer_ok b" using n assms(6) sealed_pdu_si(2) [OF u assms(7,8)] by (simp add: buffer_ok_def frame(1,2))
  ultimately show thesis by (rule that [OF un env])
qed

lemma rsv_frame_parsed:
  assumes ok: "rsv_gen_ok cfg m synch gen" and d: "unat (idx d) < length (rv_ieds gen)" and port: "rf_dstPort cfg = UDP_DST_PORT"
    and b: "carries b (rsv_frame cfg m synch gen d)"
    and ied: "ied = rv_ieds gen ! unat (idx d)" and stream: "stream = idx d + rv_baseIdx gen"
  obtains session where "sh_spduNumber session = si_spduNumber ied + 1"
    and "validate_r_envelope (mb_data b) (mb_len b) (mb_cksum b) = Some (Inr (stream_dst_ip (rf_dstIP cfg) stream))"
    and "parse_r_sv_packet (mb_data b) (mb_len b) (rf_mode cfg) (rv_crypto gen) SVStreamPassport_init SVStreamState_init =
      Some (Some (Inr (session, SVStreamPassport_init\<lparr> vp_dmac := multicast_mac (stream_dst_ip (rf_dstIP cfg) stream),
          vp_appid := ucast (stream + 1), vp_num := of_nat m, vp_svid := ascii ''SVID'' @ take 4 (si_sID ied), vp_crev := 1 \<rparr>,
        SVStreamState_init\<lparr> sv_smpCnt := si_smpCnt ied \<rparr>)))"
    and "in_stage R_SV b \<and> buffer_ok b"
proof -
  let ?as = "map (sv_gen_asdu synch) (amended_asdus (rv_freq gen) (take 4 (si_sID ied)) m (si_smpCnt ied))" and ?apdu = "rsv_message m synch gen d"
  let ?p = "sv_pdu cfg m (si_spduNumber ied + 1) (ucast (stream + 1))"
  have c: "m = 1 \<or> m = 8" "hmac_works (rv_crypto gen)" "gcm_works (rv_crypto gen)" "length (take 4 (si_sID ied)) = 4"
    using ok d by (auto simp: rsv_gen_ok_def ied)
  have msg: "length ?apdu = sv_len m" by (rule rsv_message_ok(2) [OF ok d])
  then have u: "length ?apdu = unat (bp_apduLength ?p)" using sv_len_small [OF c(1)] by (simp add: unat_of_nat_small)
  have fit: "28 + udp_payload_size (rf_mode cfg) (sv_len m) < 65536" using c(1) by (auto simp: layout_defs asdu_pos_def)
  have valid: "valid_params ?p" by (simp add: valid_params_def)
  obtain iv bb off rest where
    un: "unwrap_r_frame (mb_data b) (mb_len b) SI_R_SV PAYLOAD_TYPE_SV (rf_mode cfg) (rv_crypto gen) =
       Some (Inr (udp_prefix (cfg\<lparr> rf_dstIP := stream_dst_ip (rf_dstIP cfg) stream \<rparr>) (udp_payload_size (rf_mode cfg) (sv_len m)) (ucast (stream + 1)) @ bb,
         session_of ?p iv, payload_of ?p, 42 + off, length ?apdu))"
    "drop (42 + off) (udp_prefix (cfg\<lparr> rf_dstIP := stream_dst_ip (rf_dstIP cfg) stream \<rparr>) (udp_payload_size (rf_mode cfg) (sv_len m)) (ucast (stream + 1)) @ bb) =
      ?apdu @ rest"
    and env: "validate_r_envelope (mb_data b) (mb_len b) (mb_cksum b) = Some (Inr (stream_dst_ip (rf_dstIP cfg) stream))"
    and st: "in_stage R_SV b" "buffer_ok b"
    by (rule sealed_frame_arrives [OF b [unfolded rsv_frame_def Let_def, folded ied stream] msg fit c(2,3) port _ valid, where stage = R_SV]) simp
  have as: "?apdu = sv_apdu [of_nat (length ?as)] ?as" by (simp add: rsv_message_def sv_gen_apdu_def Let_def ied)
  have hd: "hd ?as = sv_gen_asdu synch (take 4 (si_sID ied), si_smpCnt ied)" "?as \<noteq> []" "length ?as = m" "length ?as < 256"
    using c(1) by (auto simp: numeral_eq_Suc)
  note parsed = parse_r_sv_unwrapped [OF un as u hd(2) same_stream_amended [OF c(4)] hd(4), of SVStreamPassport_init SVStreamState_init]
  show thesis
  proof (rule that [of "session_of ?p iv", OF _ env])
    show "sh_spduNumber (session_of ?p iv) = si_spduNumber ied + 1" by (simp add: session_of_def)
    show "parse_r_sv_packet (mb_data b) (mb_len b) (rf_mode cfg) (rv_crypto gen) SVStreamPassport_init SVStreamState_init =
      Some (Some (Inr (session_of ?p iv, SVStreamPassport_init\<lparr> vp_dmac := multicast_mac (stream_dst_ip (rf_dstIP cfg) stream),
          vp_appid := ucast (stream + 1), vp_num := of_nat m, vp_svid := ascii ''SVID'' @ take 4 (si_sID ied), vp_crev := 1 \<rparr>,
        SVStreamState_init\<lparr> sv_smpCnt := si_smpCnt ied \<rparr>)))"
      using parsed unfolding hd(1,3) by (simp add: sv_gen_asdu_def)
  qed (use st in simp)
qed

lemma rsv_frame_received:
  assumes "rsv_steady cfg m synch crypto base num gen" and "unat (idx d) < num" and "carries b (rsv_frame cfg m synch gen d)"
    and "rsv_linked cfg m base num gen app"
  shows "\<exists>app'. r_sv_packet crypto b app = Some (Some app') \<and> rsv_linked cfg m base num (rsv_after cfg m synch gen d) app' \<and>
    m_rxSVPktCnt app' = m_rxSVPktCnt app + 1 \<and> sv_errors app' = sv_errors app"
proof -
  let ?i = "unat (idx d)" let ?ied = "rv_ieds gen ! ?i" let ?stream = "idx d + base" let ?j = "unat base + ?i"
  let ?P = "\<lambda>g j src. let ied = rv_ieds g ! (j - unat base) in take 4 (si_sID ied) = ascii (dec_padded 4 (j + 1)) \<and>
        follows m (rv_freq g) (si_smpCnt ied) src \<and> vs_spduNumber src = si_spduNumber ied"
  have m: "m = 1 \<or> m = 8" and ok: "rsv_gen_ok cfg m synch gen" and num: "unat base + num \<le> 9999" "length (rv_ieds gen) = num"
    and rate: "rate_ok m (rv_freq gen)" and port: "rf_dstPort cfg = UDP_DST_PORT" and cr: "rv_crypto gen = crypto" "rv_baseIdx gen = base"
    using assms(1) by (auto simp: rsv_steady_def rsv_good_def rsv_gen_ok_def)
  have mode: "m_rMode app = rf_mode cfg"
    and linked: "streams_linked vp_appid sv_eq no_gaps (r_stream_pass (rf_dstIP cfg) m) {unat base..<unat base + num} (?P gen) (m_svMap app)"
    using assms(4) by (simp_all add: rsv_linked_def)
  have j: "?j \<in> {unat base..<unat base + num}" "?j < 9999" "?j - unat base = ?i" using assms(2) num(1) by simp_all
  then have id: "take 4 (si_sID ?ied) = ascii (dec_padded 4 (?j + 1))" using linked unfolding streams_linked_def Let_def by metis
  have stream: "of_nat ?j = ?stream" "ucast (?stream + 1) = (of_nat (?j + 1) :: u16)"
    using appid_of_index [of ?j] by (simp_all add: add.commute)
  obtain session where s: "sh_spduNumber session = si_spduNumber ?ied + 1"
    "validate_r_envelope (mb_data b) (mb_len b) (mb_cksum b) = Some (Inr (stream_dst_ip (rf_dstIP cfg) ?stream))"
    "parse_r_sv_packet (mb_data b) (mb_len b) (rf_mode cfg) crypto SVStreamPassport_init SVStreamState_init =
      Some (Some (Inr (session, SVStreamPassport_init\<lparr> vp_dmac := multicast_mac (stream_dst_ip (rf_dstIP cfg) ?stream),
          vp_appid := ucast (?stream + 1), vp_num := of_nat m, vp_svid := ascii ''SVID'' @ take 4 (si_sID ?ied), vp_crev := 1 \<rparr>,
        SVStreamState_init\<lparr> sv_smpCnt := si_smpCnt ?ied \<rparr>)))"
    using rsv_frame_parsed [OF ok _ port assms(3) refl refl] assms(2) num(2) cr by metis
  let ?pass = "r_stream_pass (rf_dstIP cfg) m" and ?st = "SVStreamState_init\<lparr> sv_smpCnt := si_smpCnt ?ied \<rparr>"
  let ?f = "sv_ProcessState (?pass ?j) ?st \<circ> sv_ProcessSessionState (sh_spduNumber session)"
  have pass: "vp_num (?pass i) = of_nat m" "vp_appid (?pass i) = of_nat (i + 1)" if "i < 9999" for i
    using r_stream_pass_eq [OF m that] by simp_all
  obtain k where k: "sv_find (m_svMap app) (?pass ?j) = Some k"
    and linked': "streams_linked vp_appid sv_eq no_gaps ?pass {unat base..<unat base + num} (?P (rsv_after cfg m synch gen d))
      (container_modify (m_svMap app) k ?f)"
  proof (rule sv_key.streams_linked_modify [OF linked j(1), of ?f "?P (rsv_after cfg m synch gen d)"])
    show "inj_on (vp_appid \<circ> ?pass) {unat base..<unat base + num}" by (rule pass_appids) (use pass num(1) in auto)
    show "no_gaps (?f src) \<and> ?P (rsv_after cfg m synch gen d) ?j (?f src)" if "?P gen ?j src" "no_gaps src" for src
    proof -
      let ?src = "sv_ProcessSessionState (sh_spduNumber session) src"
      have P: "follows m (rv_freq gen) (si_smpCnt ?ied) ?src" "vs_spduNumber src = si_spduNumber ?ied"
        using that(1) j(3) by (simp_all add: follows_session Let_def)
      note sess = session_follows [OF that(2) P(2), folded s(1)]
      from follows_step [OF P(1) rate sess(1) pass(1) [OF j(2)]] show ?thesis
        using id j(3) assms(2) num(2) sess(2) s(1) by (simp add: rsv_after_def rsv_sent_ied_def sv_tracking_frame Let_def)
    qed
    show "?P (rsv_after cfg m synch gen d) j src" if "j \<in> {unat base..<unat base + num}" "j \<noteq> ?j" "?P gen j src" for j src
      using that by (auto simp: rsv_after_def Let_def)
  qed
  have "(SVStreamPassport_init\<lparr> vp_dmac := multicast_mac (stream_dst_ip (rf_dstIP cfg) ?stream),
          vp_appid := ucast (?stream + 1), vp_num := of_nat m, vp_svid := ascii ''SVID'' @ take 4 (si_sID ?ied), vp_crev := 1 \<rparr>)
        \<lparr> vp_dstIP := stream_dst_ip (rf_dstIP cfg) ?stream \<rparr> = ?pass ?j"
    unfolding r_stream_pass_eq [OF m j(2)] stream id by simp
  then have "r_sv_packet crypto b app = Some (Some (app\<lparr> m_svMap := container_modify (m_svMap app) k ?f, m_rxSVPktCnt := m_rxSVPktCnt app + 1 \<rparr>))"
    unfolding r_sv_packet_def s(2) mode s(3) and_then_simps sum.case prod.case Let_def using k by simp
  with linked' mode show ?thesis by (simp add: rsv_linked_def sv_errors_def)
qed

interpretation rsv_link: stream_link "rsv_amend [0..<m] (rf_mode cfg)" "rsv_steady cfg m synch crypto base num"
  "r_buffer cfg SI_R_SV PAYLOAD_TYPE_SV (sv_len m) (sv_message m synch)" num "rsv_frame cfg m synch" "rsv_after cfg m synch" crypto R_SV
  "rsv_linked cfg m base num" m_rxSVPktCnt sv_errors for cfg m synch crypto base num
proof unfold_locales
  fix g b and d :: PacketDesc
  assume g: "rsv_steady cfg m synch crypto base num g" and d: "unat (idx d) < num"
  have good: "rsv_good cfg m synch crypto base num g" using g by (simp add: rsv_steady_def)
  show "rsv_steady cfg m synch crypto base num (rsv_after cfg m synch g d)"
    using g rsv_tx.good_after [OF good d] by (simp add: rsv_steady_def rsv_after_def)
  { assume "r_buffer cfg SI_R_SV PAYLOAD_TYPE_SV (sv_len m) (sv_message m synch) b"
    then show "\<exists>b' n. rsv_amend [0..<m] (rf_mode cfg) d b g = Some (b', n, rsv_after cfg m synch g d) \<and> take n b' = rsv_frame cfg m synch g d \<and>
        r_buffer cfg SI_R_SV PAYLOAD_TYPE_SV (sv_len m) (sv_message m synch) b'"
      using rsv_tx.amend good d by blast }
next
  fix g and d :: PacketDesc and b
  assume g: "rsv_steady cfg m synch crypto base num g" and d: "unat (idx d) < num" and b: "carries b (rsv_frame cfg m synch g d)"
  then show "in_stage R_SV b \<and> buffer_ok b"
    using rsv_frame_parsed [of cfg m synch g d b] by (auto simp: rsv_steady_def rsv_good_def)
qed (use rsv_frame_received in simp_all)

text \<open>A receiver that expects the routable SV streams of one kind, in the groups and the mode of the generators.\<close>

definition r_configured :: "SV_TYPE \<Rightarrow> u32 \<Rightarrow> RFrameConfig \<Rightarrow> RX_Application \<Rightarrow> bool" where
  "r_configured type expected cfg app \<longleftrightarrow> m_svMap app = container_new \<and> m_confSV80Num app = 0 \<and> m_confSV256Num app = 0 \<and>
     m_confRSV80Num app = (if type = SV80 then expected else 0) \<and> m_confRSV256Num app = (if type = SV256 then expected else 0) \<and>
     m_rDstIP app = rf_dstIP cfg \<and> m_rMode app = rf_mode cfg"

lemma r_configured_map:
  "r_configured type expected cfg app \<Longrightarrow>
    m_svMap (Init_streams app) = register_sv expected (r_sv_source (rf_dstIP cfg) (of_nat (sv_asdu_num type))) container_new \<and>
    m_rMode (Init_streams app) = rf_mode cfg"
  by (cases type) (simp_all add: r_configured_def Init_streams_maps register_none sv_asdu_num_def, simp_all add: Init_streams_def Let_def)

definition rsv_AmendPacket :: "SV_TYPE \<Rightarrow> SecurityMode \<Rightarrow> RSVTrafficGen amend" where
  "rsv_AmendPacket type mode = (case type of SV80 \<Rightarrow> rsv_AmendPacketSV80 mode | SV256 \<Rightarrow> rsv_AmendPacketSV256 mode)"

lemma rsv_AmendPacket_eq: "rsv_AmendPacket type mode = rsv_amend [0..<sv_asdu_num type] mode"
  by (cases type) (simp_all add: fun_eq_iff rsv_AmendPacket_def sv_asdu_num_def rsv_AmendPacketSV80_def rsv_AmendPacketSV256_def)

lemma rsv_generator_start:
  assumes "sv_lib_ok lib (sv_asdu_num type) e" and "length_word_ok (sv_asdu_num type) e" and "hmac_works crypto" "gcm_works crypto"
    and "RSVTrafficGen_new lib crypto True num type cfg base = Some (Inr gen)" and "rf_dstPort cfg = UDP_DST_PORT"
    and "unat base + unat num \<le> unat expected" and "unat expected \<le> 9999"
    and "filled_pool (rv_skeleton gen) (rv_skeletonSize gen) M" and "r_configured type expected cfg app"
  shows "rsv_steady cfg (sv_asdu_num type) (se_smpSynch e) crypto base (unat num) gen"
    and "\<forall>b \<in># M. r_buffer cfg SI_R_SV PAYLOAD_TYPE_SV (sv_len (sv_asdu_num type)) (sv_message (sv_asdu_num type) (se_smpSynch e)) b"
    and "\<forall>u \<in> set (rv_units gen). \<forall>d \<in> set (unit_packets u). unat (idx d) < unat num"
    and "rsv_linked cfg (sv_asdu_num type) base (unat num) gen (MarkRunStarted (Init_streams app))"
proof -
  let ?m = "sv_asdu_num type"
  obtain gen' where n: "RSVTrafficGen_new lib crypto True num type cfg base = Some (Inr gen')"
    "rsv_good cfg ?m (se_smpSynch e) crypto base (unat num) gen'"
    "rv_ieds gen' = map (\<lambda>i. sv_InitIED (of_nat (unat base + i + 1)) SVSourceIED_init) [0..<unat num]"
    "rv_freq gen' = sv_rate type" "rv_units gen' = CreateTxUnits num (uint (sv_rate type) div int ?m)"
    "\<forall>r. r_buffer cfg SI_R_SV PAYLOAD_TYPE_SV (sv_len ?m) (sv_message ?m (se_smpSynch e)) (take (rv_skeletonSize gen') (rv_skeleton gen') @ r)"
    by (rule rsv_new [OF assms(1-4), of num cfg base])
  have "gen' = gen" using n(1) assms(5) by simp
  note g = n(2-6) [unfolded this]
  from g show "rsv_steady cfg ?m (se_smpSynch e) crypto base (unat num) gen"
    using rate_ok_start [of type] assms(6-8) by (simp add: rsv_steady_def)
  show "\<forall>b \<in># M. r_buffer cfg SI_R_SV PAYLOAD_TYPE_SV (sv_len ?m) (sv_message ?m (se_smpSynch e)) b"
    using assms(9) g(5) by (auto simp: filled_pool_def)
  show "\<forall>u \<in> set (rv_units gen). \<forall>d \<in> set (unit_packets u). unat (idx d) < unat num" unfolding g(4) by (rule units_in_range)
  let ?P = "\<lambda>j src. let ied = rv_ieds gen ! (j - unat base) in take 4 (si_sID ied) = ascii (dec_padded 4 (j + 1)) \<and>
        follows ?m (rv_freq gen) (si_smpCnt ied) src \<and> vs_spduNumber src = si_spduNumber ied"
  let ?src = "r_sv_source (rf_dstIP cfg) (of_nat ?m)"
  have src: "no_gaps (?src i)" "vs_spduNumber (?src i) = 0" for i
    by (simp_all add: no_gaps_def SVStreamSource_init_def r_sv_source_def sv_SetDstIP_def sv_SetNumASDU_def sv_SetCRev_def sv_SetSVID_def
        sv_SetAppID_def sv_SetMAC_def)
  have P: "?P j (?src (of_nat j))" if "j \<in> {unat base..<unat base + unat num}" for j
  proof -
    have i: "rv_ieds gen ! (j - unat base) = sv_InitIED (of_nat (j + 1)) SVSourceIED_init"
    proof -
      have k: "j - unat base < unat num" "unat base + (j - unat base) + 1 = j + 1" using that by auto
      then have "rv_ieds gen ! (j - unat base) = sv_InitIED (of_nat (unat base + (j - unat base) + 1)) SVSourceIED_init"
        unfolding g(2) by (subst nth_map) (simp_all del: of_nat_add)
      then show ?thesis by (simp only: k(2))
    qed
    have "j + 1 \<le> 9999" using that assms(7,8) by simp
    from init_id [OF this] show ?thesis by (simp only: i Let_def g(3) src follows_start simp_thms)
  qed
  have "streams_linked vp_appid sv_eq no_gaps (\<lambda>i. sv_GetPassport (?src (of_nat i))) {unat base..<unat base + unat num} ?P
     (register_sv expected ?src container_new)"
  proof (rule register_linked)
    show "vp_appid (sv_GetPassport (?src (of_nat i))) = of_nat (i + 1)" for i by (rule source_appids)
  qed (use src(1) assms(7,8) P in auto)
  then show "rsv_linked cfg ?m base (unat num) gen (MarkRunStarted (Init_streams app))"
    unfolding rsv_linked_def r_stream_pass_def [abs_def] using r_configured_map [OF assms(10)] by (simp add: MarkRunStarted_def)
qed

subsection \<open>Properties\<close>

text \<open>
  C4: a clean run has a clean report. Let the SV generator (80 or 256 points) run its paced loop for any
  time, with up to 9999 streams, any pool and card behaviour, and no send error counted; and let the
  frames the card took reach a receiver configured for the same streams, in order and in bursts of any
  sizes. Then the receiver processes them all: every frame is counted as received, none as unknown or
  broken, and no gap is reported. So a gap in the report is a frame lost between the two programs.
\<close>

theorem sv_clean_run:
  assumes "sv_lib_ok lib (sv_asdu_num type) e" and "SVTrafficGen_new lib num type = Some (Inr gen)" and "unat num \<le> 9999"
    and "filled_pool (sg_skeleton gen) (sg_skeletonSize gen) M" and "tx_run (sv_AmendPacket type) (sg_units gen) (tx_start gen M) s"
    and "errSendCnt (tl_stat s) = 0" and "length (tl_made s) < 2 ^ 32"
    and "configured type num app" and "list_all2 carries (concat bursts) (tl_wire s)" and "\<forall>bufs \<in> set bursts. length bufs \<le> RX_BURST_SIZE"
  shows "\<exists>app'. single_core bursts (Init_streams app) crypto = Some (Some app') \<and> snd (CountGaps app') = 0 \<and>
    m_rxSVPktCnt app' = m_rxSVPktCnt (Init_streams app) + of_nat (length (tl_wire s)) \<and> sv_errors app' = sv_errors (Init_streams app)"
proof -
  note start = sv_generator_start [OF assms(1-4,8)]
  obtain app' where app': "single_core bursts (Init_streams app) crypto = Some (Some app')" "sv_linked (sv_asdu_num type) (unat num) (tl_gen s) app'"
    "m_rxSVPktCnt app' = m_rxSVPktCnt (MarkRunStarted (Init_streams app)) + of_nat (length (tl_wire s))"
    "sv_errors app' = sv_errors (MarkRunStarted (Init_streams app))"
    using sv_link.clean_run [OF start assms(5) [unfolded sv_AmendPacket_eq] assms(6,7,9,10)] by blast
  moreover have "snd (CountGaps app') = 0" using streams_linked_zero [OF app'(2) [unfolded sv_linked_def]] by (rule gaps_counted)
  ultimately show ?thesis by (simp add: MarkRunStarted_def sv_errors_def)
qed

text \<open>
  C5: the same for the routable streams, in each security mode. A worker of the R-SV generator serves the
  streams from \<open>base\<close> on; its frames are built in buffers that hold older frames, sealed or encrypted, and pass
  address and checksum rewriting, sealing, the receiver's envelope check, authentication and decryption.
  When no send error was counted and the frames arrive in order, every frame is received by its stream, none fails
  authentication, and neither the sample counts nor the session numbers show a gap.
\<close>

theorem r_sv_clean_run:
  assumes "sv_lib_ok lib (sv_asdu_num type) e" and "length_word_ok (sv_asdu_num type) e" and "hmac_works crypto" and "gcm_works crypto"
    and "RSVTrafficGen_new lib crypto True num type cfg base = Some (Inr gen)" and "rf_dstPort cfg = UDP_DST_PORT"
    and "unat base + unat num \<le> unat expected" and "unat expected \<le> 9999"
    and "filled_pool (rv_skeleton gen) (rv_skeletonSize gen) M" and "r_configured type expected cfg app"
    and "tx_run (rsv_AmendPacket type (rf_mode cfg)) (rv_units gen) (tx_start gen M) s"
    and "errSendCnt (tl_stat s) = 0" and "length (tl_made s) < 2 ^ 32"
    and "list_all2 carries (concat bursts) (tl_wire s)" and "\<forall>bufs \<in> set bursts. length bufs \<le> RX_BURST_SIZE"
  shows "\<exists>app'. single_core bursts (Init_streams app) crypto = Some (Some app') \<and> snd (CountGaps app') = 0 \<and>
    m_rxSVPktCnt app' = m_rxSVPktCnt (Init_streams app) + of_nat (length (tl_wire s)) \<and> sv_errors app' = sv_errors (Init_streams app)"
proof -
  note start = rsv_generator_start [OF assms(1-10)]
  obtain app' where app': "single_core bursts (Init_streams app) crypto = Some (Some app')"
    "rsv_linked cfg (sv_asdu_num type) base (unat num) (tl_gen s) app'"
    "m_rxSVPktCnt app' = m_rxSVPktCnt (MarkRunStarted (Init_streams app)) + of_nat (length (tl_wire s))"
    "sv_errors app' = sv_errors (MarkRunStarted (Init_streams app))"
    using rsv_link.clean_run [OF start assms(11) [unfolded rsv_AmendPacket_eq] assms(12-15)] by blast
  moreover have "snd (CountGaps app') = 0" using streams_linked_zero [OF conjunct2 [OF app'(2) [unfolded rsv_linked_def]]] by (rule gaps_counted)
  ultimately show ?thesis by (simp add: MarkRunStarted_def sv_errors_def)
qed

text \<open>A library that answers as described, and a run with one frame.\<close>

context traffic_gen
begin

lemma first_frame_of:
  assumes "good gen" and "pool b" and "streams = 1" and "units \<noteq> []" and "blocks (units ! 0) = [\<lparr> packets = [\<lparr> idx = 0 \<rparr>] \<rparr>]"
  obtains s where "tx_run amend units (tx_start gen {#b#}) s" and "errSendCnt (tl_stat s) = 0"
    and "length (tl_made s) = 1" and "length (tl_wire s) = 1"
proof -
  obtain ps where ps: "amend_all amend (zip [\<lparr> idx = 0 \<rparr>] [b]) gen = Some (ps, foldl after gen [\<lparr> idx = 0 \<rparr>])"
    using amend_all_frames [OF assms(1), of "[\<lparr> idx = 0 \<rparr>]" "[b]"] assms(2,3) by auto
  then have l: "length ps = 1" using amend_all_length by fastforce
  let ?s = "tx_burst 1 [\<lparr> idx = 0 \<rparr>] ps (foldl after gen [\<lparr> idx = 0 \<rparr>]) [b] (tx_start gen {#b#})"
  have "tx_run amend units (tx_start gen {#b#}) ?s"
    by (rule tx_run.step [OF tx_run.start], rule tx_step.send) (use ps l assms(4,5) in \<open>simp_all add: tx_start_def block_packets_def\<close>)
  then show thesis by (rule that) (use l in \<open>simp_all add: tx_burst_def tx_start_def GenAppStat_init_def\<close>)
qed

lemma first_frame:
  assumes "good gen" and "pool b" and "streams = 1" and "units = CreateTxUnits 1 4000"
  obtains s where "tx_run amend units (tx_start gen {#b#}) s" and "errSendCnt (tl_stat s) = 0"
    and "length (tl_made s) = 1" and "length (tl_wire s) = 1"
proof (rule first_frame_of [OF assms(1-3)])
  have u: "CreateTxUnits 1 4000 ! 0 = \<lparr> offsetUS = 0, blocks = [\<lparr> packets = [\<lparr> idx = 0 \<rparr>] \<rparr>] \<rparr>" "length (CreateTxUnits 1 4000) = 4000"
    by (simp_all add: CreateTxUnits_def unit_blocks_def nth_map del: upt_Suc)
  then show "units \<noteq> []" "blocks (units ! 0) = [\<lparr> packets = [\<lparr> idx = 0 \<rparr>] \<rparr>]" unfolding assms(4) by (auto simp del: length_greater_0_conv)
qed (use that in auto)

end

definition sample_env :: SVEnv where
  "sample_env = \<lparr> se_smac = mac_zero, se_vlan = Some (0x80, 101), se_res = [0, 106, 0, 0, 0, 0], se_smpSynch = 0 \<rparr>"

definition sample_lib :: Iec61850 where
  "sample_lib = \<lparr> GoosePublisher_create = (\<lambda>_. False), GoosePublisher_generateMessage = (\<lambda>_. None),
     GooseReceiver_getMessageOffsets = (\<lambda>_. None),
     SVPublisher_message = (\<lambda>p. let n = length (sp_asdus p) in
       Some \<lparr> sm_buffer = sv_gen_frame sample_env (appId (sp_comm p)) (replicate n (ascii ''1234'', 0)), sm_appidOffset = 18,
         sm_asduOffset = (\<lambda>k f. of_nat (26 + asdu_pos n k + (case f of SV_SVID_OFFSET \<Rightarrow> 4 | SV_SMP_CNT_OFFSET \<Rightarrow> 14 | SV_DATA_OFFSET \<Rightarrow> 27))) \<rparr>) \<rparr>"

lemma sample_lib_ok: "sv_lib_ok sample_lib (sv_asdu_num type) sample_env"
proof -
  have "unat (of_nat (j + asdu_pos n k) :: u16) = j + asdu_pos n k" if "k < 8" "j < 100" for n k j
    by (rule unat_of_nat_small) (use that in \<open>simp add: asdu_pos_def\<close>)
  moreover have "k < sv_asdu_num type \<Longrightarrow> k < 8" for k by (cases type) (simp_all add: sv_asdu_num_def)
  ultimately show ?thesis
    by (simp add: sv_lib_ok_def sample_lib_def sample_env_def sv_publisher_def appid_pos_def Let_def del: of_nat_add)
qed

definition sample_buffer :: "bytes \<Rightarrow> mbuf" where
  "sample_buffer frame = \<lparr> mb_data = frame, mb_len = length frame, mb_cksum = IP_CKSUM_NONE \<rparr>"

lemma sample_carried:
  assumes "length frames = 1"
  obtains frame where "list_all2 carries (concat [[sample_buffer frame]]) frames"
  using assms by (auto simp: length_Suc_conv carries_def sample_buffer_def)

theorem sv_clean_run_witness:
  "\<exists>gen frame app'. SVTrafficGen_new sample_lib 1 SV80 = Some (Inr gen) \<and>
    single_core [[sample_buffer frame]] (Init_streams (RX_Application_init\<lparr> m_confSV80Num := 1 \<rparr>)) xor_crypto = Some (Some app') \<and>
    snd (CountGaps app') = 0"
proof -
  let ?app = "RX_Application_init\<lparr> m_confSV80Num := 1 \<rparr>"
  have lib: "sv_lib_ok sample_lib (sv_asdu_num SV80) sample_env" by (rule sample_lib_ok)
  obtain gen where gen: "SVTrafficGen_new sample_lib 1 SV80 = Some (Inr gen)" "sg_units gen = CreateTxUnits 1 4000"
    using sv_new [OF lib, of 1] by (auto simp: sv_rate_def sv_asdu_num_def)
  define b where "b = take (sg_skeletonSize gen) (sg_skeleton gen)"
  have pool: "filled_pool (sg_skeleton gen) (sg_skeletonSize gen) {#b#}" by (simp add: filled_pool_def b_def)
  have conf: "configured SV80 1 ?app" by (simp add: configured_def RX_Application_init_def)
  note start = sv_generator_start [OF lib gen(1) _ pool conf]
  obtain s where s: "tx_run (sv_amend (sv_asdu_num SV80)) (sg_units gen) (tx_start gen {#b#}) s" "errSendCnt (tl_stat s) = 0"
    "length (tl_made s) = 1" "length (tl_wire s) = 1"
    using sv_link.first_frame [OF start(1), of b "sg_units gen"] start(2) gen(2) by auto
  obtain frame where frame: "list_all2 carries (concat [[sample_buffer frame]]) (tl_wire s)" by (rule sample_carried [OF s(4)])
  show ?thesis
    using sv_clean_run [OF lib gen(1) _ pool s(1) [folded sv_AmendPacket_eq] s(2) _ conf frame, of xor_crypto] s(3) gen(1) by auto
qed

theorem r_sv_clean_run_witness:
  "\<exists>gen frame app'. RSVTrafficGen_new sample_lib xor_crypto True 1 SV80 (RFrameConfig_init\<lparr> rf_mode := SEC_GCM \<rparr>) 4 = Some (Inr gen) \<and>
    single_core [[sample_buffer frame]] (Init_streams (RX_Application_init\<lparr> m_confRSV80Num := 5, m_rMode := SEC_GCM \<rparr>)) xor_crypto = Some (Some app') \<and>
    snd (CountGaps app') = 0"
proof -
  let ?app = "RX_Application_init\<lparr> m_confRSV80Num := 5, m_rMode := SEC_GCM \<rparr>" and ?cfg = "RFrameConfig_init\<lparr> rf_mode := SEC_GCM \<rparr>"
  have lib: "sv_lib_ok sample_lib (sv_asdu_num SV80) sample_env" by (rule sample_lib_ok)
  have lw: "length_word_ok (sv_asdu_num SV80) sample_env"
    by (simp add: length_word_ok_def sample_env_def sv_asdu_num_def asdu_pos_def put16_def)
  note crypto = xor_crypto_works(1,2)
  obtain gen where gen: "RSVTrafficGen_new sample_lib xor_crypto True 1 SV80 ?cfg 4 = Some (Inr gen)" "rv_units gen = CreateTxUnits 1 4000"
    using rsv_new [OF lib lw crypto, of 1 ?cfg 4] by (auto simp: sv_rate_def sv_asdu_num_def)
  define b where "b = take (rv_skeletonSize gen) (rv_skeleton gen)"
  have pool: "filled_pool (rv_skeleton gen) (rv_skeletonSize gen) {#b#}" by (simp add: filled_pool_def b_def)
  have port: "rf_dstPort ?cfg = UDP_DST_PORT" by (simp add: RFrameConfig_init_def)
  have num: "unat (4 :: u32) + unat (1 :: u32) \<le> unat (5 :: u32)" "unat (5 :: u32) \<le> 9999" by simp_all
  have conf: "r_configured SV80 5 ?cfg ?app" by (simp add: r_configured_def RX_Application_init_def RFrameConfig_init_def)
  note start = rsv_generator_start [OF lib lw crypto gen(1) port num pool conf]
  obtain s where s: "tx_run (rsv_amend [0..<sv_asdu_num SV80] (rf_mode ?cfg)) (rv_units gen) (tx_start gen {#b#}) s" "errSendCnt (tl_stat s) = 0"
    "length (tl_made s) = 1" "length (tl_wire s) = 1"
    using rsv_link.first_frame [OF start(1), of b "rv_units gen"] start(2) gen(2) by auto
  obtain frame where frame: "list_all2 carries (concat [[sample_buffer frame]]) (tl_wire s)" by (rule sample_carried [OF s(4)])
  show ?thesis
    using r_sv_clean_run [OF lib lw crypto gen(1) port num pool conf s(1) [folded rsv_AmendPacket_eq] s(2) _ frame] s(3) gen(1) by auto
qed

end
