(* ===== verification/Goose_Gen_Frames.thy ===== *)
theory Goose_Gen_Frames
  imports R_Gen_Frames
begin

text \<open>
  What the GOOSE generators put into a buffer, L2 and routable: the message of one publisher with its
  next state number. Both generators write the fields with the same routine, at offsets that the
  library reports for the skeleton; the lemmas say that the writes change exactly these fields, and that both
  generators meet the interface \<open>traffic_gen\<close> of the sending loops.
\<close>

subsection \<open>The message of a publisher\<close>

text \<open>What the library decides about the message: the encodings that the source leaves to it.\<close>

record GooseEnv =
  ge_vlan :: "(u8 \<times> u8) option"
  ge_res :: bytes
  ge_ttl :: bytes
  ge_simulation :: bytes
  ge_confRev :: bytes
  ge_ndsCom :: bytes
  ge_num :: bytes
  ge_values :: bytes

text \<open>The fields that \<open>AmendPacket\<close> writes: the three identifiers, the time, the counters and the first value.\<close>

record GooseVars =
  gv_goid :: bytes
  gv_gocb :: bytes
  gv_ds :: bytes
  gv_t :: bytes
  gv_st :: u32
  gv_sq :: u32
  gv_d1 :: u8

definition vars_ok :: "GooseVars \<Rightarrow> bool" where
  "vars_ok v \<longleftrightarrow> length (gv_goid v) = 8 \<and> length (gv_gocb v) = 8 \<and> length (gv_ds v) = 8 \<and> length (gv_t v) = 8"

definition goose_gen_msg :: "GooseEnv \<Rightarrow> GooseVars \<Rightarrow> GooseMsg" where
  "goose_gen_msg e v = \<lparr> gm_gocbRef = ascii ''IED'' @ gv_gocb v @ ascii ''LDName/LLN0$GO$GOCB'', gm_ttl = ge_ttl e,
     gm_datSet = ascii ''IED'' @ gv_ds v @ ascii ''LDName/LLN0$DataSet'', gm_goID = ascii ''GOID'' @ gv_goid v, gm_t = gv_t v,
     gm_stNum = put32 (gv_st v), gm_sqNum = put32 (gv_sq v), gm_simulation = ge_simulation e, gm_confRev = ge_confRev e,
     gm_ndsCom = ge_ndsCom e, gm_num = ge_num e, gm_allData = map (\<lambda>b. Prim 0x83 [b]) (gv_d1 v # ge_values e) \<rparr>"

definition goose_gen_apdu :: "GooseEnv \<Rightarrow> GooseVars \<Rightarrow> bytes" where
  "goose_gen_apdu e v = goose_apdu (goose_gen_msg e v)"

text \<open>The bytes between the fields.\<close>

definition values_bytes :: "bytes \<Rightarrow> bytes" where
  "values_bytes bs = concat (map (\<lambda>b. [0x83, 1, b]) bs)"

definition goose_part1 :: "GooseEnv \<Rightarrow> bytes" where
  "goose_part1 e = ascii ''LDName/LLN0$GO$GOCB'' @ tlv 0x81 (ge_ttl e) @ [0x82, 30] @ ascii ''IED''"
definition goose_part2 :: bytes where
  "goose_part2 = ascii ''LDName/LLN0$DataSet'' @ [0x83, 12] @ ascii ''GOID''"
definition goose_part3 :: "GooseEnv \<Rightarrow> bytes" where
  "goose_part3 e = tlv 0x87 (ge_simulation e) @ tlv 0x88 (ge_confRev e) @ tlv 0x89 (ge_ndsCom e) @ tlv 0x8A (ge_num e) @
     0xAB # enc_len (3 * Suc (length (ge_values e))) @ [0x83, 1]"

definition blank_vars :: GooseVars where
  "blank_vars = \<lparr> gv_goid = replicate 8 0, gv_gocb = replicate 8 0, gv_ds = replicate 8 0, gv_t = replicate 8 0, gv_st = 0, gv_sq = 0, gv_d1 = 0 \<rparr>"

definition goose_part0 :: "GooseEnv \<Rightarrow> bytes" where
  "goose_part0 e = 0x61 # enc_len (length (goose_body (goose_gen_msg e blank_vars))) @
     [0x80, 30] @ ascii ''IED''"

lemma length_values_bytes: "length (values_bytes bs) = 3 * length bs"
  by (induction bs) (simp_all add: values_bytes_def)

lemma goose_body_parts:
  assumes "vars_ok v"
  shows "goose_body (goose_gen_msg e v) = ([0x80, 30] @ ascii ''IED'') @ gv_gocb v @ goose_part1 e @ gv_ds v @ goose_part2 @ gv_goid v @
    [0x84, 8] @ gv_t v @ [0x85, 4] @ put32 (gv_st v) @ [0x86, 4] @ put32 (gv_sq v) @ goose_part3 e @ [gv_d1 v] @ values_bytes (ge_values e)"
proof -
  have one: "tlv 0x83 [b] = [0x83, 1, b]" for b :: u8 by (simp add: tlv_def enc_len_def)
  have d: "concat (map data_tlv (map (\<lambda>b. Prim 0x83 [b]) bs)) = values_bytes bs" for bs
    by (induction bs) (simp_all add: values_bytes_def one)
  have t: "tlv 0xAB ([0x83, 1, gv_d1 v] @ values_bytes (ge_values e)) =
      0xAB # enc_len (3 * Suc (length (ge_values e))) @ [0x83, 1] @ [gv_d1 v] @ values_bytes (ge_values e)"
    by (simp add: tlv_def length_values_bytes numeral_3_eq_3)
  have f: "tlv tag x = tag # of_nat (length x) # x" if "length x < 128" for tag and x :: bytes
    using that by (simp add: tlv_def enc_len_def)
  show ?thesis
    using assms unfolding goose_body_def goose_fields_def goose_gen_msg_def GooseMsg.simps list.map field_tlv.simps concat.simps
    by (simp add: vars_ok_def f goose_part1_def goose_part2_def goose_part3_def d [unfolded map_map] t [simplified])
qed

lemma goose_body_length: "vars_ok v \<Longrightarrow> length (goose_body (goose_gen_msg e v)) = length (goose_body (goose_gen_msg e blank_vars))"
  by (subst (1 2) goose_body_parts) (simp_all add: vars_ok_def blank_vars_def)

lemma goose_apdu_parts:
  assumes "vars_ok v"
  shows "goose_gen_apdu e v = goose_part0 e @ gv_gocb v @ goose_part1 e @ gv_ds v @ goose_part2 @ gv_goid v @
    [0x84, 8] @ gv_t v @ [0x85, 4] @ put32 (gv_st v) @ [0x86, 4] @ put32 (gv_sq v) @ goose_part3 e @ [gv_d1 v] @ values_bytes (ge_values e)"
  using goose_body_parts [OF assms] goose_body_length [OF assms]
  by (simp add: goose_gen_apdu_def goose_apdu_def tlv_def goose_part0_def)

subsection \<open>Where the fields stand\<close>

definition pos_gocb :: "GooseEnv \<Rightarrow> nat" where "pos_gocb e = length (goose_part0 e)"
definition pos_ds :: "GooseEnv \<Rightarrow> nat" where "pos_ds e = pos_gocb e + 8 + length (goose_part1 e)"
definition pos_goid :: "GooseEnv \<Rightarrow> nat" where "pos_goid e = pos_ds e + 8 + length goose_part2"
definition pos_t :: "GooseEnv \<Rightarrow> nat" where "pos_t e = pos_goid e + 10"
definition pos_st :: "GooseEnv \<Rightarrow> nat" where "pos_st e = pos_t e + 10"
definition pos_sq :: "GooseEnv \<Rightarrow> nat" where "pos_sq e = pos_st e + 6"
definition pos_d1 :: "GooseEnv \<Rightarrow> nat" where "pos_d1 e = pos_sq e + 4 + length (goose_part3 e)"

lemmas goose_pos_defs = pos_gocb_def pos_ds_def pos_goid_def pos_t_def pos_st_def pos_sq_def pos_d1_def

text \<open>
  The offsets of the fields, for an APDU at \<open>h\<close>: an identifier stands behind the letters \<open>IED\<close> or \<open>GOID\<close>
  of its text.
\<close>

definition goose_offsets :: "nat \<Rightarrow> nat \<Rightarrow> GooseEnv \<Rightarrow> (GOOSE_PARAM_OFFSETS \<Rightarrow> u16) \<Rightarrow> bool" where
  "goose_offsets h a e offs \<longleftrightarrow> unat (offs GOOSE_APPID_OFFSET) = a \<and> unat (offs GOOSE_GOCB_REF_OFFSET) + 3 = h + pos_gocb e \<and>
     unat (offs GOOSE_DS_REF_OFFSET) + 3 = h + pos_ds e \<and> unat (offs GOOSE_GOID_OFFSET) + 4 = h + pos_goid e \<and>
     unat (offs GOOSE_TIMESTAMP_OFFSET) = h + pos_t e \<and> unat (offs GOOSE_ST_NUM_OFFSET) = h + pos_st e \<and>
     unat (offs GOOSE_SQ_NUM_OFFSET) = h + pos_sq e \<and> unat (offs GOOSE_D1_OFFSET) = h + pos_d1 e"

lemma goose_writes:
  fixes H :: bytes
  assumes v: "vars_ok v" and h: "length H = h" and x: "length x = 8"
  shows "wrs (H @ goose_gen_apdu e v @ r) (h + pos_gocb e) x = Some (H @ goose_gen_apdu e (v\<lparr> gv_gocb := x \<rparr>) @ r)"
    and "wrs (H @ goose_gen_apdu e v @ r) (h + pos_ds e) x = Some (H @ goose_gen_apdu e (v\<lparr> gv_ds := x \<rparr>) @ r)"
    and "wrs (H @ goose_gen_apdu e v @ r) (h + pos_goid e) x = Some (H @ goose_gen_apdu e (v\<lparr> gv_goid := x \<rparr>) @ r)"
    and "wrs (H @ goose_gen_apdu e v @ r) (h + pos_t e) x = Some (H @ goose_gen_apdu e (v\<lparr> gv_t := x \<rparr>) @ r)"
    and "put_u32 (H @ goose_gen_apdu e v @ r) (h + pos_st e) n = Some (H @ goose_gen_apdu e (v\<lparr> gv_st := n \<rparr>) @ r)"
    and "put_u32 (H @ goose_gen_apdu e v @ r) (h + pos_sq e) n = Some (H @ goose_gen_apdu e (v\<lparr> gv_sq := n \<rparr>) @ r)"
    and "wr (H @ goose_gen_apdu e v @ r) (h + pos_d1 e) b = Some (H @ goose_gen_apdu e (v\<lparr> gv_d1 := b \<rparr>) @ r)"
proof -
  let ?b0 = "goose_part0 e" and ?b1 = "goose_part1 e" and ?b3 = "goose_part3 e" and ?b4 = "values_bytes (ge_values e) @ r"
  let ?st = "[0x85, 4] @ put32 (gv_st v)" and ?sq = "[0x86, 4] @ put32 (gv_sq v)"
  let ?tail = "[0x84, 8] @ gv_t v @ ?st @ ?sq @ ?b3 @ [gv_d1 v] @ ?b4"
  let ?ids = "H @ ?b0 @ gv_gocb v @ ?b1 @ gv_ds v @ goose_part2 @ gv_goid v"
  note len = v [unfolded vars_ok_def]
  have v': "vars_ok (v\<lparr> gv_gocb := x \<rparr>)" "vars_ok (v\<lparr> gv_ds := x \<rparr>)" "vars_ok (v\<lparr> gv_goid := x \<rparr>)" "vars_ok (v\<lparr> gv_t := x \<rparr>)"
    "vars_ok (v\<lparr> gv_st := n \<rparr>)" "vars_ok (v\<lparr> gv_sq := n \<rparr>)" "vars_ok (v\<lparr> gv_d1 := b \<rparr>)"
    using v x by (simp_all add: vars_ok_def)
  note parts = goose_apdu_parts [OF v] goose_apdu_parts [OF v'(1)] goose_apdu_parts [OF v'(2)] goose_apdu_parts [OF v'(3)]
    goose_apdu_parts [OF v'(4)] goose_apdu_parts [OF v'(5)] goose_apdu_parts [OF v'(6)] goose_apdu_parts [OF v'(7)]
  have w: "wrs ((H @ ?b0) @ gv_gocb v @ ?b1 @ gv_ds v @ goose_part2 @ gv_goid v @ ?tail) (h + pos_gocb e) x =
      Some ((H @ ?b0) @ x @ ?b1 @ gv_ds v @ goose_part2 @ gv_goid v @ ?tail)"
    "wrs ((H @ ?b0 @ gv_gocb v @ ?b1) @ gv_ds v @ goose_part2 @ gv_goid v @ ?tail) (h + pos_ds e) x =
      Some ((H @ ?b0 @ gv_gocb v @ ?b1) @ x @ goose_part2 @ gv_goid v @ ?tail)"
    "wrs ((H @ ?b0 @ gv_gocb v @ ?b1 @ gv_ds v @ goose_part2) @ gv_goid v @ ?tail) (h + pos_goid e) x =
      Some ((H @ ?b0 @ gv_gocb v @ ?b1 @ gv_ds v @ goose_part2) @ x @ ?tail)"
    "wrs ((?ids @ [0x84, 8]) @ gv_t v @ ?st @ ?sq @ ?b3 @ [gv_d1 v] @ ?b4) (h + pos_t e) x =
      Some ((?ids @ [0x84, 8]) @ x @ ?st @ ?sq @ ?b3 @ [gv_d1 v] @ ?b4)"
    "wrs ((?ids @ [0x84, 8] @ gv_t v @ [0x85, 4]) @ put32 (gv_st v) @ ?sq @ ?b3 @ [gv_d1 v] @ ?b4) (h + pos_st e) (put32 n) =
      Some ((?ids @ [0x84, 8] @ gv_t v @ [0x85, 4]) @ put32 n @ ?sq @ ?b3 @ [gv_d1 v] @ ?b4)"
    "wrs ((?ids @ [0x84, 8] @ gv_t v @ ?st @ [0x86, 4]) @ put32 (gv_sq v) @ ?b3 @ [gv_d1 v] @ ?b4) (h + pos_sq e) (put32 n) =
      Some ((?ids @ [0x84, 8] @ gv_t v @ ?st @ [0x86, 4]) @ put32 n @ ?b3 @ [gv_d1 v] @ ?b4)"
    "wrs ((?ids @ [0x84, 8] @ gv_t v @ ?st @ ?sq @ ?b3) @ [gv_d1 v] @ ?b4) (h + pos_d1 e) [b] =
      Some ((?ids @ [0x84, 8] @ gv_t v @ ?st @ ?sq @ ?b3) @ [b] @ ?b4)"
    by (rule wrs_append; simp add: goose_pos_defs h len x)+
  show "wrs (H @ goose_gen_apdu e v @ r) (h + pos_gocb e) x = Some (H @ goose_gen_apdu e (v\<lparr> gv_gocb := x \<rparr>) @ r)"
    using w(1) unfolding parts append_assoc by (simp del: wrs_Some)
  show "wrs (H @ goose_gen_apdu e v @ r) (h + pos_ds e) x = Some (H @ goose_gen_apdu e (v\<lparr> gv_ds := x \<rparr>) @ r)"
    using w(2) unfolding parts append_assoc by (simp del: wrs_Some)
  show "wrs (H @ goose_gen_apdu e v @ r) (h + pos_goid e) x = Some (H @ goose_gen_apdu e (v\<lparr> gv_goid := x \<rparr>) @ r)"
    using w(3) unfolding parts append_assoc by (simp del: wrs_Some)
  show "wrs (H @ goose_gen_apdu e v @ r) (h + pos_t e) x = Some (H @ goose_gen_apdu e (v\<lparr> gv_t := x \<rparr>) @ r)"
    using w(4) unfolding parts append_assoc by (simp del: wrs_Some)
  show "put_u32 (H @ goose_gen_apdu e v @ r) (h + pos_st e) n = Some (H @ goose_gen_apdu e (v\<lparr> gv_st := n \<rparr>) @ r)"
    using w(5) unfolding put_u32_def parts append_assoc by (simp del: wrs_Some)
  show "put_u32 (H @ goose_gen_apdu e v @ r) (h + pos_sq e) n = Some (H @ goose_gen_apdu e (v\<lparr> gv_sq := n \<rparr>) @ r)"
    using w(6) unfolding put_u32_def parts append_assoc by (simp del: wrs_Some)
  show "wr (H @ goose_gen_apdu e v @ r) (h + pos_d1 e) b = Some (H @ goose_gen_apdu e (v\<lparr> gv_d1 := b \<rparr>) @ r)"
    using w(7) unfolding wr_eq_wrs parts append_assoc by (simp del: wrs_Some)
qed

definition goose_sent :: "u32 \<Rightarrow> GooseSourceIED \<Rightarrow> GooseSourceIED" where
  "goose_sent delta ied = ied\<lparr> gi_timestamp := gi_timestamp ied + ucast delta, gi_stNum := gi_stNum ied + 1 \<rparr>"

definition goose_vars :: "GooseSourceIED \<Rightarrow> GooseVars" where
  "goose_vars ied = \<lparr> gv_goid = take 8 (gi_sID ied), gv_gocb = take 8 (gi_sID ied), gv_ds = take 8 (gi_sID ied),
     gv_t = put64_le (gi_timestamp ied), gv_st = gi_stNum ied, gv_sq = gi_sqNum ied, gv_d1 = (if gi_stNum ied mod 2 = 0 then 1 else 0) \<rparr>"

lemma length_put64_le [simp]: "length (put64_le t) = 8"
  by (simp add: put64_le_def)

lemma goose_vars_ok: "8 \<le> length (gi_sID ied) \<Longrightarrow> vars_ok (goose_vars ied)"
  by (simp add: vars_ok_def goose_vars_def)

lemma amend_goose_message:
  assumes "vars_ok v" and "goose_offsets (length (H appid)) a e offs" and "8 \<le> length (gi_sID ied)"
    and "\<And>rest. put_u16 (H old @ rest) a appid = Some (H appid @ rest)"
  shows "amend_goose_fields offs delta appid ied (H old @ goose_gen_apdu e v @ r) =
    Some (H appid @ goose_gen_apdu e (goose_vars (goose_sent delta ied)) @ r, goose_sent delta ied)"
proof -
  let ?id = "take 8 (gi_sID ied)" and ?h = "length (H appid)" and ?ied = "goose_sent delta ied"
  have o: "unat (offs GOOSE_APPID_OFFSET) = a" "unat (offs GOOSE_GOCB_REF_OFFSET) + 3 = ?h + pos_gocb e"
    "unat (offs GOOSE_DS_REF_OFFSET) + 3 = ?h + pos_ds e" "unat (offs GOOSE_GOID_OFFSET) + 4 = ?h + pos_goid e"
    "unat (offs GOOSE_TIMESTAMP_OFFSET) = ?h + pos_t e" "unat (offs GOOSE_ST_NUM_OFFSET) = ?h + pos_st e"
    "unat (offs GOOSE_SQ_NUM_OFFSET) = ?h + pos_sq e" "unat (offs GOOSE_D1_OFFSET) = ?h + pos_d1 e"
    using assms(2) by (simp_all add: goose_offsets_def)
  have id: "length ?id = 8" using assms(3) by simp
  let ?v1 = "v\<lparr> gv_goid := ?id \<rparr>" let ?v2 = "?v1\<lparr> gv_gocb := ?id \<rparr>" let ?v3 = "?v2\<lparr> gv_ds := ?id \<rparr>"
  let ?t = "gi_timestamp ied + ucast delta" and ?st = "gi_stNum ied + 1"
  let ?v4 = "?v3\<lparr> gv_t := put64_le ?t \<rparr>" let ?v5 = "?v4\<lparr> gv_st := ?st \<rparr>" let ?v6 = "?v5\<lparr> gv_sq := gi_sqNum ied \<rparr>"
  have ok: "vars_ok ?v1" "vars_ok ?v2" "vars_ok ?v3" "vars_ok ?v4" "vars_ok ?v5" "vars_ok ?v6"
    using assms(1) id by (simp_all add: vars_ok_def)
  note w = goose_writes(3) [OF assms(1) refl id] goose_writes(1) [OF ok(1) refl id] goose_writes(2) [OF ok(2) refl id]
    goose_writes(4) [OF ok(3) refl length_put64_le] goose_writes(5) [OF ok(4) refl id] goose_writes(6) [OF ok(5) refl id] goose_writes(7) [OF ok(6) refl id]
  have "amend_goose_fields offs delta appid ied (H old @ goose_gen_apdu e v @ r) =
      Some (H appid @ goose_gen_apdu e (?v6\<lparr> gv_d1 := if ?st mod 2 = 0 then 1 else 0 \<rparr>) @ r, ?ied)"
    by (simp add: amend_goose_fields_def o assms(4) w Let_def goose_sent_def del: put_u16_Some put_u32_Some wr_Some wrs_Some)
  moreover have "?v6\<lparr> gv_d1 := if ?st mod 2 = 0 then 1 else 0 \<rparr> = goose_vars ?ied"
    by (simp add: goose_vars_def goose_sent_def)
  ultimately show ?thesis by (simp only:)
qed

subsection \<open>The L2 generator\<close>

definition goose_len :: "GooseEnv \<Rightarrow> nat" where
  "goose_len e = length (goose_gen_apdu e blank_vars)"

lemma blank_vars_ok: "vars_ok blank_vars"
  by (simp add: vars_ok_def blank_vars_def)

lemma length_goose_gen_apdu: "vars_ok v \<Longrightarrow> length (goose_gen_apdu e v) = goose_len e"
  by (simp add: goose_len_def goose_apdu_parts blank_vars_ok) (simp add: vars_ok_def blank_vars_def)

definition goose_appid_pos :: "GooseEnv \<Rightarrow> nat" where
  "goose_appid_pos e = (if ge_vlan e = None then 14 else 18)"

text \<open>The encodings of the library: present and short, the revision 1, the number of entries, a frame that fits.\<close>

definition goose_env_ok :: "GooseEnv \<Rightarrow> bool" where
  "goose_env_ok e \<longleftrightarrow> length (ge_res e) = 6 \<and> (\<forall>f \<in> {ge_ttl e, ge_simulation e, ge_confRev e, ge_ndsCom e, ge_num e}. f \<noteq> []) \<and>
     be_number (ge_confRev e) = 1 \<and> be_number (ge_num e) = of_nat (Suc (length (ge_values e))) \<and>
     goose_appid_pos e + 8 + goose_len e \<le> MAX_GOOSE_PACKET_SIZE"

lemma goose_gen_msg_ok:
  assumes "goose_env_ok e" and "vars_ok v"
  shows "goose_msg_ok (goose_gen_msg e v)"
proof -
  let ?ds = "map (\<lambda>b. Prim 0x83 [b]) (gv_d1 v # ge_values e)"
  have apdu: "length (goose_gen_apdu e v) \<le> 1518" using assms by (simp add: goose_env_ok_def length_goose_gen_apdu)
  have "length (goose_gen_apdu e v) \<ge> length (goose_body (goose_gen_msg e v))" by (simp add: goose_gen_apdu_def goose_apdu_def)
  with apdu have body: "length (goose_body (goose_gen_msg e v)) < 65536" by simp
  have sub: "length x < 65536" if "f \<in> set (goose_fields (goose_gen_msg e v))" "x = (case f of Field tag y \<Rightarrow> y | AllData ds \<Rightarrow> concat (map data_tlv ds))" for f x
  proof -
    have "length x \<le> length (field_tlv f)" using that(2) by (cases f) simp_all
    also have "\<dots> \<le> length (goose_body (goose_gen_msg e v))"
      unfolding goose_body_def using that(1) by (induction "goose_fields (goose_gen_msg e v)") (auto simp: length_concat intro: member_le_sum_list)
    finally show ?thesis using body by simp
  qed
  have "field_ok f" if f: "f \<in> set (goose_fields (goose_gen_msg e v))" for f
    using sub [OF f refl] f assms by (auto simp: goose_fields_def goose_gen_msg_def goose_env_ok_def vars_ok_def put32_def ascii_def)
  then show ?thesis using body assms(1) by (simp add: goose_msg_ok_def) (simp add: goose_gen_msg_def goose_env_ok_def)
qed

definition goose_header :: "GooseEnv \<Rightarrow> MAC \<Rightarrow> u16 \<Rightarrow> bytes" where
  "goose_header e smac appid = l2_header (dstAddress gooseCommParameters) smac (ge_vlan e) 0xB8 appid (ge_res e)"

abbreviation GEN_SMAC :: MAC where "GEN_SMAC \<equiv> MAC 0xF0 0xF1 0xF2 0xF3 0xF4 0xF5"

lemma length_goose_header: "goose_env_ok e \<Longrightarrow> length (goose_header e smac appid) = goose_appid_pos e + 8"
  by (simp add: goose_header_def length_l2_header goose_env_ok_def goose_appid_pos_def)

lemma put_goose_appid: "put_u16 (goose_header e smac old @ rest) (goose_appid_pos e) appid = Some (goose_header e smac appid @ rest)"
proof -
  let ?A = "mac_data (dstAddress gooseCommParameters) @ mac_data smac @
      (case ge_vlan e of None \<Rightarrow> [] | Some (t, u) \<Rightarrow> [0x81, 0x00, t, u]) @ [0x88, 0xB8]"
  have f: "goose_header e smac a @ rest = ?A @ put16 a @ (ge_res e @ rest)" for a by (simp add: goose_header_def l2_header_def)
  have "length ?A = goose_appid_pos e" by (auto simp: goose_appid_pos_def split: option.split)
  then show ?thesis unfolding f put_u16_def by (intro wrs_append) simp_all
qed

definition goose_good :: "GooseEnv \<Rightarrow> nat \<Rightarrow> GooseTrafficGen \<Rightarrow> bool" where
  "goose_good e num gen \<longleftrightarrow> goose_env_ok e \<and> goose_offsets (goose_appid_pos e + 8) (goose_appid_pos e) e (gt_offsets gen) \<and>
     gt_skeletonSize gen = goose_appid_pos e + 8 + goose_len e \<and> length (gt_ieds gen) = num \<and> (\<forall>ied \<in> set (gt_ieds gen). 8 \<le> length (gi_sID ied))"

definition goose_pool :: "GooseEnv \<Rightarrow> bytes \<Rightarrow> bool" where
  "goose_pool e b \<longleftrightarrow> (\<exists>appid v r. b = goose_header e GEN_SMAC appid @ goose_gen_apdu e v @ r \<and> vars_ok v)"

definition goose_frame :: "GooseEnv \<Rightarrow> GooseTrafficGen \<Rightarrow> PacketDesc \<Rightarrow> bytes" where
  "goose_frame e gen d = goose_header e GEN_SMAC (ucast (idx d + 1)) @
     goose_gen_apdu e (goose_vars (goose_sent (gt_tsDeltaChange gen) (gt_ieds gen ! unat (idx d))))"

definition goose_after :: "GooseTrafficGen \<Rightarrow> PacketDesc \<Rightarrow> GooseTrafficGen" where
  "goose_after gen d = gen\<lparr> gt_ieds := (gt_ieds gen)[unat (idx d) := goose_sent (gt_tsDeltaChange gen) (gt_ieds gen ! unat (idx d))] \<rparr>"

interpretation goose_tx: traffic_gen goose_AmendPacket "goose_good e num" "goose_pool e" num "goose_frame e" goose_after for e num
proof unfold_locales
  fix g b and d :: PacketDesc
  assume g: "goose_good e num g" and b: "goose_pool e b" and d: "unat (idx d) < num"
  obtain old v r where v: "b = goose_header e GEN_SMAC old @ goose_gen_apdu e v @ r" "vars_ok v" using b by (auto simp: goose_pool_def)
  let ?ied = "gt_ieds g ! unat (idx d)"
  have ok: "goose_env_ok e" "goose_offsets (goose_appid_pos e + 8) (goose_appid_pos e) e (gt_offsets g)" "8 \<le> length (gi_sID ?ied)"
    and i: "at_index (gt_ieds g) (idx d) = Some ?ied" using g d by (auto simp: goose_good_def at_index_def)
  have vs: "vars_ok (goose_vars (goose_sent (gt_tsDeltaChange g) ?ied))" using ok(3) by (intro goose_vars_ok) (simp add: goose_sent_def)
  have "amend_goose_fields (gt_offsets g) (gt_tsDeltaChange g) (ucast (idx d + 1)) ?ied b = Some (goose_frame e g d @ r, goose_sent (gt_tsDeltaChange g) ?ied)"
    using amend_goose_message [where H = "goose_header e GEN_SMAC", OF v(2) _ ok(3) put_goose_appid] ok(2) length_goose_header [OF ok(1)]
    by (simp add: v(1) goose_frame_def)
  moreover have "length (goose_frame e g d) = gt_skeletonSize g"
    using g by (simp add: goose_frame_def length_goose_header [OF ok(1)] length_goose_gen_apdu [OF vs] goose_good_def)
  moreover have "goose_pool e (goose_frame e g d @ r)" using vs by (auto simp: goose_pool_def goose_frame_def)
  ultimately show "\<exists>b' n. goose_AmendPacket d b g = Some (b', n, goose_after g d) \<and> take n b' = goose_frame e g d \<and> goose_pool e b'"
    using i by (simp add: goose_AmendPacket_def goose_after_def)
next
  fix g and d :: PacketDesc
  assume "goose_good e num g" and "unat (idx d) < num"
  then show "goose_good e num (goose_after g d)"
    by (auto simp: goose_good_def goose_after_def goose_sent_def dest!: set_update_subset_insert [THEN subsetD])
qed

subsection \<open>The generator that the constructor makes\<close>

text \<open>The fields of the skeleton: the patterns of the source, and the time at which the library made the message.\<close>

definition skeleton_vars :: "bytes \<Rightarrow> GooseVars" where
  "skeleton_vars t = \<lparr> gv_goid = ascii ''12345678'', gv_gocb = ascii ''12345678'', gv_ds = ascii ''12345678'', gv_t = t,
     gv_st = 0x7FFFFFFF, gv_sq = 0x7FFFFFFF, gv_d1 = 0 \<rparr>"

text \<open>
  What the generators rely on: for the publisher they set up, the library gives the frame of such a
  message, with one value for each signal, and finds the fields in it.
\<close>

definition goose_lib_ok :: "Iec61850 \<Rightarrow> u32 \<Rightarrow> GooseEnv \<Rightarrow> bool" where
  "goose_lib_ok lib sigNum e \<longleftrightarrow> goose_env_ok e \<and> unat sigNum = Suc (length (ge_values e)) \<and> GoosePublisher_create lib gooseCommParameters \<and>
     (\<exists>smac t offs. length t = 8 \<and>
        GoosePublisher_generateMessage lib (goose_publisher sigNum) =
          Some (goose_header e smac (appId gooseCommParameters) @ goose_gen_apdu e (skeleton_vars t)) \<and>
        GooseReceiver_getMessageOffsets lib (goose_header e GEN_SMAC (appId gooseCommParameters) @ goose_gen_apdu e (skeleton_vars t)) = Some offs \<and>
        goose_offsets (goose_appid_pos e + 8) (goose_appid_pos e) e offs)"

lemma put_goose_smac:
  "wrs (goose_header e smac appid @ rest) 6 [0xF0, 0xF1, 0xF2, 0xF3, 0xF4, 0xF5] = Some (goose_header e GEN_SMAC appid @ rest)"
proof -
  let ?B = "(case ge_vlan e of None \<Rightarrow> [] | Some (t, u) \<Rightarrow> [0x81, 0x00, t, u]) @ [0x88, 0xB8] @ put16 appid @ ge_res e @ rest"
  have f: "goose_header e s appid @ rest = mac_data (dstAddress gooseCommParameters) @ mac_data s @ ?B" for s
    by (simp add: goose_header_def l2_header_def)
  have "wrs (mac_data (dstAddress gooseCommParameters) @ mac_data smac @ ?B) 6 [0xF0, 0xF1, 0xF2, 0xF3, 0xF4, 0xF5] =
      Some (mac_data (dstAddress gooseCommParameters) @ [0xF0, 0xF1, 0xF2, 0xF3, 0xF4, 0xF5] @ ?B)"
    by (rule wrs_append) simp_all
  then show ?thesis unfolding f by (simp del: wrs_Some)
qed

definition goose_skeleton :: "GooseEnv \<Rightarrow> GooseTrafficGen \<Rightarrow> bool" where
  "goose_skeleton e gen \<longleftrightarrow> (\<exists>v r. vars_ok v \<and> gt_skeleton gen = goose_header e GEN_SMAC (appId gooseCommParameters) @ goose_gen_apdu e v @ r)"

lemma goose_new:
  assumes "goose_lib_ok lib sigNum e"
  obtains gen where "GooseTrafficGen_new lib num freq sigNum = Some (Inr gen)" and "goose_good e (unat num) gen"
    and "gt_ieds gen = map (\<lambda>i. goose_InitIED (of_nat i + 1) GooseSourceIED_init) [0..<unat num]"
    and "gt_units gen = GenerateTxUnits num freq" and "goose_skeleton e gen"
proof -
  let ?h = "goose_header e" and ?id = "appId gooseCommParameters" and ?p = "goose_appid_pos e"
  obtain smac t offs where e: "goose_env_ok e" "length t = 8" "GoosePublisher_create lib gooseCommParameters"
    "GoosePublisher_generateMessage lib (goose_publisher sigNum) = Some (?h smac ?id @ goose_gen_apdu e (skeleton_vars t))"
    "GooseReceiver_getMessageOffsets lib (?h GEN_SMAC ?id @ goose_gen_apdu e (skeleton_vars t)) = Some offs"
    "goose_offsets (?p + 8) ?p e offs"
    using assms unfolding goose_lib_ok_def by blast
  let ?apdu = "goose_gen_apdu e (skeleton_vars t)" and ?n = "?p + 8 + goose_len e"
  have v: "vars_ok (skeleton_vars t)" using e(2) by (simp add: vars_ok_def skeleton_vars_def)
  have len: "length (?h s ?id @ ?apdu) = ?n" for s by (simp add: length_goose_header [OF e(1)] length_goose_gen_apdu [OF v])
  define r where "r = replicate (1518 - ?n) (0 :: u8)"
  have w: "wrs (replicate 1518 0) 0 (?h smac ?id @ ?apdu) = Some ((?h smac ?id @ ?apdu) @ r)"
    using e(1) len [of smac] by (simp add: wrs_def patch_def goose_env_ok_def r_def)
  note m = put_goose_smac [of e smac ?id "?apdu @ r"]
  have tk: "take ?n (?h GEN_SMAC ?id @ ?apdu @ r) = ?h GEN_SMAC ?id @ ?apdu" using len [of GEN_SMAC] by simp
  let ?gen = "\<lparr> gt_ieds = map (\<lambda>i. goose_InitIED (of_nat i + 1) GooseSourceIED_init) [0..<unat num], gt_units = GenerateTxUnits num freq,
            gt_tsDeltaChange = 0, gt_offsets = offs, gt_skeleton = ?h GEN_SMAC ?id @ ?apdu @ r, gt_skeletonSize = ?n \<rparr>"
  show thesis
  proof (rule that [of ?gen])
    have lu: "of_nat (unat num) = num" by simp
    show "GooseTrafficGen_new lib num freq sigNum = Some (Inr ?gen)"
      using e(3-5) w m tk len [of smac]
      by (simp add: GooseTrafficGen_new_def goose_MakeSkeletonPacket_def Let_def lu del: wrs_Some length_append of_nat_unat)
    show "goose_good e (unat num) ?gen" using e(1,6) by (auto simp: goose_good_def goose_InitIED_def length_print_id)
    show "goose_skeleton e ?gen" using v by (auto simp: goose_skeleton_def)
  qed simp_all
qed

subsection \<open>R-GOOSE\<close>

abbreviation goose_message :: "GooseEnv \<Rightarrow> bytes \<Rightarrow> bool" where
  "goose_message e apdu \<equiv> \<exists>v. apdu = goose_gen_apdu e v \<and> vars_ok v"

abbreviation goose_pdu :: "RFrameConfig \<Rightarrow> GooseEnv \<Rightarrow> u32 \<Rightarrow> u16 \<Rightarrow> BuildParams" where
  "goose_pdu cfg e \<equiv> r_pdu cfg SI_R_GOOSE PAYLOAD_TYPE_GOOSE (goose_len e)"

definition rgoose_gen_ok :: "RFrameConfig \<Rightarrow> GooseEnv \<Rightarrow> RGooseTrafficGen \<Rightarrow> bool" where
  "rgoose_gen_ok cfg e gen \<longleftrightarrow> goose_env_ok e \<and> hmac_works (rg_crypto gen) \<and> gcm_works (rg_crypto gen) \<and>
     dst_ok cfg (udp_payload_size (rf_mode cfg) (goose_len e)) (rg_dst gen) \<and>
     unat (rg_regionOffset gen) = 73 + unat (iv_length (rf_mode cfg)) \<and> rg_spduOffset gen = 52 \<and>
     goose_offsets 6 2 e (rg_offsets gen) \<and>
     region_ok cfg SI_R_GOOSE PAYLOAD_TYPE_GOOSE (goose_len e) (goose_message e) (rg_plain gen) \<and>
     rg_skeletonSize gen = 42 + udp_payload_size (rf_mode cfg) (goose_len e) \<and>
     (\<forall>ied \<in> set (rg_ieds gen). 8 \<le> length (gi_sID ied))"

definition rgoose_sent :: "u32 \<Rightarrow> GooseSourceIED \<Rightarrow> GooseSourceIED" where
  "rgoose_sent delta ied = goose_sent delta (ied\<lparr> gi_spduNumber := gi_spduNumber ied + 1 \<rparr>)"

definition rgoose_message :: "GooseEnv \<Rightarrow> RGooseTrafficGen \<Rightarrow> PacketDesc \<Rightarrow> bytes" where
  "rgoose_message e gen d = goose_gen_apdu e (goose_vars (rgoose_sent (rg_tsDeltaChange gen) (rg_ieds gen ! unat (idx d))))"

definition rgoose_frame :: "RFrameConfig \<Rightarrow> GooseEnv \<Rightarrow> RGooseTrafficGen \<Rightarrow> PacketDesc \<Rightarrow> bytes" where
  "rgoose_frame cfg e gen d =
     (let stream = idx d + rg_baseIdx gen; appid = ucast (stream + 1)
      in udp_prefix (cfg\<lparr> rf_dstIP := stream_dst_ip (rf_dstIP cfg) stream \<rparr>) (udp_payload_size (rf_mode cfg) (goose_len e)) appid @
         sealed_pdu (rg_crypto gen) (goose_pdu cfg e (gi_spduNumber (rg_ieds gen ! unat (idx d)) + 1) appid) (rgoose_message e gen d))"

definition rgoose_after :: "RFrameConfig \<Rightarrow> GooseEnv \<Rightarrow> RGooseTrafficGen \<Rightarrow> PacketDesc \<Rightarrow> RGooseTrafficGen" where
  "rgoose_after cfg e gen d = gen\<lparr> rg_ieds := (rg_ieds gen)[unat (idx d) := rgoose_sent (rg_tsDeltaChange gen) (rg_ieds gen ! unat (idx d))],
     rg_plain := (if rf_mode cfg = SEC_GCM then payload_elem (goose_pdu cfg e 0 (ucast (idx d + rg_baseIdx gen + 1))) @ rgoose_message e gen d
                  else rg_plain gen) \<rparr>"

lemma goose_len_small: "goose_env_ok e \<Longrightarrow> goose_len e < 65536"
  by (simp add: goose_env_ok_def)

lemma rgoose_message_ok:
  assumes "rgoose_gen_ok cfg e gen" and "unat (idx d) < length (rg_ieds gen)"
  shows "goose_message e (rgoose_message e gen d)" and "length (rgoose_message e gen d) = goose_len e"
proof -
  have "8 \<le> length (gi_sID (rg_ieds gen ! unat (idx d)))" using assms by (auto simp: rgoose_gen_ok_def)
  then have v: "vars_ok (goose_vars (rgoose_sent (rg_tsDeltaChange gen) (rg_ieds gen ! unat (idx d))))"
    by (intro goose_vars_ok) (simp add: rgoose_sent_def goose_sent_def)
  then show "goose_message e (rgoose_message e gen d)" by (auto simp: rgoose_message_def)
  show "length (rgoose_message e gen d) = goose_len e" unfolding rgoose_message_def by (rule length_goose_gen_apdu [OF v])
qed

text \<open>The writes on the region: the APPID in the payload element and the fields of the message behind it.\<close>

lemma amend_goose_region:
  assumes "goose_offsets 6 2 e offs" and "vars_ok v" and "8 \<le> length (gi_sID ied)"
  shows "amend_goose_fields offs delta appid ied (payload_elem (goose_pdu cfg e 0 old) @ goose_gen_apdu e v @ r) =
    Some (payload_elem (goose_pdu cfg e 0 appid) @ goose_gen_apdu e (goose_vars (goose_sent delta ied)) @ r, goose_sent delta ied)"
  using amend_goose_message [where H = "\<lambda>a. payload_elem (goose_pdu cfg e 0 a)", OF assms(2) _ assms(3) put_region_appid] assms(1) by simp

lemma amend_region_behind:
  assumes "unat off = length head" and "length data = length plain"
    and "mode = SEC_GCM \<Longrightarrow> f plain = Some (new, s)" and "mode \<noteq> SEC_GCM \<Longrightarrow> f (data @ rest) = Some (new @ rest, s)"
    and "length new = length plain"
  shows "amend_region mode off f plain (head @ data @ rest) = Some (s, head @ new @ rest, if mode = SEC_GCM then new else plain)"
proof (cases "mode = SEC_GCM")
  case True
  have "wrs (head @ data @ rest) (unat off) new = Some (head @ new @ rest)" by (rule wrs_append [OF assms(1)]) (use assms(2,5) in simp)
  then show ?thesis using True assms(3) by (simp add: amend_region_def del: wrs_Some)
next
  case False
  then show ?thesis using assms(4) by (simp add: amend_region_def within_behind [OF assms(1)])
qed

lemma rgoose_amend_frame:
  assumes ok: "rgoose_gen_ok cfg e gen" and d: "unat (idx desc) < length (rg_ieds gen)"
    and b: "r_buffer cfg SI_R_GOOSE PAYLOAD_TYPE_GOOSE (goose_len e) (goose_message e) b"
  obtains r where "rgoose_AmendPacket (rf_mode cfg) desc b gen =
    Some (rgoose_frame cfg e gen desc @ r, rg_skeletonSize gen, rgoose_after cfg e gen desc)"
proof -
  let ?n = "udp_payload_size (rf_mode cfg) (goose_len e)" and ?p = "goose_pdu cfg e"
  let ?stream = "idx desc + rg_baseIdx gen" let ?appid = "ucast (?stream + 1) :: u16"
  let ?ied = "rg_ieds gen ! unat (idx desc)" let ?spdu = "gi_spduNumber ?ied + 1"
  let ?ied1 = "?ied\<lparr> gi_spduNumber := ?spdu \<rparr>" and ?apdu = "rgoose_message e gen desc"
  let ?pre = "udp_prefix (cfg\<lparr> rf_dstIP := stream_dst_ip (rf_dstIP cfg) ?stream \<rparr>) ?n ?appid"
  have g: "goose_env_ok e" "hmac_works (rg_crypto gen)" "gcm_works (rg_crypto gen)" "dst_ok cfg ?n (rg_dst gen)"
    "unat (rg_regionOffset gen) = 73 + unat (iv_length (rf_mode cfg))" "rg_spduOffset gen = 52"
    "goose_offsets 6 2 e (rg_offsets gen)" "8 \<le> length (gi_sID ?ied)"
    using ok d by (auto simp: rgoose_gen_ok_def)
  obtain old pv where plain: "rg_plain gen = payload_elem (?p 0 old) @ goose_gen_apdu e pv" "vars_ok pv"
    using ok by (auto simp: rgoose_gen_ok_def region_ok_def)
  obtain ip port spdu iv data space r where buf: "b = udp_prefix (cfg\<lparr> rf_dstIP := ip \<rparr>) ?n port @ session_image (?p spdu 0) iv @ data @ space @ r"
    and len: "length iv = unat (iv_length (rf_mode cfg))" "length data = 6 + goose_len e" "length space = trailer_size (rf_mode cfg)"
    and region: "rf_mode cfg \<noteq> SEC_GCM \<longrightarrow> region_ok cfg SI_R_GOOSE PAYLOAD_TYPE_GOOSE (goose_len e) (goose_message e) data"
    using b unfolding r_buffer_def by blast
  have i: "at_index (rg_ieds gen) (idx desc) = Some ?ied" using d by (simp add: at_index_def)
  let ?head = "?pre @ session_image (?p ?spdu 0) iv"
  have h: "unat (rg_regionOffset gen) = length ?head" using g(5) len(1) by simp
  have env: "amend_r_envelope (rg_dst gen) ?appid ?stream (rg_spduOffset gen) ?spdu b = Some (?head @ data @ space @ r)"
    using amend_envelope [OF g(4), of ?appid ?stream ?spdu ip port SI_R_GOOSE PAYLOAD_TYPE_GOOSE "goose_len e" spdu iv "data @ space @ r"]
    by (simp add: buf g(6))
  have la: "length ?apdu = goose_len e" by (rule rgoose_message_ok(2) [OF ok d])
  let ?f = "amend_goose_fields (rg_offsets gen) (rg_tsDeltaChange gen) ?appid ?ied1" and ?new = "payload_elem (?p 0 ?appid) @ ?apdu"
  have f: "?f (payload_elem (?p 0 o2) @ goose_gen_apdu e v @ q) = Some (?new @ q, rgoose_sent (rg_tsDeltaChange gen) ?ied)" if "vars_ok v" for o2 v q
    using amend_goose_region [OF g(7) that, of ?ied1 "rg_tsDeltaChange gen" ?appid cfg o2 q] g(8) by (simp add: rgoose_message_def rgoose_sent_def)
  have reg: "amend_region (rf_mode cfg) (rg_regionOffset gen) ?f (rg_plain gen) (?head @ data @ space @ r) =
      Some (rgoose_sent (rg_tsDeltaChange gen) ?ied, ?head @ ?new @ space @ r, if rf_mode cfg = SEC_GCM then ?new else rg_plain gen)"
  proof (rule amend_region_behind [OF h])
    show "?f (rg_plain gen) = Some (?new, rgoose_sent (rg_tsDeltaChange gen) ?ied)" using f [OF plain(2), of old "[]"] by (simp add: plain(1))
    assume "rf_mode cfg \<noteq> SEC_GCM"
    then obtain o2 v where "data = payload_elem (?p 0 o2) @ goose_gen_apdu e v" "vars_ok v" using region by (auto simp: region_ok_def)
    then show "?f (data @ space @ r) = Some (?new @ space @ r, rgoose_sent (rg_tsDeltaChange gen) ?ied)" using f [of v o2 "space @ r"] by simp
  qed (use len(2) la plain length_goose_gen_apdu in simp_all)
  have "seal_packet (rf_mode cfg) (rg_crypto gen) (?head @ ?new @ space @ r) = Some (?pre @ sealed_pdu (rg_crypto gen) (?p ?spdu ?appid) ?apdu @ r)"
    using seal_packet_image [OF la goose_len_small [OF g(1)] g(2,3) len(1,3)] by simp
  then show thesis
    using i env reg by (intro that [of r]) (simp add: rgoose_AmendPacket_def Let_def rgoose_frame_def rgoose_after_def)
qed

definition rgoose_good :: "RFrameConfig \<Rightarrow> GooseEnv \<Rightarrow> Crypto \<Rightarrow> u32 \<Rightarrow> nat \<Rightarrow> RGooseTrafficGen \<Rightarrow> bool" where
  "rgoose_good cfg e crypto base num gen \<longleftrightarrow> rgoose_gen_ok cfg e gen \<and> rg_crypto gen = crypto \<and> rg_baseIdx gen = base \<and> length (rg_ieds gen) = num"

interpretation rgoose_tx: traffic_gen "rgoose_AmendPacket (rf_mode cfg)" "rgoose_good cfg e crypto base num"
  "r_buffer cfg SI_R_GOOSE PAYLOAD_TYPE_GOOSE (goose_len e) (goose_message e)" num "rgoose_frame cfg e" "rgoose_after cfg e"
  for cfg e crypto base num
proof unfold_locales
  fix g b and d :: PacketDesc
  assume g: "rgoose_good cfg e crypto base num g" and b: "r_buffer cfg SI_R_GOOSE PAYLOAD_TYPE_GOOSE (goose_len e) (goose_message e) b"
    and d: "unat (idx d) < num"
  have ok: "rgoose_gen_ok cfg e g" "unat (idx d) < length (rg_ieds g)" using g d by (auto simp: rgoose_good_def)
  obtain r where r: "rgoose_AmendPacket (rf_mode cfg) d b g = Some (rgoose_frame cfg e g d @ r, rg_skeletonSize g, rgoose_after cfg e g d)"
    by (rule rgoose_amend_frame [OF ok b])
  have c: "goose_env_ok e" "hmac_works (rg_crypto g)" "gcm_works (rg_crypto g)" using ok(1) by (auto simp: rgoose_gen_ok_def)
  note msg = rgoose_message_ok [OF ok]
  have "length (rgoose_frame cfg e g d) = rg_skeletonSize g"
    using sealed_pdu_opens(2) [OF msg(2) goose_len_small [OF c(1)] c(2,3)] ok(1) by (simp add: rgoose_frame_def Let_def rgoose_gen_ok_def)
  moreover have "r_buffer cfg SI_R_GOOSE PAYLOAD_TYPE_GOOSE (goose_len e) (goose_message e) (rgoose_frame cfg e g d @ r)"
    unfolding rgoose_frame_def Let_def append_assoc
    by (rule sealed_buffer [where A = "goose_message e"]) (use msg c goose_len_small [OF c(1)] in simp_all)
  ultimately show "\<exists>b' n. rgoose_AmendPacket (rf_mode cfg) d b g = Some (b', n, rgoose_after cfg e g d) \<and> take n b' = rgoose_frame cfg e g d \<and>
      r_buffer cfg SI_R_GOOSE PAYLOAD_TYPE_GOOSE (goose_len e) (goose_message e) b'"
    using r by simp
next
  fix g and d :: PacketDesc
  assume g: "rgoose_good cfg e crypto base num g" and d: "unat (idx d) < num"
  then have ok: "rgoose_gen_ok cfg e g" "unat (idx d) < length (rg_ieds g)" by (auto simp: rgoose_good_def)
  have "region_ok cfg SI_R_GOOSE PAYLOAD_TYPE_GOOSE (goose_len e) (goose_message e) (rg_plain (rgoose_after cfg e g d))"
    using ok(1) rgoose_message_ok [OF ok] by (auto simp: rgoose_after_def rgoose_gen_ok_def region_ok_def)
  then show "rgoose_good cfg e crypto base num (rgoose_after cfg e g d)"
    using g ok by (auto simp: rgoose_good_def rgoose_gen_ok_def rgoose_after_def rgoose_sent_def goose_sent_def dest!: set_update_subset_insert [THEN subsetD])
qed

text \<open>
  The length word of the L2 skeleton counts the APDU, and the routable frame fits the array of its
  skeleton, which the constructor checks.
\<close>

definition goose_length_ok :: "RFrameConfig \<Rightarrow> GooseEnv \<Rightarrow> bool" where
  "goose_length_ok cfg e \<longleftrightarrow> take 2 (ge_res e) = put16 (of_nat (8 + goose_len e)) \<and>
     42 + udp_payload_size (rf_mode cfg) (goose_len e) \<le> MAX_GOOSE_PACKET_SIZE"

lemma goose_pos_bounds:
  "3 \<le> pos_gocb e" "3 \<le> pos_ds e" "4 \<le> pos_goid e" "pos_gocb e \<le> goose_len e" "pos_ds e \<le> goose_len e" "pos_goid e \<le> goose_len e"
  "pos_t e \<le> goose_len e" "pos_st e \<le> goose_len e" "pos_sq e \<le> goose_len e" "pos_d1 e \<le> goose_len e"
  unfolding goose_len_def goose_apdu_parts [OF blank_vars_ok] goose_pos_defs
  by (simp_all add: blank_vars_def) (simp_all add: goose_part0_def goose_part2_def)

lemma goose_offsets_rebased:
  assumes "goose_offsets (k + 8) k e offs" and "goose_env_ok e"
  shows "goose_offsets 6 2 e (\<lambda>i. if i = GOOSE_APPID_OFFSET then 2 else rebase (k + 8) (offs i))"
proof -
  have len: "goose_len e < 60000" using assms(2) by (simp add: goose_env_ok_def)
  note b = goose_pos_bounds [of e]
  have r: "unat (rebase (k + 8) (offs i)) = 6 + j" if "unat (offs i) + n = k + 8 + p" "p = j + n" "p \<le> goose_len e" for i n p j
    using that len by (intro unat_rebase) simp_all
  show ?thesis
    using assms(1) b r [of GOOSE_GOCB_REF_OFFSET 3 "pos_gocb e" "pos_gocb e - 3"] r [of GOOSE_DS_REF_OFFSET 3 "pos_ds e" "pos_ds e - 3"]
      r [of GOOSE_GOID_OFFSET 4 "pos_goid e" "pos_goid e - 4"] r [of GOOSE_TIMESTAMP_OFFSET 0 "pos_t e" "pos_t e"]
      r [of GOOSE_ST_NUM_OFFSET 0 "pos_st e" "pos_st e"] r [of GOOSE_SQ_NUM_OFFSET 0 "pos_sq e" "pos_sq e"] r [of GOOSE_D1_OFFSET 0 "pos_d1 e" "pos_d1 e"]
    unfolding goose_offsets_def by simp
qed

lemma rgoose_new:
  assumes "goose_lib_ok lib sigNum e" and "goose_length_ok cfg e" and "hmac_works crypto" "gcm_works crypto"
  obtains gen where "RGooseTrafficGen_new lib crypto True num freq sigNum cfg base = Some (Inr gen)"
    and "rgoose_good cfg e crypto base (unat num) gen"
    and "rg_ieds gen = map (\<lambda>i. GooseSourceIED_init\<lparr> gi_sID := print_id 9 (dec_padded 8 (unat base + i + 1)) \<rparr>) [0..<unat num]"
    and "rg_units gen = GenerateTxUnits num freq"
    and "\<forall>r. r_buffer cfg SI_R_GOOSE PAYLOAD_TYPE_GOOSE (goose_len e) (goose_message e) (take (rg_skeletonSize gen) (rg_skeleton gen) @ r)"
proof -
  let ?n = "udp_payload_size (rf_mode cfg) (goose_len e)" and ?iv = "replicate (unat (iv_length (rf_mode cfg))) (0 :: u8)"
  let ?t = "replicate (trailer_size (rf_mode cfg)) (0 :: u8)" and ?p = "goose_pdu cfg e 0 0" and ?k = "goose_appid_pos e"
  obtain l2 where l2: "GooseTrafficGen_new lib num freq sigNum = Some (Inr l2)" "goose_good e (unat num) l2" "gt_units l2 = GenerateTxUnits num freq"
    "goose_skeleton e l2"
    by (rule goose_new [OF assms(1), of num freq])
  obtain v rest where v: "vars_ok v" "gt_skeleton l2 = goose_header e GEN_SMAC (appId gooseCommParameters) @ goose_gen_apdu e v @ rest"
    using l2(4) by (auto simp: goose_skeleton_def)
  let ?apdu = "goose_gen_apdu e v"
  have e: "goose_env_ok e" "length (ge_res e) = 6" and offs: "goose_offsets (?k + 8) ?k e (gt_offsets l2)"
    and size: "gt_skeletonSize l2 = ?k + 8 + goose_len e" using l2(2) by (auto simp: goose_good_def goose_env_ok_def)
  have pos: "unat (gt_offsets l2 GOOSE_APPID_OFFSET) = ?k" using offs by (simp add: goose_offsets_def)
  have la: "length ?apdu = goose_len e" by (rule length_goose_gen_apdu [OF v(1)])
  let ?eth = "mac_data (dstAddress gooseCommParameters) @ mac_data GEN_SMAC @
      (case ge_vlan e of None \<Rightarrow> [] | Some (t, u) \<Rightarrow> [0x81, 0x00, t, u]) @ [0x88, 0xB8] @ put16 (appId gooseCommParameters)"
  have res: "ge_res e = put16 (of_nat (8 + goose_len e)) @ drop 2 (ge_res e)"
    using assms(2) unfolding goose_length_ok_def by (metis append_take_drop_id)
  have "goose_header e GEN_SMAC (appId gooseCommParameters) = ?eth @ ge_res e" by (simp add: goose_header_def l2_header_def)
  then have buf: "gt_skeleton l2 = ?eth @ put16 (of_nat (8 + goose_len e)) @ drop 2 (ge_res e) @ ?apdu @ rest"
    unfolding v(2) by (metis res append_assoc)
  have leth: "length ?eth = ?k + 2" by (auto simp: goose_appid_pos_def split: option.split)
  have fit: "42 + ?n \<le> MAX_GOOSE_PACKET_SIZE" "MAX_GOOSE_PACKET_SIZE < (65536 :: nat)" using assms(2) by (auto simp: goose_length_ok_def)
  obtain r where sk: "make_r_skeleton ''GOOSE'' SI_R_GOOSE PAYLOAD_TYPE_GOOSE MAX_GOOSE_PACKET_SIZE (gt_skeleton l2) ?k (gt_skeletonSize l2) cfg =
    Some (Inr \<lparr> rk_skeleton = udp_prefix cfg ?n 0 @ session_image ?p ?iv @ (payload_elem ?p @ ?apdu) @ ?t @ r,
      rk_skeletonSize = 42 + ?n,
      rk_dst = map (\<lambda>i. group_fields cfg ?n (stream_dst_ip (rf_dstIP cfg) (of_nat i))) [0..<unat R_DST_SPREAD],
      rk_regionOffset = of_nat (73 + unat (iv_length (rf_mode cfg))), rk_spduOffset = 52,
      rk_plain = payload_elem ?p @ ?apdu, rk_l2ApduOff = ?k + 8 \<rparr>)"
    by (rule make_r_skeleton_image [OF buf leth _ la size fit]) (use e in simp)
  let ?gen = "\<lparr> rg_ieds = map (\<lambda>i. GooseSourceIED_init\<lparr> gi_sID := print_id 9 (dec_padded 8 (unat base + i + 1)) \<rparr>) [0..<unat num],
    rg_units = GenerateTxUnits num freq, rg_crypto = crypto, rg_baseIdx = base, rg_tsDeltaChange = 0,
    rg_offsets = (\<lambda>i. if i = GOOSE_APPID_OFFSET then 2 else rebase (?k + 8) (gt_offsets l2 i)),
    rg_regionOffset = of_nat (73 + unat (iv_length (rf_mode cfg))), rg_spduOffset = 52, rg_plain = payload_elem ?p @ ?apdu,
    rg_dst = map (\<lambda>i. group_fields cfg ?n (stream_dst_ip (rf_dstIP cfg) (of_nat i))) [0..<unat R_DST_SPREAD],
    rg_skeleton = udp_prefix cfg ?n 0 @ session_image ?p ?iv @ (payload_elem ?p @ ?apdu) @ ?t @ r, rg_skeletonSize = 42 + ?n \<rparr>"
  have ro: "unat (of_nat (73 + unat (iv_length (rf_mode cfg))) :: u16) = 73 + unat (iv_length (rf_mode cfg))"
    by (rule unat_of_nat_small) (simp add: unat_iv_length)
  have reg: "region_ok cfg SI_R_GOOSE PAYLOAD_TYPE_GOOSE (goose_len e) (goose_message e) (payload_elem ?p @ ?apdu)"
    unfolding region_ok_def using la v(1) by (intro exI [of _ 0] exI [of _ ?apdu]) auto
  show thesis
  proof (rule that [of ?gen])
    show "RGooseTrafficGen_new lib crypto True num freq sigNum cfg base = Some (Inr ?gen)"
      by (simp add: RGooseTrafficGen_new_def l2(1,3) rgoose_MakeSkeletonPacket_def pos sk Let_def cong: if_cong)
    show "rgoose_good cfg e crypto base (unat num) ?gen"
      using assms(3,4) ro reg e(1) goose_offsets_rebased [OF offs e(1)] by (auto simp: rgoose_good_def rgoose_gen_ok_def dst_ok_def length_print_id)
    show "\<forall>q. r_buffer cfg SI_R_GOOSE PAYLOAD_TYPE_GOOSE (goose_len e) (goose_message e) (take (rg_skeletonSize ?gen) (rg_skeleton ?gen) @ q)"
      unfolding RGooseTrafficGen.simps by (intro allI skeleton_buffer [where A = "goose_message e"]) (use la v(1) in auto)
  qed simp_all
qed

end
