(* ===== verification/Goose_End_To_End.thy ===== *)
theory Goose_End_To_End
  imports End_To_End Goose_Gen_Frames
begin

text \<open>
  The GOOSE generators, L2 and routable, and the receiver together: both families are further instances of the
  locale \<open>stream_link\<close>. A stream follows when the state number of the next frame is one above the
  last one that the receiver has seen, and, for the routable streams, when the session numbers agree.
\<close>

subsection \<open>Passports and counters\<close>

definition no_goose_gaps :: "GooseSource \<Rightarrow> bool" where
  "no_goose_gaps src \<longleftrightarrow> gs_errSeqCnt src = 0 \<and> gs_errSpduCnt src = 0"

definition goose_errors :: "RX_Application \<Rightarrow> u64 \<times> u64 \<times> u64" where
  "goose_errors app = (m_rxUnknownGooseCnt app, m_errGooseParserCnt app, m_errAuthCnt app)"

text \<open>What the receiver makes of a message of publisher \<open>i\<close>: the passport it expects, up to what \<open>operator==\<close> ignores.\<close>

definition publisher_pass :: "u32 \<Rightarrow> nat \<Rightarrow> GoosePassport \<Rightarrow> GoosePassport" where
  "publisher_pass entries i pass = pass\<lparr> gp_gocbref := goose_gocb (of_nat i), gp_dataset := goose_dataset (of_nat i), gp_goid := goose_goid (of_nat i),
     gp_crev := 1, gp_num := ucast entries \<rparr>"

lemma ucast_entries: "unat entries = n \<Longrightarrow> ucast entries = (of_nat n :: u16)"
  by (metis of_nat_unat)

lemma goose_report_pass:
  assumes "goose_env_ok e" and "unat entries = Suc (length (ge_values e))" and "take 8 (gi_sID ied) = ascii (dec_padded 8 (i + 1))" and "i < 65535"
    and "goose_report (goose_gen_msg e (goose_vars ied)) pos pass state = (pass', state')"
  shows "goose_eq pass' (publisher_pass entries i pass)" and "st_stNum state' = gi_stNum ied"
proof -
  have "unat (of_nat (i + 1) :: u32) = i + 1" by (rule unat_of_nat_small) (use assms(4) in simp)
  then have "unat (of_nat i + 1 :: u32) = i + 1" by (simp only: of_nat_add of_nat_1)
  moreover have "be_number (ge_confRev e) = 1" using assms(1) by (simp add: goose_env_ok_def)
  ultimately show "goose_eq pass' (publisher_pass entries i pass)" "st_stNum state' = gi_stNum ied"
    using assms(3,5) ucast_entries [OF assms(2)]
    by (auto simp: goose_report_def goose_gen_msg_def goose_vars_def goose_eq_def publisher_pass_def goose_gocb_def goose_dataset_def goose_goid_def
        ascii_def be_number_put32)
qed

text \<open>The state number grows by one, so the source records no gap.\<close>

lemma goose_state_follows:
  assumes "no_goose_gaps src" and "gs_stNum src = n" and "st_stNum st = n + 1"
  shows "no_goose_gaps (goose_ProcessState pass st src)" and "gs_stNum (goose_ProcessState pass st src) = n + 1"
  using assms by (auto simp: no_goose_gaps_def goose_ProcessState_def Let_def)

lemma goose_session_follows:
  assumes "no_goose_gaps src" and "gs_spduNumber src = n"
  shows "no_goose_gaps (goose_ProcessSessionState (n + 1) src)" and "gs_spduNumber (goose_ProcessSessionState (n + 1) src) = n + 1"
  using assms by (auto simp: no_goose_gaps_def goose_ProcessSessionState_def Let_def)

lemma goose_gaps_counted: "\<forall>x \<in> set (m_values (m_gooseMap app)). no_goose_gaps (snd x) \<Longrightarrow> fst (CountGaps app) = 0"
  unfolding CountGaps_def fst_conv by (intro foldl_zeros) (simp add: no_goose_gaps_def)

lemma goose_register_linked:
  assumes "\<And>i. gp_appid (goose_GetPassport (src (of_nat i))) = of_nat (i + 1)" and "\<And>i. no_goose_gaps (src i)" and "unat num \<le> 65535"
    and "S \<subseteq> {..<unat num}" and "\<And>i. i \<in> S \<Longrightarrow> P i (src (of_nat i))"
  shows "streams_linked gp_appid goose_eq no_goose_gaps (\<lambda>i. goose_GetPassport (src (of_nat i))) S P (register_goose num src container_new)"
proof -
  have "goose_registered (register_goose num src container_new) src num"
    by (rule register_goose_registered [OF assms(1)]) (use assms(3) in simp)
  moreover have "\<forall>x \<in> set (m_values (register_goose num src container_new)). no_goose_gaps (snd x)"
    unfolding register_goose_all
    by (rule goose_key.register_all_values) (use assms(2) in \<open>auto simp: no_goose_gaps_def GooseSource_init_def container_new_def\<close>)
  ultimately show ?thesis using assms(4,5) unfolding streams_linked_def goose_registered_def by blast
qed

lemma goose_init_id: "n \<le> 65535 \<Longrightarrow> take 8 (print_id 9 (dec_padded 8 n)) = ascii (dec_padded 8 n)"
  using take_print_id [of n 8] by simp

lemma goose_units_in_range: "\<forall>u \<in> set (GenerateTxUnits num freq). \<forall>d \<in> set (unit_packets u). unat (idx d) < unat num"
proof -
  have "\<forall>p \<in> set (map unit_packets (GenerateTxUnits num freq)). p = all_streams (unat num)" unfolding units_shape by auto
  then show ?thesis using unat_u32_less [of num] by (auto simp: all_streams_def unat_of_nat_small)
qed

lemma goose_len_min: "64 \<le> goose_len e"
  unfolding goose_len_def goose_apdu_parts [OF blank_vars_ok]
  by (simp add: blank_vars_def) (simp add: goose_part0_def goose_part1_def goose_part2_def)

subsection \<open>The L2 streams\<close>

definition goose_pass :: "u32 \<Rightarrow> nat \<Rightarrow> GoosePassport" where
  "goose_pass entries i = goose_GetPassport (l2_goose_source entries (of_nat i))"

lemma goose_pass_eq:
  "goose_pass entries i = publisher_pass entries i (GoosePassport_init\<lparr> gp_dmac := dstAddress gooseCommParameters, gp_appid := of_nat (i + 1) \<rparr>)"
proof -
  have "ucast (1 + of_nat i :: u32) = (1 + of_nat i :: u16)" using appid_of_index [of i] by simp
  then show ?thesis
    by (simp add: goose_pass_def goose_GetPassport_def l2_goose_source_def goose_SetNumEntries_def goose_SetCRev_def goose_SetGOCBRef_def
        goose_SetDataSetRef_def goose_SetGOID_def goose_SetAppID_def goose_SetMAC_def GooseSource_init_def GoosePassport_init_def
        publisher_pass_def gooseCommParameters_def GOOSE_MAC_def)
qed

definition goose_linked :: "u32 \<Rightarrow> nat \<Rightarrow> GooseTrafficGen \<Rightarrow> RX_Application \<Rightarrow> bool" where
  "goose_linked entries num gen app \<longleftrightarrow> streams_linked gp_appid goose_eq no_goose_gaps (goose_pass entries) {..<num}
     (\<lambda>i src. take 8 (gi_sID (gt_ieds gen ! i)) = ascii (dec_padded 8 (i + 1)) \<and> gs_stNum src = gi_stNum (gt_ieds gen ! i)) (m_gooseMap app)"

definition goose_steady :: "GooseEnv \<Rightarrow> u32 \<Rightarrow> nat \<Rightarrow> GooseTrafficGen \<Rightarrow> bool" where
  "goose_steady e entries num gen \<longleftrightarrow> goose_good e num gen \<and> num \<le> 65535 \<and> unat entries = Suc (length (ge_values e))"

lemma goose_frame_parsed:
  assumes "goose_good e num gen" and "unat (idx d) < num" and "carries b (goose_frame e gen d)"
  shows "\<exists>pos. parse_goose_packet (mb_data b) (mb_len b) GoosePassport_init GooseState_init = Some (Some (Inr (goose_report
      (goose_gen_msg e (goose_vars (goose_sent (gt_tsDeltaChange gen) (gt_ieds gen ! unat (idx d))))) pos
      (GoosePassport_init\<lparr> gp_dmac := dstAddress gooseCommParameters, gp_appid := ucast (idx d + 1) \<rparr>) GooseState_init)))"
    and "in_stage GOOSE b \<and> buffer_ok b"
proof -
  let ?v = "goose_vars (goose_sent (gt_tsDeltaChange gen) (gt_ieds gen ! unat (idx d)))" and ?appid = "ucast (idx d + 1) :: u16"
  have e: "goose_env_ok e" "length (ge_res e) = 6" and "8 \<le> length (gi_sID (gt_ieds gen ! unat (idx d)))"
    using assms(1,2) by (auto simp: goose_good_def goose_env_ok_def)
  then have v: "vars_ok ?v" by (intro goose_vars_ok) (simp add: goose_sent_def)
  have f: "mb_data b = l2_header (dstAddress gooseCommParameters) GEN_SMAC (ge_vlan e) 0xB8 ?appid (ge_res e) @ goose_apdu (goose_gen_msg e ?v)"
    "mb_len b = length (mb_data b)"
    using assms(3) by (simp_all add: carries_def goose_frame_def goose_header_def goose_gen_apdu_def)
  have len: "length (mb_data b) = goose_appid_pos e + 8 + goose_len e"
    using assms(3) by (simp add: carries_def goose_frame_def length_goose_header [OF e(1)] length_goose_gen_apdu [OF v])
  then have "64 \<le> length (mb_data b)" using goose_len_min [of e] by simp
  from parse_goose_frame [OF goose_gen_msg_ok [OF e(1) v] e(2) f(1) this, of GoosePassport_init GooseState_init]
  show "\<exists>pos. parse_goose_packet (mb_data b) (mb_len b) GoosePassport_init GooseState_init = Some (Some (Inr (goose_report
      (goose_gen_msg e ?v) pos (GoosePassport_init\<lparr> gp_dmac := dstAddress gooseCommParameters, gp_appid := ?appid \<rparr>) GooseState_init)))"
    unfolding f(2) by blast
  have "get_proto_type (mb_data b) 0 (mb_len b) = Some (BUS_PROTO_GOOSE, ucast ?appid)" unfolding f(1) by (rule proto_type_l2(2) [OF e(2)])
  moreover have "length (mb_data b) < 2 ^ 31" "38 \<le> length (mb_data b)" using len e(1) goose_len_min [of e] by (simp_all add: goose_env_ok_def)
  ultimately show "in_stage GOOSE b \<and> buffer_ok b" by (simp add: in_stage_def buffer_ok_def f(2))
qed

lemma goose_frame_received:
  assumes "goose_steady e entries num gen" and "unat (idx d) < num" and "carries b (goose_frame e gen d)" and "goose_linked entries num gen app"
  shows "\<exists>app'. goose_packet b app = Some (Some app') \<and> goose_linked entries num (goose_after gen d) app' \<and>
    m_rxGoosePktCnt app' = m_rxGoosePktCnt app + 1 \<and> goose_errors app' = goose_errors app"
proof -
  let ?i = "unat (idx d)" let ?ied = "gt_ieds gen ! ?i" let ?sent = "goose_sent (gt_tsDeltaChange gen) ?ied"
  let ?P = "\<lambda>g i src. take 8 (gi_sID (gt_ieds g ! i)) = ascii (dec_padded 8 (i + 1)) \<and> gs_stNum src = gi_stNum (gt_ieds g ! i)"
  have good: "goose_good e num gen" and e: "goose_env_ok e" and num: "num \<le> 65535" "length (gt_ieds gen) = num"
    and entries: "unat entries = Suc (length (ge_values e))"
    using assms(1) by (auto simp: goose_steady_def goose_good_def)
  have id: "take 8 (gi_sID ?sent) = ascii (dec_padded 8 (?i + 1))" "gi_stNum ?sent = gi_stNum ?ied + 1"
    using assms(2,4) unfolding goose_linked_def streams_linked_def by (auto simp: goose_sent_def)
  have appid: "ucast (idx d + 1) = (of_nat (?i + 1) :: u16)" using appid_of_index [of ?i] by (simp add: add.commute)
  let ?base = "GoosePassport_init\<lparr> gp_dmac := dstAddress gooseCommParameters, gp_appid := of_nat (?i + 1) \<rparr>"
  obtain pos pass st where r: "goose_report (goose_gen_msg e (goose_vars ?sent)) pos ?base GooseState_init = (pass, st)"
    and parse: "parse_goose_packet (mb_data b) (mb_len b) GoosePassport_init GooseState_init = Some (Some (Inr (pass, st)))"
    using goose_frame_parsed(1) [OF good assms(2,3)] unfolding appid by (metis surj_pair)
  have i: "?i < 65535" using assms(2) num(1) by simp
  note rep = goose_report_pass [OF e entries id(1) i r, folded goose_pass_eq]
  then have eq: "goose_eq pass (goose_pass entries ?i)" and st: "st_stNum st = gi_stNum ?sent" by simp_all
  let ?f = "goose_ProcessState pass st"
  obtain k where k: "goose_find (m_gooseMap app) (goose_pass entries ?i) = Some k"
    and linked: "streams_linked gp_appid goose_eq no_goose_gaps (goose_pass entries) {..<num} (?P (goose_after gen d)) (container_modify (m_gooseMap app) k ?f)"
  proof (rule goose_key.streams_linked_modify [OF assms(4) [unfolded goose_linked_def], of ?i ?f "?P (goose_after gen d)"])
    show "inj_on (gp_appid \<circ> goose_pass entries) {..<num}"
      by (rule pass_appids) (use num(1) in \<open>auto simp: goose_pass_eq publisher_pass_def\<close>)
    show "no_goose_gaps (?f src) \<and> ?P (goose_after gen d) ?i (?f src)" if "?P gen ?i src" "no_goose_gaps src" for src
      using goose_state_follows [OF that(2)] that(1) st id assms(2) num(2) by (simp add: goose_after_def)
  qed (use assms(2) in \<open>auto simp: goose_after_def\<close>)
  have "goose_find (m_gooseMap app) pass = Some k" using k by (simp only: goose_key.find_cong [OF eq])
  then show ?thesis using linked by (simp add: goose_packet_def parse goose_linked_def goose_errors_def)
qed

interpretation goose_link: stream_link goose_AmendPacket "goose_steady e entries num" "goose_pool e" num "goose_frame e" goose_after crypto GOOSE
  "goose_linked entries num" m_rxGoosePktCnt goose_errors for e entries num crypto
proof unfold_locales
  fix g b and d :: PacketDesc
  assume g: "goose_steady e entries num g" and d: "unat (idx d) < num"
  have good: "goose_good e num g" using g by (simp add: goose_steady_def)
  show "goose_steady e entries num (goose_after g d)" using g goose_tx.good_after [OF good d] by (simp add: goose_steady_def)
  { assume "goose_pool e b"
    then show "\<exists>b' n. goose_AmendPacket d b g = Some (b', n, goose_after g d) \<and> take n b' = goose_frame e g d \<and> goose_pool e b'"
      using goose_tx.amend good d by blast }
next
  fix g and d :: PacketDesc and b
  assume "goose_steady e entries num g" and "unat (idx d) < num" and "carries b (goose_frame e g d)"
  then show "in_stage GOOSE b \<and> buffer_ok b" using goose_frame_parsed(2) by (auto simp: goose_steady_def)
qed (use goose_frame_received in simp_all)

subsection \<open>The routable streams\<close>

definition r_goose_pass :: "u32 \<Rightarrow> u32 \<Rightarrow> nat \<Rightarrow> GoosePassport" where
  "r_goose_pass ip entries i = goose_GetPassport (r_goose_source ip entries (of_nat i))"

lemma r_goose_pass_eq:
  "r_goose_pass ip entries i = publisher_pass entries i (GoosePassport_init\<lparr> gp_dmac := multicast_mac (stream_dst_ip ip (of_nat i)),
    gp_appid := of_nat (i + 1), gp_dstIP := stream_dst_ip ip (of_nat i) \<rparr>)"
proof -
  have "ucast (1 + of_nat i :: u32) = (1 + of_nat i :: u16)" using appid_of_index [of i] by simp
  then show ?thesis
    by (simp add: r_goose_pass_def goose_GetPassport_def r_goose_source_def goose_SetDstIP_def goose_SetNumEntries_def goose_SetCRev_def
        goose_SetGOCBRef_def goose_SetDataSetRef_def goose_SetGOID_def goose_SetAppID_def goose_SetMAC_def GooseSource_init_def
        GoosePassport_init_def publisher_pass_def)
qed

definition rgoose_linked :: "RFrameConfig \<Rightarrow> u32 \<Rightarrow> u32 \<Rightarrow> nat \<Rightarrow> RGooseTrafficGen \<Rightarrow> RX_Application \<Rightarrow> bool" where
  "rgoose_linked cfg entries base num gen app \<longleftrightarrow> m_rMode app = rf_mode cfg \<and>
     streams_linked gp_appid goose_eq no_goose_gaps (r_goose_pass (rf_dstIP cfg) entries) {unat base..<unat base + num}
     (\<lambda>j src. let ied = rg_ieds gen ! (j - unat base) in take 8 (gi_sID ied) = ascii (dec_padded 8 (j + 1)) \<and>
        gs_stNum src = gi_stNum ied \<and> gs_spduNumber src = gi_spduNumber ied)
     (m_gooseMap app)"

definition rgoose_steady :: "RFrameConfig \<Rightarrow> GooseEnv \<Rightarrow> u32 \<Rightarrow> Crypto \<Rightarrow> u32 \<Rightarrow> nat \<Rightarrow> RGooseTrafficGen \<Rightarrow> bool" where
  "rgoose_steady cfg e entries crypto base num gen \<longleftrightarrow> rgoose_good cfg e crypto base num gen \<and> unat base + num \<le> 65535 \<and>
     unat entries = Suc (length (ge_values e)) \<and> rf_dstPort cfg = UDP_DST_PORT"

lemma rgoose_frame_parsed:
  assumes ok: "rgoose_gen_ok cfg e gen" and d: "unat (idx d) < length (rg_ieds gen)" and port: "rf_dstPort cfg = UDP_DST_PORT"
    and b: "carries b (rgoose_frame cfg e gen d)"
    and ied: "ied = rg_ieds gen ! unat (idx d)" and stream: "stream = idx d + rg_baseIdx gen"
  obtains session pos where "sh_spduNumber session = gi_spduNumber ied + 1"
    and "validate_r_envelope (mb_data b) (mb_len b) (mb_cksum b) = Some (Inr (stream_dst_ip (rf_dstIP cfg) stream))"
    and "parse_r_goose_packet (mb_data b) (mb_len b) (rf_mode cfg) (rg_crypto gen) GoosePassport_init GooseState_init =
      Some (Some (Inr (session, goose_report (goose_gen_msg e (goose_vars (rgoose_sent (rg_tsDeltaChange gen) ied))) pos
        (GoosePassport_init\<lparr> gp_dmac := multicast_mac (stream_dst_ip (rf_dstIP cfg) stream), gp_appid := ucast (stream + 1) \<rparr>) GooseState_init)))"
    and "in_stage R_GOOSE b \<and> buffer_ok b"
proof -
  let ?v = "goose_vars (rgoose_sent (rg_tsDeltaChange gen) ied)" and ?apdu = "rgoose_message e gen d"
  let ?p = "goose_pdu cfg e (gi_spduNumber ied + 1) (ucast (stream + 1))" and ?n = "udp_payload_size (rf_mode cfg) (goose_len e)"
  let ?pre = "udp_prefix (cfg\<lparr> rf_dstIP := stream_dst_ip (rf_dstIP cfg) stream \<rparr>) ?n (ucast (stream + 1))"
  have c: "goose_env_ok e" "hmac_works (rg_crypto gen)" "gcm_works (rg_crypto gen)" and "8 \<le> length (gi_sID ied)"
    using ok d by (auto simp: rgoose_gen_ok_def ied)
  then have v: "vars_ok ?v" by (intro goose_vars_ok) (simp add: rgoose_sent_def goose_sent_def)
  have msg: "length ?apdu = goose_len e" by (rule rgoose_message_ok(2) [OF ok d])
  have fit: "28 + ?n < 65536" using c(1) by (auto simp: layout_defs goose_env_ok_def unat_iv_length)
  have valid: "valid_params ?p" by (simp add: valid_params_def)
  obtain iv bb off rest where un: "unwrap_r_frame (mb_data b) (mb_len b) SI_R_GOOSE PAYLOAD_TYPE_GOOSE (rf_mode cfg) (rg_crypto gen) =
       Some (Inr (?pre @ bb, session_of ?p iv, payload_of ?p, 42 + off, length ?apdu))" "drop (42 + off) (?pre @ bb) = ?apdu @ rest"
    and env: "validate_r_envelope (mb_data b) (mb_len b) (mb_cksum b) = Some (Inr (stream_dst_ip (rf_dstIP cfg) stream))"
    and st: "in_stage R_GOOSE b" "buffer_ok b"
    by (rule sealed_frame_arrives [OF b [unfolded rgoose_frame_def Let_def, folded ied stream] msg fit c(2,3) port _ valid, where stage = R_GOOSE]) simp
  have m: "?apdu = goose_apdu (goose_gen_msg e ?v)" by (simp add: rgoose_message_def goose_gen_apdu_def ied)
  note parsed = parse_r_goose_unwrapped [OF un [unfolded m] goose_gen_msg_ok [OF c(1) v], of GoosePassport_init GooseState_init]
  show thesis
  proof (rule that [of "session_of ?p iv", OF _ env])
    show "sh_spduNumber (session_of ?p iv) = gi_spduNumber ied + 1" by (simp add: session_of_def)
    show "parse_r_goose_packet (mb_data b) (mb_len b) (rf_mode cfg) (rg_crypto gen) GoosePassport_init GooseState_init =
      Some (Some (Inr (session_of ?p iv, goose_report (goose_gen_msg e ?v)
        (length (goose_apdu (goose_gen_msg e ?v)) - length (concat (map data_tlv (gm_allData (goose_gen_msg e ?v)))))
        (GoosePassport_init\<lparr> gp_dmac := multicast_mac (stream_dst_ip (rf_dstIP cfg) stream), gp_appid := ucast (stream + 1) \<rparr>) GooseState_init)))"
      using parsed by simp
  qed (use st in simp)
qed

lemma rgoose_frame_received:
  assumes "rgoose_steady cfg e entries crypto base num gen" and "unat (idx d) < num" and "carries b (rgoose_frame cfg e gen d)"
    and "rgoose_linked cfg entries base num gen app"
  shows "\<exists>app'. r_goose_packet crypto b app = Some (Some app') \<and> rgoose_linked cfg entries base num (rgoose_after cfg e gen d) app' \<and>
    m_rxGoosePktCnt app' = m_rxGoosePktCnt app + 1 \<and> goose_errors app' = goose_errors app"
proof -
  let ?i = "unat (idx d)" let ?ied = "rg_ieds gen ! ?i" let ?stream = "idx d + base" let ?j = "unat base + ?i"
  let ?sent = "rgoose_sent (rg_tsDeltaChange gen) ?ied" and ?S = "{unat base..<unat base + num}"
  let ?P = "\<lambda>g j src. let ied = rg_ieds g ! (j - unat base) in take 8 (gi_sID ied) = ascii (dec_padded 8 (j + 1)) \<and>
        gs_stNum src = gi_stNum ied \<and> gs_spduNumber src = gi_spduNumber ied"
  have ok: "rgoose_gen_ok cfg e gen" "goose_env_ok e" and num: "unat base + num \<le> 65535" "length (rg_ieds gen) = num"
    and entries: "unat entries = Suc (length (ge_values e))"
    and port: "rf_dstPort cfg = UDP_DST_PORT" and cr: "rg_crypto gen = crypto" "rg_baseIdx gen = base"
    using assms(1) by (auto simp: rgoose_steady_def rgoose_good_def rgoose_gen_ok_def)
  have mode: "m_rMode app = rf_mode cfg"
    and linked: "streams_linked gp_appid goose_eq no_goose_gaps (r_goose_pass (rf_dstIP cfg) entries) ?S (?P gen) (m_gooseMap app)"
    using assms(4) by (simp_all add: rgoose_linked_def)
  have j: "?j \<in> ?S" "?j < 65535" "?j - unat base = ?i" using assms(2) num(1) by simp_all
  then have "take 8 (gi_sID ?ied) = ascii (dec_padded 8 (?j + 1))" using linked unfolding streams_linked_def Let_def by metis
  then have id: "take 8 (gi_sID ?sent) = ascii (dec_padded 8 (?j + 1))" "gi_stNum ?sent = gi_stNum ?ied + 1" "gi_spduNumber ?sent = gi_spduNumber ?ied + 1"
    by (simp_all add: rgoose_sent_def goose_sent_def)
  have stream: "of_nat ?j = ?stream" "ucast (?stream + 1) = (of_nat (?j + 1) :: u16)"
    using appid_of_index [of ?j] by (simp_all add: add.commute)
  let ?ip = "stream_dst_ip (rf_dstIP cfg) ?stream" let ?base = "GoosePassport_init\<lparr> gp_dmac := multicast_mac ?ip, gp_appid := of_nat (?j + 1) \<rparr>"
  obtain session pos where s: "sh_spduNumber session = gi_spduNumber ?sent"
    "validate_r_envelope (mb_data b) (mb_len b) (mb_cksum b) = Some (Inr ?ip)"
    "parse_r_goose_packet (mb_data b) (mb_len b) (rf_mode cfg) crypto GoosePassport_init GooseState_init =
      Some (Some (Inr (session, goose_report (goose_gen_msg e (goose_vars ?sent)) pos ?base GooseState_init)))"
    using rgoose_frame_parsed [OF ok(1) _ port assms(3) refl refl] assms(2) num(2) cr id(3) stream(2) by metis
  obtain pass st where r: "goose_report (goose_gen_msg e (goose_vars ?sent)) pos ?base GooseState_init = (pass, st)" by fastforce
  note rep = goose_report_pass [OF ok(2) entries id(1) j(2) r]
  have eq: "goose_eq (pass\<lparr> gp_dstIP := ?ip \<rparr>) (r_goose_pass (rf_dstIP cfg) entries ?j)"
    using rep(1) unfolding r_goose_pass_eq stream(1) by (auto simp: goose_eq_def publisher_pass_def)
  let ?pass = "r_goose_pass (rf_dstIP cfg) entries"
  let ?f = "goose_ProcessState (pass\<lparr> gp_dstIP := ?ip \<rparr>) st \<circ> goose_ProcessSessionState (sh_spduNumber session)"
  obtain k where k: "goose_find (m_gooseMap app) (?pass ?j) = Some k"
    and linked': "streams_linked gp_appid goose_eq no_goose_gaps ?pass ?S (?P (rgoose_after cfg e gen d)) (container_modify (m_gooseMap app) k ?f)"
  proof (rule goose_key.streams_linked_modify [OF linked j(1), of ?f "?P (rgoose_after cfg e gen d)"])
    show "inj_on (gp_appid \<circ> ?pass) ?S" by (rule pass_appids) (use num(1) in \<open>auto simp: r_goose_pass_eq publisher_pass_def\<close>)
    show "no_goose_gaps (?f src) \<and> ?P (rgoose_after cfg e gen d) ?j (?f src)" if "?P gen ?j src" "no_goose_gaps src" for src
    proof -
      have P: "gs_stNum src = gi_stNum ?ied" "gs_spduNumber src = gi_spduNumber ?ied" using that(1) by (simp_all add: Let_def)
      note sess = goose_session_follows [OF that(2) P(2), folded id(3) s(1)]
      have "gs_stNum (goose_ProcessSessionState (sh_spduNumber session) src) = gi_stNum ?ied" using P(1) by (simp add: goose_tracking_frame)
      note state = goose_state_follows [OF sess(1) this, of st "pass\<lparr> gp_dstIP := ?ip \<rparr>"]
      show ?thesis
        using state sess(2) rep(2) id assms(2) num(2) s(1) by (simp add: rgoose_after_def goose_tracking_frame Let_def)
    qed
    show "?P (rgoose_after cfg e gen d) j src" if "j \<in> ?S" "j \<noteq> ?j" "?P gen j src" for j src
      using that by (auto simp: rgoose_after_def Let_def)
  qed
  have "goose_find (m_gooseMap app) (pass\<lparr> gp_dstIP := ?ip \<rparr>) = Some k" using k by (simp only: goose_key.find_cong [OF eq])
  then have "r_goose_packet crypto b app = Some (Some (app\<lparr> m_gooseMap := container_modify (m_gooseMap app) k ?f, m_rxGoosePktCnt := m_rxGoosePktCnt app + 1 \<rparr>))"
    unfolding r_goose_packet_def s(2) mode s(3) r and_then_simps sum.case prod.case Let_def by simp
  with linked' mode show ?thesis by (simp add: rgoose_linked_def goose_errors_def)
qed

interpretation rgoose_link: stream_link "rgoose_AmendPacket (rf_mode cfg)" "rgoose_steady cfg e entries crypto base num"
  "r_buffer cfg SI_R_GOOSE PAYLOAD_TYPE_GOOSE (goose_len e) (goose_message e)" num "rgoose_frame cfg e" "rgoose_after cfg e" crypto R_GOOSE
  "rgoose_linked cfg entries base num" m_rxGoosePktCnt goose_errors for cfg e entries crypto base num
proof unfold_locales
  fix g b and d :: PacketDesc
  assume g: "rgoose_steady cfg e entries crypto base num g" and d: "unat (idx d) < num"
  have good: "rgoose_good cfg e crypto base num g" using g by (simp add: rgoose_steady_def)
  show "rgoose_steady cfg e entries crypto base num (rgoose_after cfg e g d)"
    using g rgoose_tx.good_after [OF good d] by (simp add: rgoose_steady_def)
  { assume "r_buffer cfg SI_R_GOOSE PAYLOAD_TYPE_GOOSE (goose_len e) (goose_message e) b"
    then show "\<exists>b' n. rgoose_AmendPacket (rf_mode cfg) d b g = Some (b', n, rgoose_after cfg e g d) \<and> take n b' = rgoose_frame cfg e g d \<and>
        r_buffer cfg SI_R_GOOSE PAYLOAD_TYPE_GOOSE (goose_len e) (goose_message e) b'"
      using rgoose_tx.amend good d by blast }
next
  fix g and d :: PacketDesc and b
  assume g: "rgoose_steady cfg e entries crypto base num g" and d: "unat (idx d) < num" and b: "carries b (rgoose_frame cfg e g d)"
  then show "in_stage R_GOOSE b \<and> buffer_ok b"
    using rgoose_frame_parsed [of cfg e g d b] by (auto simp: rgoose_steady_def rgoose_good_def)
qed (use rgoose_frame_received in simp_all)

subsection \<open>The start\<close>

text \<open>A receiver that expects the GOOSE streams of one kind.\<close>

definition goose_configured :: "u32 \<Rightarrow> u32 \<Rightarrow> RX_Application \<Rightarrow> bool" where
  "goose_configured num entries app \<longleftrightarrow> m_gooseMap app = container_new \<and> m_confGooseNum app = num \<and> m_confRGooseNum app = 0 \<and>
     m_gooseEntries app = entries"

definition r_goose_configured :: "u32 \<Rightarrow> u32 \<Rightarrow> RFrameConfig \<Rightarrow> RX_Application \<Rightarrow> bool" where
  "r_goose_configured expected entries cfg app \<longleftrightarrow> m_gooseMap app = container_new \<and> m_confGooseNum app = 0 \<and> m_confRGooseNum app = expected \<and>
     m_gooseEntries app = entries \<and> m_rDstIP app = rf_dstIP cfg \<and> m_rMode app = rf_mode cfg"

lemma goose_configured_map:
  "goose_configured num entries app \<Longrightarrow> m_gooseMap (Init_streams app) = register_goose num (l2_goose_source entries) container_new"
  "r_goose_configured num entries cfg app \<Longrightarrow>
    m_gooseMap (Init_streams app) = register_goose num (r_goose_source (rf_dstIP cfg) entries) container_new \<and> m_rMode (Init_streams app) = rf_mode cfg"
  by (simp_all add: goose_configured_def r_goose_configured_def Init_streams_maps register_none) (simp add: Init_streams_def Let_def)

lemma goose_sources_fresh:
  "no_goose_gaps (l2_goose_source entries i)" "gs_stNum (l2_goose_source entries i) = 0"
  "no_goose_gaps (r_goose_source ip entries i)" "gs_stNum (r_goose_source ip entries i) = 0" "gs_spduNumber (r_goose_source ip entries i) = 0"
  by (simp_all add: no_goose_gaps_def GooseSource_init_def l2_goose_source_def r_goose_source_def goose_SetDstIP_def goose_SetNumEntries_def
      goose_SetCRev_def goose_SetGOCBRef_def goose_SetDataSetRef_def goose_SetGOID_def goose_SetAppID_def goose_SetMAC_def)

lemma goose_generator_start:
  assumes "goose_lib_ok lib sigNum e" and "GooseTrafficGen_new lib num freq sigNum = Some (Inr gen)" and "unat num \<le> 65535"
    and "filled_pool (gt_skeleton gen) (gt_skeletonSize gen) M" and "goose_configured num sigNum app"
  shows "goose_steady e sigNum (unat num) gen" and "\<forall>b \<in># M. goose_pool e b"
    and "\<forall>u \<in> set (gt_units gen). \<forall>d \<in> set (unit_packets u). unat (idx d) < unat num"
    and "goose_linked sigNum (unat num) gen (MarkRunStarted (Init_streams app))"
proof -
  obtain gen' where "GooseTrafficGen_new lib num freq sigNum = Some (Inr gen')" "goose_good e (unat num) gen'"
    "gt_ieds gen' = map (\<lambda>i. goose_InitIED (of_nat i + 1) GooseSourceIED_init) [0..<unat num]"
    "gt_units gen' = GenerateTxUnits num freq" "goose_skeleton e gen'"
    by (rule goose_new [OF assms(1), of num freq])
  then have g: "goose_good e (unat num) gen" "gt_ieds gen = map (\<lambda>i. goose_InitIED (of_nat i + 1) GooseSourceIED_init) [0..<unat num]"
    "gt_units gen = GenerateTxUnits num freq" "goose_skeleton e gen" using assms(2) by simp_all
  have sig: "unat sigNum = Suc (length (ge_values e))" using assms(1) by (simp add: goose_lib_ok_def)
  then show "goose_steady e sigNum (unat num) gen" using g(1) assms(3) by (simp add: goose_steady_def)
  obtain v r where v: "vars_ok v" "gt_skeleton gen = goose_header e GEN_SMAC (appId gooseCommParameters) @ goose_gen_apdu e v @ r"
    using g(4) by (auto simp: goose_skeleton_def)
  have "take (gt_skeletonSize gen) (gt_skeleton gen) = goose_header e GEN_SMAC (appId gooseCommParameters) @ goose_gen_apdu e v"
    using g(1) length_goose_header [of e GEN_SMAC "appId gooseCommParameters"] by (simp add: v goose_good_def length_goose_gen_apdu)
  then show "\<forall>b \<in># M. goose_pool e b" using assms(4) v(1) unfolding filled_pool_def goose_pool_def by (metis append_assoc)
  show "\<forall>u \<in> set (gt_units gen). \<forall>d \<in> set (unit_packets u). unat (idx d) < unat num" unfolding g(3) by (rule goose_units_in_range)
  have ied: "take 8 (gi_sID (gt_ieds gen ! i)) = ascii (dec_padded 8 (i + 1)) \<and> gi_stNum (gt_ieds gen ! i) = 0" if "i < unat num" for i
  proof -
    have "unat (of_nat (i + 1) :: u32) = i + 1" by (rule unat_of_nat_small) (use that assms(3) in simp)
    then have "unat (1 + of_nat i :: u32) = i + 1" by (simp add: add.commute)
    then show ?thesis using that goose_init_id [of "i + 1"] assms(3) by (simp add: g(2) goose_InitIED_def GooseSourceIED_init_def add.commute)
  qed
  have "streams_linked gp_appid goose_eq no_goose_gaps (\<lambda>i. goose_GetPassport (l2_goose_source sigNum (of_nat i))) {..<unat num}
     (\<lambda>i src. take 8 (gi_sID (gt_ieds gen ! i)) = ascii (dec_padded 8 (i + 1)) \<and> gs_stNum src = gi_stNum (gt_ieds gen ! i))
     (register_goose num (l2_goose_source sigNum) container_new)"
    by (intro goose_register_linked source_appids goose_sources_fresh) (use assms(3) ied goose_sources_fresh in simp_all)
  then show "goose_linked sigNum (unat num) gen (MarkRunStarted (Init_streams app))"
    unfolding goose_linked_def goose_pass_def [abs_def] by (simp add: MarkRunStarted_def goose_configured_map(1) [OF assms(5)])
qed

lemma rgoose_generator_start:
  assumes "goose_lib_ok lib sigNum e" and "goose_length_ok cfg e" and "hmac_works crypto" "gcm_works crypto"
    and "RGooseTrafficGen_new lib crypto True num freq sigNum cfg base = Some (Inr gen)" and "rf_dstPort cfg = UDP_DST_PORT"
    and "unat base + unat num \<le> unat expected" and "unat expected \<le> 65535"
    and "filled_pool (rg_skeleton gen) (rg_skeletonSize gen) M" and "r_goose_configured expected sigNum cfg app"
  shows "rgoose_steady cfg e sigNum crypto base (unat num) gen"
    and "\<forall>b \<in># M. r_buffer cfg SI_R_GOOSE PAYLOAD_TYPE_GOOSE (goose_len e) (goose_message e) b"
    and "\<forall>u \<in> set (rg_units gen). \<forall>d \<in> set (unit_packets u). unat (idx d) < unat num"
    and "rgoose_linked cfg sigNum base (unat num) gen (MarkRunStarted (Init_streams app))"
proof -
  obtain gen' where n: "RGooseTrafficGen_new lib crypto True num freq sigNum cfg base = Some (Inr gen')" "rgoose_good cfg e crypto base (unat num) gen'"
    "rg_ieds gen' = map (\<lambda>i. GooseSourceIED_init\<lparr> gi_sID := print_id 9 (dec_padded 8 (unat base + i + 1)) \<rparr>) [0..<unat num]"
    "rg_units gen' = GenerateTxUnits num freq"
    "\<forall>r. r_buffer cfg SI_R_GOOSE PAYLOAD_TYPE_GOOSE (goose_len e) (goose_message e) (take (rg_skeletonSize gen') (rg_skeleton gen') @ r)"
    by (rule rgoose_new [OF assms(1-4), of num freq base])
  have "gen' = gen" using n(1) assms(5) by simp
  note g = n(2-5) [unfolded this]
  have "unat sigNum = Suc (length (ge_values e))" using assms(1) by (simp add: goose_lib_ok_def)
  with g(1) show "rgoose_steady cfg e sigNum crypto base (unat num) gen" using assms(6-8) by (simp add: rgoose_steady_def)
  show "\<forall>b \<in># M. r_buffer cfg SI_R_GOOSE PAYLOAD_TYPE_GOOSE (goose_len e) (goose_message e) b" using assms(9) g(4) by (auto simp: filled_pool_def)
  show "\<forall>u \<in> set (rg_units gen). \<forall>d \<in> set (unit_packets u). unat (idx d) < unat num" unfolding g(3) by (rule goose_units_in_range)
  let ?P = "\<lambda>j src. let ied = rg_ieds gen ! (j - unat base) in take 8 (gi_sID ied) = ascii (dec_padded 8 (j + 1)) \<and>
        gs_stNum src = gi_stNum ied \<and> gs_spduNumber src = gi_spduNumber ied"
  let ?src = "r_goose_source (rf_dstIP cfg) sigNum"
  have P: "?P j (?src (of_nat j))" if "j \<in> {unat base..<unat base + unat num}" for j
  proof -
    have k: "j - unat base < unat num" "unat base + (j - unat base) + 1 = j + 1" "j + 1 \<le> 65535" using that assms(7,8) by auto
    have "rg_ieds gen ! (j - unat base) = GooseSourceIED_init\<lparr> gi_sID := print_id 9 (dec_padded 8 (unat base + (j - unat base) + 1)) \<rparr>"
      unfolding g(2) by (subst nth_map) (use k(1) in simp_all)
    then have "rg_ieds gen ! (j - unat base) = GooseSourceIED_init\<lparr> gi_sID := print_id 9 (dec_padded 8 (j + 1)) \<rparr>" by (simp only: k(2))
    then show ?thesis using goose_init_id [OF k(3)] by (simp add: goose_sources_fresh GooseSourceIED_init_def)
  qed
  have "streams_linked gp_appid goose_eq no_goose_gaps (\<lambda>i. goose_GetPassport (?src (of_nat i))) {unat base..<unat base + unat num} ?P
     (register_goose expected ?src container_new)"
    by (rule goose_register_linked [OF source_appids(2) goose_sources_fresh(3)]) (use assms(7,8) P in auto)
  then show "rgoose_linked cfg sigNum base (unat num) gen (MarkRunStarted (Init_streams app))"
    unfolding rgoose_linked_def r_goose_pass_def [abs_def] using goose_configured_map(2) [OF assms(10)] by (simp add: MarkRunStarted_def)
qed

subsection \<open>Properties\<close>

text \<open>
  C6: a clean run of the GOOSE generator has a clean report. Let the generator run its paced loop for any time,
  with up to 65535 publishers, any frequency and any number of signals that fits a frame, any pool and
  card behaviour and no send error counted; and let the frames that the card took reach a receiver configured
  for the same streams and entries, in order and in bursts of any sizes. Then every frame is received by
  its stream, none is unknown or broken, and no gap in the state numbers is reported.
\<close>

theorem goose_clean_run:
  assumes "goose_lib_ok lib sigNum e" and "GooseTrafficGen_new lib num freq sigNum = Some (Inr gen)" and "unat num \<le> 65535"
    and "filled_pool (gt_skeleton gen) (gt_skeletonSize gen) M" and "goose_configured num sigNum app"
    and "tx_run goose_AmendPacket (gt_units gen) (tx_start gen M) s"
    and "errSendCnt (tl_stat s) = 0" and "length (tl_made s) < 2 ^ 32"
    and "list_all2 carries (concat bursts) (tl_wire s)" and "\<forall>bufs \<in> set bursts. length bufs \<le> RX_BURST_SIZE"
  shows "\<exists>app'. single_core bursts (Init_streams app) crypto = Some (Some app') \<and> fst (CountGaps app') = 0 \<and>
    m_rxGoosePktCnt app' = m_rxGoosePktCnt (Init_streams app) + of_nat (length (tl_wire s)) \<and> goose_errors app' = goose_errors (Init_streams app)"
proof -
  obtain app' where app': "single_core bursts (Init_streams app) crypto = Some (Some app')" "goose_linked sigNum (unat num) (tl_gen s) app'"
    "m_rxGoosePktCnt app' = m_rxGoosePktCnt (MarkRunStarted (Init_streams app)) + of_nat (length (tl_wire s))"
    "goose_errors app' = goose_errors (MarkRunStarted (Init_streams app))"
    using goose_link.clean_run [OF goose_generator_start [OF assms(1-5)] assms(6-10)] by blast
  moreover have "fst (CountGaps app') = 0" using streams_linked_zero [OF app'(2) [unfolded goose_linked_def]] by (rule goose_gaps_counted)
  ultimately show ?thesis by (simp add: MarkRunStarted_def goose_errors_def)
qed

text \<open>
  C7: the same for the routable GOOSE streams, in each security mode, for a worker that serves the streams from
  \<open>base\<close> on: the plaintext copy, the rewriting of the envelope, the sealing, the receiver's envelope check, authentication
  and decryption lose nothing, and neither the state numbers nor the session numbers show a gap.
\<close>

theorem r_goose_clean_run:
  assumes "goose_lib_ok lib sigNum e" and "goose_length_ok cfg e" and "hmac_works crypto" and "gcm_works crypto"
    and "RGooseTrafficGen_new lib crypto True num freq sigNum cfg base = Some (Inr gen)" and "rf_dstPort cfg = UDP_DST_PORT"
    and "unat base + unat num \<le> unat expected" and "unat expected \<le> 65535"
    and "filled_pool (rg_skeleton gen) (rg_skeletonSize gen) M" and "r_goose_configured expected sigNum cfg app"
    and "tx_run (rgoose_AmendPacket (rf_mode cfg)) (rg_units gen) (tx_start gen M) s"
    and "errSendCnt (tl_stat s) = 0" and "length (tl_made s) < 2 ^ 32"
    and "list_all2 carries (concat bursts) (tl_wire s)" and "\<forall>bufs \<in> set bursts. length bufs \<le> RX_BURST_SIZE"
  shows "\<exists>app'. single_core bursts (Init_streams app) crypto = Some (Some app') \<and> fst (CountGaps app') = 0 \<and>
    m_rxGoosePktCnt app' = m_rxGoosePktCnt (Init_streams app) + of_nat (length (tl_wire s)) \<and> goose_errors app' = goose_errors (Init_streams app)"
proof -
  obtain app' where app': "single_core bursts (Init_streams app) crypto = Some (Some app')" "rgoose_linked cfg sigNum base (unat num) (tl_gen s) app'"
    "m_rxGoosePktCnt app' = m_rxGoosePktCnt (MarkRunStarted (Init_streams app)) + of_nat (length (tl_wire s))"
    "goose_errors app' = goose_errors (MarkRunStarted (Init_streams app))"
    using rgoose_link.clean_run [OF rgoose_generator_start [OF assms(1-10)] assms(11-15)] by blast
  moreover have "fst (CountGaps app') = 0"
    using streams_linked_zero [OF conjunct2 [OF app'(2) [unfolded rgoose_linked_def]]] by (rule goose_gaps_counted)
  ultimately show ?thesis by (simp add: MarkRunStarted_def goose_errors_def)
qed

text \<open>A library that answers as described, for two signals, and runs with one frame.\<close>

definition sample_goose_env :: GooseEnv where
  "sample_goose_env = \<lparr> ge_vlan = Some (0x80, 0), ge_res = [0, 134, 0, 0, 0, 0], ge_ttl = [0x07, 0xD0], ge_simulation = [0], ge_confRev = [1],
     ge_ndsCom = [0], ge_num = [2], ge_values = [1] \<rparr>"

definition sample_goose_offsets :: "GOOSE_PARAM_OFFSETS \<Rightarrow> u16" where
  "sample_goose_offsets f = (case f of GOOSE_APPID_OFFSET \<Rightarrow> 18
     | GOOSE_GOCB_REF_OFFSET \<Rightarrow> of_nat (26 + pos_gocb sample_goose_env - 3) | GOOSE_DS_REF_OFFSET \<Rightarrow> of_nat (26 + pos_ds sample_goose_env - 3)
     | GOOSE_GOID_OFFSET \<Rightarrow> of_nat (26 + pos_goid sample_goose_env - 4) | GOOSE_TIMESTAMP_OFFSET \<Rightarrow> of_nat (26 + pos_t sample_goose_env)
     | GOOSE_ST_NUM_OFFSET \<Rightarrow> of_nat (26 + pos_st sample_goose_env) | GOOSE_SQ_NUM_OFFSET \<Rightarrow> of_nat (26 + pos_sq sample_goose_env)
     | GOOSE_D1_OFFSET \<Rightarrow> of_nat (26 + pos_d1 sample_goose_env))"

definition sample_goose_lib :: Iec61850 where
  "sample_goose_lib = sample_lib\<lparr> GoosePublisher_create := (\<lambda>_. True),
     GoosePublisher_generateMessage := (\<lambda>p. Some (goose_header sample_goose_env mac_zero (appId (pub_comm p)) @
       goose_gen_apdu sample_goose_env (skeleton_vars (replicate 8 0)))),
     GooseReceiver_getMessageOffsets := (\<lambda>_. Some sample_goose_offsets) \<rparr>"

lemma sample_goose_len: "goose_len sample_goose_env = 126"
  unfolding goose_len_def goose_apdu_parts [OF blank_vars_ok] goose_part0_def goose_body_parts [OF blank_vars_ok]
  by (simp add: blank_vars_def goose_part1_def goose_part2_def goose_part3_def sample_goose_env_def values_bytes_def tlv_def enc_len_def)

lemma sample_goose_lib_ok: "goose_lib_ok sample_goose_lib 2 sample_goose_env"
proof -
  note len = sample_goose_len and b = goose_pos_bounds [of sample_goose_env]
  have pos: "goose_appid_pos sample_goose_env = 18" by (simp add: goose_appid_pos_def sample_goose_env_def)
  have env: "goose_env_ok sample_goose_env"
    unfolding goose_env_ok_def pos len by (simp add: sample_goose_env_def be_number_def)
  have off: "unat (of_nat n :: u16) = n" if "n \<le> 200" for n by (rule unat_of_nat_small) (use that in simp)
  have "goose_offsets (18 + 8) 18 sample_goose_env sample_goose_offsets"
    unfolding goose_offsets_def sample_goose_offsets_def GOOSE_PARAM_OFFSETS.case using b len by (subst (1 2 3 4 5 6 7) off) simp_all
  moreover have "unat (2 :: u32) = Suc (length (ge_values sample_goose_env))" by (simp add: sample_goose_env_def)
  ultimately show ?thesis
    unfolding goose_lib_ok_def pos using env
    by (intro conjI exI [of _ mac_zero] exI [of _ "replicate 8 0"] exI [of _ sample_goose_offsets]) (simp_all add: sample_goose_lib_def goose_publisher_def)
qed

lemma sample_goose_length_ok: "goose_length_ok cfg sample_goose_env"
  unfolding goose_length_ok_def sample_goose_len
  by (auto simp: sample_goose_env_def put16_def layout_defs unat_iv_length)

context traffic_gen
begin

text \<open>The first frame of a schedule that sends one stream once a second.\<close>

lemma first_goose_frame:
  assumes "good gen" and "pool b" and "streams = 1" and "units = GenerateTxUnits 1 1"
  obtains s where "tx_run amend units (tx_start gen {#b#}) s" and "errSendCnt (tl_stat s) = 0"
    and "length (tl_made s) = 1" and "length (tl_wire s) = 1"
proof (rule first_frame_of [OF assms(1-3)])
  show "units \<noteq> []" "blocks (units ! 0) = [\<lparr> packets = [\<lparr> idx = 0 \<rparr>] \<rparr>]"
    by (simp_all add: assms(4) GenerateTxUnits_def unit_blocks_def)
qed (use that in auto)

end

theorem goose_clean_run_witness:
  "\<exists>gen frame app'. GooseTrafficGen_new sample_goose_lib 1 1 2 = Some (Inr gen) \<and>
    single_core [[sample_buffer frame]] (Init_streams (RX_Application_init\<lparr> m_confGooseNum := 1, m_gooseEntries := 2 \<rparr>)) xor_crypto = Some (Some app') \<and>
    fst (CountGaps app') = 0"
proof -
  let ?app = "RX_Application_init\<lparr> m_confGooseNum := 1, m_gooseEntries := 2 \<rparr>"
  note lib = sample_goose_lib_ok
  obtain gen where gen: "GooseTrafficGen_new sample_goose_lib 1 1 2 = Some (Inr gen)" "gt_units gen = GenerateTxUnits 1 1"
    using goose_new [OF lib, of 1 1] by blast
  define b where "b = take (gt_skeletonSize gen) (gt_skeleton gen)"
  have pool: "filled_pool (gt_skeleton gen) (gt_skeletonSize gen) {#b#}" by (simp add: filled_pool_def b_def)
  have conf: "goose_configured 1 2 ?app" by (simp add: goose_configured_def RX_Application_init_def)
  note start = goose_generator_start [OF lib gen(1) _ pool conf]
  obtain s where s: "tx_run goose_AmendPacket (gt_units gen) (tx_start gen {#b#}) s" "errSendCnt (tl_stat s) = 0"
    "length (tl_made s) = 1" "length (tl_wire s) = 1"
    using goose_link.first_goose_frame [OF start(1), of b "gt_units gen"] start(2) gen(2) by auto
  obtain frame where frame: "list_all2 carries (concat [[sample_buffer frame]]) (tl_wire s)" by (rule sample_carried [OF s(4)])
  show ?thesis
    using goose_clean_run [OF lib gen(1) _ pool conf s(1,2) _ frame, of xor_crypto] s(3) gen(1) by auto
qed

theorem r_goose_clean_run_witness:
  "\<exists>gen frame app'. RGooseTrafficGen_new sample_goose_lib xor_crypto True 1 1 2 (RFrameConfig_init\<lparr> rf_mode := SEC_GCM \<rparr>) 4 = Some (Inr gen) \<and>
    single_core [[sample_buffer frame]] (Init_streams (RX_Application_init\<lparr> m_confRGooseNum := 5, m_gooseEntries := 2, m_rMode := SEC_GCM \<rparr>)) xor_crypto =
      Some (Some app') \<and> fst (CountGaps app') = 0"
proof -
  let ?app = "RX_Application_init\<lparr> m_confRGooseNum := 5, m_gooseEntries := 2, m_rMode := SEC_GCM \<rparr>" and ?cfg = "RFrameConfig_init\<lparr> rf_mode := SEC_GCM \<rparr>"
  note lib = sample_goose_lib_ok and cr = xor_crypto_works(1,2) and len = sample_goose_length_ok [of ?cfg]
  obtain gen where gen: "RGooseTrafficGen_new sample_goose_lib xor_crypto True 1 1 2 ?cfg 4 = Some (Inr gen)" "rg_units gen = GenerateTxUnits 1 1"
    using rgoose_new [OF lib len cr, of 1 1 4] by blast
  define b where "b = take (rg_skeletonSize gen) (rg_skeleton gen)"
  have pool: "filled_pool (rg_skeleton gen) (rg_skeletonSize gen) {#b#}" by (simp add: filled_pool_def b_def)
  have conf: "r_goose_configured 5 2 ?cfg ?app" by (simp add: r_goose_configured_def RX_Application_init_def RFrameConfig_init_def)
  have port: "rf_dstPort ?cfg = UDP_DST_PORT" by (simp add: RFrameConfig_init_def)
  have num: "unat (4 :: u32) + unat (1 :: u32) \<le> unat (5 :: u32)" "unat (5 :: u32) \<le> 65535" by simp_all
  note start = rgoose_generator_start [OF lib len cr gen(1) port num pool conf]
  obtain s where s: "tx_run (rgoose_AmendPacket (rf_mode ?cfg)) (rg_units gen) (tx_start gen {#b#}) s" "errSendCnt (tl_stat s) = 0"
    "length (tl_made s) = 1" "length (tl_wire s) = 1"
    using rgoose_link.first_goose_frame [OF start(1), of b "rg_units gen"] start(2) gen(2) by auto
  obtain frame where frame: "list_all2 carries (concat [[sample_buffer frame]]) (tl_wire s)" by (rule sample_carried [OF s(4)])
  show ?thesis
    using r_goose_clean_run [OF lib len cr gen(1) port num pool conf s(1,2) _ frame] s(3) gen(1) by auto
qed

end
