(* ===== verification/Crypto_Backends.thy ===== *)
theory Crypto_Backends
  imports R_Session
begin

text \<open>
  The two backends of \<open>RSess::Crypto\<close>: \<open>src/common/r_session_crypto_openssl.cpp\<close> and
  \<open>r_session_crypto_mbedtls.cpp\<close>, of which a build contains one, and the HMAC variants that
  \<open>src/tools/crypto_bench.cpp\<close> compares.

  The libraries are parameters: a record of the functions the code calls, on contexts of an arbitrary
  type. What their documentation says of them is a predicate over an abstract view of a context: the
  octets a digest has absorbed; key, IV, additional data and input of a cipher. SHA-256, the keystream
  of AES-GCM and its tag function are the parameters \<open>sha\<close>, \<open>stream\<close> and \<open>gtag\<close> of these predicates.
\<close>

subsection \<open>Keys and pads\<close>

abbreviation (input) HMAC_KEY_SIZE :: nat where "HMAC_KEY_SIZE \<equiv> 32"
abbreviation (input) GCM_KEY_SIZE :: nat where "GCM_KEY_SIZE \<equiv> 16"
abbreviation (input) SHA256_BLOCK :: nat where "SHA256_BLOCK \<equiv> 64"
abbreviation (input) DIGEST_LEN :: nat where "DIGEST_LEN \<equiv> 32"

definition LAB_KEY :: bytes where "LAB_KEY = map of_nat [0..<HMAC_KEY_SIZE]"

definition build_pads :: "bytes \<times> bytes" where
  "build_pads =
     (let ipad = replicate SHA256_BLOCK 0x36; opad = replicate SHA256_BLOCK 0x5C
      in foldl (\<lambda>(ipad, opad) i. (ipad[i := ipad ! i XOR LAB_KEY ! i], opad[i := opad ! i XOR LAB_KEY ! i])) (ipad, opad) [0..<HMAC_KEY_SIZE])"

text \<open>The pads of \<open>crypto_bench.cpp\<close>, which extends the key first.\<close>

definition bench_pads :: "bytes \<times> bytes" where
  "bench_pads =
     (let key = LAB_KEY @ replicate (SHA256_BLOCK - length LAB_KEY) 0
      in (map (\<lambda>i. key ! i XOR 0x36) [0..<SHA256_BLOCK], map (\<lambda>i. key ! i XOR 0x5C) [0..<SHA256_BLOCK]))"

text \<open>HMAC as RFC 2104 defines it, for a key that is not longer than a block.\<close>

definition hmac_rfc2104 :: "(bytes \<Rightarrow> bytes) \<Rightarrow> bytes \<Rightarrow> bytes \<Rightarrow> bytes" where
  "hmac_rfc2104 sha key msg =
     (let key = key @ replicate (SHA256_BLOCK - length key) 0
      in sha (map (\<lambda>k. k XOR 0x5C) key @ sha (map (\<lambda>k. k XOR 0x36) key @ msg)))"

subsection \<open>OpenSSL\<close>

text \<open>\<open>None\<close> is a result other than 1. The argument order is that of the C functions, output last.\<close>

record 'd DigestLib =
  EVP_MD_CTX_new :: "'d option"
  EVP_DigestInit :: "'d \<Rightarrow> 'd option"
  EVP_DigestUpdate :: "'d \<Rightarrow> bytes \<Rightarrow> 'd option"
  EVP_DigestFinal :: "'d \<Rightarrow> ('d \<times> bytes) option"
  EVP_MD_CTX_copy :: "'d \<Rightarrow> 'd \<Rightarrow> 'd option"

record 'c CipherLib =
  EVP_CIPHER_CTX_new :: "'c option"
  enc_cipher :: "'c \<Rightarrow> 'c option"
  enc_key :: "'c \<Rightarrow> bytes \<Rightarrow> 'c option"
  enc_iv :: "'c \<Rightarrow> bytes \<Rightarrow> 'c option"
  enc_aad :: "'c \<Rightarrow> bytes \<Rightarrow> 'c option"
  enc_update :: "'c \<Rightarrow> bytes \<Rightarrow> ('c \<times> bytes) option"
  enc_final :: "'c \<Rightarrow> 'c option"
  dec_cipher :: "'c \<Rightarrow> 'c option"
  dec_key :: "'c \<Rightarrow> bytes \<Rightarrow> 'c option"
  dec_iv :: "'c \<Rightarrow> bytes \<Rightarrow> 'c option"
  dec_aad :: "'c \<Rightarrow> bytes \<Rightarrow> 'c option"
  dec_update :: "'c \<Rightarrow> bytes \<Rightarrow> ('c \<times> bytes) option"
  dec_final :: "'c \<Rightarrow> 'c option \<times> 'c"
  set_ivlen :: "'c \<Rightarrow> nat \<Rightarrow> 'c option"
  get_tag :: "'c \<Rightarrow> nat \<Rightarrow> bytes option"
  set_tag :: "'c \<Rightarrow> bytes \<Rightarrow> 'c option"

record ('d, 'c) Impl =
  im_inner :: "'d option"
  im_outer :: "'d option"
  im_cur :: "'d option"
  im_enc :: "'c option"
  im_dec :: "'c option"
  im_ready :: bool

definition openssl_pads :: "'d DigestLib \<Rightarrow> 'd \<Rightarrow> 'd \<Rightarrow> ('d \<times> 'd) option" where
  "openssl_pads lib inner outer = (case build_pads of (ipad, opad) \<Rightarrow> do {
     inner \<leftarrow> EVP_DigestInit lib inner;
     inner \<leftarrow> EVP_DigestUpdate lib inner ipad;
     outer \<leftarrow> EVP_DigestInit lib outer;
     outer \<leftarrow> EVP_DigestUpdate lib outer opad;
     Some (inner, outer) })"

definition openssl_keys :: "'c CipherLib \<Rightarrow> 'c \<Rightarrow> 'c \<Rightarrow> ('c \<times> 'c) option" where
  "openssl_keys lib ecx dcx = do {
     ecx \<leftarrow> enc_cipher lib ecx;
     ecx \<leftarrow> set_ivlen lib ecx (unat IV_LEN_GCM);
     ecx \<leftarrow> enc_key lib ecx (take GCM_KEY_SIZE LAB_KEY);
     dcx \<leftarrow> dec_cipher lib dcx;
     dcx \<leftarrow> set_ivlen lib dcx (unat IV_LEN_GCM);
     dcx \<leftarrow> dec_key lib dcx (take GCM_KEY_SIZE LAB_KEY);
     Some (ecx, dcx) }"

text \<open>
  The constructor. When a call fails it returns with \<open>m_ready\<close> false; what it had changed in the contexts
  by then is left out.
\<close>

definition openssl_new :: "'d DigestLib \<Rightarrow> 'c CipherLib \<Rightarrow> ('d, 'c) Impl" where
  "openssl_new md gcm =
     (let impl = \<lparr> im_inner = EVP_MD_CTX_new md, im_outer = EVP_MD_CTX_new md, im_cur = EVP_MD_CTX_new md,
            im_enc = EVP_CIPHER_CTX_new gcm, im_dec = EVP_CIPHER_CTX_new gcm, im_ready = False \<rparr>
      in case do { inner \<leftarrow> im_inner impl; outer \<leftarrow> im_outer impl; _ \<leftarrow> im_cur impl; ecx \<leftarrow> im_enc impl; dcx \<leftarrow> im_dec impl;
            (inner, outer) \<leftarrow> openssl_pads md inner outer;
            (ecx, dcx) \<leftarrow> openssl_keys gcm ecx dcx;
            Some (impl\<lparr> im_inner := Some inner, im_outer := Some outer, im_enc := Some ecx, im_dec := Some dcx, im_ready := True \<rparr>) } of
           None \<Rightarrow> impl | Some impl \<Rightarrow> impl)"

text \<open>
  The three operations: the outer \<open>None\<close> is a null context handed to the library. The verdict and the
  buffers are those of the record \<open>Crypto\<close>; a buffer the call does not reach keeps its content \<open>old\<close>.
\<close>

definition digest_with :: "'d DigestLib \<Rightarrow> 'd \<Rightarrow> 'd \<Rightarrow> bytes \<Rightarrow> ('d \<times> bytes) option" where
  "digest_with lib cur midstate data = do {
     cur \<leftarrow> EVP_MD_CTX_copy lib cur midstate;
     cur \<leftarrow> EVP_DigestUpdate lib cur data;
     EVP_DigestFinal lib cur }"

definition openssl_HMAC :: "'d DigestLib \<Rightarrow> bytes \<Rightarrow> ('d, 'c) Impl \<Rightarrow> (bytes option \<times> ('d, 'c) Impl) option" where
  "openssl_HMAC lib data impl = do {
     inner \<leftarrow> im_inner impl; outer \<leftarrow> im_outer impl; cur \<leftarrow> im_cur impl;
     Some (case digest_with lib cur inner data of
         None \<Rightarrow> (None, impl)
       | Some (cur, digest) \<Rightarrow>
           (case digest_with lib cur outer digest of
              None \<Rightarrow> (None, impl\<lparr> im_cur := Some cur \<rparr>)
            | Some (cur, digest) \<Rightarrow> (Some (take TAG_SIZE digest), impl\<lparr> im_cur := Some cur \<rparr>))) }"

definition openssl_Encrypt ::
  "'c CipherLib \<Rightarrow> bytes \<Rightarrow> bytes \<Rightarrow> bytes \<Rightarrow> bytes \<Rightarrow> ('d, 'c) Impl \<Rightarrow> ((bool \<times> bytes \<times> bytes) \<times> ('d, 'c) Impl) option" where
  "openssl_Encrypt lib iv aad data old impl =
     (if length iv \<noteq> unat IV_LEN_GCM then Some ((False, data, old), impl)
      else do {
        ecx \<leftarrow> im_enc impl;
        Some (case do { ecx \<leftarrow> enc_iv lib ecx iv; if length aad > 0 then enc_aad lib ecx aad else Some ecx } of
            None \<Rightarrow> ((False, data, old), impl)
          | Some ecx \<Rightarrow>
              (case enc_update lib ecx data of
                 None \<Rightarrow> ((False, data, old), impl\<lparr> im_enc := Some ecx \<rparr>)
               | Some (ecx, data) \<Rightarrow>
                   (case enc_final lib ecx of
                      None \<Rightarrow> ((False, data, old), impl\<lparr> im_enc := Some ecx \<rparr>)
                    | Some ecx \<Rightarrow>
                        (case get_tag lib ecx TAG_SIZE of
                           None \<Rightarrow> ((False, data, old), impl\<lparr> im_enc := Some ecx \<rparr>)
                         | Some tag \<Rightarrow> ((True, data, tag), impl\<lparr> im_enc := Some ecx \<rparr>))))) })"

definition openssl_Decrypt ::
  "'c CipherLib \<Rightarrow> bytes \<Rightarrow> bytes \<Rightarrow> bytes \<Rightarrow> bytes \<Rightarrow> ('d, 'c) Impl \<Rightarrow> ((bool \<times> bytes) \<times> ('d, 'c) Impl) option" where
  "openssl_Decrypt lib iv aad data tag impl =
     (if length iv \<noteq> unat IV_LEN_GCM \<or> length tag \<noteq> TAG_SIZE then Some ((False, data), impl)
      else do {
        dcx \<leftarrow> im_dec impl;
        Some (case do { dcx \<leftarrow> dec_iv lib dcx iv; if length aad > 0 then dec_aad lib dcx aad else Some dcx } of
            None \<Rightarrow> ((False, data), impl)
          | Some dcx \<Rightarrow>
              (case dec_update lib dcx data of
                 None \<Rightarrow> ((False, data), impl\<lparr> im_dec := Some dcx \<rparr>)
               | Some (dcx, data) \<Rightarrow>
                   (case set_tag lib dcx tag of
                      None \<Rightarrow> ((False, data), impl\<lparr> im_dec := Some dcx \<rparr>)
                    | Some dcx \<Rightarrow>
                        (case dec_final lib dcx of
                           (None, dcx) \<Rightarrow> ((False, data), impl\<lparr> im_dec := Some dcx \<rparr>)
                         | (Some dcx, _) \<Rightarrow> ((True, data), impl\<lparr> im_dec := Some dcx \<rparr>))))) })"

subsection \<open>mbedtls\<close>

text \<open>A result of zero is success. The digest context and the GCM context are of types \<open>'m\<close> and \<open>'g\<close>.\<close>

record ('m, 'g) MbedLib =
  md_init :: 'm
  md_info_sha256 :: bool
  md_setup :: "'m \<Rightarrow> int \<times> 'm"
  md_hmac_starts :: "'m \<Rightarrow> bytes \<Rightarrow> int \<times> 'm"
  md_hmac_reset :: "'m \<Rightarrow> int \<times> 'm"
  md_hmac_update :: "'m \<Rightarrow> bytes \<Rightarrow> int \<times> 'm"
  md_hmac_finish :: "'m \<Rightarrow> int \<times> bytes \<times> 'm"
  gcm_init :: 'g
  gcm_setkey :: "'g \<Rightarrow> bytes \<Rightarrow> int \<times> 'g"
  gcm_crypt_and_tag :: "'g \<Rightarrow> bytes \<Rightarrow> bytes \<Rightarrow> bytes \<Rightarrow> nat \<Rightarrow> int \<times> bytes \<times> bytes \<times> 'g"
  gcm_auth_decrypt :: "'g \<Rightarrow> bytes \<Rightarrow> bytes \<Rightarrow> bytes \<Rightarrow> bytes \<Rightarrow> int \<times> bytes \<times> 'g"

record ('m, 'g) MbedImpl =
  mi_md :: 'm
  mi_gcm :: 'g
  mi_ready :: bool

definition mbedtls_new :: "('m, 'g) MbedLib \<Rightarrow> ('m, 'g) MbedImpl" where
  "mbedtls_new lib =
     (let impl = \<lparr> mi_md = md_init lib, mi_gcm = gcm_init lib, mi_ready = False \<rparr>
      in if \<not> md_info_sha256 lib then impl
         else case md_setup lib (mi_md impl) of (r, md) \<Rightarrow>
           if r \<noteq> 0 then impl\<lparr> mi_md := md \<rparr>
           else case md_hmac_starts lib md LAB_KEY of (r, md) \<Rightarrow>
             if r \<noteq> 0 then impl\<lparr> mi_md := md \<rparr>
             else case gcm_setkey lib (mi_gcm impl) (take GCM_KEY_SIZE LAB_KEY) of (r, gcm) \<Rightarrow>
               if r \<noteq> 0 then impl\<lparr> mi_md := md, mi_gcm := gcm \<rparr>
               else impl\<lparr> mi_md := md, mi_gcm := gcm, mi_ready := True \<rparr>)"

definition mbedtls_HMAC :: "('m, 'g) MbedLib \<Rightarrow> bytes \<Rightarrow> ('m, 'g) MbedImpl \<Rightarrow> bytes option \<times> ('m, 'g) MbedImpl" where
  "mbedtls_HMAC lib data impl =
     (case md_hmac_reset lib (mi_md impl) of (r, md) \<Rightarrow>
        if r \<noteq> 0 then (None, impl\<lparr> mi_md := md \<rparr>)
        else case md_hmac_update lib md data of (r, md) \<Rightarrow>
          if r \<noteq> 0 then (None, impl\<lparr> mi_md := md \<rparr>)
          else case md_hmac_finish lib md of (r, digest, md) \<Rightarrow>
            if r \<noteq> 0 then (None, impl\<lparr> mi_md := md \<rparr>)
            else (Some (take TAG_SIZE digest), impl\<lparr> mi_md := md \<rparr>))"

definition mbedtls_Encrypt ::
  "('m, 'g) MbedLib \<Rightarrow> bytes \<Rightarrow> bytes \<Rightarrow> bytes \<Rightarrow> ('m, 'g) MbedImpl \<Rightarrow> (bool \<times> bytes \<times> bytes) \<times> ('m, 'g) MbedImpl" where
  "mbedtls_Encrypt lib iv aad data impl =
     (case gcm_crypt_and_tag lib (mi_gcm impl) iv aad data TAG_SIZE of (r, data, tag, gcm) \<Rightarrow>
        ((r = 0, data, tag), impl\<lparr> mi_gcm := gcm \<rparr>))"

definition mbedtls_Decrypt ::
  "('m, 'g) MbedLib \<Rightarrow> bytes \<Rightarrow> bytes \<Rightarrow> bytes \<Rightarrow> bytes \<Rightarrow> ('m, 'g) MbedImpl \<Rightarrow> (bool \<times> bytes) \<times> ('m, 'g) MbedImpl" where
  "mbedtls_Decrypt lib iv aad data tag impl =
     (case gcm_auth_decrypt lib (mi_gcm impl) iv aad tag data of (r, data, gcm) \<Rightarrow> ((r = 0, data), impl\<lparr> mi_gcm := gcm \<rparr>))"

subsection \<open>What the libraries document\<close>

text \<open>\<open>absorbed\<close> is the message a digest context has taken so far.\<close>

definition sha_ok :: "(bytes \<Rightarrow> bytes) \<Rightarrow> bool" where
  "sha_ok sha \<longleftrightarrow> (\<forall>m. length (sha m) = DIGEST_LEN)"

definition digest_lib_ok :: "(bytes \<Rightarrow> bytes) \<Rightarrow> ('d \<Rightarrow> bytes) \<Rightarrow> 'd DigestLib \<Rightarrow> bool" where
  "digest_lib_ok sha absorbed lib \<longleftrightarrow> EVP_MD_CTX_new lib \<noteq> None \<and>
     (\<forall>d. \<exists>d'. EVP_DigestInit lib d = Some d' \<and> absorbed d' = []) \<and>
     (\<forall>d x. \<exists>d'. EVP_DigestUpdate lib d x = Some d' \<and> absorbed d' = absorbed d @ x) \<and>
     (\<forall>d. \<exists>d'. EVP_DigestFinal lib d = Some (d', sha (absorbed d))) \<and>
     (\<forall>d src. \<exists>d'. EVP_MD_CTX_copy lib d src = Some d' \<and> absorbed d' = absorbed src)"

text \<open>AES-GCM: the keystream is added to the text, the tag is computed from the ciphertext.\<close>

definition gcm_ok :: "(bytes \<Rightarrow> bytes \<Rightarrow> bytes \<Rightarrow> bytes) \<Rightarrow> (bytes \<Rightarrow> bytes \<Rightarrow> bytes \<Rightarrow> bytes \<Rightarrow> bytes) \<Rightarrow> bool" where
  "gcm_ok stream gtag \<longleftrightarrow> (\<forall>k iv x. length (stream k iv x) = length x \<and> stream k iv (stream k iv x) = x) \<and>
     (\<forall>k iv aad c. length (gtag k iv aad c) = TAG_SIZE)"

record CipherView =
  cv_key :: bytes
  cv_ivlen :: nat
  cv_iv :: bytes
  cv_aad :: bytes
  cv_text :: bytes
  cv_tag :: bytes

text \<open>
  A cipher context: \<open>cv_text\<close> is the ciphertext made or taken since the IV was set. The functions work
  once a key and the IV length are set, for one call of the update function per message.
\<close>

definition cipher_lib_ok ::
  "(bytes \<Rightarrow> bytes \<Rightarrow> bytes \<Rightarrow> bytes) \<Rightarrow> (bytes \<Rightarrow> bytes \<Rightarrow> bytes \<Rightarrow> bytes \<Rightarrow> bytes) \<Rightarrow> ('c \<Rightarrow> CipherView) \<Rightarrow> 'c CipherLib \<Rightarrow> bool" where
  "cipher_lib_ok stream gtag view lib \<longleftrightarrow> EVP_CIPHER_CTX_new lib \<noteq> None \<and>
     (\<forall>c. enc_cipher lib c \<noteq> None) \<and> (\<forall>c. dec_cipher lib c \<noteq> None) \<and>
     (\<forall>c n. \<exists>c'. set_ivlen lib c n = Some c' \<and> cv_ivlen (view c') = n) \<and>
     (\<forall>c k. \<exists>c'. enc_key lib c k = Some c' \<and> cv_key (view c') = k \<and> cv_ivlen (view c') = cv_ivlen (view c)) \<and>
     (\<forall>c k. \<exists>c'. dec_key lib c k = Some c' \<and> cv_key (view c') = k \<and> cv_ivlen (view c') = cv_ivlen (view c)) \<and>
     (\<forall>c iv. length iv = cv_ivlen (view c) \<longrightarrow> (\<exists>c'. enc_iv lib c iv = Some c' \<and> view c' = (view c)\<lparr> cv_iv := iv, cv_aad := [], cv_text := [] \<rparr>)) \<and>
     (\<forall>c iv. length iv = cv_ivlen (view c) \<longrightarrow> (\<exists>c'. dec_iv lib c iv = Some c' \<and> view c' = (view c)\<lparr> cv_iv := iv, cv_aad := [], cv_text := [] \<rparr>)) \<and>
     (\<forall>c aad. \<exists>c'. enc_aad lib c aad = Some c' \<and> view c' = (view c)\<lparr> cv_aad := cv_aad (view c) @ aad \<rparr>) \<and>
     (\<forall>c aad. \<exists>c'. dec_aad lib c aad = Some c' \<and> view c' = (view c)\<lparr> cv_aad := cv_aad (view c) @ aad \<rparr>) \<and>
     (\<forall>c x. cv_text (view c) = [] \<longrightarrow> (\<exists>c'. enc_update lib c x = Some (c', stream (cv_key (view c)) (cv_iv (view c)) x) \<and>
        view c' = (view c)\<lparr> cv_text := stream (cv_key (view c)) (cv_iv (view c)) x \<rparr>)) \<and>
     (\<forall>c x. cv_text (view c) = [] \<longrightarrow> (\<exists>c'. dec_update lib c x = Some (c', stream (cv_key (view c)) (cv_iv (view c)) x) \<and>
        view c' = (view c)\<lparr> cv_text := x \<rparr>)) \<and>
     (\<forall>c. \<exists>c'. enc_final lib c = Some c' \<and> view c' = view c) \<and>
     (\<forall>c. get_tag lib c TAG_SIZE = Some (gtag (cv_key (view c)) (cv_iv (view c)) (cv_aad (view c)) (cv_text (view c)))) \<and>
     (\<forall>c t. \<exists>c'. set_tag lib c t = Some c' \<and> view c' = (view c)\<lparr> cv_tag := t \<rparr>) \<and>
     (\<forall>c. fst (dec_final lib c) \<noteq> None \<longleftrightarrow> cv_tag (view c) = gtag (cv_key (view c)) (cv_iv (view c)) (cv_aad (view c)) (cv_text (view c))) \<and>
     (\<forall>c. view (snd (dec_final lib c)) = view c \<and> (\<forall>c'. fst (dec_final lib c) = Some c' \<longrightarrow> view c' = view c))"

text \<open>
  mbedtls: \<open>keyed\<close> is the key of an HMAC context and the message since the last reset, \<open>gkey\<close> the key of a
  GCM context. A rejected text leaves some octets of the same number in the buffer.
\<close>

definition mbed_lib_ok ::
  "(bytes \<Rightarrow> bytes) \<Rightarrow> (bytes \<Rightarrow> bytes \<Rightarrow> bytes \<Rightarrow> bytes) \<Rightarrow> (bytes \<Rightarrow> bytes \<Rightarrow> bytes \<Rightarrow> bytes \<Rightarrow> bytes) \<Rightarrow>
   ('m \<Rightarrow> bytes \<times> bytes) \<Rightarrow> ('g \<Rightarrow> bytes) \<Rightarrow> ('m, 'g) MbedLib \<Rightarrow> bool" where
  "mbed_lib_ok sha stream gtag keyed gkey lib \<longleftrightarrow> md_info_sha256 lib \<and> (\<forall>m. fst (md_setup lib m) = 0) \<and>
     (\<forall>m k. \<exists>m'. md_hmac_starts lib m k = (0, m') \<and> keyed m' = (k, [])) \<and>
     (\<forall>m. \<exists>m'. md_hmac_reset lib m = (0, m') \<and> keyed m' = (fst (keyed m), [])) \<and>
     (\<forall>m x. \<exists>m'. md_hmac_update lib m x = (0, m') \<and> keyed m' = (fst (keyed m), snd (keyed m) @ x)) \<and>
     (\<forall>m. \<exists>m'. md_hmac_finish lib m = (0, hmac_rfc2104 sha (fst (keyed m)) (snd (keyed m)), m') \<and> fst (keyed m') = fst (keyed m)) \<and>
     (\<forall>g k. \<exists>g'. gcm_setkey lib g k = (0, g') \<and> gkey g' = k) \<and>
     (\<forall>g iv aad x. \<exists>g'. gcm_crypt_and_tag lib g iv aad x TAG_SIZE =
        (0, stream (gkey g) iv x, gtag (gkey g) iv aad (stream (gkey g) iv x), g') \<and> gkey g' = gkey g) \<and>
     (\<forall>g iv aad t x. \<exists>r x' g'. gcm_auth_decrypt lib g iv aad t x = (r, x', g') \<and> gkey g' = gkey g \<and> length x' = length x \<and>
        (r = 0 \<longleftrightarrow> t = gtag (gkey g) iv aad x) \<and> (r = 0 \<longrightarrow> x' = stream (gkey g) iv x))"

subsection \<open>Both backends compute the same functions\<close>

definition ref_crypto :: "(bytes \<Rightarrow> bytes) \<Rightarrow> (bytes \<Rightarrow> bytes \<Rightarrow> bytes \<Rightarrow> bytes) \<Rightarrow> (bytes \<Rightarrow> bytes \<Rightarrow> bytes \<Rightarrow> bytes \<Rightarrow> bytes) \<Rightarrow> Crypto" where
  "ref_crypto sha stream gtag = (let key = take GCM_KEY_SIZE LAB_KEY in
     \<lparr> c_HMAC = (\<lambda>data. Some (take TAG_SIZE (hmac_rfc2104 sha LAB_KEY data))),
       c_Encrypt = (\<lambda>iv aad data. let c = stream key iv data in (True, c, gtag key iv aad c)),
       c_Decrypt = (\<lambda>iv aad data tag. (tag = gtag key iv aad data, stream key iv data)) \<rparr>)"

lemma ref_crypto_works:
  assumes "sha_ok sha" and "gcm_ok stream gtag"
  shows "hmac_works (ref_crypto sha stream gtag)" and "gcm_works (ref_crypto sha stream gtag)" and "decrypts_in_place (ref_crypto sha stream gtag)"
  using assms by (simp_all add: hmac_works_def gcm_works_def decrypts_in_place_def ref_crypto_def Let_def sha_ok_def gcm_ok_def hmac_rfc2104_def)

lemma length_LAB_KEY [simp]: "length LAB_KEY = 32"
  by (simp add: LAB_KEY_def)

lemma pads_eq: "build_pads = bench_pads"
  by code_simp

lemma bench_pads_eq:
  "bench_pads = (map (\<lambda>k. k XOR 0x36) (LAB_KEY @ replicate 32 0), map (\<lambda>k. k XOR 0x5C) (LAB_KEY @ replicate 32 0))"
  by code_simp

lemma hmac_by_midstates:
  "sha (snd build_pads @ sha (fst build_pads @ data)) = hmac_rfc2104 sha LAB_KEY data"
  by (simp add: pads_eq bench_pads_eq hmac_rfc2104_def Let_def)

text \<open>The state the constructor of the OpenSSL backend leaves, and that every operation keeps.\<close>

definition openssl_ok :: "('d \<Rightarrow> bytes) \<Rightarrow> ('c \<Rightarrow> CipherView) \<Rightarrow> ('d, 'c) Impl \<Rightarrow> bool" where
  "openssl_ok absorbed view impl \<longleftrightarrow> (\<exists>inner outer cur ecx dcx.
     im_inner impl = Some inner \<and> im_outer impl = Some outer \<and> im_cur impl = Some cur \<and> im_enc impl = Some ecx \<and> im_dec impl = Some dcx \<and>
     absorbed inner = fst build_pads \<and> absorbed outer = snd build_pads \<and>
     cv_key (view ecx) = take GCM_KEY_SIZE LAB_KEY \<and> cv_ivlen (view ecx) = 12 \<and>
     cv_key (view dcx) = take GCM_KEY_SIZE LAB_KEY \<and> cv_ivlen (view dcx) = 12)"

lemma digest_with_eq:
  assumes "digest_lib_ok sha absorbed lib"
  shows "\<exists>d. digest_with lib cur midstate data = Some (d, sha (absorbed midstate @ data))"
proof -
  obtain d1 where d1: "EVP_MD_CTX_copy lib cur midstate = Some d1" "absorbed d1 = absorbed midstate"
    using assms unfolding digest_lib_ok_def by blast
  obtain d2 where d2: "EVP_DigestUpdate lib d1 data = Some d2" "absorbed d2 = absorbed d1 @ data"
    using assms unfolding digest_lib_ok_def by blast
  obtain d3 where "EVP_DigestFinal lib d2 = Some (d3, sha (absorbed d2))" using assms unfolding digest_lib_ok_def by blast
  then show ?thesis using d1 d2 by (simp add: digest_with_def)
qed

lemma openssl_HMAC_eq:
  assumes "digest_lib_ok sha absorbed lib" and "openssl_ok absorbed view impl"
  shows "\<exists>impl'. openssl_HMAC lib data impl = Some (Some (take TAG_SIZE (hmac_rfc2104 sha LAB_KEY data)), impl') \<and> openssl_ok absorbed view impl'"
proof -
  obtain inner outer cur where i: "im_inner impl = Some inner" "im_outer impl = Some outer" "im_cur impl = Some cur"
    "absorbed inner = fst build_pads" "absorbed outer = snd build_pads"
    using assms(2) unfolding openssl_ok_def by blast
  obtain d1 where d1: "digest_with lib cur inner data = Some (d1, sha (absorbed inner @ data))"
    using digest_with_eq [OF assms(1)] by blast
  obtain d2 where d2: "digest_with lib d1 outer (sha (absorbed inner @ data)) = Some (d2, sha (absorbed outer @ sha (absorbed inner @ data)))"
    using digest_with_eq [OF assms(1)] by blast
  have "openssl_HMAC lib data impl = Some (Some (take TAG_SIZE (hmac_rfc2104 sha LAB_KEY data)), impl\<lparr> im_cur := Some d2 \<rparr>)"
    using i d1 d2 hmac_by_midstates [of sha data] by (simp add: openssl_HMAC_def)
  moreover have "openssl_ok absorbed view (impl\<lparr> im_cur := Some d2 \<rparr>)" using assms(2) unfolding openssl_ok_def by auto
  ultimately show ?thesis by blast
qed

lemma cipher_libD:
  assumes "cipher_lib_ok stream gtag view lib"
  shows "EVP_CIPHER_CTX_new lib \<noteq> None"
    and "(\<forall>c. enc_cipher lib c \<noteq> None)"
    and "(\<forall>c. dec_cipher lib c \<noteq> None)"
    and "(\<forall>c n. \<exists>c'. set_ivlen lib c n = Some c' \<and> cv_ivlen (view c') = n)"
    and "(\<forall>c k. \<exists>c'. enc_key lib c k = Some c' \<and> cv_key (view c') = k \<and> cv_ivlen (view c') = cv_ivlen (view c))"
    and "(\<forall>c k. \<exists>c'. dec_key lib c k = Some c' \<and> cv_key (view c') = k \<and> cv_ivlen (view c') = cv_ivlen (view c))"
    and "(\<forall>c iv. length iv = cv_ivlen (view c) \<longrightarrow> (\<exists>c'. enc_iv lib c iv = Some c' \<and> view c' = (view c)\<lparr> cv_iv := iv, cv_aad := [], cv_text := [] \<rparr>))"
    and "(\<forall>c iv. length iv = cv_ivlen (view c) \<longrightarrow> (\<exists>c'. dec_iv lib c iv = Some c' \<and> view c' = (view c)\<lparr> cv_iv := iv, cv_aad := [], cv_text := [] \<rparr>))"
    and "(\<forall>c aad. \<exists>c'. enc_aad lib c aad = Some c' \<and> view c' = (view c)\<lparr> cv_aad := cv_aad (view c) @ aad \<rparr>)"
    and "(\<forall>c aad. \<exists>c'. dec_aad lib c aad = Some c' \<and> view c' = (view c)\<lparr> cv_aad := cv_aad (view c) @ aad \<rparr>)"
    and "(\<forall>c x. cv_text (view c) = [] \<longrightarrow> (\<exists>c'. enc_update lib c x = Some (c', stream (cv_key (view c)) (cv_iv (view c)) x) \<and> view c' = (view c)\<lparr> cv_text := stream (cv_key (view c)) (cv_iv (view c)) x \<rparr>))"
    and "(\<forall>c x. cv_text (view c) = [] \<longrightarrow> (\<exists>c'. dec_update lib c x = Some (c', stream (cv_key (view c)) (cv_iv (view c)) x) \<and> view c' = (view c)\<lparr> cv_text := x \<rparr>))"
    and "(\<forall>c. \<exists>c'. enc_final lib c = Some c' \<and> view c' = view c)"
    and "(\<forall>c. get_tag lib c TAG_SIZE = Some (gtag (cv_key (view c)) (cv_iv (view c)) (cv_aad (view c)) (cv_text (view c))))"
    and "(\<forall>c t. \<exists>c'. set_tag lib c t = Some c' \<and> view c' = (view c)\<lparr> cv_tag := t \<rparr>)"
    and "(\<forall>c. fst (dec_final lib c) \<noteq> None \<longleftrightarrow> cv_tag (view c) = gtag (cv_key (view c)) (cv_iv (view c)) (cv_aad (view c)) (cv_text (view c)))"
    and "(\<forall>c. view (snd (dec_final lib c)) = view c \<and> (\<forall>c'. fst (dec_final lib c) = Some c' \<longrightarrow> view c' = view c))"
  apply (insert assms)
  apply (unfold cipher_lib_ok_def)
  apply (elim conjE, assumption)+
  done

lemma cipher_start:
  assumes "cipher_lib_ok stream gtag view lib" and "length iv = 12" and "cv_ivlen (view c) = 12"
  shows "\<exists>c'. do { c \<leftarrow> enc_iv lib c iv; if length aad > 0 then enc_aad lib c aad else Some c } = Some c' \<and>
      view c' = (view c)\<lparr> cv_iv := iv, cv_aad := aad, cv_text := [] \<rparr>"
    and "\<exists>c'. do { c \<leftarrow> dec_iv lib c iv; if length aad > 0 then dec_aad lib c aad else Some c } = Some c' \<and>
      view c' = (view c)\<lparr> cv_iv := iv, cv_aad := aad, cv_text := [] \<rparr>"
proof -
  note law = cipher_libD [OF assms(1)]
  obtain e where e: "enc_iv lib c iv = Some e" "view e = (view c)\<lparr> cv_iv := iv, cv_aad := [], cv_text := [] \<rparr>"
    using law(7) assms(2,3) by metis
  obtain e' where "enc_aad lib e aad = Some e'" "view e' = (view e)\<lparr> cv_aad := cv_aad (view e) @ aad \<rparr>"
    using law(9) by blast
  with e show "\<exists>c'. do { c \<leftarrow> enc_iv lib c iv; if length aad > 0 then enc_aad lib c aad else Some c } = Some c' \<and>
      view c' = (view c)\<lparr> cv_iv := iv, cv_aad := aad, cv_text := [] \<rparr>" by (cases "aad = []") auto
  obtain d where d: "dec_iv lib c iv = Some d" "view d = (view c)\<lparr> cv_iv := iv, cv_aad := [], cv_text := [] \<rparr>"
    using law(8) assms(2,3) by metis
  obtain d' where "dec_aad lib d aad = Some d'" "view d' = (view d)\<lparr> cv_aad := cv_aad (view d) @ aad \<rparr>"
    using law(10) by blast
  with d show "\<exists>c'. do { c \<leftarrow> dec_iv lib c iv; if length aad > 0 then dec_aad lib c aad else Some c } = Some c' \<and>
      view c' = (view c)\<lparr> cv_iv := iv, cv_aad := aad, cv_text := [] \<rparr>" by (cases "aad = []") auto
qed

lemma openssl_Encrypt_eq:
  assumes "cipher_lib_ok stream gtag view lib" and "openssl_ok absorbed view impl" and "length iv = 12"
  shows "\<exists>impl'. openssl_Encrypt lib iv aad data old impl = Some (c_Encrypt (ref_crypto sha stream gtag) iv aad data, impl') \<and> openssl_ok absorbed view impl'"
proof -
  let ?key = "take GCM_KEY_SIZE LAB_KEY"
  note law = cipher_libD [OF assms(1)]
  obtain ecx where ecx: "im_enc impl = Some ecx" "cv_key (view ecx) = ?key" "cv_ivlen (view ecx) = 12"
    using assms(2) unfolding openssl_ok_def by blast
  obtain c1 where c1: "do { c \<leftarrow> enc_iv lib ecx iv; if length aad > 0 then enc_aad lib c aad else Some c } = Some c1"
    "view c1 = (view ecx)\<lparr> cv_iv := iv, cv_aad := aad, cv_text := [] \<rparr>"
    using cipher_start(1) [OF assms(1,3) ecx(3)] by blast
  obtain c2 where c2: "enc_update lib c1 data = Some (c2, stream (cv_key (view c1)) (cv_iv (view c1)) data)"
    "view c2 = (view c1)\<lparr> cv_text := stream (cv_key (view c1)) (cv_iv (view c1)) data \<rparr>"
  proof -
    have "cv_text (view c1) = []" by (simp add: c1(2))
    then show ?thesis using law(11) that by blast
  qed
  obtain c3 where c3: "enc_final lib c2 = Some c3" "view c3 = view c2" using law(13) by blast
  have tag: "get_tag lib c3 TAG_SIZE = Some (gtag (cv_key (view c3)) (cv_iv (view c3)) (cv_aad (view c3)) (cv_text (view c3)))"
    using law(14) by blast
  have "openssl_Encrypt lib iv aad data old impl = Some (c_Encrypt (ref_crypto sha stream gtag) iv aad data, impl\<lparr> im_enc := Some c3 \<rparr>)"
    using assms(3) ecx c1 c2 c3 tag by (simp add: openssl_Encrypt_def ref_crypto_def Let_def)
  moreover have "openssl_ok absorbed view (impl\<lparr> im_enc := Some c3 \<rparr>)"
    using assms(2) ecx c1(2) c2(2) c3(2) unfolding openssl_ok_def by auto
  ultimately show ?thesis by blast
qed

lemma openssl_Decrypt_eq:
  assumes "cipher_lib_ok stream gtag view lib" and "openssl_ok absorbed view impl" and "length iv = 12" and "length tag = TAG_SIZE"
  shows "\<exists>impl'. openssl_Decrypt lib iv aad data tag impl = Some (c_Decrypt (ref_crypto sha stream gtag) iv aad data tag, impl') \<and> openssl_ok absorbed view impl'"
proof -
  let ?key = "take GCM_KEY_SIZE LAB_KEY"
  note law = cipher_libD [OF assms(1)]
  obtain dcx where dcx: "im_dec impl = Some dcx" "cv_key (view dcx) = ?key" "cv_ivlen (view dcx) = 12"
    using assms(2) unfolding openssl_ok_def by blast
  obtain c1 where c1: "do { c \<leftarrow> dec_iv lib dcx iv; if length aad > 0 then dec_aad lib c aad else Some c } = Some c1"
    "view c1 = (view dcx)\<lparr> cv_iv := iv, cv_aad := aad, cv_text := [] \<rparr>"
    using cipher_start(2) [OF assms(1,3) dcx(3)] by blast
  obtain c2 where c2: "dec_update lib c1 data = Some (c2, stream (cv_key (view c1)) (cv_iv (view c1)) data)"
    "view c2 = (view c1)\<lparr> cv_text := data \<rparr>"
  proof -
    have "cv_text (view c1) = []" by (simp add: c1(2))
    then show ?thesis using law(12) that by blast
  qed
  obtain c3 where c3: "set_tag lib c2 tag = Some c3" "view c3 = (view c2)\<lparr> cv_tag := tag \<rparr>" using law(15) by blast
  obtain r c4 where fin: "dec_final lib c3 = (r, c4)" by force
  have verdict: "r \<noteq> None \<longleftrightarrow> tag = gtag ?key iv aad data"
    using law(16) [rule_format, of c3] fin c3(2) c2(2) c1(2) dcx(2) by simp
  have views: "view c4 = view c3" "\<And>c'. r = Some c' \<Longrightarrow> view c' = view c3"
    using law(17) [rule_format, of c3] fin by auto
  let ?c = "case r of None \<Rightarrow> c4 | Some c \<Rightarrow> c"
  have "openssl_Decrypt lib iv aad data tag impl = Some (c_Decrypt (ref_crypto sha stream gtag) iv aad data tag, impl\<lparr> im_dec := Some ?c \<rparr>)"
    using assms(3,4) dcx c1 c2 c3(1) fin verdict by (cases r) (simp_all add: openssl_Decrypt_def ref_crypto_def Let_def)
  moreover have "view ?c = view c3" using views by (cases r) auto
  then have "openssl_ok absorbed view (impl\<lparr> im_dec := Some ?c \<rparr>)"
    using assms(2) dcx c1(2) c2(2) c3(2) unfolding openssl_ok_def by auto
  ultimately show ?thesis by blast
qed

lemma openssl_new_ok:
  assumes "digest_lib_ok sha absorbed md" and "cipher_lib_ok stream gtag view gcm"
  shows "openssl_ok absorbed view (openssl_new md gcm)" and "im_ready (openssl_new md gcm)"
proof -
  note law = cipher_libD [OF assms(2)]
  obtain d where d: "EVP_MD_CTX_new md = Some d" using assms(1) unfolding digest_lib_ok_def by blast
  have absorb: "\<exists>d'. do { d \<leftarrow> EVP_DigestInit md d; EVP_DigestUpdate md d p } = Some d' \<and> absorbed d' = p" for p d
    using assms(1) unfolding digest_lib_ok_def by (metis append_Nil bind.bind_lunit)
  obtain i where i: "do { d \<leftarrow> EVP_DigestInit md d; EVP_DigestUpdate md d (fst build_pads) } = Some i" "absorbed i = fst build_pads" using absorb by blast
  obtain p where p: "do { d \<leftarrow> EVP_DigestInit md d; EVP_DigestUpdate md d (snd build_pads) } = Some p" "absorbed p = snd build_pads" using absorb by blast
  have pads: "openssl_pads md d d = Some (i, p)" using i(1) p(1) by (auto simp: openssl_pads_def bind_eq_Some_conv case_prod_beta)
  obtain c where c: "EVP_CIPHER_CTX_new gcm = Some c" using law(1) by blast
  obtain e1 d1 where 1: "enc_cipher gcm c = Some e1" "dec_cipher gcm c = Some d1" using law(2,3) by blast
  obtain e2 d2 where 2: "set_ivlen gcm e1 12 = Some e2" "cv_ivlen (view e2) = 12" "set_ivlen gcm d1 12 = Some d2" "cv_ivlen (view d2) = 12" using law(4) by metis
  obtain e3 where 3: "enc_key gcm e2 (take 16 LAB_KEY) = Some e3" "cv_key (view e3) = take 16 LAB_KEY" "cv_ivlen (view e3) = 12" using law(5) 2 by metis
  obtain d3 where 4: "dec_key gcm d2 (take 16 LAB_KEY) = Some d3" "cv_key (view d3) = take 16 LAB_KEY" "cv_ivlen (view d3) = 12" using law(6) 2 by metis
  have keys: "openssl_keys gcm c c = Some (e3, d3)" using 1 2 3 4 by (simp add: openssl_keys_def)
  show "openssl_ok absorbed view (openssl_new md gcm)" "im_ready (openssl_new md gcm)"
    using d c pads keys i p 3 4 by (simp_all add: openssl_new_def openssl_ok_def)
qed

definition mbedtls_ok :: "('m \<Rightarrow> bytes \<times> bytes) \<Rightarrow> ('g \<Rightarrow> bytes) \<Rightarrow> ('m, 'g) MbedImpl \<Rightarrow> bool" where
  "mbedtls_ok keyed gkey impl \<longleftrightarrow> fst (keyed (mi_md impl)) = LAB_KEY \<and> gkey (mi_gcm impl) = take GCM_KEY_SIZE LAB_KEY"

lemma mbed_libD:
  assumes "mbed_lib_ok sha stream gtag keyed gkey lib"
  shows "md_info_sha256 lib"
    and "(\<forall>m. fst (md_setup lib m) = 0)"
    and "(\<forall>m k. \<exists>m'. md_hmac_starts lib m k = (0, m') \<and> keyed m' = (k, []))"
    and "(\<forall>m. \<exists>m'. md_hmac_reset lib m = (0, m') \<and> keyed m' = (fst (keyed m), []))"
    and "(\<forall>m x. \<exists>m'. md_hmac_update lib m x = (0, m') \<and> keyed m' = (fst (keyed m), snd (keyed m) @ x))"
    and "(\<forall>m. \<exists>m'. md_hmac_finish lib m = (0, hmac_rfc2104 sha (fst (keyed m)) (snd (keyed m)), m') \<and> fst (keyed m') = fst (keyed m))"
    and "(\<forall>g k. \<exists>g'. gcm_setkey lib g k = (0, g') \<and> gkey g' = k)"
    and "(\<forall>g iv aad x. \<exists>g'. gcm_crypt_and_tag lib g iv aad x TAG_SIZE = (0, stream (gkey g) iv x, gtag (gkey g) iv aad (stream (gkey g) iv x), g') \<and> gkey g' = gkey g)"
    and "(\<forall>g iv aad t x. \<exists>r x' g'. gcm_auth_decrypt lib g iv aad t x = (r, x', g') \<and> gkey g' = gkey g \<and> length x' = length x \<and> (r = 0 \<longleftrightarrow> t = gtag (gkey g) iv aad x) \<and> (r = 0 \<longrightarrow> x' = stream (gkey g) iv x))"
  apply (insert assms)
  apply (unfold mbed_lib_ok_def)
  apply (elim conjE, assumption)+
  done

lemma mbedtls_new_ok:
  assumes "mbed_lib_ok sha stream gtag keyed gkey lib"
  shows "mbedtls_ok keyed gkey (mbedtls_new lib)" and "mi_ready (mbedtls_new lib)"
proof -
  note law = mbed_libD [OF assms]
  obtain m where m: "md_setup lib (md_init lib) = (0, m)" using law(2) by (metis prod.collapse)
  obtain m' where m': "md_hmac_starts lib m LAB_KEY = (0, m')" "keyed m' = (LAB_KEY, [])" using law(3) by blast
  obtain g where g: "gcm_setkey lib (gcm_init lib) (take 16 LAB_KEY) = (0, g)" "gkey g = take 16 LAB_KEY" using law(7) by blast
  have "md_info_sha256 lib" by (rule law(1))
  then show "mbedtls_ok keyed gkey (mbedtls_new lib)" "mi_ready (mbedtls_new lib)"
    using m m' g by (simp_all add: mbedtls_new_def mbedtls_ok_def)
qed

lemma mbedtls_HMAC_eq:
  assumes "mbed_lib_ok sha stream gtag keyed gkey lib" and "mbedtls_ok keyed gkey impl"
  shows "\<exists>impl'. mbedtls_HMAC lib data impl = (c_HMAC (ref_crypto sha stream gtag) data, impl') \<and> mbedtls_ok keyed gkey impl'"
proof -
  note law = mbed_libD [OF assms(1)]
  obtain m1 where m1: "md_hmac_reset lib (mi_md impl) = (0, m1)" "keyed m1 = (fst (keyed (mi_md impl)), [])"
    using law(4) by blast
  obtain m2 where m2: "md_hmac_update lib m1 data = (0, m2)" "keyed m2 = (fst (keyed m1), snd (keyed m1) @ data)"
    using law(5) by blast
  obtain m3 where m3: "md_hmac_finish lib m2 = (0, hmac_rfc2104 sha (fst (keyed m2)) (snd (keyed m2)), m3)" "fst (keyed m3) = fst (keyed m2)"
    using law(6) by blast
  show ?thesis using m1 m2 m3 assms(2) by (simp add: mbedtls_HMAC_def mbedtls_ok_def ref_crypto_def Let_def)
qed

lemma mbedtls_Encrypt_eq:
  assumes "mbed_lib_ok sha stream gtag keyed gkey lib" and "mbedtls_ok keyed gkey impl"
  shows "\<exists>impl'. mbedtls_Encrypt lib iv aad data impl = (c_Encrypt (ref_crypto sha stream gtag) iv aad data, impl') \<and> mbedtls_ok keyed gkey impl'"
proof -
  let ?g = "mi_gcm impl"
  obtain g' where "gcm_crypt_and_tag lib ?g iv aad data TAG_SIZE =
    (0, stream (gkey ?g) iv data, gtag (gkey ?g) iv aad (stream (gkey ?g) iv data), g')" "gkey g' = gkey ?g"
    using mbed_libD(8) [OF assms(1)] by blast
  then show ?thesis using assms(2) by (simp add: mbedtls_Encrypt_def mbedtls_ok_def ref_crypto_def Let_def)
qed

lemma mbedtls_Decrypt_eq:
  assumes "mbed_lib_ok sha stream gtag keyed gkey lib" and "mbedtls_ok keyed gkey impl"
  shows "\<exists>ok x impl'. mbedtls_Decrypt lib iv aad data tag impl = ((ok, x), impl') \<and> mbedtls_ok keyed gkey impl' \<and> length x = length data \<and>
    ok = fst (c_Decrypt (ref_crypto sha stream gtag) iv aad data tag) \<and> (ok \<longrightarrow> x = snd (c_Decrypt (ref_crypto sha stream gtag) iv aad data tag))"
proof -
  let ?g = "mi_gcm impl"
  obtain r x g' where "gcm_auth_decrypt lib ?g iv aad tag data = (r, x, g')" "gkey g' = gkey ?g" "length x = length data"
    "r = 0 \<longleftrightarrow> tag = gtag (gkey ?g) iv aad data" "r = 0 \<longrightarrow> x = stream (gkey ?g) iv data"
    using mbed_libD(9) [OF assms(1)] by blast
  then show ?thesis using assms(2) by (simp add: mbedtls_Decrypt_def mbedtls_ok_def ref_crypto_def Let_def)
qed

subsection \<open>Calls one after the other\<close>

text \<open>A history of calls on one object, and the answers.\<close>

datatype CryptoCall = CallHMAC bytes | CallEncrypt bytes bytes bytes | CallDecrypt bytes bytes bytes bytes
datatype CryptoAnswer = AnsHMAC "bytes option" | AnsEncrypt "bool \<times> bytes \<times> bytes" | AnsDecrypt "bool \<times> bytes"

fun call_ok :: "CryptoCall \<Rightarrow> bool" where
  "call_ok (CallHMAC data) \<longleftrightarrow> True"
| "call_ok (CallEncrypt iv aad data) \<longleftrightarrow> length iv = 12"
| "call_ok (CallDecrypt iv aad data tag) \<longleftrightarrow> length iv = 12 \<and> length tag = TAG_SIZE"

fun crypto_answer :: "Crypto \<Rightarrow> CryptoCall \<Rightarrow> CryptoAnswer" where
  "crypto_answer c (CallHMAC data) = AnsHMAC (c_HMAC c data)"
| "crypto_answer c (CallEncrypt iv aad data) = AnsEncrypt (c_Encrypt c iv aad data)"
| "crypto_answer c (CallDecrypt iv aad data tag) = AnsDecrypt (c_Decrypt c iv aad data tag)"

fun openssl_call :: "'d DigestLib \<Rightarrow> 'c CipherLib \<Rightarrow> CryptoCall \<Rightarrow> ('d, 'c) Impl \<Rightarrow> (CryptoAnswer \<times> ('d, 'c) Impl) option" where
  "openssl_call md gcm (CallHMAC data) impl = map_option (map_prod AnsHMAC id) (openssl_HMAC md data impl)"
| "openssl_call md gcm (CallEncrypt iv aad data) impl = map_option (map_prod AnsEncrypt id) (openssl_Encrypt gcm iv aad data [] impl)"
| "openssl_call md gcm (CallDecrypt iv aad data tag) impl = map_option (map_prod AnsDecrypt id) (openssl_Decrypt gcm iv aad data tag impl)"

primrec openssl_history :: "'d DigestLib \<Rightarrow> 'c CipherLib \<Rightarrow> CryptoCall list \<Rightarrow> ('d, 'c) Impl \<Rightarrow> CryptoAnswer list option" where
  "openssl_history md gcm [] impl = Some []"
| "openssl_history md gcm (c # cs) impl = do { (a, impl) \<leftarrow> openssl_call md gcm c impl; as \<leftarrow> openssl_history md gcm cs impl; Some (a # as) }"

fun mbedtls_call :: "('m, 'g) MbedLib \<Rightarrow> CryptoCall \<Rightarrow> ('m, 'g) MbedImpl \<Rightarrow> CryptoAnswer \<times> ('m, 'g) MbedImpl" where
  "mbedtls_call lib (CallHMAC data) impl = map_prod AnsHMAC id (mbedtls_HMAC lib data impl)"
| "mbedtls_call lib (CallEncrypt iv aad data) impl = map_prod AnsEncrypt id (mbedtls_Encrypt lib iv aad data impl)"
| "mbedtls_call lib (CallDecrypt iv aad data tag) impl = map_prod AnsDecrypt id (mbedtls_Decrypt lib iv aad data tag impl)"

primrec mbedtls_history :: "('m, 'g) MbedLib \<Rightarrow> CryptoCall list \<Rightarrow> ('m, 'g) MbedImpl \<Rightarrow> CryptoAnswer list" where
  "mbedtls_history lib [] impl = []"
| "mbedtls_history lib (c # cs) impl = (case mbedtls_call lib c impl of (a, impl) \<Rightarrow> a # mbedtls_history lib cs impl)"

text \<open>Equal answers, up to what a rejected text leaves in the buffer.\<close>

fun same_answer :: "CryptoAnswer \<Rightarrow> CryptoAnswer \<Rightarrow> bool" where
  "same_answer (AnsDecrypt (ok, x)) (AnsDecrypt (ok', x')) \<longleftrightarrow> ok = ok' \<and> length x = length x' \<and> (ok \<longrightarrow> x = x')"
| "same_answer a b \<longleftrightarrow> a = b"

lemma openssl_history_eq:
  assumes "digest_lib_ok sha absorbed md" and "cipher_lib_ok stream gtag view gcm" and "openssl_ok absorbed view impl" and "list_all call_ok cs"
  shows "openssl_history md gcm cs impl = Some (map (crypto_answer (ref_crypto sha stream gtag)) cs)"
  using assms(3,4)
proof (induction cs arbitrary: impl)
  case (Cons c cs)
  have "\<exists>impl'. openssl_call md gcm c impl = Some (crypto_answer (ref_crypto sha stream gtag) c, impl') \<and> openssl_ok absorbed view impl'"
  proof (cases c)
    case (CallHMAC data)
    then show ?thesis using openssl_HMAC_eq [OF assms(1) Cons.prems(1), of data] by (auto simp: ref_crypto_def Let_def)
  next
    case (CallEncrypt iv aad data)
    with Cons.prems(2) have "length iv = 12" by simp
    from openssl_Encrypt_eq [OF assms(2) Cons.prems(1) this, of aad data "[]" sha] show ?thesis unfolding CallEncrypt by (elim exE) simp
  next
    case (CallDecrypt iv aad data tag)
    with Cons.prems(2) have "length iv = 12" "length tag = TAG_SIZE" by simp_all
    from openssl_Decrypt_eq [OF assms(2) Cons.prems(1) this, of aad data sha] show ?thesis unfolding CallDecrypt by (elim exE) simp
  qed
  then show ?case using Cons.IH Cons.prems(2) by auto
qed simp

lemma mbedtls_history_eq:
  assumes "mbed_lib_ok sha stream gtag keyed gkey lib" and "mbedtls_ok keyed gkey impl" and "gcm_ok stream gtag"
  shows "list_all2 same_answer (mbedtls_history lib cs impl) (map (crypto_answer (ref_crypto sha stream gtag)) cs)"
  using assms(2)
proof (induction cs arbitrary: impl)
  case (Cons c cs)
  have "\<exists>a impl'. mbedtls_call lib c impl = (a, impl') \<and> same_answer a (crypto_answer (ref_crypto sha stream gtag) c) \<and> mbedtls_ok keyed gkey impl'"
  proof (cases c)
    case (CallHMAC data)
    then show ?thesis using mbedtls_HMAC_eq [OF assms(1) Cons.prems, of data] by auto
  next
    case (CallEncrypt iv aad data)
    then show ?thesis using mbedtls_Encrypt_eq [OF assms(1) Cons.prems, of iv aad data] by auto
  next
    case (CallDecrypt iv aad data tag)
    have "length (snd (c_Decrypt (ref_crypto sha stream gtag) iv aad data tag)) = length data"
      using assms(3) by (simp add: ref_crypto_def Let_def gcm_ok_def)
    then show ?thesis using CallDecrypt mbedtls_Decrypt_eq [OF assms(1) Cons.prems, of iv aad data tag]
      by (cases "c_Decrypt (ref_crypto sha stream gtag) iv aad data tag") auto
  qed
  then show ?case using Cons.IH by auto
qed simp

subsection \<open>The variants of the benchmark\<close>

text \<open>
  \<open>MbedHmacClone\<close> and \<open>SslHmac\<close> are the same code over two libraries: midstates cloned per message. The
  results of the library functions are not looked at; a failing one has no result here.
\<close>

definition bench_clone_new :: "'d DigestLib \<Rightarrow> ('d \<times> 'd \<times> 'd) option" where
  "bench_clone_new lib = (case bench_pads of (ipad, opad) \<Rightarrow> do {
     inner \<leftarrow> EVP_MD_CTX_new lib; outer \<leftarrow> EVP_MD_CTX_new lib; cur \<leftarrow> EVP_MD_CTX_new lib;
     inner \<leftarrow> EVP_DigestInit lib inner;
     inner \<leftarrow> EVP_DigestUpdate lib inner ipad;
     outer \<leftarrow> EVP_DigestInit lib outer;
     outer \<leftarrow> EVP_DigestUpdate lib outer opad;
     Some (inner, outer, cur) })"

definition bench_clone_run :: "'d DigestLib \<Rightarrow> 'd \<times> 'd \<times> 'd \<Rightarrow> bytes \<Rightarrow> bytes option" where
  "bench_clone_run lib ctx data = (case ctx of (inner, outer, cur) \<Rightarrow> do {
     (cur, digest) \<leftarrow> digest_with lib cur inner data;
     (cur, digest) \<leftarrow> digest_with lib cur outer digest;
     Some (take TAG_SIZE digest) })"

definition bench_md_hmac :: "('m, 'g) MbedLib \<Rightarrow> bytes \<Rightarrow> bytes" where
  "bench_md_hmac lib data =
     (case md_setup lib (md_init lib) of (_, md) \<Rightarrow>
      case md_hmac_starts lib md LAB_KEY of (_, md) \<Rightarrow>
      case md_hmac_reset lib md of (_, md) \<Rightarrow>
      case md_hmac_update lib md data of (_, md) \<Rightarrow>
      case md_hmac_finish lib md of (_, digest, _) \<Rightarrow> take TAG_SIZE digest)"

definition bench_mbed_gcm :: "('m, 'g) MbedLib \<Rightarrow> bytes \<Rightarrow> bytes \<Rightarrow> bytes \<Rightarrow> bytes \<times> bytes" where
  "bench_mbed_gcm lib iv aad data =
     (case gcm_setkey lib (gcm_init lib) (take GCM_KEY_SIZE LAB_KEY) of (_, gcm) \<Rightarrow>
      case gcm_crypt_and_tag lib gcm iv aad data TAG_SIZE of (_, data, tag, _) \<Rightarrow> (data, tag))"

definition bench_ssl_gcm :: "'c CipherLib \<Rightarrow> bytes \<Rightarrow> bytes \<Rightarrow> bytes \<Rightarrow> (bytes \<times> bytes) option" where
  "bench_ssl_gcm lib iv aad data = do {
     ctx \<leftarrow> EVP_CIPHER_CTX_new lib;
     ctx \<leftarrow> enc_cipher lib ctx;
     ctx \<leftarrow> set_ivlen lib ctx (unat IV_LEN_GCM);
     ctx \<leftarrow> enc_key lib ctx (take GCM_KEY_SIZE LAB_KEY);
     ctx \<leftarrow> enc_iv lib ctx iv;
     ctx \<leftarrow> enc_aad lib ctx aad;
     (ctx, data) \<leftarrow> enc_update lib ctx data;
     ctx \<leftarrow> enc_final lib ctx;
     tag \<leftarrow> get_tag lib ctx TAG_SIZE;
     Some (data, tag) }"

text \<open>The correctness check before the measurement; \<open>sha256\<close> are the digest functions of mbedtls.\<close>

definition bench_check ::
  "'s DigestLib \<Rightarrow> ('m, 'g) MbedLib \<Rightarrow> 'd DigestLib \<Rightarrow> 'c CipherLib \<Rightarrow> bytes \<Rightarrow> bytes \<Rightarrow> bytes \<Rightarrow> bool option" where
  "bench_check sha256 mbed md gcm iv aad plain = do {
     let t_ref = bench_md_hmac mbed plain;
     ctx \<leftarrow> bench_clone_new sha256;
     t_other \<leftarrow> bench_clone_run sha256 ctx plain;
     let ok = (t_ref = t_other);
     ctx \<leftarrow> bench_clone_new md;
     t_other \<leftarrow> bench_clone_run md ctx plain;
     let ok = (if t_ref \<noteq> t_other then False else ok);
     let (work_a, t_ref) = bench_mbed_gcm mbed iv aad plain;
     (work_b, t_other) \<leftarrow> bench_ssl_gcm gcm iv aad plain;
     let ok = (if work_a \<noteq> work_b then False else ok);
     let ok = (if t_ref \<noteq> t_other then False else ok);
     Some ok }"

lemma bench_clone_eq:
  assumes "digest_lib_ok sha absorbed lib"
  shows "\<exists>ctx. bench_clone_new lib = Some ctx \<and> bench_clone_run lib ctx data = Some (take TAG_SIZE (hmac_rfc2104 sha LAB_KEY data))"
proof -
  obtain d where d: "EVP_MD_CTX_new lib = Some d" using assms unfolding digest_lib_ok_def by blast
  have absorb: "\<exists>d'. do { d \<leftarrow> EVP_DigestInit lib d; EVP_DigestUpdate lib d p } = Some d' \<and> absorbed d' = p" for p
    using assms unfolding digest_lib_ok_def by (metis append_Nil bind.bind_lunit)
  obtain i p where ip: "do { d \<leftarrow> EVP_DigestInit lib d; EVP_DigestUpdate lib d (fst build_pads) } = Some i" "absorbed i = fst build_pads"
    "do { d \<leftarrow> EVP_DigestInit lib d; EVP_DigestUpdate lib d (snd build_pads) } = Some p" "absorbed p = snd build_pads"
    using absorb by metis
  obtain d1 where d1: "digest_with lib d i data = Some (d1, sha (absorbed i @ data))" using digest_with_eq [OF assms] by blast
  obtain d2 where d2: "digest_with lib d1 p (sha (absorbed i @ data)) = Some (d2, sha (absorbed p @ sha (absorbed i @ data)))"
    using digest_with_eq [OF assms] by blast
  have "bench_clone_new lib = Some (i, p, d)"
    using d ip(1,3) by (auto simp: bench_clone_new_def pads_eq [symmetric] bind_eq_Some_conv case_prod_beta)
  moreover have "bench_clone_run lib (i, p, d) data = Some (take TAG_SIZE (hmac_rfc2104 sha LAB_KEY data))"
    using d1 d2 ip hmac_by_midstates [of sha data] by (simp add: bench_clone_run_def)
  ultimately show ?thesis by blast
qed

lemma bench_md_hmac_eq:
  assumes "mbed_lib_ok sha stream gtag keyed gkey lib"
  shows "bench_md_hmac lib data = take TAG_SIZE (hmac_rfc2104 sha LAB_KEY data)"
proof -
  note law = mbed_libD [OF assms]
  obtain m where m: "md_setup lib (md_init lib) = (0, m)" using law(2) by (metis prod.collapse)
  obtain m1 where m1: "md_hmac_starts lib m LAB_KEY = (0, m1)" "keyed m1 = (LAB_KEY, [])" using law(3) by blast
  obtain m2 where m2: "md_hmac_reset lib m1 = (0, m2)" "keyed m2 = (fst (keyed m1), [])" using law(4) by blast
  obtain m3 where m3: "md_hmac_update lib m2 data = (0, m3)" "keyed m3 = (fst (keyed m2), snd (keyed m2) @ data)" using law(5) by blast
  obtain m4 where "md_hmac_finish lib m3 = (0, hmac_rfc2104 sha (fst (keyed m3)) (snd (keyed m3)), m4)" using law(6) by blast
  then show ?thesis using m m1 m2 m3 by (simp add: bench_md_hmac_def)
qed

lemma bench_gcm_eq:
  assumes "mbed_lib_ok sha stream gtag keyed gkey lib" and "cipher_lib_ok stream gtag view gcm" and "length iv = 12"
  shows "bench_ssl_gcm gcm iv aad data = Some (bench_mbed_gcm lib iv aad data)"
proof -
  note law = cipher_libD [OF assms(2)]
  obtain g where g: "gcm_setkey lib (gcm_init lib) (take 16 LAB_KEY) = (0, g)" "gkey g = take 16 LAB_KEY" using mbed_libD(7) [OF assms(1)] by blast
  obtain g' where g': "gcm_crypt_and_tag lib g iv aad data TAG_SIZE =
    (0, stream (gkey g) iv data, gtag (gkey g) iv aad (stream (gkey g) iv data), g')" using mbed_libD(8) [OF assms(1)] by blast
  obtain c e1 where c: "EVP_CIPHER_CTX_new gcm = Some c" "enc_cipher gcm c = Some e1" using law(1,2) by blast
  obtain e2 where e2: "set_ivlen gcm e1 12 = Some e2" "cv_ivlen (view e2) = 12" using law(4) by metis
  obtain e3 where e3: "enc_key gcm e2 (take 16 LAB_KEY) = Some e3" "cv_key (view e3) = take 16 LAB_KEY" "cv_ivlen (view e3) = 12" using law(5) e2 by metis
  obtain e4 where e4: "enc_iv gcm e3 iv = Some e4" "view e4 = (view e3)\<lparr> cv_iv := iv, cv_aad := [], cv_text := [] \<rparr>" using law(7) assms(3) e3(3) by metis
  obtain e5 where e5: "enc_aad gcm e4 aad = Some e5" "view e5 = (view e4)\<lparr> cv_aad := cv_aad (view e4) @ aad \<rparr>" using law(9) by blast
  have "cv_text (view e5) = []" by (simp add: e5(2) e4(2))
  then obtain e6 where e6: "enc_update gcm e5 data = Some (e6, stream (cv_key (view e5)) (cv_iv (view e5)) data)"
    "view e6 = (view e5)\<lparr> cv_text := stream (cv_key (view e5)) (cv_iv (view e5)) data \<rparr>" using law(11) by blast
  obtain e7 where e7: "enc_final gcm e6 = Some e7" "view e7 = view e6" using law(13) by blast
  have "get_tag gcm e7 TAG_SIZE = Some (gtag (cv_key (view e7)) (cv_iv (view e7)) (cv_aad (view e7)) (cv_text (view e7)))" using law(14) by blast
  then show ?thesis using g g' c e2(1) e3 e4 e5 e6 e7 by (simp add: bench_ssl_gcm_def bench_mbed_gcm_def)
qed

lemma bench_check_ok:
  assumes "digest_lib_ok sha absorbed md" and "cipher_lib_ok stream gtag view gcm" and "mbed_lib_ok sha stream gtag keyed gkey mbed"
    and "digest_lib_ok sha absorbed' sha256" and "length iv = 12"
  shows "bench_check sha256 mbed md gcm iv aad plain = Some True"
proof -
  obtain c1 where c1: "bench_clone_new sha256 = Some c1" "bench_clone_run sha256 c1 plain = Some (take TAG_SIZE (hmac_rfc2104 sha LAB_KEY plain))"
    using bench_clone_eq [OF assms(4)] by blast
  obtain c2 where c2: "bench_clone_new md = Some c2" "bench_clone_run md c2 plain = Some (take TAG_SIZE (hmac_rfc2104 sha LAB_KEY plain))"
    using bench_clone_eq [OF assms(1)] by blast
  show ?thesis
    using c1 c2 bench_gcm_eq [OF assms(3,2,5), of aad plain] bench_md_hmac_eq [OF assms(3), of plain]
    by (simp add: bench_check_def Let_def split: prod.splits)
qed

subsection \<open>Properties\<close>


text \<open>Libraries that behave as described, with simple functions for the hash and the cipher.\<close>

definition pad_sha :: "bytes \<Rightarrow> bytes" where "pad_sha m = take DIGEST_LEN (m @ replicate DIGEST_LEN 0)"
definition xor_stream :: "bytes \<Rightarrow> bytes \<Rightarrow> bytes \<Rightarrow> bytes" where "xor_stream k iv x = map (\<lambda>b. b XOR 0x5A) x"
definition fixed_tag :: "bytes \<Rightarrow> bytes \<Rightarrow> bytes \<Rightarrow> bytes \<Rightarrow> bytes" where "fixed_tag k iv aad c = take TAG_SIZE (iv @ aad @ c @ replicate TAG_SIZE 1)"

definition sample_md :: "bytes DigestLib" where
  "sample_md = \<lparr> EVP_MD_CTX_new = Some [], EVP_DigestInit = (\<lambda>d. Some []), EVP_DigestUpdate = (\<lambda>d x. Some (d @ x)),
     EVP_DigestFinal = (\<lambda>d. Some (d, pad_sha d)), EVP_MD_CTX_copy = (\<lambda>d src. Some src) \<rparr>"

definition sample_cipher :: "CipherView CipherLib" where
  "sample_cipher = \<lparr> EVP_CIPHER_CTX_new = Some \<lparr> cv_key = [], cv_ivlen = 0, cv_iv = [], cv_aad = [], cv_text = [], cv_tag = [] \<rparr>,
     enc_cipher = Some, enc_key = (\<lambda>c k. Some (c\<lparr> cv_key := k \<rparr>)), enc_iv = (\<lambda>c iv. Some (c\<lparr> cv_iv := iv, cv_aad := [], cv_text := [] \<rparr>)),
     enc_aad = (\<lambda>c a. Some (c\<lparr> cv_aad := cv_aad c @ a \<rparr>)),
     enc_update = (\<lambda>c x. let y = xor_stream (cv_key c) (cv_iv c) x in Some (c\<lparr> cv_text := y \<rparr>, y)), enc_final = Some,
     dec_cipher = Some, dec_key = (\<lambda>c k. Some (c\<lparr> cv_key := k \<rparr>)), dec_iv = (\<lambda>c iv. Some (c\<lparr> cv_iv := iv, cv_aad := [], cv_text := [] \<rparr>)),
     dec_aad = (\<lambda>c a. Some (c\<lparr> cv_aad := cv_aad c @ a \<rparr>)),
     dec_update = (\<lambda>c x. Some (c\<lparr> cv_text := x \<rparr>, xor_stream (cv_key c) (cv_iv c) x)),
     dec_final = (\<lambda>c. (if cv_tag c = fixed_tag (cv_key c) (cv_iv c) (cv_aad c) (cv_text c) then Some c else None, c)),
     set_ivlen = (\<lambda>c n. Some (c\<lparr> cv_ivlen := n \<rparr>)), get_tag = (\<lambda>c n. Some (fixed_tag (cv_key c) (cv_iv c) (cv_aad c) (cv_text c))),
     set_tag = (\<lambda>c t. Some (c\<lparr> cv_tag := t \<rparr>)) \<rparr>"

definition sample_mbed :: "(bytes \<times> bytes, bytes) MbedLib" where
  "sample_mbed = \<lparr> md_init = ([], []), md_info_sha256 = True, md_setup = (\<lambda>m. (0, m)), md_hmac_starts = (\<lambda>m k. (0, (k, []))),
     md_hmac_reset = (\<lambda>m. (0, (fst m, []))), md_hmac_update = (\<lambda>m x. (0, (fst m, snd m @ x))),
     md_hmac_finish = (\<lambda>m. (0, hmac_rfc2104 pad_sha (fst m) (snd m), m)), gcm_init = [], gcm_setkey = (\<lambda>g k. (0, k)),
     gcm_crypt_and_tag = (\<lambda>g iv aad x n. let y = xor_stream g iv x in (0, y, fixed_tag g iv aad y, g)),
     gcm_auth_decrypt = (\<lambda>g iv aad t x. if t = fixed_tag g iv aad x then (0, xor_stream g iv x, g) else (- 18, replicate (length x) 0, g)) \<rparr>"

lemma sample_libs_ok:
  "sha_ok pad_sha" "gcm_ok xor_stream fixed_tag" "digest_lib_ok pad_sha id sample_md" "cipher_lib_ok xor_stream fixed_tag id sample_cipher"
  "mbed_lib_ok pad_sha xor_stream fixed_tag id id sample_mbed"
  by (auto simp: sha_ok_def pad_sha_def gcm_ok_def xor_stream_def fixed_tag_def xor_bytes_involutive digest_lib_ok_def sample_md_def
      cipher_lib_ok_def sample_cipher_def mbed_lib_ok_def sample_mbed_def Let_def)


end
