(* ===== verification/Tools.thy ===== *)
theory Tools
  imports Dpdk_Cpp Traffic_Gen
begin

text \<open>
  The measurement programs of \<open>src/tools/\<close>: the redirector \<open>pkt_redirect.cpp\<close>, which forwards what one port
  receives to another; \<open>delay_meter.cpp\<close>, which sends time stamps and measures how long they travel;
  \<open>rx_counter.cpp\<close>, the baseline for the receiver; and \<open>rtspin.cpp\<close>, a load for the scheduler.

  The loops run until a signal arrives. The redirector is a step relation, the others process the answers of
  the card and of the clock round by round. The lemmas say what is never lost: each frame received by the
  redirector is sent, in order, unless the program was told to stop; each delay measured enters one report; each frame
  counted enters one row.
\<close>

subsection \<open>Starting the ports\<close>

datatype ToolExit = Failure string | Exception string

definition tool_port :: "u16 \<Rightarrow> u16 \<Rightarrow> u16 \<Rightarrow> PortBuilder" where
  "tool_port port_id rxDesc txDesc = SetDescriptors rxDesc txDesc (AdjustQueues 1 1 (SetMemPool (PortBuilder_new port_id)))"

text \<open>
  Both programs with two ports start the sending port first and then wait for both links. They differ in the
  order in which the ports are built. \<open>count\<close> is the number of ports, \<open>link\<close> the link state of a port over the polls.
\<close>

definition build_port :: "Device \<Rightarrow> PortBuilder \<Rightarrow> ToolExit + 'f Port" where
  "build_port dev b = (case snd (Build dev b :: 'f DevCall list \<times> (string + 'f Port)) of Inl e \<Rightarrow> Inl (Exception e) | Inr port \<Rightarrow> Inr port)"

definition start_port :: "(u16 \<Rightarrow> int) \<Rightarrow> 'f Port \<Rightarrow> ToolExit + 'f Port" where
  "start_port dev_start port = (case Port_Start dev_start port of Inl e \<Rightarrow> Inl (Exception e) | Inr port \<Rightarrow> Inr port)"

fun both_links :: "(u16 \<Rightarrow> nat \<Rightarrow> string + bool) \<Rightarrow> 'f Port \<Rightarrow> 'f Port \<Rightarrow> ToolExit + unit" where
  "both_links link portTx portRx =
     (case WaitLink (link (p_portID portTx)) 60 of
        Inl e \<Rightarrow> Inl (Exception e)
      | Inr False \<Rightarrow> Inl (Failure ''Link is down!'')
      | Inr True \<Rightarrow> (case WaitLink (link (p_portID portRx)) 60 of
            Inl e \<Rightarrow> Inl (Exception e)
          | Inr False \<Rightarrow> Inl (Failure ''Link is down!'')
          | Inr True \<Rightarrow> Inr ()))"

definition start_both :: "(u16 \<Rightarrow> int) \<Rightarrow> (u16 \<Rightarrow> nat \<Rightarrow> string + bool) \<Rightarrow> 'f Port \<Rightarrow> 'f Port \<Rightarrow> ToolExit + 'f Port \<times> 'f Port" where
  "start_both dev_start link portTx portRx =
     (case start_port dev_start portTx of Inl e \<Rightarrow> Inl e | Inr portTx \<Rightarrow>
      case start_port dev_start portRx of Inl e \<Rightarrow> Inl e | Inr portRx \<Rightarrow>
      case both_links link portTx portRx of Inl e \<Rightarrow> Inl e | Inr () \<Rightarrow> Inr (portTx, portRx))"

definition pkt_redirect_start :: "u16 \<Rightarrow> nat \<Rightarrow> Device \<Rightarrow> (u16 \<Rightarrow> int) \<Rightarrow> (u16 \<Rightarrow> nat \<Rightarrow> string + bool) \<Rightarrow> ToolExit + 'f Port \<times> 'f Port" where
  "pkt_redirect_start TOOL_DESC_NUM count dev dev_start link =
     (if count < 2 then Inl (Failure ''Need at least 2 DPDK ports'') else
      case build_port dev (tool_port 1 TOOL_DESC_NUM TOOL_DESC_NUM) of Inl e \<Rightarrow> Inl e | Inr portRx \<Rightarrow>
      case build_port dev (tool_port 0 TOOL_DESC_NUM TOOL_DESC_NUM) of Inl e \<Rightarrow> Inl e | Inr portTx \<Rightarrow>
      start_both dev_start link portTx portRx)"

subsection \<open>The redirector\<close>

abbreviation (input) REDIRECT_BURST :: nat where "REDIRECT_BURST \<equiv> 64"

text \<open>Where the program is: before the next poll, or with frames in hand that the sending port has not taken yet.\<close>

datatype 'b RedirectPhase = Polling | Sending "'b list" | Finished

text \<open>\<open>rd_stop\<close> is \<open>g_doWork != 0\<close>; the lists record what was received, what the sending port took and what was freed.\<close>

record 'b Redirect =
  rd_phase :: "'b RedirectPhase"
  rd_stop :: bool
  rd_received :: "'b list"
  rd_wire :: "'b list"
  rd_freed :: "'b list"

definition redirect_start :: "'b Redirect" where
  "redirect_start = \<lparr> rd_phase = Polling, rd_stop = False, rd_received = [], rd_wire = [], rd_freed = [] \<rparr>"

inductive redirect_step :: "'b Redirect \<Rightarrow> 'b Redirect \<Rightarrow> bool" where
  signal: "redirect_step s (s\<lparr> rd_stop := True \<rparr>)"
| poll_empty: "rd_phase s = Polling \<Longrightarrow> \<not> rd_stop s \<Longrightarrow> redirect_step s s"
| poll: "rd_phase s = Polling \<Longrightarrow> \<not> rd_stop s \<Longrightarrow> bs \<noteq> [] \<Longrightarrow> length bs \<le> REDIRECT_BURST \<Longrightarrow>
    redirect_step s (s\<lparr> rd_phase := Sending bs, rd_received := rd_received s @ bs \<rparr>)"
| send: "rd_phase s = Sending bs \<Longrightarrow> bs \<noteq> [] \<Longrightarrow> \<not> rd_stop s \<Longrightarrow> sent \<le> length bs \<Longrightarrow>
    redirect_step s (s\<lparr> rd_phase := Sending (drop sent bs), rd_wire := rd_wire s @ take sent bs \<rparr>)"
| free_rest: "rd_phase s = Sending bs \<Longrightarrow> bs = [] \<or> rd_stop s \<Longrightarrow>
    redirect_step s (s\<lparr> rd_phase := Polling, rd_freed := rd_freed s @ bs \<rparr>)"
| leave: "rd_phase s = Polling \<Longrightarrow> rd_stop s \<Longrightarrow> redirect_step s (s\<lparr> rd_phase := Finished \<rparr>)"

inductive redirect_run :: "'b Redirect \<Rightarrow> 'b Redirect \<Rightarrow> bool" where
  start: "redirect_run s s"
| step: "redirect_run s s' \<Longrightarrow> redirect_step s' s'' \<Longrightarrow> redirect_run s s''"

inductive_cases redirect_stepE: "redirect_step s s'"

definition held :: "'b Redirect \<Rightarrow> 'b list" where
  "held s = (case rd_phase s of Sending bs \<Rightarrow> bs | _ \<Rightarrow> [])"

definition redirect_inv :: "'b Redirect \<Rightarrow> bool" where
  "redirect_inv s \<longleftrightarrow> rd_received s = rd_wire s @ rd_freed s @ held s \<and> (rd_freed s \<noteq> [] \<longrightarrow> rd_stop s \<and> held s = []) \<and>
     length (held s) \<le> REDIRECT_BURST \<and> (rd_phase s = Finished \<longrightarrow> rd_stop s)"

lemma redirect_inv_step: "redirect_step s s' \<Longrightarrow> redirect_inv s \<Longrightarrow> redirect_inv s'"
  by (cases rule: redirect_step.cases, assumption) (auto simp: redirect_inv_def held_def)

lemma redirect_reachable: "redirect_run s0 s \<Longrightarrow> redirect_inv s0 \<Longrightarrow> redirect_inv s"
  by (induction rule: redirect_run.induct) (auto intro: redirect_inv_step)

lemma redirect_run_trans: "redirect_run t s' \<Longrightarrow> redirect_run s t \<Longrightarrow> redirect_run s s'"
  by (induction rule: redirect_run.induct) (auto intro: redirect_run.step)

lemma redirect_inv_start: "redirect_inv redirect_start"
  by (simp add: redirect_inv_def redirect_start_def held_def)

text \<open>Once told to stop, the program leaves after at most two more steps, whatever the ports do.\<close>

definition redirect_rank :: "'b Redirect \<Rightarrow> nat" where
  "redirect_rank s = (case rd_phase s of Sending bs \<Rightarrow> 2 | Polling \<Rightarrow> 1 | Finished \<Rightarrow> 0)"

lemma stopped_step:
  assumes "redirect_step s s'" and "rd_stop s"
  shows "s' = s \<or> redirect_rank s' < redirect_rank s" and "rd_stop s'" and "rd_received s' = rd_received s"
  using assms by (auto elim!: redirect_stepE simp: redirect_rank_def)

lemma stopped_leaves:
  assumes "rd_stop s"
  shows "\<exists>s'. redirect_run s s' \<and> rd_phase s' = Finished \<and> rd_received s' = rd_received s"
  using assms
proof (induction "redirect_rank s" arbitrary: s rule: less_induct)
  case less
  have more: "\<exists>s'. redirect_run s s' \<and> rd_phase s' = Finished \<and> rd_received s' = rd_received s"
    if t: "redirect_step s t" "redirect_rank t < redirect_rank s" for t
  proof -
    obtain s' where s': "redirect_run t s'" "rd_phase s' = Finished" "rd_received s' = rd_received t"
      using less.hyps [OF t(2)] stopped_step(2) [OF t(1) less.prems] by blast
    have "redirect_run s s'" using redirect_run_trans [OF s'(1) redirect_run.step [OF redirect_run.start t(1)]] .
    then show ?thesis using s'(2,3) stopped_step(3) [OF t(1) less.prems] by auto
  qed
  show ?case
  proof (cases "rd_phase s")
    case Polling
    then show ?thesis using less.prems by (intro more [OF redirect_step.leave]) (simp_all add: redirect_rank_def)
  next
    case (Sending bs)
    then show ?thesis using less.prems by (intro more [OF redirect_step.free_rest]) (simp_all add: redirect_rank_def)
  qed (auto intro: redirect_run.start)
qed

subsection \<open>The delay meter: the packet\<close>

text \<open>Numbers as a little-endian host stores them, and \<open>rte_cpu_to_be_16\<close>, \<open>rte_cpu_to_be_32\<close> there.\<close>

definition put16_le :: "u16 \<Rightarrow> bytes" where "put16_le v = [ucast v, ucast (drop_bit 8 v)]"
definition put32_le :: "u32 \<Rightarrow> bytes" where "put32_le v = map (\<lambda>k. ucast (drop_bit (8 * k) v)) [0..<4]"
definition le16 :: "bytes \<Rightarrow> u16" where "le16 xs = ucast (xs ! 0) OR push_bit 8 (ucast (xs ! 1))"
definition le64 :: "bytes \<Rightarrow> u64" where "le64 xs = foldr (\<lambda>b v. ucast b OR push_bit 8 v) xs 0"

definition cpu_to_be_16 :: "u16 \<Rightarrow> u16" where "cpu_to_be_16 v = push_bit 8 v OR drop_bit 8 v"
definition cpu_to_be_32 :: "u32 \<Rightarrow> u32" where
  "cpu_to_be_32 v = push_bit 24 v OR push_bit 8 (v AND 0xFF00) OR (drop_bit 8 v AND 0xFF00) OR drop_bit 24 v"

abbreviation (input) PACKET_SIZE :: nat where "PACKET_SIZE \<equiv> 1500"

record DelayMeterConfig =
  mc_dmac :: MAC
  mc_smac :: MAC
  mc_srcIP :: u32
  mc_dstIP :: u32
  mc_srcPort :: u16
  mc_dstPort :: u16

definition delay_meter_config :: "MAC \<Rightarrow> MAC \<Rightarrow> DelayMeterConfig" where
  "delay_meter_config txMAC rxMAC = \<lparr> mc_dmac = rxMAC, mc_smac = txMAC, mc_srcIP = cpu_to_be_32 0x0a000001, mc_dstIP = cpu_to_be_32 0x0a000002,
     mc_srcPort = cpu_to_be_16 12345, mc_dstPort = cpu_to_be_16 12345 \<rparr>"

text \<open>The fields of \<open>UdpMeasurePacket\<close>: Ethernet at 0, IPv4 at 14, UDP at 34, the time stamp at 42.\<close>

definition init_mease_packet :: "bytes \<Rightarrow> DelayMeterConfig \<Rightarrow> (bytes \<times> nat) option" where
  "init_mease_packet skeleton conf = do {
     let payload_len = (8 :: u16);
     let udp_len = 8 + payload_len;
     let ip_len = 20 + udp_len;
     b \<leftarrow> wrs skeleton 0 (mac_data (mc_dmac conf));
     b \<leftarrow> wrs b 6 (mac_data (mc_smac conf));
     b \<leftarrow> wrs b 12 (put16_le (cpu_to_be_16 0x0800));
     b \<leftarrow> wr b 14 0x45;
     b \<leftarrow> wr b 15 0;
     b \<leftarrow> wrs b 18 (put16_le 0);
     b \<leftarrow> wrs b 20 (put16_le (cpu_to_be_16 0x4000));
     b \<leftarrow> wr b 22 64;
     b \<leftarrow> wr b 23 17;
     b \<leftarrow> wrs b 26 (put32_le (mc_srcIP conf));
     b \<leftarrow> wrs b 30 (put32_le (mc_dstIP conf));
     b \<leftarrow> wrs b 34 (put16_le (mc_srcPort conf));
     b \<leftarrow> wrs b 36 (put16_le (mc_dstPort conf));
     b \<leftarrow> wrs b 38 (put16_le (cpu_to_be_16 udp_len));
     b \<leftarrow> wrs b 16 (put16_le (cpu_to_be_16 ip_len));
     b \<leftarrow> wrs b 24 (put16_le 0);
     b \<leftarrow> wrs b 40 (put16_le 0);
     b \<leftarrow> wrs b 42 (put64_le 0);
     Some (b, PACKET_SIZE) }"

subsection \<open>The delay meter: statistics\<close>

record DelayStatistic =
  txPktNum :: u64
  rxPtkNum :: u64
  sumAllDeltas :: u64
  maxDeltaClk :: u64
  minDeltaClk :: u64
  prevCycleClk :: u64

definition DelayStatistic_init :: DelayStatistic where
  "DelayStatistic_init = \<lparr> txPktNum = 0, rxPtkNum = 0, sumAllDeltas = 0, maxDeltaClk = 0, minDeltaClk = - 1, prevCycleClk = 0 \<rparr>"

definition stat_put :: "u64 \<Rightarrow> DelayStatistic \<Rightarrow> DelayStatistic" where
  "stat_put delta st =
     (let st = st\<lparr> sumAllDeltas := sumAllDeltas st + delta \<rparr>;
          st = (if delta > maxDeltaClk st then st\<lparr> maxDeltaClk := delta \<rparr> else st);
          st = (if delta < minDeltaClk st then st\<lparr> minDeltaClk := delta \<rparr> else st)
      in st\<lparr> rxPtkNum := rxPtkNum st + 1 \<rparr>)"

definition stat_reset :: "u64 \<Rightarrow> DelayStatistic \<Rightarrow> DelayStatistic" where
  "stat_reset lastCycleClk st = st\<lparr> txPktNum := 0, rxPtkNum := 0, sumAllDeltas := 0, maxDeltaClk := 0, minDeltaClk := - 1, prevCycleClk := lastCycleClk \<rparr>"

subsection \<open>The delay meter: a round\<close>

text \<open>
  What the environment answers in a round: the buffer that the pool gives, if it has one; the clock at the
  sending; whether the card takes the frame; then, poll by poll, the frames received and the clock behind them.
\<close>

record MeterRound =
  mr_alloc :: "bytes option"
  mr_sendClk :: u64
  mr_taken :: bool
  mr_polls :: "(bytes list \<times> u64) list"

text \<open>A frame is measured if it has the size of the packet and its two ports.\<close>

definition meter_delta :: "DelayMeterConfig \<Rightarrow> u64 \<Rightarrow> bytes \<Rightarrow> u64 option" where
  "meter_delta conf currentClk data =
     (if length data = PACKET_SIZE \<and> le16 (take 2 (drop 34 data)) = mc_srcPort conf \<and> le16 (take 2 (drop 36 data)) = mc_dstPort conf
      then Some (currentClk - le64 (take 8 (drop 42 data))) else None)"

definition meter_receive :: "DelayMeterConfig \<Rightarrow> u64 \<Rightarrow> bytes list \<Rightarrow> DelayStatistic \<Rightarrow> DelayStatistic" where
  "meter_receive conf currentClk bufs st =
     foldl (\<lambda>st data. case meter_delta conf currentClk data of Some delta \<Rightarrow> stat_put delta st | None \<Rightarrow> st) st bufs"

text \<open>The \<open>do\<close> loop: \<open>continue\<close> behind an empty poll goes on to its condition. \<open>None\<close>: the polls given are used up.\<close>

fun meter_polls :: "DelayMeterConfig \<Rightarrow> u64 \<Rightarrow> u64 \<Rightarrow> (bytes list \<times> u64) list \<Rightarrow> DelayStatistic \<Rightarrow> (u64 \<times> DelayStatistic) option" where
  "meter_polls conf waitClk sendClk [] st = None"
| "meter_polls conf waitClk sendClk ((bufs, currentClk) # polls) st =
     (let st = meter_receive conf currentClk bufs st
      in if currentClk - sendClk < waitClk then meter_polls conf waitClk sendClk polls st else Some (currentClk, st))"

text \<open>
  A round gives the statistics, the report printed, if any, and the frame that the card took. Without a
  buffer it ends at once.
\<close>

definition meter_round :: "DelayMeterConfig \<Rightarrow> u64 \<Rightarrow> MeterRound \<Rightarrow> DelayStatistic \<Rightarrow> (DelayStatistic \<times> DelayStatistic option \<times> bytes option) option" where
  "meter_round conf tskClkPerSec r st =
     (case mr_alloc r of
        None \<Rightarrow> Some (st, None, None)
      | Some buf \<Rightarrow> do {
          buf \<leftarrow> wrs buf 42 (put64_le (mr_sendClk r));
          let frame = take PACKET_SIZE buf;
          let st = st\<lparr> txPktNum := txPktNum st + (if mr_taken r then 1 else 0) \<rparr>;
          (currentClk, st) \<leftarrow> meter_polls conf (tskClkPerSec div 1000) (mr_sendClk r) (mr_polls r) st;
          Some (if currentClk - prevCycleClk st > tskClkPerSec
            then (stat_reset currentClk st, Some st, if mr_taken r then Some frame else None)
            else (st, None, if mr_taken r then Some frame else None)) })"

fun meter_rounds :: "DelayMeterConfig \<Rightarrow> u64 \<Rightarrow> MeterRound list \<Rightarrow> DelayStatistic \<Rightarrow> (DelayStatistic \<times> DelayStatistic list) option" where
  "meter_rounds conf hz [] st = Some (st, [])"
| "meter_rounds conf hz (r # rs) st = do {
     (st, report, _) \<leftarrow> meter_round conf hz r st;
     (st, reports) \<leftarrow> meter_rounds conf hz rs st;
     Some (st, (case report of None \<Rightarrow> reports | Some x \<Rightarrow> x # reports)) }"

subsection \<open>What the meter reports\<close>

text \<open>The statistics of a list of delays.\<close>

definition delays_stat :: "u64 list \<Rightarrow> DelayStatistic \<Rightarrow> bool" where
  "delays_stat ds st \<longleftrightarrow> rxPtkNum st = of_nat (length ds) \<and> sumAllDeltas st = sum_list ds \<and> maxDeltaClk st = fold max ds 0 \<and>
     minDeltaClk st = fold min ds (- 1)"

lemma delays_stat_put: "delays_stat ds st \<Longrightarrow> delays_stat (ds @ [d]) (stat_put d st)"
  by (auto simp: delays_stat_def stat_put_def Let_def max_def min_def)

lemma delays_stat_reset: "delays_stat [] (stat_reset c st)" "delays_stat [] DelayStatistic_init"
  by (simp_all add: delays_stat_def stat_reset_def DelayStatistic_init_def)

lemma delays_stat_tx: "delays_stat ds (st\<lparr> txPktNum := n \<rparr>) = delays_stat ds st"
  by (simp add: delays_stat_def)

lemma delays_stat_bounds:
  assumes "delays_stat ds st" and "ds \<noteq> []" and "sum_list (map unat ds) < 2 ^ 64" and "length ds < 2 ^ 64"
  shows "unat (sumAllDeltas st) = sum_list (map unat ds)" and "unat (rxPtkNum st) = length ds"
    and "unat (minDeltaClk st) * length ds \<le> sum_list (map unat ds)" and "sum_list (map unat ds) \<le> unat (maxDeltaClk st) * length ds"
    and "minDeltaClk st \<in> set ds" and "maxDeltaClk st \<in> set ds"
proof -
  have sum: "unat (sum_list xs) = sum_list (map unat xs)" if "sum_list (map unat xs) < 2 ^ 64" for xs :: "u64 list"
    using that by (induction xs) (simp_all add: unat_word_ariths)
  show "unat (sumAllDeltas st) = sum_list (map unat ds)" using assms(1,3) sum by (simp add: delays_stat_def)
  show "unat (rxPtkNum st) = length ds" using assms(1,4) by (simp add: delays_stat_def unat_of_nat_small)
  have mx: "fold max xs m \<in> insert m (set xs) \<and> m \<le> fold max xs m \<and> (\<forall>x \<in> set xs. x \<le> fold max xs m)" for xs :: "u64 list" and m
    using Max_in [of "set (m # xs)"] Max_ge [of "set (m # xs)"] unfolding Max.set_eq_fold by auto
  have mn: "fold min xs m \<in> insert m (set xs) \<and> fold min xs m \<le> m \<and> (\<forall>x \<in> set xs. fold min xs m \<le> x)" for xs :: "u64 list" and m
    using Min_in [of "set (m # xs)"] Min_le [of "set (m # xs)"] unfolding Min.set_eq_fold by auto
  have st: "maxDeltaClk st = fold max ds 0" "minDeltaClk st = fold min ds (- 1)" using assms(1) by (simp_all add: delays_stat_def)
  obtain x where x: "x \<in> set ds" using assms(2) by (cases ds) auto
  show "maxDeltaClk st \<in> set ds"
  proof (cases "maxDeltaClk st = 0")
    case True
    then have "x = 0" using mx [of ds 0] x by (auto simp: st)
    with True x show ?thesis by simp
  qed (use mx [of ds 0] in \<open>auto simp: st\<close>)
  show "minDeltaClk st \<in> set ds"
  proof (cases "minDeltaClk st = - 1")
    case True
    then have "- 1 \<le> x" using mn [of ds "- 1"] x by (auto simp: st)
    then have "x = - 1" using word_n1_ge [of x] by (rule antisym [rotated])
    with True x show ?thesis by simp
  qed (use mn [of ds "- 1"] in \<open>auto simp: st\<close>)
  have lo: "unat m * length xs \<le> sum_list (map unat xs)" if "\<forall>x \<in> set xs. m \<le> x" for m :: u64 and xs
    using that by (induction xs) (auto simp: word_le_nat_alt)
  have hi: "sum_list (map unat xs) \<le> unat m * length xs" if "\<forall>x \<in> set xs. x \<le> m" for m :: u64 and xs
    using that by (induction xs) (auto simp: word_le_nat_alt)
  show "unat (minDeltaClk st) * length ds \<le> sum_list (map unat ds)" using mn [of ds "- 1"] lo [of ds] by (simp add: st)
  show "sum_list (map unat ds) \<le> unat (maxDeltaClk st) * length ds" using mx [of ds 0] hi [of ds] by (simp add: st)
qed

text \<open>The delays that a round measures.\<close>

definition burst_delays :: "DelayMeterConfig \<Rightarrow> bytes list \<times> u64 \<Rightarrow> u64 list" where
  "burst_delays conf p = List.map_filter (meter_delta conf (snd p)) (fst p)"

fun polls_delays :: "DelayMeterConfig \<Rightarrow> u64 \<Rightarrow> u64 \<Rightarrow> (bytes list \<times> u64) list \<Rightarrow> u64 list" where
  "polls_delays conf waitClk sendClk [] = []"
| "polls_delays conf waitClk sendClk (p # ps) =
     burst_delays conf p @ (if snd p - sendClk < waitClk then polls_delays conf waitClk sendClk ps else [])"

definition round_delays :: "DelayMeterConfig \<Rightarrow> u64 \<Rightarrow> MeterRound \<Rightarrow> u64 list" where
  "round_delays conf hz r = (if mr_alloc r = None then [] else polls_delays conf (hz div 1000) (mr_sendClk r) (mr_polls r))"

lemma delays_stat_receive: "delays_stat ds st \<Longrightarrow> delays_stat (ds @ burst_delays conf (bufs, clk)) (meter_receive conf clk bufs st)"
proof (induction bufs arbitrary: ds st)
  case (Cons b bufs)
  show ?case
  proof (cases "meter_delta conf clk b")
    case None
    then show ?thesis using Cons by (simp add: meter_receive_def burst_delays_def List.map_filter_simps)
  next
    case (Some d)
    then show ?thesis using Cons.IH [OF delays_stat_put [OF Cons.prems, of d]] by (simp add: meter_receive_def burst_delays_def List.map_filter_simps)
  qed
qed (simp add: meter_receive_def burst_delays_def List.map_filter_simps)

lemma delays_stat_polls:
  "meter_polls conf w s ps st = Some (clk, st') \<Longrightarrow> delays_stat ds st \<Longrightarrow> delays_stat (ds @ polls_delays conf w s ps) st'"
proof (induction conf w s ps st arbitrary: ds rule: meter_polls.induct)
  case (2 conf w s bufs c ps st)
  note r = delays_stat_receive [OF "2.prems"(2), of conf bufs c]
  show ?case
  proof (cases "c - s < w")
    case True
    then show ?thesis using "2.IH" [OF refl True _ r] "2.prems"(1) by (simp add: Let_def)
  next
    case False
    then show ?thesis using "2.prems"(1) r by (auto simp: Let_def)
  qed
qed simp

lemma delays_stat_round:
  assumes "meter_round conf hz r st = Some (st', report, frame)" and "delays_stat ds st"
  shows "case report of None \<Rightarrow> delays_stat (ds @ round_delays conf hz r) st'
    | Some x \<Rightarrow> delays_stat (ds @ round_delays conf hz r) x \<and> delays_stat [] st'"
proof (cases "mr_alloc r")
  case None
  then show ?thesis using assms by (simp add: meter_round_def round_delays_def)
next
  case (Some buf)
  let ?st = "st\<lparr> txPktNum := txPktNum st + (if mr_taken r then 1 else 0) \<rparr>"
  obtain c s1 where p: "meter_polls conf (hz div 1000) (mr_sendClk r) (mr_polls r) ?st = Some (c, s1)"
    using assms(1) Some by (auto simp: meter_round_def Let_def bind_eq_Some_conv split: prod.splits)
  have "delays_stat ds ?st" using assms(2) by (simp only: delays_stat_tx)
  from delays_stat_polls [OF p this] have "delays_stat (ds @ round_delays conf hz r) s1" by (simp add: round_delays_def Some)
  then show ?thesis
    using assms(1) Some p delays_stat_reset by (auto simp: meter_round_def Let_def bind_eq_Some_conv split: if_splits)
qed

lemma meter_reports:
  "meter_rounds conf hz rs st = Some (st', reports) \<Longrightarrow> delays_stat ds st \<Longrightarrow>
    \<exists>segments rest. list_all2 delays_stat segments reports \<and> delays_stat rest st' \<and>
      concat segments @ rest = ds @ concat (map (round_delays conf hz) rs)"
proof (induction rs arbitrary: st ds reports)
  case (Cons r rs)
  obtain s1 report frame reports' where s: "meter_round conf hz r st = Some (s1, report, frame)" "meter_rounds conf hz rs s1 = Some (st', reports')"
    "reports = (case report of None \<Rightarrow> reports' | Some x \<Rightarrow> x # reports')"
    using Cons.prems(1) by (auto simp: bind_eq_Some_conv split: prod.splits)
  note st = delays_stat_round [OF s(1) Cons.prems(2)]
  show ?case
  proof (cases report)
    case None
    then show ?thesis using Cons.IH [OF s(2), of "ds @ round_delays conf hz r"] st s(3) by simp
  next
    case (Some x)
    obtain segments rest where i: "list_all2 delays_stat segments reports'" "delays_stat rest st'"
      "concat segments @ rest = concat (map (round_delays conf hz) rs)"
      using Cons.IH [OF s(2), of "[]"] st Some by auto
    then show ?thesis using st s(3) Some
      by (intro exI [of _ "(ds @ round_delays conf hz r) # segments"] exI [of _ rest]) simp
  qed
qed auto

subsection \<open>The meter's own frames\<close>

lemma le16_put16: "le16 (put16_le v) = v"
  by (rule bit_word_eqI) (auto simp: le16_def put16_le_def bit_simps)

lemma low_byte: "ucast (ucast (drop_bit n v) :: u8) OR push_bit 8 (drop_bit (n + 8) v) = drop_bit n (v :: u64)"
proof (rule bit_word_eqI)
  fix k assume k: "k < LENGTH(64)"
  show "bit (ucast (ucast (drop_bit n v) :: u8) OR push_bit 8 (drop_bit (n + 8) v)) k = bit (drop_bit n v) k"
  proof (cases "k < 8")
    case False
    then have "n + 8 + (k - 8) = n + k" by simp
    then show ?thesis using False k by (simp add: bit_simps add.commute)
  qed (simp add: bit_simps add.commute)
qed

lemma le64_put64: "le64 (put64_le v) = v"
proof -
  have z: "drop_bit 64 v = 0" by (rule bit_word_eqI) (simp add: bit_simps)
  show ?thesis
    using low_byte [of 56 v] low_byte [of 48 v] low_byte [of 40 v] low_byte [of 32 v] low_byte [of 24 v] low_byte [of 16 v] low_byte [of 8 v]
      low_byte [of 0 v] z
    by (simp add: le64_def put64_le_def upt_rec)
qed

lemma length_put_le [simp]: "length (put16_le v) = 2" "length (put32_le w) = 4" "length (put64_le x) = 8"
  by (simp_all add: put16_le_def put32_le_def put64_le_def)

text \<open>The octets in front of the time stamp.\<close>

definition mease_header :: "DelayMeterConfig \<Rightarrow> bytes" where
  "mease_header conf = mac_data (mc_dmac conf) @ mac_data (mc_smac conf) @ [8, 0] @ [0x45, 0] @ [0, 36] @ [0, 0] @ [0x40, 0] @ [64, 17] @ [0, 0] @
     put32_le (mc_srcIP conf) @ put32_le (mc_dstIP conf) @ put16_le (mc_srcPort conf) @ put16_le (mc_dstPort conf) @ [0, 16] @ [0, 0]"

lemma length_mease_header: "length (mease_header conf) = 42"
  by (simp add: mease_header_def)

lemma patch_cons: "patch (x # b) (Suc i) xs = x # patch b i xs"
  by (simp add: patch_def)

lemma mease_packet: "init_mease_packet (replicate PACKET_SIZE 0) conf = Some (mease_header conf @ replicate 1458 0, PACKET_SIZE)"
proof -
  obtain d0 d1 d2 d3 d4 d5 where d: "mc_dmac conf = MAC d0 d1 d2 d3 d4 d5" by (cases "mc_dmac conf")
  obtain s0 s1 s2 s3 s4 s5 where s: "mc_smac conf = MAC s0 s1 s2 s3 s4 s5" by (cases "mc_smac conf")
  have le: "put32_le v = [ucast v, ucast (drop_bit 8 v), ucast (drop_bit 16 v), ucast (drop_bit 24 v)]" "put64_le 0 = [0, 0, 0, 0, 0, 0, 0, 0]" for v
    by (simp_all add: put32_le_def put64_le_def upt_rec)
  have be: "put16_le (cpu_to_be_16 0x0800) = [8, 0]" "put16_le (cpu_to_be_16 0x4000) = [0x40, 0]" "put16_le (cpu_to_be_16 16) = [0, 16]"
    "put16_le (cpu_to_be_16 36) = [0, 36]" "put16_le 0 = [0, 0]"
    by (simp_all add: put16_le_def cpu_to_be_16_def)
  have fifty: "replicate 1500 (0 :: u8) = [0, 0, 0, 0, 0, 0, 0, 0, 0, 0, 0, 0, 0, 0, 0, 0, 0, 0, 0, 0, 0, 0, 0, 0, 0, 0, 0, 0, 0, 0, 0, 0, 0, 0,
      0, 0, 0, 0, 0, 0, 0, 0, 0, 0, 0, 0, 0, 0, 0, 0] @ replicate 1450 0" (is "_ = ?z @ _")
  proof -
    have "?z = replicate 50 0" by (simp add: numeral_eq_Suc)
    then show ?thesis by (simp flip: replicate_add)
  qed
  have tail: "replicate 1458 (0 :: u8) = [0, 0, 0, 0, 0, 0, 0, 0] @ replicate 1450 0"
  proof -
    have "[0, 0, 0, 0, 0, 0, 0, 0] = replicate 8 (0 :: u8)" by (simp add: numeral_eq_Suc)
    then show ?thesis by (simp flip: replicate_add)
  qed
  show ?thesis
    unfolding init_mease_packet_def fifty tail
    by (simp add: wrs_def wr_def patch_def mease_header_def d s le be put16_le_def [of "mc_srcPort conf"] put16_le_def [of "mc_dstPort conf"] Let_def)
qed

lemma own_frame_measured:
  assumes "data = mease_header conf @ put64_le sendClk @ rest" and "length data = PACKET_SIZE"
  shows "meter_delta conf currentClk data = Some (currentClk - sendClk)"
proof -
  let ?a = "mac_data (mc_dmac conf) @ mac_data (mc_smac conf) @ [8, 0] @ [0x45, 0] @ [0, 36] @ [0, 0] @ [0x40, 0] @ [64, 17] @ [0, 0] @
     put32_le (mc_srcIP conf) @ put32_le (mc_dstIP conf)"
  let ?b = "[0, 16] @ [0, 0] @ put64_le sendClk @ rest"
  have f: "data = ?a @ put16_le (mc_srcPort conf) @ put16_le (mc_dstPort conf) @ ?b" by (simp add: assms(1) mease_header_def)
  have "length ?a = 34" by simp
  then have "take 2 (drop 34 data) = put16_le (mc_srcPort conf)" "take 2 (drop 36 data) = put16_le (mc_dstPort conf)"
    unfolding f by simp_all
  moreover have "take 8 (drop 42 data) = put64_le sendClk" unfolding assms(1) using length_mease_header [of conf] by simp
  ultimately show ?thesis using assms(2) by (simp add: meter_delta_def le16_put16 le64_put64)
qed

subsection \<open>The receive counter\<close>

text \<open>Numbers in arguments: a sign and the digits up to the first other character, saturated at the limits of the type.\<close>

definition signed_digits :: "string \<Rightarrow> bool \<times> nat" where
  "signed_digits s =
     (let s = dropWhile is_space s
      in (s \<noteq> [] \<and> hd s = CHR ''-'', digits_value 10 (if s \<noteq> [] \<and> (hd s = CHR ''-'' \<or> hd s = CHR ''+'') then tl s else s) 0))"

definition strtoul10 :: "string \<Rightarrow> u64" where
  "strtoul10 s = (case signed_digits s of (neg, n) \<Rightarrow> if n \<ge> 2 ^ 64 then - 1 else if neg then - of_nat n else of_nat n)"

definition atoll :: "string \<Rightarrow> int" where
  "atoll s = (case signed_digits s of (neg, n) \<Rightarrow> if neg then max (- (2 ^ 63)) (- int n) else min (2 ^ 63 - 1) (int n))"

definition atoi :: "string \<Rightarrow> int" where
  "atoi s = sint (of_int (atoll s) :: u32)"

text \<open>The arguments behind those of the EAL; the last \<open>--time\<close> counts.\<close>

fun parse_time :: "string list \<Rightarrow> u32 \<Rightarrow> u32" where
  "parse_time (arg # val # args) runTimeSec =
     (if arg = ''--time'' then parse_time args (ucast (strtoul10 val)) else parse_time (val # args) runTimeSec)"
| "parse_time _ runTimeSec = runTimeSec"

record RxCounter =
  rc_pkts_win :: u64
  rc_bytes_win :: u64
  rc_prev :: EthStats
  rc_next_print :: u64

record CounterRow =
  cr_pkts :: u64
  cr_bytes :: u64
  cr_imissed :: u64
  cr_ierrors :: u64
  cr_nombuf :: u64

definition rx_counter_start :: "EthStats \<Rightarrow> u64 \<Rightarrow> u64 \<Rightarrow> RxCounter" where
  "rx_counter_start prev now ticks_per_sec = \<lparr> rc_pkts_win = 0, rc_bytes_win = 0, rc_prev = prev, rc_next_print = now + ticks_per_sec \<rparr>"

definition counter_deadline :: "u32 \<Rightarrow> u64 \<Rightarrow> u64 \<Rightarrow> u64" where
  "counter_deadline runTimeSec now ticks_per_sec = (if runTimeSec \<noteq> 0 then now + ucast runTimeSec * ticks_per_sec else 0)"

text \<open>A round: the lengths of the frames received, the clock, and, when a row is due, the counters of the port and the clock again.\<close>

record CounterRound =
  cn_lens :: "u32 list"
  cn_now :: u64
  cn_curr :: EthStats
  cn_after :: u64

definition count_burst :: "u32 list \<Rightarrow> RxCounter \<Rightarrow> RxCounter" where
  "count_burst lens st = (if lens = [] then st else
     st\<lparr> rc_pkts_win := rc_pkts_win st + of_nat (length lens), rc_bytes_win := foldl (\<lambda>b l. b + ucast l) (rc_bytes_win st) lens \<rparr>)"

definition counter_round :: "u64 \<Rightarrow> u64 \<Rightarrow> CounterRound \<Rightarrow> RxCounter \<Rightarrow> RxCounter \<times> CounterRow option \<times> bool" where
  "counter_round ticks_per_sec deadline r st =
     (let st = count_burst (cn_lens r) st
      in if cn_now r \<ge> rc_next_print st then
           let curr = cn_curr r; prev = rc_prev st;
               row = \<lparr> cr_pkts = rc_pkts_win st, cr_bytes = rc_bytes_win st, cr_imissed = es_imissed curr - es_imissed prev,
                 cr_ierrors = es_ierrors curr - es_ierrors prev, cr_nombuf = es_rx_nombuf curr - es_rx_nombuf prev \<rparr>;
               st = st\<lparr> rc_prev := curr, rc_pkts_win := 0, rc_bytes_win := 0, rc_next_print := rc_next_print st + ticks_per_sec \<rparr>
           in (st, Some row, deadline \<noteq> 0 \<and> cn_after r \<ge> deadline)
         else (st, None, False))"

text \<open>The loop; a flag tells whether the time limit ended it, and the rounds left are those it did not make.\<close>

fun counter_loop :: "u64 \<Rightarrow> u64 \<Rightarrow> CounterRound list \<Rightarrow> RxCounter \<Rightarrow> RxCounter \<times> CounterRow list \<times> CounterRound list \<times> bool" where
  "counter_loop ticks deadline [] st = (st, [], [], False)"
| "counter_loop ticks deadline (r # rs) st =
     (case counter_round ticks deadline r st of (st, row, stop) \<Rightarrow>
      if stop then (st, (case row of None \<Rightarrow> [] | Some x \<Rightarrow> [x]), rs, True)
      else (case counter_loop ticks deadline rs st of (st, rows, rest, stopped) \<Rightarrow>
        (st, (case row of None \<Rightarrow> rows | Some x \<Rightarrow> x # rows), rest, stopped)))"

definition counted :: "CounterRow list \<Rightarrow> RxCounter \<Rightarrow> u64 \<times> u64" where
  "counted rows st = (sum_list (map cr_pkts rows) + rc_pkts_win st, sum_list (map cr_bytes rows) + rc_bytes_win st)"

lemma foldl_bytes: "foldl (\<lambda>b l. b + ucast l) n lens = n + (\<Sum>l \<leftarrow> lens. (ucast (l :: u32) :: u64))"
  by (induction lens arbitrary: n) (simp_all add: add.assoc)

lemma counter_round_counts:
  assumes "counter_round ticks deadline r st = (st', row, stop)"
  shows "counted (case row of None \<Rightarrow> [] | Some x \<Rightarrow> [x]) st' =
      (rc_pkts_win st + of_nat (length (cn_lens r)), rc_bytes_win st + (\<Sum>l \<leftarrow> cn_lens r. ucast l))"
    and "(case row of None \<Rightarrow> 0 | Some x \<Rightarrow> cr_imissed x) = es_imissed (rc_prev st') - es_imissed (rc_prev st)"
    and "stop \<Longrightarrow> deadline \<noteq> 0 \<and> deadline \<le> cn_after r \<and> row \<noteq> None"
  using assms by (auto simp: counter_round_def count_burst_def counted_def foldl_bytes Let_def split: if_splits)

lemma counter_loop_counts:
  assumes "counter_loop ticks deadline rs st = (st', rows, rest, stopped)"
  shows "\<exists>done. rs = done @ rest \<and>
    counted rows st' = (rc_pkts_win st + of_nat (length (concat (map cn_lens done))), rc_bytes_win st + (\<Sum>l \<leftarrow> concat (map cn_lens done). ucast l)) \<and>
    sum_list (map cr_imissed rows) = es_imissed (rc_prev st') - es_imissed (rc_prev st) \<and>
    (if stopped then deadline \<noteq> 0 \<and> done \<noteq> [] \<and> deadline \<le> cn_after (last done) else rest = [])"
  using assms
proof (induction ticks deadline rs st arbitrary: rows rule: counter_loop.induct)
  case (2 ticks deadline r rs st)
  obtain s1 row stop where r: "counter_round ticks deadline r st = (s1, row, stop)" by (cases "counter_round ticks deadline r st")
  note one = counter_round_counts [OF r]
  show ?case
  proof (cases stop)
    case True
    then have "st' = s1" "rows = (case row of None \<Rightarrow> [] | Some x \<Rightarrow> [x])" "rest = rs" "stopped" using "2.prems" r by auto
    then show ?thesis using one True by (intro exI [of _ "[r]"]) (auto split: option.splits)
  next
    case False
    obtain rows' where l: "counter_loop ticks deadline rs s1 = (st', rows', rest, stopped)" "rows = (case row of None \<Rightarrow> rows' | Some x \<Rightarrow> x # rows')"
      using "2.prems" r False by (auto split: prod.splits)
    obtain dn where d: "rs = dn @ rest"
      "counted rows' st' = (rc_pkts_win s1 + of_nat (length (concat (map cn_lens dn))), rc_bytes_win s1 + (\<Sum>l \<leftarrow> concat (map cn_lens dn). ucast l))"
      "sum_list (map cr_imissed rows') = es_imissed (rc_prev st') - es_imissed (rc_prev s1)"
      "if stopped then deadline \<noteq> 0 \<and> dn \<noteq> [] \<and> deadline \<le> cn_after (last dn) else rest = []"
      using "2.IH" [OF r [symmetric] refl False l(1)] by auto
    have "counted rows st' = (rc_pkts_win st + of_nat (length (concat (map cn_lens (r # dn)))), rc_bytes_win st + (\<Sum>l \<leftarrow> concat (map cn_lens (r # dn)). ucast l))"
      using d(2) l(2) one(1) by (cases row) (auto simp: counted_def algebra_simps)
    moreover have "sum_list (map cr_imissed rows) = es_imissed (rc_prev st') - es_imissed (rc_prev st)"
      using d(3) l(2) one(2) by (cases row) simp_all
    ultimately show ?thesis using d(1,4) by (intro exI [of _ "r # dn"]) (auto split: if_splits)
  qed
qed (simp add: counted_def)

subsection \<open>The scheduler load\<close>

text \<open>What \<open>getopt_long\<close> returns, option by option; \<open>None\<close> is its answer to an unknown one.\<close>

record SpinConfig =
  sc_cpu :: int
  sc_prio :: int
  sc_yield :: bool

primrec rtspin_options :: "(char \<times> string) option list \<Rightarrow> SpinConfig \<Rightarrow> SpinConfig option" where
  "rtspin_options [] c = Some c"
| "rtspin_options (opt # opts) c =
     (case opt of
        Some (o1, optarg) \<Rightarrow>
          if o1 = CHR ''c'' then rtspin_options opts (c\<lparr> sc_cpu := atoi optarg \<rparr>)
          else if o1 = CHR ''p'' then rtspin_options opts (c\<lparr> sc_prio := atoi optarg \<rparr>)
          else if o1 = CHR ''y'' then rtspin_options opts (c\<lparr> sc_yield := True \<rparr>)
          else None
      | None \<Rightarrow> None)"

text \<open>One turn of the endless loop: the new \<open>tsc_last\<close> and whether the program yields.\<close>

abbreviation (input) SPIN_THRESHOLD :: u64 where "SPIN_THRESHOLD \<equiv> 2000000000"

definition spin_turn :: "bool \<Rightarrow> u64 \<Rightarrow> u64 \<Rightarrow> u64 \<times> bool" where
  "spin_turn do_yield tsc_last now = (if do_yield \<and> now - tsc_last > SPIN_THRESHOLD then (now, True) else (tsc_last, False))"

fun spin :: "bool \<Rightarrow> u64 \<Rightarrow> u64 list \<Rightarrow> u64 list" where
  "spin do_yield tsc_last [] = []"
| "spin do_yield tsc_last (now # clk) =
     (case spin_turn do_yield tsc_last now of (tsc_last, yields) \<Rightarrow> (if yields then now # spin do_yield tsc_last clk else spin do_yield tsc_last clk))"

text \<open>The clock readings at which it yields lie more than the threshold apart; without the option there are none.\<close>

lemma spin_spaced: "successively (\<lambda>a b. b - a > SPIN_THRESHOLD) (tsc_last # spin do_yield tsc_last clk)"
  by (induction clk arbitrary: tsc_last) (auto simp: spin_turn_def split: if_splits)

lemma spin_never: "spin False tsc_last clk = []"
  by (induction clk arbitrary: tsc_last) (simp_all add: spin_turn_def)

subsection \<open>Properties\<close>

text \<open>
  C39: the redirector loses nothing. In every state of its loop the frames received are, in this order, those the
  sending port took, those freed and those still in hand, at most one burst; a frame is freed only after the
  signal to stop. After the signal the program can leave whatever the ports do, without receiving anything more, and
  by then every frame received was sent or freed.
\<close>

theorem redirect_loses_nothing:
  assumes "redirect_run redirect_start s"
  shows "rd_received s = rd_wire s @ rd_freed s @ held s \<and> length (held s) \<le> REDIRECT_BURST \<and> (\<not> rd_stop s \<longrightarrow> rd_freed s = []) \<and>
    (rd_stop s \<longrightarrow> (\<exists>s'. redirect_run s s' \<and> rd_phase s' = Finished \<and> rd_received s' = rd_received s \<and> rd_received s' = rd_wire s' @ rd_freed s'))"
proof -
  have inv: "redirect_inv s" using redirect_reachable [OF assms redirect_inv_start] .
  have "\<exists>s'. redirect_run s s' \<and> rd_phase s' = Finished \<and> rd_received s' = rd_received s \<and> rd_received s' = rd_wire s' @ rd_freed s'" if stop: "rd_stop s"
  proof -
    obtain s' where s': "redirect_run s s'" "rd_phase s' = Finished" "rd_received s' = rd_received s" using stopped_leaves [OF stop] by blast
    with redirect_reachable [OF s'(1) inv] show ?thesis by (auto simp: redirect_inv_def held_def)
  qed
  with inv show ?thesis by (auto simp: redirect_inv_def)
qed

theorem redirect_loses_nothing_witness:
  "\<exists>s. redirect_run (redirect_start :: nat Redirect) s \<and> rd_received s = [1, 2, 3] \<and> rd_wire s = [1, 2] \<and> rd_freed s @ held s = [3] \<and> rd_stop s"
proof -
  let ?s1 = "\<lparr> rd_phase = Sending [1, 2, 3], rd_stop = False, rd_received = [1, 2, 3], rd_wire = [], rd_freed = [] \<rparr> :: nat Redirect"
  let ?s2 = "\<lparr> rd_phase = Sending [3], rd_stop = False, rd_received = [1, 2, 3], rd_wire = [1, 2], rd_freed = [] \<rparr> :: nat Redirect"
  let ?s3 = "?s2\<lparr> rd_stop := True \<rparr>"
  have "redirect_step redirect_start ?s1" using redirect_step.poll [of redirect_start "[1 :: nat, 2, 3]"] by (simp add: redirect_start_def)
  moreover have "redirect_step ?s1 ?s2" using redirect_step.send [of ?s1 "[1 :: nat, 2, 3]" 2] by simp
  moreover have "redirect_step ?s2 ?s3" by (rule redirect_step.signal)
  ultimately have "redirect_run redirect_start ?s3" by (meson redirect_run.intros)
  from redirect_loses_nothing [OF this] this show ?thesis by (intro exI [of _ ?s3]) simp
qed

text \<open>
  C40: the delay meter reports every delay once. Over any number of rounds the delays of the frames that came
  back, each the time between the clock at the poll and the time stamp in the frame, are divided, in order,
  among the reports printed and the statistics still open; a report gives their number, sum, maximum and minimum.
  And a frame of the meter that comes back unchanged is measured, with the delay since its sending.
\<close>

theorem delay_meter_exact:
  assumes "meter_rounds conf hz rs DelayStatistic_init = Some (st, reports)"
  shows "(\<exists>segments rest. list_all2 delays_stat segments reports \<and> delays_stat rest st \<and>
      concat segments @ rest = concat (map (round_delays conf hz) rs)) \<and>
    (\<exists>skeleton. init_mease_packet (replicate PACKET_SIZE 0) conf = Some (skeleton, PACKET_SIZE) \<and>
      (\<forall>sendClk currentClk. \<exists>frame. wrs skeleton 42 (put64_le sendClk) = Some frame \<and> meter_delta conf currentClk frame = Some (currentClk - sendClk)))"
proof -
  let ?sk = "mease_header conf @ replicate 1458 0"
  have "\<exists>frame. wrs ?sk 42 (put64_le sendClk) = Some frame \<and> meter_delta conf currentClk frame = Some (currentClk - sendClk)" for sendClk currentClk
  proof -
    have z: "replicate 1458 (0 :: u8) = replicate 8 0 @ replicate 1450 0" by (simp flip: replicate_add)
    have "wrs ?sk 42 (put64_le sendClk) = Some (mease_header conf @ put64_le sendClk @ replicate 1450 0)"
      unfolding z by (rule wrs_append) (simp_all add: length_mease_header)
    then show ?thesis using own_frame_measured [OF refl, of conf sendClk "replicate 1450 0"] by (simp add: length_mease_header)
  qed
  then show ?thesis using meter_reports [OF assms delays_stat_reset(2)] mease_packet by auto
qed

definition sample_meter :: DelayMeterConfig where
  "sample_meter = delay_meter_config mac_zero mac_zero"

definition sample_returned :: bytes where
  "sample_returned = mease_header sample_meter @ put64_le 5 @ replicate 1450 0"

theorem delay_meter_exact_witness:
  "\<exists>st. meter_rounds sample_meter 1000000000
      [\<lparr> mr_alloc = Some (replicate 1500 0), mr_sendClk = 5, mr_taken = True, mr_polls = [([], 100), ([sample_returned], 2000000)] \<rparr>]
      DelayStatistic_init = Some (st, []) \<and> delays_stat [1999995] st"
proof -
  let ?r = "\<lparr> mr_alloc = Some (replicate 1500 0), mr_sendClk = 5, mr_taken = True, mr_polls = [([], 100), ([sample_returned], 2000000)] \<rparr> :: MeterRound"
  let ?st = "stat_put 1999995 (DelayStatistic_init\<lparr> txPktNum := 1 \<rparr>)"
  have d: "meter_delta sample_meter 2000000 sample_returned = Some 1999995"
    using own_frame_measured [OF sample_returned_def, of 2000000] by (simp add: sample_returned_def length_mease_header)
  have "prevCycleClk ?st = 0" by (simp add: stat_put_def DelayStatistic_init_def Let_def)
  then have run: "meter_rounds sample_meter 1000000000 [?r] DelayStatistic_init = Some (?st, [])"
    by (simp add: meter_round_def meter_receive_def wrs_def Let_def d DelayStatistic_init_def)
  have "round_delays sample_meter 1000000000 ?r = [1999995]" by (simp add: round_delays_def burst_delays_def List.map_filter_simps d)
  then have "delays_stat [1999995] ?st" using delay_meter_exact [OF run] by auto
  with run show ?thesis by blast
qed

end
