(* ===== verification/Crypto_Bench.thy ===== *)
theory Crypto_Bench
  imports Crypto_Backends Tools
begin

text \<open>
  The frame of \<open>src/tools/crypto_bench.cpp\<close>: the options, the buffers, the correctness check in these buffers and the
  order of the measurements. The clock arithmetic (in \<open>double\<close>) and the printed table are left out; a measured
  time is an answer of the environment.
\<close>

subsection \<open>Options\<close>

abbreviation (input) TAG_LEN :: nat where "TAG_LEN \<equiv> 16"
abbreviation (input) IV_LEN :: nat where "IV_LEN \<equiv> 12"
abbreviation (input) AAD_LEN :: nat where "AAD_LEN \<equiv> 26"

definition DEFAULT_SIZES :: "u64 list" where
  "DEFAULT_SIZES = [130, 200, 360, 700, 1000, 1400]"

text \<open>\<open>mhz\<close> stays the text of the argument; it only scales a printed column.\<close>

record BenchConfig =
  bc_cpu :: int
  bc_iters :: u64
  bc_repeats :: u64
  bc_mhz :: string
  bc_csv :: bool
  bc_sizes :: "u64 list"

definition BenchConfig_init :: BenchConfig where
  "BenchConfig_init = \<lparr> bc_cpu = 2, bc_iters = 20000, bc_repeats = 7, bc_mhz = ''0'', bc_csv = False, bc_sizes = DEFAULT_SIZES \<rparr>"

text \<open>\<open>strtok\<close> with commas: the pieces that are not empty.\<close>

fun strtok_commas :: "string \<Rightarrow> string \<Rightarrow> string list" where
  "strtok_commas tok [] = (if tok = [] then [] else [tok])"
| "strtok_commas tok (c # cs) =
     (if c = CHR '','' then (if tok = [] then strtok_commas [] cs else tok # strtok_commas [] cs) else strtok_commas (tok @ [c]) cs)"

text \<open>\<open>main\<close> returns 0 behind the usage text and 1 behind an unknown argument or one without its value.\<close>

datatype BenchExit = Usage | UnknownArgument string

fun bench_args :: "string list \<Rightarrow> BenchConfig \<Rightarrow> BenchExit + BenchConfig" where
  "bench_args [] c = Inr c"
| "bench_args [arg] c =
     (if arg = ''--help'' \<or> arg = ''-h'' then Inl Usage
      else if arg = ''--csv'' then Inr (c\<lparr> bc_csv := True \<rparr>)
      else Inl (UnknownArgument arg))"
| "bench_args (arg # next # args) c =
     (if arg = ''--help'' \<or> arg = ''-h'' then Inl Usage
      else if arg = ''--csv'' then bench_args (next # args) (c\<lparr> bc_csv := True \<rparr>)
      else if arg = ''--cpu'' then bench_args args (c\<lparr> bc_cpu := atoi next \<rparr>)
      else if arg = ''--iters'' then bench_args args (c\<lparr> bc_iters := of_int (atoll next) \<rparr>)
      else if arg = ''--repeats'' then bench_args args (c\<lparr> bc_repeats := of_int (atoll next) \<rparr>)
      else if arg = ''--mhz'' then bench_args args (c\<lparr> bc_mhz := next \<rparr>)
      else if arg = ''--sizes'' then bench_args args (c\<lparr> bc_sizes := map (\<lambda>tok. of_int (atoll tok)) (strtok_commas [] next) \<rparr>)
      else Inl (UnknownArgument arg))"

subsection \<open>Buffers and check\<close>

text \<open>\<open>*std::max_element\<close> of an empty vector has no value.\<close>

definition max_size :: "u64 list \<Rightarrow> u64 option" where
  "max_size sizes = (case sizes of [] \<Rightarrow> None | s # ss \<Rightarrow> Some (fold max ss s))"

record BenchBuffers =
  bb_plain :: bytes
  bb_work_a :: bytes
  bb_work_b :: bytes
  bb_aad :: bytes
  bb_iv :: bytes

definition bench_buffers :: "u64 list \<Rightarrow> BenchBuffers option" where
  "bench_buffers sizes = do {
     m \<leftarrow> max_size sizes;
     let n = unat (m + 16);
     Some \<lparr> bb_plain = map (\<lambda>i. of_nat (i * 7 + 1)) [0..<n], bb_work_a = replicate n 0, bb_work_b = replicate n 0,
       bb_aad = map (\<lambda>i. of_nat (i * 3 + 5)) [0..<AAD_LEN], bb_iv = map (\<lambda>i. of_nat (i + 1)) [0..<IV_LEN] \<rparr> }"

abbreviation (input) CHECK_SIZE :: nat where "CHECK_SIZE \<equiv> 360"

text \<open>The check takes 360 octets of the plaintext and copies them into both work buffers.\<close>

definition bench_check_run ::
  "'s DigestLib \<Rightarrow> ('m, 'g) MbedLib \<Rightarrow> 'd DigestLib \<Rightarrow> 'c CipherLib \<Rightarrow> BenchBuffers \<Rightarrow> bool option" where
  "bench_check_run sha256 mbed md gcm b = do {
     plain \<leftarrow> rds (bb_plain b) 0 CHECK_SIZE;
     work_a \<leftarrow> wrs (bb_work_a b) 0 plain;
     work_b \<leftarrow> wrs (bb_work_b b) 0 plain;
     bench_check sha256 mbed md gcm (bb_iv b) (bb_aad b) plain }"

text \<open>The measurements, in order; \<open>ns\<close> answers with the time of a variant.\<close>

record 't Result =
  br_name :: string
  br_size :: u64
  br_ns_per_op :: 't

definition VARIANTS :: "string list" where
  "VARIANTS = [''mbedtls-hmac'', ''mbedtls-hmac-clone'', ''mbedtls-gcm'', ''openssl-hmac'', ''openssl-gcm'']"

definition bench_results :: "(string \<Rightarrow> u64 \<Rightarrow> 't) \<Rightarrow> u64 list \<Rightarrow> 't Result list" where
  "bench_results ns sizes = concat (map (\<lambda>n. map (\<lambda>v. \<lparr> br_name = v, br_size = n, br_ns_per_op = ns v n \<rparr>) VARIANTS) sizes)"

text \<open>From the arguments to the results; the outer \<open>None\<close> is an access outside a buffer. A failed check makes \<open>main\<close> return 1.\<close>

datatype 't BenchEnd = Exit BenchExit | CheckFailed | Measured "'t Result list"

definition bench_main ::
  "'s DigestLib \<Rightarrow> ('m, 'g) MbedLib \<Rightarrow> 'd DigestLib \<Rightarrow> 'c CipherLib \<Rightarrow> (string \<Rightarrow> u64 \<Rightarrow> 't) \<Rightarrow> string list \<Rightarrow> 't BenchEnd option" where
  "bench_main sha256 mbed md gcm ns args =
     (case bench_args args BenchConfig_init of
        Inl e \<Rightarrow> Some (Exit e)
      | Inr c \<Rightarrow> do {
          b \<leftarrow> bench_buffers (bc_sizes c);
          ok \<leftarrow> bench_check_run sha256 mbed md gcm b;
          Some (if ok then Measured (bench_results ns (bc_sizes c)) else CheckFailed) })"

subsection \<open>What the check needs\<close>

lemma max_size_mem:
  assumes "max_size sizes = Some m"
  shows "m \<in> set sizes" and "s \<in> set sizes \<Longrightarrow> s \<le> m"
proof -
  obtain x xs where s: "sizes = x # xs" using assms by (cases sizes) (simp_all add: max_size_def)
  have "m = Max (set (x # xs))" using assms unfolding Max.set_eq_fold by (simp add: max_size_def s)
  then show "m \<in> set sizes" "s \<in> set sizes \<Longrightarrow> s \<le> m" using Max_in [of "set (x # xs)"] Max_ge [of "set (x # xs)" s] by (simp_all add: s)
qed

text \<open>
  The check succeeds if the largest size, with the room for a tag, is at least 360 octets, and
  leaves the buffers otherwise.
\<close>

lemma bench_check_bounds:
  assumes "digest_lib_ok sha absorbed md" and "cipher_lib_ok stream gtag view gcm" and "mbed_lib_ok sha stream gtag keyed gkey mbed"
    and "digest_lib_ok sha absorbed' sha256" and "max_size sizes = Some m" and "bench_buffers sizes = Some b"
  shows "bench_check_run sha256 mbed md gcm b = (if CHECK_SIZE \<le> unat (m + 16) then Some True else None)"
proof -
  let ?n = "unat (m + 16)"
  have b: "bb_plain b = map (\<lambda>i. of_nat (i * 7 + 1)) [0..<?n]" "bb_work_a b = replicate ?n 0" "bb_work_b b = replicate ?n 0" "length (bb_iv b) = 12"
    using assms(5,6) by (auto simp: bench_buffers_def Let_def)
  show ?thesis
  proof (cases "CHECK_SIZE \<le> ?n")
    case True
    then obtain p where p: "rds (bb_plain b) 0 CHECK_SIZE = Some p" "length p = CHECK_SIZE" by (simp add: b)
    then show ?thesis using True bench_check_ok [OF assms(1-4) b(4), of "bb_aad b" p] by (simp add: bench_check_run_def b(2,3) wrs_def)
  next
    case False
    then show ?thesis by (simp add: bench_check_run_def b(1) rds_def)
  qed
qed

lemma bench_no_sizes: "bench_main sha256 mbed md gcm ns [''--sizes'', '',''] = None"
  by (simp add: bench_main_def bench_buffers_def max_size_def BenchConfig_init_def)

text \<open>Arguments that set a list of sizes.\<close>

lemma bench_sizes:
  assumes "digest_lib_ok sha absorbed md" and "cipher_lib_ok stream gtag view gcm" and "mbed_lib_ok sha stream gtag keyed gkey mbed"
    and "digest_lib_ok sha absorbed' sha256" and "bench_args args BenchConfig_init = Inr c" and "max_size (bc_sizes c) = Some m"
  shows "bench_main sha256 mbed md gcm ns args = (if CHECK_SIZE \<le> unat (m + 16) then Some (Measured (bench_results ns (bc_sizes c))) else None)"
proof -
  obtain b where b: "bench_buffers (bc_sizes c) = Some b" using assms(6) by (simp add: bench_buffers_def Let_def)
  show ?thesis using assms(5) b bench_check_bounds [OF assms(1-4,6) b] by (simp add: bench_main_def)
qed

text \<open>With the default sizes the program measures all of them; with \<open>--sizes 130\<close> the check leaves the buffers.\<close>

lemma bench_examples:
  assumes "digest_lib_ok sha absorbed md" and "cipher_lib_ok stream gtag view gcm" and "mbed_lib_ok sha stream gtag keyed gkey mbed"
    and "digest_lib_ok sha absorbed' sha256"
  shows "bench_main sha256 mbed md gcm ns [] = Some (Measured (bench_results ns DEFAULT_SIZES))"
    and "bench_main sha256 mbed md gcm ns [''--sizes'', ''130''] = None"
proof -
  have "max_size DEFAULT_SIZES = Some 1400" by (simp add: max_size_def DEFAULT_SIZES_def)
  then show "bench_main sha256 mbed md gcm ns [] = Some (Measured (bench_results ns DEFAULT_SIZES))"
    using bench_sizes [OF assms, of "[]" BenchConfig_init 1400 ns] by (simp add: BenchConfig_init_def)
  have "atoll ''130'' = 130" by (simp add: atoll_def signed_digits_def is_space_def hex_value_def Let_def)
  then show "bench_main sha256 mbed md gcm ns [''--sizes'', ''130''] = None"
    using bench_sizes [OF assms, of "[''--sizes'', ''130'']" "BenchConfig_init\<lparr> bc_sizes := [130] \<rparr>" 130 ns] by (simp add: max_size_def)
qed

end
