(* ===== verification/RX_Multi.thy ===== *)
theory RX_Multi
  imports RX_App "HOL-Library.Multiset"
begin

text \<open>
  The multi-core mode of \<open>src/bus_processor/rx_application.cpp\<close>: the distributor of \<open>multi_core_rss\<close> and the workers
  running \<open>lcore_processor\<close>, interleaved, on one \<open>RX_Application\<close>.

  A step is what one thread does between two accesses to memory it shares with another: the distributor puts a burst into
  its queues, or flushes one queue; a worker takes frames off its ring, or handles a frame up to the load of the
  counter it is going to increment, or stores that counter. The counters are plain \<open>uint64_t\<close>, and an increment is a load and
  a store. A stream's source is written by the worker that handles the frame; that no two workers write the
  same one is not assumed but shown. The interleaving is sequentially consistent.

  Result: streams and reported gaps are, whatever the interleaving, those of the single-core mode on the same frames;
  the counters are not, they can fall behind.
\<close>

section \<open>The receiver with several workers\<close>

subsection \<open>Counters in memory\<close>

datatype Counter = RX_GOOSE | RX_SV | ERR_GOOSE | ERR_SV | UNKNOWN_GOOSE | UNKNOWN_SV | ERR_AUTH | TO_KERNEL

fun load :: "Counter \<Rightarrow> RX_Application \<Rightarrow> u64" where
  "load RX_GOOSE app = m_rxGoosePktCnt app"
| "load RX_SV app = m_rxSVPktCnt app"
| "load ERR_GOOSE app = m_errGooseParserCnt app"
| "load ERR_SV app = m_errSVParserCnt app"
| "load UNKNOWN_GOOSE app = m_rxUnknownGooseCnt app"
| "load UNKNOWN_SV app = m_rxUnknownSVCnt app"
| "load ERR_AUTH app = m_errAuthCnt app"
| "load TO_KERNEL app = m_pktToKernelCnt app"

fun store :: "Counter \<Rightarrow> u64 \<Rightarrow> RX_Application \<Rightarrow> RX_Application" where
  "store RX_GOOSE v app = app\<lparr> m_rxGoosePktCnt := v \<rparr>"
| "store RX_SV v app = app\<lparr> m_rxSVPktCnt := v \<rparr>"
| "store ERR_GOOSE v app = app\<lparr> m_errGooseParserCnt := v \<rparr>"
| "store ERR_SV v app = app\<lparr> m_errSVParserCnt := v \<rparr>"
| "store UNKNOWN_GOOSE v app = app\<lparr> m_rxUnknownGooseCnt := v \<rparr>"
| "store UNKNOWN_SV v app = app\<lparr> m_rxUnknownSVCnt := v \<rparr>"
| "store ERR_AUTH v app = app\<lparr> m_errAuthCnt := v \<rparr>"
| "store TO_KERNEL v app = app\<lparr> m_pktToKernelCnt := v \<rparr>"

text \<open>The streams of one application in another.\<close>

definition with_streams :: "RX_Application \<Rightarrow> RX_Application \<Rightarrow> RX_Application" where
  "with_streams app' app = app\<lparr> m_gooseMap := m_gooseMap app', m_svMap := m_svMap app' \<rparr>"

subsection \<open>A frame and a burst in a worker\<close>

text \<open>What the stage of a frame does with it, and the counter it increments.\<close>

definition handle :: "Crypto \<Rightarrow> mbuf \<Rightarrow> RX_Application \<Rightarrow> RX_Application option option" where
  "handle crypto m =
     (if in_stage GOOSE m then goose_packet m else if in_stage SV m then sv_packet m
      else if in_stage R_GOOSE m then r_goose_packet crypto m else r_sv_packet crypto m)"

text \<open>A frame whose envelope is right and whose tag is wrong.\<close>

definition goose_forged :: "SecurityMode \<Rightarrow> Crypto \<Rightarrow> mbuf \<Rightarrow> bool" where
  "goose_forged mode crypto m \<longleftrightarrow> (case validate_r_envelope (mb_data m) (mb_len m) (mb_cksum m) of
     Some (Inr _) \<Rightarrow> parse_r_goose_packet (mb_data m) (mb_len m) mode crypto GoosePassport_init GooseState_init = Some (Some (Inl R_PARSE_ERR_AUTH))
   | _ \<Rightarrow> False)"

definition sv_forged :: "SecurityMode \<Rightarrow> Crypto \<Rightarrow> mbuf \<Rightarrow> bool" where
  "sv_forged mode crypto m \<longleftrightarrow> (case validate_r_envelope (mb_data m) (mb_len m) (mb_cksum m) of
     Some (Inr _) \<Rightarrow> parse_r_sv_packet (mb_data m) (mb_len m) mode crypto SVStreamPassport_init SVStreamState_init = Some (Some (Inl R_PARSE_ERR_AUTH))
   | _ \<Rightarrow> False)"

text \<open>What a frame says to the stream it names, and the counter it is counted by.\<close>

definition goose_msg :: "SecurityMode \<Rightarrow> Crypto \<Rightarrow> mbuf \<Rightarrow> goose_message option" where
  "goose_msg mode crypto m =
     (if in_stage GOOSE m then goose_reading m else if in_stage R_GOOSE m then r_goose_reading mode crypto m else None)"

definition sv_msg :: "SecurityMode \<Rightarrow> Crypto \<Rightarrow> mbuf \<Rightarrow> sv_message option" where
  "sv_msg mode crypto m =
     (if in_stage SV m then sv_reading m else if in_stage R_SV m then r_sv_reading mode crypto m else None)"

definition outcome :: "Crypto \<Rightarrow> RX_Application \<Rightarrow> mbuf \<Rightarrow> Counter" where
  "outcome crypto app m =
     (if in_stage GOOSE m \<or> in_stage R_GOOSE m then
        (case goose_msg (m_rMode app) crypto m of
           Some (pass, _) \<Rightarrow> if goose_find (m_gooseMap app) pass = None then UNKNOWN_GOOSE else RX_GOOSE
         | None \<Rightarrow> if in_stage R_GOOSE m \<and> goose_forged (m_rMode app) crypto m then ERR_AUTH else ERR_GOOSE)
      else if in_stage SV m \<or> in_stage R_SV m then
        (case sv_msg (m_rMode app) crypto m of
           Some (pass, _) \<Rightarrow> if sv_find (m_svMap app) pass = None then UNKNOWN_SV else RX_SV
         | None \<Rightarrow> if in_stage R_SV m \<and> sv_forged (m_rMode app) crypto m then ERR_AUTH else ERR_SV)
      else TO_KERNEL)"

text \<open>The order in which the stages handle the frames of a burst; those of no bus come last, all at once.\<close>

definition stage_order :: "mbuf list \<Rightarrow> mbuf list" where
  "stage_order bs = concat (map (\<lambda>s. filter (in_stage s) bs) [GOOSE, SV, R_GOOSE, R_SV])"

subsection \<open>The threads\<close>

text \<open>
  Where a worker is: in its loop with frames of a burst still to handle and, unless done already, the foreign frames of
  the burst to count; about to store a counter; or out of the loop. With nothing left it polls its ring.
\<close>

datatype WorkerPhase = Working "mbuf list" "mbuf list option" | Storing Counter u64 "mbuf list" "mbuf list option" | Gone

text \<open>
  \<open>mc_rss\<close> are the rings, the queues of the distributor and the application; \<open>mc_main\<close> is the queue the distributor flushes next, or
  \<open>None\<close> while it polls the card. The last four fields only record what happened: the frames received, those the rings took, the
  number of those no ring took, and the frames handled, in the order of handling.
\<close>

record MultiCore =
  mc_rss :: "mbuf list RssState"
  mc_main :: "nat option"
  mc_workers :: "WorkerPhase list"
  mc_doWork :: bool
  mc_received :: "mbuf list"
  mc_taken :: "mbuf list"
  mc_lost :: nat
  mc_handled :: "mbuf list"

definition mc_start :: "u32 \<Rightarrow> RX_Application \<Rightarrow> MultiCore" where
  "mc_start workerNum app = \<lparr>
     mc_rss = \<lparr> rss_rings = replicate (unat workerNum) [], rss_queues = replicate RTE_MAX_LCORE Frame_init, rss_app = MarkRunStarted app \<rparr>,
     mc_main = None, mc_workers = replicate (unat workerNum) (Working [] None), mc_doWork = True,
     mc_received = [], mc_taken = [], mc_lost = 0, mc_handled = [] \<rparr>"

abbreviation (input) mc_app :: "MultiCore \<Rightarrow> RX_Application" where "mc_app s \<equiv> rss_app (mc_rss s)"

definition set_app :: "RX_Application \<Rightarrow> MultiCore \<Rightarrow> MultiCore" where
  "set_app app s = s\<lparr> mc_rss := (mc_rss s)\<lparr> rss_app := app \<rparr> \<rparr>"

definition set_worker :: "nat \<Rightarrow> WorkerPhase \<Rightarrow> MultiCore \<Rightarrow> MultiCore" where
  "set_worker w phase s = s\<lparr> mc_workers := (mc_workers s)[w := phase] \<rparr>"

definition set_ring :: "nat \<Rightarrow> mbuf list \<Rightarrow> MultiCore \<Rightarrow> MultiCore" where
  "set_ring w ring s = s\<lparr> mc_rss := (mc_rss s)\<lparr> rss_rings := (rss_rings (mc_rss s))[w := ring] \<rparr> \<rparr>"

definition worker_at :: "MultiCore \<Rightarrow> nat \<Rightarrow> WorkerPhase \<Rightarrow> bool" where
  "worker_at s w phase \<longleftrightarrow> w < length (mc_workers s) \<and> mc_workers s ! w = phase"

inductive mc_step :: "u32 \<Rightarrow> Crypto \<Rightarrow> MultiCore \<Rightarrow> MultiCore \<Rightarrow> bool" for workerNum crypto where
  signal: "mc_step workerNum crypto s (s\<lparr> mc_doWork := False \<rparr>)"
| receive: "mc_main s = None \<Longrightarrow> mc_doWork s \<Longrightarrow> bs \<noteq> [] \<Longrightarrow> burst_ok bs \<Longrightarrow>
    for_each (rss_put workerNum) bs (rss_queues (mc_rss s)) = Some (Some queues) \<Longrightarrow>
    mc_step workerNum crypto s (s\<lparr> mc_rss := (mc_rss s)\<lparr> rss_queues := queues \<rparr>, mc_main := Some 0, mc_received := mc_received s @ bs \<rparr>)"
| flush: "mc_main s = Some i \<Longrightarrow> i < unat workerNum \<Longrightarrow> ring_contract enqueue (\<lambda>r. r) \<Longrightarrow> rss_flush enqueue i (mc_rss s) = Some (Some rss) \<Longrightarrow>
    new = drop (length (rss_rings (mc_rss s) ! i)) (rss_rings rss ! i) \<Longrightarrow>
    mc_step workerNum crypto s (s\<lparr> mc_rss := rss, mc_main := Some (Suc i), mc_taken := mc_taken s @ new,
      mc_lost := mc_lost s + (fr_num (rss_queues (mc_rss s) ! i) - length new) \<rparr>)"
| flushed: "mc_main s = Some (unat workerNum) \<Longrightarrow> mc_step workerNum crypto s (s\<lparr> mc_main := None \<rparr>)"
| poll: "worker_at s w (Working [] None) \<Longrightarrow> mc_doWork s \<Longrightarrow> rss_rings (mc_rss s) ! w = bs @ rest \<Longrightarrow> bs \<noteq> [] \<Longrightarrow> length bs \<le> RX_BURST_SIZE \<Longrightarrow>
    mc_step workerNum crypto s (set_ring w rest (set_worker w (Working (stage_order bs) (Some (filter (in_stage IP) bs))) s))"
| handle: "worker_at s w (Working (m # ms) k) \<Longrightarrow> handle crypto m (mc_app s) = Some (Some app) \<Longrightarrow> c = outcome crypto (mc_app s) m \<Longrightarrow>
    mc_step workerNum crypto s ((set_app (with_streams app (mc_app s)) (set_worker w (Storing c (load c (mc_app s) + 1) ms k) s))
      \<lparr> mc_handled := mc_handled s @ [m] \<rparr>)"
| kernel: "worker_at s w (Working [] (Some ips)) \<Longrightarrow>
    mc_step workerNum crypto s ((set_worker w (Storing TO_KERNEL (load TO_KERNEL (mc_app s) + of_nat (length ips)) [] None) s)
      \<lparr> mc_handled := mc_handled s @ ips \<rparr>)"
| store: "worker_at s w (Storing c v ms k) \<Longrightarrow> mc_step workerNum crypto s (set_app (store c v (mc_app s)) (set_worker w (Working ms k) s))"
| leave: "worker_at s w (Working [] None) \<Longrightarrow> \<not> mc_doWork s \<Longrightarrow> mc_step workerNum crypto s (set_worker w Gone s)"

inductive mc_run :: "u32 \<Rightarrow> Crypto \<Rightarrow> MultiCore \<Rightarrow> MultiCore \<Rightarrow> bool" for workerNum crypto where
  start: "mc_run workerNum crypto s s"
| step: "mc_run workerNum crypto s s' \<Longrightarrow> mc_step workerNum crypto s' s'' \<Longrightarrow> mc_run workerNum crypto s s''"

text \<open>Nothing is under way: no frame in a queue, a ring or a worker.\<close>

definition mc_quiet :: "MultiCore \<Rightarrow> bool" where
  "mc_quiet s \<longleftrightarrow> mc_main s = None \<and> (\<forall>ring \<in> set (rss_rings (mc_rss s)). ring = []) \<and>
     (\<forall>phase \<in> set (mc_workers s). phase = Working [] None \<or> phase = Gone)"

subsection \<open>Frame by frame is the pipeline\<close>

lemma in_stage_unique: "in_stage s m \<Longrightarrow> in_stage s' m \<Longrightarrow> s = s'"
  by (auto simp: in_stage_def split: option.splits)

lemma for_each_cong: "(\<And>x. x \<in> set xs \<Longrightarrow> f x = g x) \<Longrightarrow> for_each f xs = for_each g xs"
  by (induction xs) (auto simp: fun_eq_iff intro!: and_then_cong)

lemma batch_frames:
  "batch crypto bs app = and_then (for_each (handle crypto) (stage_order bs) app) (\<lambda>app.
     Some (Some (store TO_KERNEL (load TO_KERNEL app + of_nat (length (filter (in_stage IP) bs))) app)))"
proof -
  have "for_each (handle crypto) (filter (in_stage GOOSE) bs) = for_each goose_packet (filter (in_stage GOOSE) bs)"
    "for_each (handle crypto) (filter (in_stage SV) bs) = for_each sv_packet (filter (in_stage SV) bs)"
    "for_each (handle crypto) (filter (in_stage R_GOOSE) bs) = for_each (r_goose_packet crypto) (filter (in_stage R_GOOSE) bs)"
    "for_each (handle crypto) (filter (in_stage R_SV) bs) = for_each (r_sv_packet crypto) (filter (in_stage R_SV) bs)"
    by (rule for_each_cong, auto simp: handle_def dest: in_stage_unique)+
  then show ?thesis by (simp add: batch_def stage_order_def for_each_append and_then_assoc)
qed

text \<open>A frame is delivered to the streams and adds one to its counter.\<close>

definition bus_frame :: "mbuf \<Rightarrow> bool" where
  "bus_frame m \<longleftrightarrow> in_stage GOOSE m \<or> in_stage SV m \<or> in_stage R_GOOSE m \<or> in_stage R_SV m"

definition deliver_goose :: "GooseContainer \<Rightarrow> goose_message option \<Rightarrow> GooseContainer" where
  "deliver_goose c msg = (case msg of None \<Rightarrow> c | Some a \<Rightarrow> goose_registry.deliver goose_track c a)"

definition deliver_sv :: "SVContainer \<Rightarrow> sv_message option \<Rightarrow> SVContainer" where
  "deliver_sv c msg = (case msg of None \<Rightarrow> c | Some a \<Rightarrow> sv_registry.deliver sv_track c a)"

lemma r_goose_forged:
  assumes "r_goose_packet crypto m app = Some (Some app')" "r_goose_reading (m_rMode app) crypto m = None"
  shows "app' = (let c = if goose_forged (m_rMode app) crypto m then ERR_AUTH else ERR_GOOSE in store c (load c app + 1) app)"
proof -
  obtain env where env: "validate_r_envelope (mb_data m) (mb_len m) (mb_cksum m) = Some env"
    using assms(1) by (auto simp: r_goose_packet_def and_then_eq_Some)
  show ?thesis
  proof (cases env)
    case (Inl e)
    then show ?thesis using assms(1) env by (auto simp: r_goose_packet_def goose_forged_def)
  next
    case (Inr ip)
    obtain r where r: "parse_r_goose_packet (mb_data m) (mb_len m) (m_rMode app) crypto GoosePassport_init GooseState_init = Some (Some r)"
      using assms(1) env Inr by (auto simp: r_goose_packet_def and_then_eq_Some)
    note run = assms(1) [unfolded r_goose_packet_def env and_then_simps Inr sum.case r]
    obtain e where e: "r = Inl e" using assms(2) env Inr r by (cases r) (auto simp: r_goose_reading_def)
    then show ?thesis using run env Inr r by (cases "e = R_PARSE_ERR_AUTH") (auto simp: goose_forged_def)
  qed
qed

lemma r_sv_forged:
  assumes "r_sv_packet crypto m app = Some (Some app')" "r_sv_reading (m_rMode app) crypto m = None"
  shows "app' = (let c = if sv_forged (m_rMode app) crypto m then ERR_AUTH else ERR_SV in store c (load c app + 1) app)"
proof -
  obtain env where env: "validate_r_envelope (mb_data m) (mb_len m) (mb_cksum m) = Some env"
    using assms(1) by (auto simp: r_sv_packet_def and_then_eq_Some)
  show ?thesis
  proof (cases env)
    case (Inl e)
    then show ?thesis using assms(1) env by (auto simp: r_sv_packet_def sv_forged_def)
  next
    case (Inr ip)
    obtain r where r: "parse_r_sv_packet (mb_data m) (mb_len m) (m_rMode app) crypto SVStreamPassport_init SVStreamState_init = Some (Some r)"
      using assms(1) env Inr by (auto simp: r_sv_packet_def and_then_eq_Some)
    note run = assms(1) [unfolded r_sv_packet_def env and_then_simps Inr sum.case r]
    obtain e where e: "r = Inl e" using assms(2) env Inr r by (cases r) (auto simp: r_sv_reading_def)
    then show ?thesis using run env Inr r by (cases "e = R_PARSE_ERR_AUTH") (auto simp: sv_forged_def)
  qed
qed

lemma with_streams_store: "with_streams a (store c v app) = store c v (with_streams a app)"
  by (cases c) (simp_all add: with_streams_def)

lemma handle_effect:
  assumes "handle crypto m app = Some (Some app')" and "bus_frame m"
  shows "app' = store (outcome crypto app m) (load (outcome crypto app m) app + 1) (with_streams app' app)"
    and "m_gooseMap app' = deliver_goose (m_gooseMap app) (goose_msg (m_rMode app) crypto m)"
    and "m_svMap app' = deliver_sv (m_svMap app) (sv_msg (m_rMode app) crypto m)"
proof -
  consider "in_stage GOOSE m" | "in_stage SV m" | "in_stage R_GOOSE m" | "in_stage R_SV m" using assms(2) by (auto simp: bus_frame_def)
  then have "app' = store (outcome crypto app m) (load (outcome crypto app m) app + 1) (with_streams app' app) \<and>
    m_gooseMap app' = deliver_goose (m_gooseMap app) (goose_msg (m_rMode app) crypto m) \<and>
    m_svMap app' = deliver_sv (m_svMap app) (sv_msg (m_rMode app) crypto m)"
  proof cases
    case 1
    then have s: "\<not> in_stage SV m" "\<not> in_stage R_GOOSE m" "\<not> in_stage R_SV m" by (auto dest: in_stage_unique)
    have p: "goose_packet m app = Some (Some app')" using assms(1) 1 by (simp add: handle_def)
    from p show ?thesis using 1 s packet_delivers(1) [OF p]
      by (elim goose_packet_cases) (simp_all add: outcome_def goose_msg_def sv_msg_def with_streams_def deliver_goose_def deliver_sv_def)
  next
    case 2
    then have s: "\<not> in_stage GOOSE m" "\<not> in_stage R_GOOSE m" "\<not> in_stage R_SV m" by (auto dest: in_stage_unique)
    have p: "sv_packet m app = Some (Some app')" using assms(1) 2 s by (simp add: handle_def)
    from p show ?thesis using 2 s packet_delivers(2) [OF p]
      by (elim sv_packet_cases) (simp_all add: outcome_def goose_msg_def sv_msg_def with_streams_def deliver_goose_def deliver_sv_def)
  next
    case 3
    then have s: "\<not> in_stage GOOSE m" "\<not> in_stage SV m" "\<not> in_stage R_SV m" by (auto dest: in_stage_unique)
    have p: "r_goose_packet crypto m app = Some (Some app')" using assms(1) 3 s by (simp add: handle_def)
    note d = packet_delivers(3) [OF p]
    show ?thesis
    proof (cases "r_goose_reading (m_rMode app) crypto m")
      case None
      then show ?thesis using 3 s d r_goose_forged [OF p None]
        by (simp add: outcome_def goose_msg_def sv_msg_def with_streams_def deliver_goose_def deliver_sv_def)
    next
      case (Some a)
      obtain k msg where "a = (k, msg)" by (cases a)
      with p show ?thesis using 3 s d Some
        by (elim r_goose_packet_cases) (simp_all add: outcome_def goose_msg_def sv_msg_def with_streams_def deliver_goose_def deliver_sv_def)
    qed
  next
    case 4
    then have s: "\<not> in_stage GOOSE m" "\<not> in_stage SV m" "\<not> in_stage R_GOOSE m" by (auto dest: in_stage_unique)
    have p: "r_sv_packet crypto m app = Some (Some app')" using assms(1) 4 s by (simp add: handle_def)
    note d = packet_delivers(4) [OF p]
    show ?thesis
    proof (cases "r_sv_reading (m_rMode app) crypto m")
      case None
      then show ?thesis using 4 s d r_sv_forged [OF p None]
        by (simp add: outcome_def goose_msg_def sv_msg_def with_streams_def deliver_goose_def deliver_sv_def)
    next
      case (Some a)
      obtain k msg where "a = (k, msg)" by (cases a)
      with p show ?thesis using 4 s d Some
        by (elim r_sv_packet_cases) (simp_all add: outcome_def goose_msg_def sv_msg_def with_streams_def deliver_goose_def deliver_sv_def)
    qed
  qed
  then show "app' = store (outcome crypto app m) (load (outcome crypto app m) app + 1) (with_streams app' app)"
    "m_gooseMap app' = deliver_goose (m_gooseMap app) (goose_msg (m_rMode app) crypto m)"
    "m_svMap app' = deliver_sv (m_svMap app) (sv_msg (m_rMode app) crypto m)" by blast+
qed

subsection \<open>What a parser leaves alone in the passport\<close>

lemma run_nested_keeps:
  assumes "run_nested step s = Some (Some (Inr p))" and "\<And>s s'. step s = Inl s' \<Longrightarrow> key s' = key s"
    and "\<And>s p. step s = Inr (Some (Some (Inr p))) \<Longrightarrow> address p = key s"
  shows "address p = key s"
proof -
  have "run_loop step s = Some (Some (Some (Inr p)))" using assms(1) by (auto simp: run_nested_def split: option.splits)
  moreover have "x = Some (Some (Inr p)) \<longrightarrow> address p = key s" if "run_loop step s = Some x" for x
    using that by (induction rule: run_loop_induct) (use assms(2,3) in auto)
  ultimately show ?thesis by blast
qed

abbreviation (input) goose_address :: "GoosePassport \<Rightarrow> u16 \<times> u32" where
  "goose_address pass \<equiv> (gp_appid pass, gp_dstIP pass)"

abbreviation (input) sv_address :: "SVStreamPassport \<Rightarrow> u16 \<times> u32" where
  "sv_address pass \<equiv> (vp_appid pass, vp_dstIP pass)"

lemma goose_item_address:
  "goose_item buffer tag pos itemSize w = Some (Some (Inr w')) \<Longrightarrow> goose_address (gw_pass w') = goose_address (gw_pass w)"
  by (auto simp: goose_item_def bind_eq_Some_conv and_then_eq_Some split: if_splits)

lemma goose_walk_address:
  assumes "run_nested (goose_walk_step skip buffer sz) w = Some (Some (Inr (pass, st)))"
  shows "goose_address pass = goose_address (gw_pass w)"
proof -
  have step: "goose_address (gw_pass w') = goose_address (gw_pass w)" if "goose_walk_step skip buffer sz w = Inl w'" for w w'
    using that by (auto simp: goose_walk_step_def into_loop_def split: if_split_asm option.split_asm prod.split_asm sum.split_asm dest!: goose_item_address)
  have exit: "goose_address (fst p) = goose_address (gw_pass w)" if "goose_walk_step skip buffer sz w = Inr (Some (Some (Inr p)))" for w p
    using that by (auto simp: goose_walk_step_def into_loop_def goose_finish_def split: if_split_asm option.split_asm prod.split_asm sum.split_asm)
  from run_nested_keeps [OF assms, of "\<lambda>w. goose_address (gw_pass w)" "\<lambda>p. goose_address (fst p)"] step exit show ?thesis by simp
qed

lemma sv_walk_address:
  assumes "run_nested (sv_asdu_step apdu e n) w = Some (Some (Inr (pass, st)))"
  shows "sv_address pass = sv_address (vw_pass w)"
proof -
  have step: "sv_address (vw_pass w') = sv_address (vw_pass w)" if "sv_asdu_step apdu e n w = Inl w'" for w w'
    using that by (auto simp: sv_asdu_step_def into_loop_def split: if_split_asm option.split_asm prod.split_asm sum.split_asm)
  have exit: "sv_address (fst p) = sv_address (vw_pass w)" if "sv_asdu_step apdu e n w = Inr (Some (Some (Inr p)))" for w p
    using that by (auto simp: sv_asdu_step_def into_loop_def split: if_split_asm option.split_asm prod.split_asm sum.split_asm)
  from run_nested_keeps [OF assms, of "\<lambda>w. sv_address (vw_pass w)" "\<lambda>p. sv_address (fst p)"] step exit show ?thesis by simp
qed

lemma sv_apdu_address:
  "parse_sv_apdu apdu n pass0 st0 = Some (Some (Inr (pass, st))) \<Longrightarrow> sv_address pass = sv_address pass0"
  by (auto simp: parse_sv_apdu_def and_then_def Let_def split: option.split_asm if_split_asm prod.split_asm dest!: sv_walk_address)

text \<open>The APPID of an accepted L2 frame is the one classification read, and it has no destination address.\<close>

lemma l2_offset_cases:
  assumes "l2_offset buffer lo = Some (Some pos)"
  shows "pos = 18 \<and> rd buffer 12 = Some 0x81 \<and> rd buffer 13 = Some 0 \<and> rd buffer 16 = Some 0x88 \<and> rd buffer 17 = Some lo \<or>
    pos = 14 \<and> rd buffer 12 = Some 0x88 \<and> rd buffer 13 = Some lo"
  using assms by (auto simp: l2_offset_def bind_eq_Some_conv simp del: rd_Some split: if_split_asm)

lemma goose_reading_address:
  assumes "in_stage GOOSE m" and "goose_reading m = Some (pass, msg)"
  shows "get_proto_type (mb_data m) 0 (mb_len m) = Some (BUS_PROTO_GOOSE, ucast (gp_appid pass))" and "gp_dstIP pass = 0"
proof -
  obtain st where p: "parse_goose_packet (mb_data m) (mb_len m) GoosePassport_init GooseState_init = Some (Some (Inr (pass, st)))"
    using assms(2) by (auto simp: goose_reading_def split: option.splits sum.splits)
  obtain pos appid where o: "l2_offset (mb_data m) 0xB8 = Some (Some pos)" "get_u16 (mb_data m) pos = Some appid"
    "goose_address pass = (appid, 0)"
    using p by (auto simp: parse_goose_packet_def and_then_def Let_def walk_start_def goose_walk_def GoosePassport_init_def
        split: if_split_asm option.split_asm prod.split_asm dest!: goose_walk_address)
  then show "gp_dstIP pass = 0" by simp
  show "get_proto_type (mb_data m) 0 (mb_len m) = Some (BUS_PROTO_GOOSE, ucast (gp_appid pass))"
    using l2_offset_cases [OF o(1)] o(2,3) by (elim disjE conjE) (simp_all add: get_proto_type_def get_appid_def del: rd_Some get_u16_Some)
qed

lemma sv_reading_address:
  assumes "in_stage SV m" and "sv_reading m = Some (pass, msg)"
  shows "get_proto_type (mb_data m) 0 (mb_len m) = Some (BUS_PROTO_SV, ucast (vp_appid pass))" and "vp_dstIP pass = 0"
proof -
  obtain st where p: "parse_sv_packet (mb_data m) (mb_len m) SVStreamPassport_init SVStreamState_init = Some (Some (Inr (pass, st)))"
    using assms(2) by (auto simp: sv_reading_def split: option.splits sum.splits)
  obtain pos appid where o: "l2_offset (mb_data m) 0xBA = Some (Some pos)" "get_u16 (mb_data m) pos = Some appid"
    "sv_address pass = (appid, 0)"
    using p by (auto simp: parse_sv_packet_def and_then_def Let_def SVStreamPassport_init_def
        split: if_split_asm option.split_asm dest!: sv_apdu_address)
  then show "vp_dstIP pass = 0" by simp
  show "get_proto_type (mb_data m) 0 (mb_len m) = Some (BUS_PROTO_SV, ucast (vp_appid pass))"
    using l2_offset_cases [OF o(1)] o(2,3) by (elim disjE conjE) (simp_all add: get_proto_type_def get_appid_def del: rd_Some get_u16_Some)
qed

subsection \<open>Streams that are reached from one place\<close>

text \<open>
  The contract behind the distribution: frames that find the same stream come from the same place (the same stage of the
  same worker). Then the order of frames from different places does not matter to any stream.
\<close>

locale owned_registry = registry lookup val modify
  for lookup :: "'c \<Rightarrow> 'k \<Rightarrow> nat option" and val :: "'c \<Rightarrow> nat \<Rightarrow> 'v" and modify :: "'c \<Rightarrow> nat \<Rightarrow> ('v \<Rightarrow> 'v) \<Rightarrow> 'c" +
  fixes msg :: "'f \<Rightarrow> ('k \<times> 'm) option" and place :: "'f \<Rightarrow> 'p" and sound :: "'f \<Rightarrow> bool"
  assumes same_place: "sound a \<Longrightarrow> sound b \<Longrightarrow> msg a = Some x \<Longrightarrow> msg b = Some y \<Longrightarrow>
    lookup c (fst x) = Some i \<Longrightarrow> lookup c (fst y) = Some i \<Longrightarrow> place a = place b"
begin

definition meant :: "'c \<Rightarrow> nat \<Rightarrow> 'f \<Rightarrow> bool" where
  "meant c i a \<longleftrightarrow> (\<exists>x. msg a = Some x \<and> lookup c (fst x) = Some i)"

lemma filter_messages: "filter (\<lambda>(k, m). lookup c k = Some i) (List.map_filter msg as) = List.map_filter msg (filter (meant c i) as)"
  by (induction as) (auto simp: map_filter_simps meant_def split: option.split)

lemma filter_meant:
  assumes "\<forall>p. filter (\<lambda>a. place a = p) as = filter (\<lambda>a. place a = p) bs" and "\<forall>a \<in> set as \<union> set bs. sound a"
  shows "filter (meant c i) as = filter (meant c i) bs"
proof (cases "\<exists>a0 \<in> set as \<union> set bs. meant c i a0")
  case True
  then obtain a0 where a0: "a0 \<in> set as \<union> set bs" "meant c i a0" by blast
  have "place a = place a0" if "a \<in> set as \<union> set bs" "meant c i a" for a
    using that a0 assms(2) same_place unfolding meant_def by blast
  then have "filter (meant c i) cs = filter (meant c i) (filter (\<lambda>a. place a = place a0) cs)" if "set cs \<subseteq> set as \<union> set bs" for cs
    using that by (auto intro: filter_cong)
  then show ?thesis using assms(1) by (metis Un_upper1 Un_upper2)
qed (auto simp: filter_empty_conv)

lemma order_of_places:
  assumes "\<forall>p. filter (\<lambda>a. place a = p) as = filter (\<lambda>a. place a = p) bs" and "\<forall>a \<in> set as \<union> set bs. sound a"
  shows "val (foldl (deliver f) c (List.map_filter msg as)) i = val (foldl (deliver f) c (List.map_filter msg bs)) i"
  by (simp add: val_deliver_all filter_messages filter_meant [OF assms])

end

subsection \<open>The place of a frame\<close>

definition stage_of :: "mbuf \<Rightarrow> EnumStages" where
  "stage_of m = (case get_proto_type (mb_data m) 0 (mb_len m) of None \<Rightarrow> IP | Some (type, appid) \<Rightarrow> route type)"

definition place :: "u32 \<Rightarrow> mbuf \<Rightarrow> EnumStages \<times> nat" where
  "place workerNum m = (stage_of m, rss_key workerNum m)"

text \<open>
  What the distribution relies on in routable frames: the UDP source port, by which the worker is chosen, is the APPID in the session
  PDU, and the destination address is a group's. The generator's frames have both.
\<close>

definition addressed :: "SecurityMode \<Rightarrow> Crypto \<Rightarrow> mbuf \<Rightarrow> bool" where
  "addressed mode crypto m \<longleftrightarrow>
     (stage_of m = R_GOOSE \<longrightarrow> (case r_goose_reading mode crypto m of None \<Rightarrow> True
        | Some (pass, _) \<Rightarrow> get_u16 (mb_data m) 34 = Some (gp_appid pass) \<and> gp_dstIP pass \<noteq> 0)) \<and>
     (stage_of m = R_SV \<longrightarrow> (case r_sv_reading mode crypto m of None \<Rightarrow> True
        | Some (pass, _) \<Rightarrow> get_u16 (mb_data m) 34 = Some (vp_appid pass) \<and> vp_dstIP pass \<noteq> 0))"

lemma in_stage_of: "in_stage s m \<Longrightarrow> stage_of m = s"
  by (auto simp: in_stage_def stage_of_def split: option.splits)

lemma stage_of_in: "classified m \<Longrightarrow> in_stage s m \<longleftrightarrow> stage_of m = s"
  by (auto simp: in_stage_def stage_of_def classified_def)

lemma routable_port:
  assumes "get_proto_type buffer a sz = Some (t, appid)" and "route t = R_GOOSE \<or> route t = R_SV" and "get_u16 buffer 34 = Some port"
  shows "appid = ucast port"
  using assms by (auto simp: get_proto_type_def bind_eq_Some_conv simp del: matches.simps get_u16_Some rd_Some split: if_split_asm)

lemma rss_key_of: "get_proto_type (mb_data m) 0 (mb_len m) = Some (t, a) \<Longrightarrow> rss_key n m = rss_index n a"
  by (simp add: rss_key_def)

text \<open>A frame that says something to a stream is at the place its address determines.\<close>

lemma goose_msg_place:
  assumes "addressed mode crypto m" and "goose_msg mode crypto m = Some (pass, msg)"
  shows "place n m = (if gp_dstIP pass = 0 then GOOSE else R_GOOSE, rss_index n (ucast (gp_appid pass)))"
proof (cases "in_stage GOOSE m")
  case True
  then show ?thesis using assms(2) goose_reading_address [OF True, of pass msg]
    by (simp add: goose_msg_def place_def in_stage_of rss_key_of)
next
  case False
  then have r: "in_stage R_GOOSE m" "r_goose_reading mode crypto m = Some (pass, msg)"
    using assms(2) by (auto simp: goose_msg_def split: if_split_asm)
  obtain t a where t: "get_proto_type (mb_data m) 0 (mb_len m) = Some (t, a)" "route t = R_GOOSE"
    using r(1) by (auto simp: in_stage_def split: option.splits)
  have "get_u16 (mb_data m) 34 = Some (gp_appid pass)" "gp_dstIP pass \<noteq> 0"
    using assms(1) r by (auto simp: addressed_def in_stage_of)
  then show ?thesis using routable_port [OF t(1)] t(2) r(1) by (simp add: place_def in_stage_of rss_key_of [OF t(1)])
qed

lemma sv_msg_place:
  assumes "addressed mode crypto m" and "sv_msg mode crypto m = Some (pass, msg)"
  shows "place n m = (if vp_dstIP pass = 0 then SV else R_SV, rss_index n (ucast (vp_appid pass)))"
proof (cases "in_stage SV m")
  case True
  then show ?thesis using assms(2) sv_reading_address [OF True, of pass msg]
    by (simp add: sv_msg_def place_def in_stage_of rss_key_of)
next
  case False
  then have r: "in_stage R_SV m" "r_sv_reading mode crypto m = Some (pass, msg)"
    using assms(2) by (auto simp: sv_msg_def split: if_split_asm)
  obtain t a where t: "get_proto_type (mb_data m) 0 (mb_len m) = Some (t, a)" "route t = R_SV"
    using r(1) by (auto simp: in_stage_def split: option.splits)
  have "get_u16 (mb_data m) 34 = Some (vp_appid pass)" "vp_dstIP pass \<noteq> 0"
    using assms(1) r by (auto simp: addressed_def in_stage_of)
  then show ?thesis using routable_port [OF t(1)] t(2) r(1) by (simp add: place_def in_stage_of rss_key_of [OF t(1)])
qed

lemma found_address:
  "goose_find c pass = Some i \<Longrightarrow> goose_find c pass' = Some i \<Longrightarrow> goose_address pass = goose_address pass'"
  "sv_find c' spass = Some i \<Longrightarrow> sv_find c' spass' = Some i \<Longrightarrow> sv_address spass = sv_address spass'"
  by (auto simp: container_find_def goose_eq_def sv_eq_def Let_def split: if_split_asm)

interpretation goose_owner: owned_registry goose_find "\<lambda>c i. snd (m_values c ! i)" container_modify
  "goose_msg mode crypto" "place n" "addressed mode crypto" for mode crypto n
proof unfold_locales
  fix a b x y c i
  assume "addressed mode crypto a" "addressed mode crypto b" "goose_msg mode crypto a = Some x" "goose_msg mode crypto b = Some y"
    "goose_find c (fst x) = Some i" "goose_find c (fst y) = Some i"
  then show "place n a = place n b"
    using found_address(1) [of c "fst x" i "fst y"] by (cases x; cases y) (simp add: goose_msg_place)
qed

interpretation sv_owner: owned_registry sv_find "\<lambda>c i. snd (m_values c ! i)" container_modify
  "sv_msg mode crypto" "place n" "addressed mode crypto" for mode crypto n
proof unfold_locales
  fix a b x y c i
  assume "addressed mode crypto a" "addressed mode crypto b" "sv_msg mode crypto a = Some x" "sv_msg mode crypto b = Some y"
    "sv_find c (fst x) = Some i" "sv_find c (fst y) = Some i"
  then show "place n a = place n b"
    using found_address(2) [of c "fst x" i "fst y"] by (cases x; cases y) (simp add: sv_msg_place)
qed

subsection \<open>Containers that agree on every stream\<close>

lemma modify_keys: "m_register (container_modify c i f) = m_register c" "map fst (m_values (container_modify c i f)) = map fst (m_values c)"
  by (simp_all add: container_modify_def map_update) (metis list_update_id map_update)

lemma deliver_keys:
  "m_register (foldl (goose_registry.deliver f) c msgs) = m_register c \<and>
    map fst (m_values (foldl (goose_registry.deliver f) c msgs)) = map fst (m_values c)"
  "m_register (foldl (sv_registry.deliver g) d smsgs) = m_register d \<and>
    map fst (m_values (foldl (sv_registry.deliver g) d smsgs)) = map fst (m_values d)"
proof -
  show "m_register (foldl (goose_registry.deliver f) c msgs) = m_register c \<and>
    map fst (m_values (foldl (goose_registry.deliver f) c msgs)) = map fst (m_values c)"
    by (induction msgs arbitrary: c) (simp_all add: goose_registry.deliver_def modify_keys split: option.split)
  show "m_register (foldl (sv_registry.deliver g) d smsgs) = m_register d \<and>
    map fst (m_values (foldl (sv_registry.deliver g) d smsgs)) = map fst (m_values d)"
    by (induction smsgs arbitrary: d) (simp_all add: sv_registry.deliver_def modify_keys split: option.split)
qed

lemma container_eqI:
  fixes c d :: "('k, 'v) AppIdContainer"
  assumes "m_register c = m_register d" and "map fst (m_values c) = map fst (m_values d)"
    and "\<And>i. snd (m_values c ! i) = snd (m_values d ! i)"
  shows "c = d"
proof -
  have "length (m_values c) = length (m_values d)" using assms(2) by (rule map_eq_imp_length_eq)
  moreover have "fst (m_values c ! i) = fst (m_values d ! i)" if "i < length (m_values c)" for i
    using that calculation assms(2) by (metis nth_map)
  ultimately have "m_values c = m_values d" using assms(3) by (auto intro!: nth_equalityI prod_eqI)
  with assms(1) show ?thesis by simp
qed

lemma streams_agree:
  assumes "\<forall>p. filter (\<lambda>m. place n m = p) as = filter (\<lambda>m. place n m = p) bs" and "\<forall>m \<in> set as \<union> set bs. addressed mode crypto m"
  shows "foldl (goose_registry.deliver goose_track) c (List.map_filter (goose_msg mode crypto) as) =
      foldl (goose_registry.deliver goose_track) c (List.map_filter (goose_msg mode crypto) bs)"
    and "foldl (sv_registry.deliver sv_track) d (List.map_filter (sv_msg mode crypto) as) =
      foldl (sv_registry.deliver sv_track) d (List.map_filter (sv_msg mode crypto) bs)"
  using goose_owner.order_of_places [OF assms] sv_owner.order_of_places [OF assms]
  by (auto intro!: container_eqI simp: deliver_keys)

subsection \<open>A run over frames\<close>

definition tally :: "Crypto \<Rightarrow> RX_Application \<Rightarrow> mbuf list \<Rightarrow> Counter \<Rightarrow> nat" where
  "tally crypto app ms c = length (filter (\<lambda>m. outcome crypto app m = c) ms)"

text \<open>An application after the frames \<open>ms\<close>, as far as its streams go.\<close>

definition streams_after :: "Crypto \<Rightarrow> RX_Application \<Rightarrow> mbuf list \<Rightarrow> RX_Application \<Rightarrow> bool" where
  "streams_after crypto app ms app' \<longleftrightarrow> m_rMode app' = m_rMode app \<and>
     m_gooseMap app' = foldl (goose_registry.deliver goose_track) (m_gooseMap app) (List.map_filter (goose_msg (m_rMode app) crypto) ms) \<and>
     m_svMap app' = foldl (sv_registry.deliver sv_track) (m_svMap app) (List.map_filter (sv_msg (m_rMode app) crypto) ms)"

lemma outcome_after:
  assumes "streams_after crypto app ms app'"
  shows "outcome crypto app' = outcome crypto app"
proof -
  have same: "m_rMode app' = m_rMode app" "goose_find (m_gooseMap app') = goose_find (m_gooseMap app)" "sv_find (m_svMap app') = sv_find (m_svMap app)"
    using assms by (auto simp only: fun_eq_iff streams_after_def goose_registry.lookup_deliver_all sv_registry.lookup_deliver_all)
  show ?thesis unfolding outcome_def same ..
qed

lemma streams_after_trans:
  "streams_after crypto app as a \<Longrightarrow> streams_after crypto a bs b \<Longrightarrow> streams_after crypto app (as @ bs) b"
  by (simp add: streams_after_def map_filter_def)

lemma store_sel [simp]:
  "m_rMode (store c v app) = m_rMode app" "m_gooseMap (store c v app) = m_gooseMap app" "m_svMap (store c v app) = m_svMap app"
  "m_errRingFullCnt (store c v app) = m_errRingFullCnt app" "load c' (store c v app) = (if c' = c then v else load c' app)"
  by (cases c; cases c'; simp)+

lemma with_streams_sel [simp]:
  "m_rMode (with_streams a app) = m_rMode app" "m_gooseMap (with_streams a app) = m_gooseMap a" "m_svMap (with_streams a app) = m_svMap a"
  "m_errRingFullCnt (with_streams a app) = m_errRingFullCnt app" "load c (with_streams a app) = load c app"
  by (cases c; simp add: with_streams_def)+

lemma handle_streams:
  assumes "handle crypto m app = Some (Some app')" and "bus_frame m"
  shows "streams_after crypto app [m] (with_streams app' app)" and "m_rMode app' = m_rMode app"
    and "load c app' = load c app + of_nat (tally crypto app [m] c)"
proof -
  note e = handle_effect [OF assms]
  show "m_rMode app' = m_rMode app" "load c app' = load c app + of_nat (tally crypto app [m] c)"
    by (subst e(1), simp add: tally_def)+
  show "streams_after crypto app [m] (with_streams app' app)"
    using e(2,3) by (simp add: streams_after_def map_filter_simps deliver_goose_def deliver_sv_def split: option.split)
qed

lemma tally_append: "tally crypto app (as @ bs) c = tally crypto app as c + tally crypto app bs c"
  by (simp add: tally_def)

lemma frames_run:
  assumes "for_each (handle crypto) ms app = Some (Some app')" and "\<forall>m \<in> set ms. bus_frame m"
  shows "streams_after crypto app ms app' \<and> (\<forall>c. load c app' = load c app + of_nat (tally crypto app ms c))"
  using assms
proof (induction ms arbitrary: app)
  case Nil
  then show ?case by (simp add: streams_after_def map_filter_simps tally_def)
next
  case (Cons m ms)
  obtain a where a: "handle crypto m app = Some (Some a)" "for_each (handle crypto) ms a = Some (Some app')"
    using Cons.prems(1) by (auto simp: and_then_eq_Some)
  have m: "bus_frame m" using Cons.prems(2) by simp
  have s: "streams_after crypto app [m] a"
    using handle_streams(1,2) [OF a(1) m] by (simp add: streams_after_def)
  have t: "tally crypto a ms = tally crypto app ms" by (simp add: fun_eq_iff tally_def outcome_after [OF s])
  from Cons.IH [OF a(2)] Cons.prems(2) streams_after_trans [OF s] handle_streams(3) [OF a(1) m] t
    tally_append [of crypto app "[m]" ms]
  show ?case by (simp add: add.assoc)
qed

subsection \<open>The single-core run, frame by frame\<close>

definition full_order :: "mbuf list \<Rightarrow> mbuf list" where
  "full_order bs = stage_order bs @ filter (in_stage IP) bs"

lemma set_stage_order: "m \<in> set (stage_order bs) \<Longrightarrow> m \<in> set bs \<and> bus_frame m"
  by (auto simp: stage_order_def bus_frame_def)

lemma set_full_order: "m \<in> set (full_order bs) \<Longrightarrow> m \<in> set bs"
  using set_stage_order by (auto simp: full_order_def)

lemma filter_in_stages:
  "filter (in_stage s) (filter (in_stage s') bs) = (if s = s' then filter (in_stage s) bs else [])"
  using in_stage_unique by (auto simp: filter_empty_conv)

lemma full_order_stage:
  assumes "\<forall>m \<in> set bs. classified m"
  shows "filter (\<lambda>m. place n m = p) (full_order bs) = filter (\<lambda>m. place n m = p) bs"
proof -
  obtain s w where p: "p = (s, w)" by (cases p)
  have f: "filter (\<lambda>m. place n m = p) ms = filter (\<lambda>m. rss_key n m = w) (filter (in_stage s) ms)" if "set ms \<subseteq> set bs" for ms
    using that assms stage_of_in by (auto simp: place_def p intro!: filter_cong)
  have "s = ROUTER \<Longrightarrow> filter (in_stage s) bs = []"
    using route_not_router by (auto simp: in_stage_def filter_empty_conv split: option.splits)
  then have "filter (in_stage s) (full_order bs) = filter (in_stage s) bs"
    by (cases s) (simp_all add: full_order_def stage_order_def filter_in_stages del: filter_filter)
  then show ?thesis using f [of "full_order bs"] f [of bs] set_full_order by auto
qed

lemma kernel_outcome:
  assumes "in_stage IP m"
  shows "outcome crypto app m = TO_KERNEL" "goose_msg mode crypto m = None" "sv_msg mode crypto m = None"
  using in_stage_unique [OF assms] by (auto simp: outcome_def goose_msg_def sv_msg_def)

lemma tally_kernel: "\<forall>m \<in> set ms. in_stage IP m \<Longrightarrow> tally crypto app ms c = (if c = TO_KERNEL then length ms else 0)"
  by (auto simp: tally_def kernel_outcome filter_empty_conv filter_id_conv)

lemma streams_kernel: "\<forall>m \<in> set ms. in_stage IP m \<Longrightarrow> streams_after crypto app ms app"
  using kernel_outcome(2,3) by (induction ms) (simp_all add: streams_after_def map_filter_simps)

lemma tally_place:
  assumes "\<forall>p. filter (\<lambda>m. place n m = p) as = filter (\<lambda>m. place n m = p) bs"
  shows "tally crypto app as c = tally crypto app bs c"
proof -
  have "count_list as m = count_list bs m" for m
  proof -
    have "filter ((=) m) xs = filter ((=) m) (filter (\<lambda>x. place n x = place n m) xs)" for xs
      by (auto intro!: filter_cong)
    then have "filter ((=) m) as = filter ((=) m) (filter (\<lambda>x. place n x = place n m) bs)" using assms by metis
    then have "filter ((=) m) as = filter ((=) m) bs" by (auto intro: filter_cong)
    then show ?thesis by (simp add: count_list_eq_length_filter)
  qed
  then have "mset as = mset bs" by (intro multiset_eqI) (simp add: count_mset)
  then show ?thesis unfolding tally_def by (metis mset_filter size_mset)
qed

lemma batch_run:
  assumes "batch crypto bs app = Some (Some app')"
  shows "streams_after crypto app (full_order bs) app' \<and> (\<forall>c. load c app' = load c app + of_nat (tally crypto app (full_order bs) c))"
proof -
  let ?k = "filter (in_stage IP) bs"
  obtain a where a: "for_each (handle crypto) (stage_order bs) app = Some (Some a)"
    "app' = store TO_KERNEL (load TO_KERNEL a + of_nat (length ?k)) a"
    using assms by (auto simp: batch_frames and_then_eq_Some)
  have r: "streams_after crypto app (stage_order bs) a" "load c a = load c app + of_nat (tally crypto app (stage_order bs) c)" for c
    using frames_run [OF a(1)] set_stage_order by blast+
  have "streams_after crypto app (full_order bs) a"
    unfolding full_order_def by (rule streams_after_trans [OF r(1) streams_kernel]) simp
  then show ?thesis using r(2) a(2) by (simp add: streams_after_def full_order_def tally_append tally_kernel del: store.simps load.simps)
qed

lemma single_core_run:
  assumes "single_core bursts app crypto = Some (Some app')" and "\<forall>bufs \<in> set bursts. burst_ok bufs"
  shows "streams_after crypto app (concat (map full_order bursts)) app' \<and>
    (\<forall>c. load c app' = load c app + of_nat (tally crypto app (concat (map full_order bursts)) c))"
proof -
  have "streams_after crypto (dm_app m) (concat (map full_order bursts)) (dm_app m') \<and> (\<forall>c. load c (dm_app m') =
      load c (dm_app m) + of_nat (tally crypto (dm_app m) (concat (map full_order bursts)) c))"
    if "for_each process_burst bursts m = Some (Some m')" "idle m" "dm_crypto m = crypto" for m m'
    using assms(2) that
  proof (induction bursts arbitrary: m)
    case Nil
    then show ?case by (simp add: streams_after_def map_filter_simps tally_def)
  next
    case (Cons bs bursts)
    obtain m1 where m1: "process_burst bs m = Some (Some m1)" "for_each process_burst bursts m1 = Some (Some m')"
      using Cons.prems(2) by (auto simp: and_then_eq_Some)
    have ok: "burst_ok bs" using Cons.prems(1) by simp
    note r = process_burst_run [OF Cons.prems(3) ok m1(1)]
    have b: "streams_after crypto (dm_app m) (full_order bs) (dm_app m1)"
      "load c (dm_app m1) = load c (dm_app m) + of_nat (tally crypto (dm_app m) (full_order bs) c)" for c
      using batch_run [OF r(3)] Cons.prems(4) by auto
    have t: "tally crypto (dm_app m1) ms = tally crypto (dm_app m) ms" for ms by (simp add: fun_eq_iff tally_def outcome_after [OF b(1)])
    from Cons.IH [OF _ m1(2) r(1)] Cons.prems(1,4) r(2) streams_after_trans [OF b(1)] b(2) t show ?case
      by (simp add: tally_append add.assoc)
  qed
  note run = this
  obtain m where m: "for_each process_burst bursts (DataMatrix_new (MarkRunStarted app) crypto) = Some (Some m)" "app' = dm_app m"
    using assms(1) by (auto simp: single_core_def and_then_eq_Some)
  have "load c (MarkRunStarted app) = load c app" for c by (cases c) (simp_all add: MarkRunStarted_def)
  moreover have "tally crypto (MarkRunStarted app) ms c = tally crypto app ms c" for ms c
    using outcome_after [of crypto app "[]" "MarkRunStarted app"] by (simp add: tally_def streams_after_def map_filter_simps MarkRunStarted_def)
  moreover have "streams_after crypto (MarkRunStarted app) ms a = streams_after crypto app ms a" for ms a
    by (simp add: streams_after_def MarkRunStarted_def)
  moreover have "dm_crypto (DataMatrix_new (MarkRunStarted app) crypto) = crypto" "dm_app (DataMatrix_new (MarkRunStarted app) crypto) = MarkRunStarted app"
    by (simp_all add: DataMatrix_new_def)
  ultimately show ?thesis using run [OF m(1) idle_new] m(2) by simp
qed

subsection \<open>No frame is lost between the threads\<close>

text \<open>
  \<open>hs\<close> were handled, worker \<open>w\<close> has \<open>held w\<close> ahead of it, \<open>ts\<close> were taken by the rings. Place by place, that is in the
  stages of a worker, the order of the rings is the order of handling.
\<close>

definition shares :: "u32 \<Rightarrow> mbuf list \<Rightarrow> (nat \<Rightarrow> mbuf list) \<Rightarrow> mbuf list \<Rightarrow> bool" where
  "shares n hs held ts \<longleftrightarrow> (\<forall>p. filter (\<lambda>m. place n m = p) (hs @ held (snd p)) = filter (\<lambda>m. place n m = p) ts)"

lemma place_other: "\<forall>m \<in> set xs. rss_key n m = w \<Longrightarrow> snd p \<noteq> w \<Longrightarrow> filter (\<lambda>m. place n m = p) xs = []"
  by (auto simp: place_def filter_empty_conv)

lemma shares_move:
  assumes "shares n hs held ts" and "held w = xs @ ys" and "\<forall>m \<in> set xs. rss_key n m = w"
  shows "shares n (hs @ xs) (held(w := ys)) ts"
  unfolding shares_def
proof
  fix p
  show "filter (\<lambda>m. place n m = p) ((hs @ xs) @ (held(w := ys)) (snd p)) = filter (\<lambda>m. place n m = p) ts"
    using assms(1) [unfolded shares_def, rule_format, of p] assms(2) place_other [OF assms(3), of p] by (cases "snd p = w") auto
qed

lemma shares_add:
  assumes "shares n hs held ts" and "\<forall>m \<in> set xs. rss_key n m = w"
  shows "shares n hs (held(w := held w @ xs)) (ts @ xs)"
  unfolding shares_def
proof
  fix p
  show "filter (\<lambda>m. place n m = p) (hs @ (held(w := held w @ xs)) (snd p)) = filter (\<lambda>m. place n m = p) (ts @ xs)"
    using assms(1) [unfolded shares_def, rule_format, of p] place_other [OF assms(2), of p] by (cases "snd p = w") auto
qed

lemma shares_reorder:
  assumes "shares n hs held ts" and "\<forall>p. filter (\<lambda>m. place n m = p) ys = filter (\<lambda>m. place n m = p) (held w)"
  shows "shares n hs (held(w := ys)) ts"
  using assms by (auto simp: shares_def)

primrec to_do :: "WorkerPhase \<Rightarrow> mbuf list" where
  "to_do (Working ms k) = ms @ (case k of None \<Rightarrow> [] | Some ips \<Rightarrow> ips)"
| "to_do (Storing c v ms k) = ms @ (case k of None \<Rightarrow> [] | Some ips \<Rightarrow> ips)"
| "to_do Gone = []"

primrec phase_ok :: "WorkerPhase \<Rightarrow> bool" where
  "phase_ok (Working ms k) = ((\<forall>m \<in> set ms. bus_frame m) \<and> (\<forall>ips. k = Some ips \<longrightarrow> (\<forall>m \<in> set ips. in_stage IP m)))"
| "phase_ok (Storing c v ms k) = ((\<forall>m \<in> set ms. bus_frame m) \<and> (\<forall>ips. k = Some ips \<longrightarrow> (\<forall>m \<in> set ips. in_stage IP m)))"
| "phase_ok Gone = True"

definition held_by :: "MultiCore \<Rightarrow> nat \<Rightarrow> mbuf list" where
  "held_by s w = (if w < length (mc_workers s) then to_do (mc_workers s ! w) @ rss_rings (mc_rss s) ! w else [])"

text \<open>The queues hold \<open>q\<close>; without a loss a worker's frames are those its ring took and those still queued.\<close>

definition queued :: "u32 \<Rightarrow> MultiCore \<Rightarrow> (nat \<Rightarrow> mbuf list) \<Rightarrow> bool" where
  "queued n s q \<longleftrightarrow> (\<forall>w < length (rss_queues (mc_rss s)). holds (rss_queues (mc_rss s) ! w) (q w)) \<and>
     (\<forall>w. \<forall>m \<in> set (q w). rss_key n m = w \<and> m \<in> set (mc_received s)) \<and>
     (case mc_main s of None \<Rightarrow> \<forall>w. q w = [] | Some i \<Rightarrow> \<forall>w < i. q w = []) \<and>
     (mc_lost s = 0 \<longrightarrow> (\<forall>w. filter (\<lambda>m. rss_key n m = w) (mc_received s) = filter (\<lambda>m. rss_key n m = w) (mc_taken s) @ q w))"

definition conserved :: "u32 \<Rightarrow> MultiCore \<Rightarrow> bool" where
  "conserved n s \<longleftrightarrow> length (mc_workers s) = unat n \<and> length (rss_rings (mc_rss s)) = unat n \<and> length (rss_queues (mc_rss s)) = RTE_MAX_LCORE \<and>
     (\<forall>m \<in> set (mc_received s). buffer_ok m) \<and> set (mc_taken s) \<subseteq> set (mc_received s) \<and> set (mc_handled s) \<subseteq> set (mc_received s) \<and>
     (\<forall>w. \<forall>m \<in> set (held_by s w). rss_key n m = w \<and> m \<in> set (mc_received s)) \<and> (\<forall>phase \<in> set (mc_workers s). phase_ok phase) \<and>
     shares n (mc_handled s) (held_by s) (mc_taken s) \<and> (\<exists>q. queued n s q)"

lemma held_by_update:
  assumes "worker_at s w phase" and "length (rss_rings (mc_rss s)) = length (mc_workers s)"
  shows "held_by s w = to_do phase @ rss_rings (mc_rss s) ! w"
    and "held_by (set_worker w phase' s) = (held_by s)(w := to_do phase' @ rss_rings (mc_rss s) ! w)"
    and "held_by (set_ring w ring (set_worker w phase' s)) = (held_by s)(w := to_do phase' @ ring)"
  using assms by (auto simp: held_by_def worker_at_def set_worker_def set_ring_def fun_eq_iff nth_list_update)

lemma held_by_other [simp]: "held_by (set_app a s) = held_by s" "held_by (s\<lparr> mc_handled := hs \<rparr>) = held_by s"
  "held_by (s\<lparr> mc_main := i \<rparr>) = held_by s" "held_by (s\<lparr> mc_doWork := b \<rparr>) = held_by s"
  by (simp_all add: held_by_def set_app_def fun_eq_iff)

text \<open>A worker moves \<open>xs\<close> from the frames ahead of it to those handled, and may put the others into another order of places.\<close>

lemma conserved_worker:
  assumes "conserved n s" and "held_by s w = xs @ ys"
    and "\<forall>p. filter (\<lambda>m. place n m = p) ys' = filter (\<lambda>m. place n m = p) ys" and "set ys' \<subseteq> set ys" and "phase_ok phase"
    and "mc_workers s' = (mc_workers s)[w := phase]" and "held_by s' = (held_by s)(w := ys')" and "mc_handled s' = mc_handled s @ xs"
    and "length (rss_rings (mc_rss s')) = length (rss_rings (mc_rss s))" and "rss_queues (mc_rss s') = rss_queues (mc_rss s)"
    and "mc_main s' = mc_main s" "mc_received s' = mc_received s" "mc_taken s' = mc_taken s" "mc_lost s' = mc_lost s"
  shows "conserved n s'"
proof -
  note c = assms(1) [unfolded conserved_def]
  have keys: "\<forall>m \<in> set (xs @ ys). rss_key n m = w \<and> m \<in> set (mc_received s)" using c assms(2) by metis
  have "shares n (mc_handled s @ xs) ((held_by s)(w := ys)) (mc_taken s)" 
    using shares_move [where held = "held_by s" and w = w] c keys assms(2) by auto
  from shares_reorder [OF this, of ys' w] assms(3) have sh: "shares n (mc_handled s') (held_by s') (mc_taken s')"
    by (simp add: assms(7,8,13))
  have "queued n s' q \<longleftrightarrow> queued n s q" for q unfolding queued_def assms(10-14) ..
  then have q: "\<exists>q. queued n s' q" using c by simp
  have ok: "\<forall>phase \<in> set (mc_workers s'). phase_ok phase" unfolding assms(6)
    using c assms(5) set_update_subset_insert [of "mc_workers s" w phase] by blast
  have "\<forall>v. \<forall>m \<in> set (held_by s' v). rss_key n m = v \<and> m \<in> set (mc_received s')"
    using c keys assms(4) by (auto simp: assms(7,12))
  moreover have "set xs \<subseteq> set (mc_received s)" using keys by auto
  ultimately show ?thesis using c sh q ok unfolding conserved_def by (simp add: assms(6,8,9,10,12,13))
qed

lemma phase_of: "conserved n s \<Longrightarrow> worker_at s w phase \<Longrightarrow> phase_ok phase"
  by (auto simp: conserved_def worker_at_def)

lemma set_simps [simp]:
  "mc_workers (set_app a s) = mc_workers s" "mc_workers (set_ring w r s) = mc_workers s" "mc_workers (set_worker w phase s) = (mc_workers s)[w := phase]"
  "mc_rss (set_worker w phase s) = mc_rss s" "mc_rss (set_app a s) = (mc_rss s)\<lparr> rss_app := a \<rparr>"
  "mc_rss (set_ring w r s) = (mc_rss s)\<lparr> rss_rings := (rss_rings (mc_rss s))[w := r] \<rparr>"
  "mc_main (set_app a s) = mc_main s" "mc_main (set_ring w r s) = mc_main s" "mc_main (set_worker w phase s) = mc_main s"
  "mc_received (set_app a s) = mc_received s" "mc_received (set_ring w r s) = mc_received s" "mc_received (set_worker w phase s) = mc_received s"
  "mc_taken (set_app a s) = mc_taken s" "mc_taken (set_ring w r s) = mc_taken s" "mc_taken (set_worker w phase s) = mc_taken s"
  "mc_lost (set_app a s) = mc_lost s" "mc_lost (set_ring w r s) = mc_lost s" "mc_lost (set_worker w phase s) = mc_lost s"
  "mc_handled (set_app a s) = mc_handled s" "mc_handled (set_ring w r s) = mc_handled s" "mc_handled (set_worker w phase s) = mc_handled s"
  by (simp_all add: set_app_def set_ring_def set_worker_def)

lemma conserved_poll:
  assumes c: "conserved n s" and w: "worker_at s w (Working [] None)" and r: "rss_rings (mc_rss s) ! w = bs @ rest"
  shows "conserved n (set_ring w rest (set_worker w (Working (stage_order bs) (Some (filter (in_stage IP) bs))) s))"
proof (rule conserved_worker [OF c, of w "[]" "bs @ rest" "full_order bs @ rest" "Working (stage_order bs) (Some (filter (in_stage IP) bs))"])
  have l: "length (rss_rings (mc_rss s)) = length (mc_workers s)" using c by (simp add: conserved_def)
  show h: "held_by s w = [] @ bs @ rest" using held_by_update(1) [OF w l] r by simp
  have "\<forall>m \<in> set bs. buffer_ok m" using c h unfolding conserved_def by (metis Un_iff append_Nil set_append)
  then have "\<forall>m \<in> set bs. classified m" using buffer_classified by blast
  from full_order_stage [OF this] show "\<forall>p. filter (\<lambda>m. place n m = p) (full_order bs @ rest) = filter (\<lambda>m. place n m = p) (bs @ rest)" by simp
  show "held_by (set_ring w rest (set_worker w (Working (stage_order bs) (Some (filter (in_stage IP) bs))) s)) =
      (held_by s)(w := full_order bs @ rest)"
    unfolding held_by_update(3) [OF w l] by (simp add: full_order_def)
  show "set (full_order bs @ rest) \<subseteq> set (bs @ rest)" using set_full_order by auto
  show "phase_ok (Working (stage_order bs) (Some (filter (in_stage IP) bs)))" using set_stage_order by simp
qed simp_all

lemma conserved_handle:
  assumes c: "conserved n s" and w: "worker_at s w (Working (m # ms) k)"
  shows "conserved n ((set_app a (set_worker w (Storing d v ms k) s))\<lparr> mc_handled := mc_handled s @ [m] \<rparr>)"
proof -
  have l: "length (rss_rings (mc_rss s)) = length (mc_workers s)" using c by (simp add: conserved_def)
  let ?ys = "to_do (Working ms k) @ rss_rings (mc_rss s) ! w"
  have "held_by s w = [m] @ ?ys" using held_by_update(1) [OF w l] by simp
  then show ?thesis
    by (rule conserved_worker [OF c, of w _ ?ys ?ys "Storing d v ms k"])
      (use phase_of [OF c w] held_by_update(2) [OF w l] in simp_all)
qed

lemma conserved_kernel:
  assumes c: "conserved n s" and w: "worker_at s w (Working [] (Some ips))"
  shows "conserved n ((set_worker w (Storing d v [] None) s)\<lparr> mc_handled := mc_handled s @ ips \<rparr>)"
proof -
  have l: "length (rss_rings (mc_rss s)) = length (mc_workers s)" using c by (simp add: conserved_def)
  let ?ys = "rss_rings (mc_rss s) ! w"
  have "held_by s w = ips @ ?ys" using held_by_update(1) [OF w l] by simp
  then show ?thesis
    by (rule conserved_worker [OF c, of w _ ?ys ?ys "Storing d v [] None"]) (use held_by_update(2) [OF w l] in simp_all)
qed

lemma conserved_same:
  assumes c: "conserved n s" and w: "worker_at s w phase" and "to_do phase' = to_do phase" and "phase_ok phase'"
  shows "conserved n (set_worker w phase' s)" "conserved n (set_app a (set_worker w phase' s))"
proof -
  have l: "length (rss_rings (mc_rss s)) = length (mc_workers s)" using c by (simp add: conserved_def)
  let ?ys = "to_do phase @ rss_rings (mc_rss s) ! w"
  have h: "held_by s w = [] @ ?ys" using held_by_update(1) [OF w l] by simp
  show "conserved n (set_worker w phase' s)" "conserved n (set_app a (set_worker w phase' s))"
    by (rule conserved_worker [OF c h, of ?ys phase'], use assms(3,4) held_by_update(2) [OF w l] in simp_all)+
qed

lemma conserved_receive:
  assumes c: "conserved n s" and n: "n \<noteq> 0" "unat n \<le> RTE_MAX_LCORE" and "mc_main s = None" and ok: "burst_ok bs"
    and put: "for_each (rss_put n) bs (rss_queues (mc_rss s)) = Some (Some queues)"
  shows "conserved n (s\<lparr> mc_rss := (mc_rss s)\<lparr> rss_queues := queues \<rparr>, mc_main := Some 0, mc_received := mc_received s @ bs \<rparr>)"
    (is "conserved n ?s")
proof -
  let ?q = "\<lambda>w. filter (\<lambda>m. rss_key n m = w) bs"
  note inv = c [unfolded conserved_def]
  obtain q where q: "queued n s q" using inv by blast
  have nil: "q w = []" for w using q assms(4) by (simp add: queued_def)
  have cl: "\<forall>m \<in> set bs. classified m" "length bs \<le> RX_BURST_SIZE" using ok buffer_classified by (auto simp: burst_ok_def)
  have len: "length (rss_queues (mc_rss s)) = RTE_MAX_LCORE" using inv by simp
  have empty: "\<forall>w < length (rss_queues (mc_rss s)). holds (rss_queues (mc_rss s) ! w) []" using q nil by (simp add: queued_def)
  have qs: "length queues = RTE_MAX_LCORE" "\<forall>w < RTE_MAX_LCORE. holds (queues ! w) (?q w)"
    using rss_put_all [OF cl(1) n(1), of "rss_queues (mc_rss s)" "\<lambda>_. []"] empty cl(2) put n(2) len by auto
  have "queued n ?s ?q" using q qs by (auto simp: queued_def nil)
  moreover have "held_by ?s = held_by s" by (simp add: held_by_def fun_eq_iff)
  ultimately have "\<exists>q. queued n ?s q" "\<forall>w. \<forall>m \<in> set (held_by ?s w). rss_key n m = w \<and> m \<in> set (mc_received ?s)"
    "shares n (mc_handled ?s) (held_by ?s) (mc_taken ?s)" using inv by auto
  moreover have "\<forall>m \<in> set (mc_received ?s). buffer_ok m" using inv ok by (auto simp: burst_ok_def)
  ultimately show ?thesis using inv qs(1) unfolding conserved_def by auto
qed

lemma conserved_flush:
  assumes c: "conserved n s" and n: "unat n \<le> RTE_MAX_LCORE" and i: "mc_main s = Some i" "i < unat n"
    and ring: "ring_contract enqueue (\<lambda>r. r)" and flush: "rss_flush enqueue i (mc_rss s) = Some (Some rss)"
    and new: "new = drop (length (rss_rings (mc_rss s) ! i)) (rss_rings rss ! i)"
  shows "conserved n (s\<lparr> mc_rss := rss, mc_main := Some (Suc i), mc_taken := mc_taken s @ new,
      mc_lost := mc_lost s + (fr_num (rss_queues (mc_rss s) ! i) - length new) \<rparr>)" (is "conserved n ?s")
    and "\<exists>lost. rss_app rss = (mc_app s)\<lparr> m_errRingFullCnt := m_errRingFullCnt (mc_app s) + of_nat lost \<rparr> \<and>
      lost = fr_num (rss_queues (mc_rss s) ! i) - length new"
proof -
  note inv = c [unfolded conserved_def]
  obtain q where q: "queued n s q" using inv by blast
  have len: "i < length (rss_queues (mc_rss s))" "i < length (rss_rings (mc_rss s))" using inv i(2) n by auto
  have h: "holds (rss_queues (mc_rss s) ! i) (q i)" using q len(1) by (simp add: queued_def)
  obtain k r f where f: "k \<le> length (q i)" "r = rss_rings (mc_rss s) ! i @ take k (q i)" "holds f []"
    "rss = (mc_rss s)\<lparr> rss_rings := (rss_rings (mc_rss s))[i := r], rss_queues := (rss_queues (mc_rss s))[i := f],
      rss_app := (mc_app s)\<lparr> m_errRingFullCnt := m_errRingFullCnt (mc_app s) + of_nat (length (q i) - k) \<rparr> \<rparr>"
    using rss_flush_one [OF ring len h] flush by auto
  have nw: "new = take k (q i)" using new f(2,4) len(2) by simp
  have num: "fr_num (rss_queues (mc_rss s) ! i) = length (q i)" using h by (simp add: holds_def)
  show "\<exists>lost. rss_app rss = (mc_app s)\<lparr> m_errRingFullCnt := m_errRingFullCnt (mc_app s) + of_nat lost \<rparr> \<and>
      lost = fr_num (rss_queues (mc_rss s) ! i) - length new" using f(1,4) nw num by (intro exI [of _ "length (q i) - k"]) simp
  have keys: "\<forall>m \<in> set new. rss_key n m = i \<and> m \<in> set (mc_received s)"
    using q in_set_takeD unfolding nw queued_def by metis
  have held: "held_by ?s = (held_by s)(i := held_by s i @ new)"
    using inv i(2) f(2,4) nw by (auto simp: held_by_def fun_eq_iff nth_list_update)
  have sh: "shares n (mc_handled s) (held_by ?s) (mc_taken s @ new)"
    unfolding held using inv keys by (intro shares_add) auto
  have "queued n ?s (q(i := []))"
    unfolding queued_def
  proof (intro conjI allI impI ballI)
    fix w assume "w < length (rss_queues (mc_rss ?s))"
    then show "holds (rss_queues (mc_rss ?s) ! w) ((q(i := [])) w)" using q f(3,4) by (auto simp: queued_def nth_list_update)
  next
    fix w m assume "m \<in> set ((q(i := [])) w)"
    then show "rss_key n m = w" "m \<in> set (mc_received ?s)" using q by (auto simp: queued_def split: if_split_asm)
  next
    show "case mc_main ?s of None \<Rightarrow> \<forall>w. (q(i := [])) w = [] | Some i' \<Rightarrow> \<forall>w < i'. (q(i := [])) w = []"
      using q i(1) by (auto simp: queued_def less_Suc_eq)
  next
    fix w assume lost: "mc_lost ?s = 0"
    then have "k = length (q i)" using f(1) nw num by simp
    then have "new = q i" by (simp add: nw)
    moreover have "mc_lost s = 0" using lost by simp
    then have "filter (\<lambda>m. rss_key n m = w) (mc_received s) = filter (\<lambda>m. rss_key n m = w) (mc_taken s) @ q w"
      using q unfolding queued_def by blast
    moreover have "filter (\<lambda>m. rss_key n m = w) new = (if w = i then new else [])" using keys by (auto simp: filter_id_conv filter_empty_conv)
    ultimately show "filter (\<lambda>m. rss_key n m = w) (mc_received ?s) = filter (\<lambda>m. rss_key n m = w) (mc_taken ?s) @ (q(i := [])) w" by simp
  qed
  moreover have "\<forall>w. \<forall>m \<in> set (held_by ?s w). rss_key n m = w \<and> m \<in> set (mc_received s)"
    unfolding held using inv keys by (auto split: if_split_asm)
  moreover have "set new \<subseteq> set (mc_received s)" using keys by blast
  ultimately show "conserved n ?s" using inv sh f(4) unfolding conserved_def by auto
qed

lemma conserved_main: "conserved n s \<Longrightarrow> mc_main s = Some (unat n) \<Longrightarrow> n \<noteq> 0 \<Longrightarrow> conserved n (s\<lparr> mc_main := None \<rparr>)"
proof -
  assume c: "conserved n s" and m: "mc_main s = Some (unat n)" and n: "n \<noteq> 0"
  obtain q where q: "queued n s q" using c by (auto simp: conserved_def)
  have "q w = []" for w
  proof (cases "w < unat n")
    case False
    have "m \<notin> set (q w)" for m using q False rss_key_less [OF n, of m] by (auto simp: queued_def)
    then show ?thesis by (cases "q w") auto
  qed (use q m in \<open>simp add: queued_def\<close>)
  then have "queued n (s\<lparr> mc_main := None \<rparr>) q" using q by (simp add: queued_def)
  then show ?thesis using c by (auto simp: conserved_def)
qed

lemma conserved_stop: "conserved n s \<Longrightarrow> conserved n (s\<lparr> mc_doWork := b \<rparr>)"
proof -
  have "queued n (s\<lparr> mc_doWork := b \<rparr>) q = queued n s q" for q by (simp add: queued_def)
  then show "conserved n s \<Longrightarrow> conserved n (s\<lparr> mc_doWork := b \<rparr>)" by (simp add: conserved_def)
qed

lemma conserved_step:
  assumes "mc_step n crypto s s'" and "conserved n s" and "n \<noteq> 0" and "unat n \<le> RTE_MAX_LCORE"
  shows "conserved n s'"
  using assms(1)
proof cases
  case signal
  then show ?thesis using conserved_stop [OF assms(2)] by simp
next
  case (receive bs queues)
  show ?thesis unfolding receive(1) by (rule conserved_receive [OF assms(2-4) receive(2,5,6)])
next
  case (flush i enqueue rss new)
  show ?thesis unfolding flush(1) by (rule conserved_flush(1) [OF assms(2,4) flush(2-6)])
next
  case flushed
  then show ?thesis using conserved_main [OF assms(2)] assms(3) by simp
next
  case (poll w bs rest)
  show ?thesis unfolding poll(1) by (rule conserved_poll [OF assms(2) poll(2,4)])
next
  case (handle w m ms k app c)
  show ?thesis unfolding handle(1) by (rule conserved_handle [OF assms(2) handle(2)])
next
  case (kernel w ips)
  show ?thesis unfolding kernel(1) by (rule conserved_kernel [OF assms(2) kernel(2)])
next
  case (store w c v ms k)
  then show ?thesis using conserved_same(2) [OF assms(2) store(2), of "Working ms k"] phase_of [OF assms(2) store(2)] by simp
next
  case (leave w)
  then show ?thesis using conserved_same(1) [OF assms(2) leave(2), of Gone] by simp
qed

subsection \<open>Streams are exact, counters are bounded\<close>

definition limit :: "Crypto \<Rightarrow> RX_Application \<Rightarrow> mbuf list \<Rightarrow> Counter \<Rightarrow> nat" where
  "limit crypto app ms c = unat (load c app) + tally crypto app ms c"

definition tracked :: "Crypto \<Rightarrow> RX_Application \<Rightarrow> MultiCore \<Rightarrow> bool" where
  "tracked crypto app s \<longleftrightarrow> streams_after crypto app (mc_handled s) (mc_app s) \<and>
     (\<forall>c. unat (load c (mc_app s)) \<le> limit crypto app (mc_handled s) c) \<and>
     (\<forall>w c v ms k. worker_at s w (Storing c v ms k) \<longrightarrow> unat v \<le> limit crypto app (mc_handled s) c) \<and>
     m_errRingFullCnt (mc_app s) = m_errRingFullCnt app + of_nat (mc_lost s)"

lemma tracked_storing: "tracked crypto app s \<Longrightarrow> worker_at s w (Storing c v ms k) \<Longrightarrow> unat v \<le> limit crypto app (mc_handled s) c"
  unfolding tracked_def by blast

lemma limit_append: "limit crypto app (as @ bs) c = limit crypto app as c + tally crypto app bs c"
  by (simp add: limit_def tally_append)

lemma unat_add_le: "unat (x + y :: u64) \<le> unat x + unat y"
  by (simp add: unat_word_ariths)

lemma unat_of_nat_le: "unat (of_nat k :: u64) \<le> k"
  by (simp add: unsigned_of_nat take_bit_nat_def)

lemma worker_at_set:
  "worker_at (set_worker w phase s) v phase' \<longleftrightarrow> (if v = w then w < length (mc_workers s) \<and> phase = phase' else worker_at s v phase')"
  by (auto simp: worker_at_def nth_list_update)

lemma worker_at_other [simp]:
  "worker_at (set_app a s) w phase = worker_at s w phase" "worker_at (set_ring v r s) w phase = worker_at s w phase"
  "worker_at (s\<lparr> mc_handled := hs \<rparr>) w phase = worker_at s w phase"
  by (simp_all add: worker_at_def)

text \<open>A worker has handled \<open>xs\<close> and is about to store \<open>v\<close>.\<close>

lemma tracked_load:
  assumes t: "tracked crypto app s" and "streams_after crypto app (mc_handled s @ xs) a" and "\<forall>c. load c a = load c (mc_app s)"
    and "m_errRingFullCnt a = m_errRingFullCnt (mc_app s)" and v: "unat v \<le> limit crypto app (mc_handled s @ xs) c"
  shows "tracked crypto app ((set_app a (set_worker w (Storing c v ms k) s))\<lparr> mc_handled := mc_handled s @ xs \<rparr>)"
proof -
  have more: "x \<le> limit crypto app (mc_handled s @ xs) d" if "x \<le> limit crypto app (mc_handled s) d" for x d
    using that by (simp add: limit_append)
  have "unat (load d a) \<le> limit crypto app (mc_handled s @ xs) d" for d using t more assms(3) by (simp add: tracked_def)
  moreover have "unat u \<le> limit crypto app (mc_handled s @ xs) d" if "worker_at (set_worker w (Storing c v ms k) s) x (Storing d u ms' k')" for x d u ms' k'
    using that v more tracked_storing [OF t] unfolding worker_at_set by (auto split: if_split_asm)
  ultimately show ?thesis using t assms(2,4) unfolding tracked_def by simp
qed

lemma tracked_handle:
  assumes t: "tracked crypto app s" and b: "bus_frame m" and h: "handle crypto m (mc_app s) = Some (Some a)"
    and c: "c = outcome crypto (mc_app s) m"
  shows "tracked crypto app ((set_app (with_streams a (mc_app s)) (set_worker w (Storing c (load c (mc_app s) + 1) ms k) s))
      \<lparr> mc_handled := mc_handled s @ [m] \<rparr>)"
proof (rule tracked_load [OF t])
  have st: "streams_after crypto app (mc_handled s) (mc_app s)" using t by (simp add: tracked_def)
  show "streams_after crypto app (mc_handled s @ [m]) (with_streams a (mc_app s))"
    by (rule streams_after_trans [OF st handle_streams(1) [OF h b]])
  have "tally crypto app [m] c = 1" by (simp add: tally_def c outcome_after [OF st])
  moreover have "unat (load c (mc_app s)) \<le> limit crypto app (mc_handled s) c" using t unfolding tracked_def by blast
  ultimately show "unat (load c (mc_app s) + 1) \<le> limit crypto app (mc_handled s @ [m]) c"
    using unat_add_le [of "load c (mc_app s)" 1] by (simp add: limit_append)
qed simp_all

lemma tracked_kernel:
  assumes t: "tracked crypto app s" and ip: "\<forall>m \<in> set ips. in_stage IP m"
  shows "tracked crypto app ((set_worker w (Storing TO_KERNEL (load TO_KERNEL (mc_app s) + of_nat (length ips)) [] None) s)
      \<lparr> mc_handled := mc_handled s @ ips \<rparr>)"
proof -
  have st: "streams_after crypto app (mc_handled s) (mc_app s)" using t by (simp add: tracked_def)
  have "unat (load TO_KERNEL (mc_app s)) \<le> limit crypto app (mc_handled s) TO_KERNEL" using t unfolding tracked_def by blast
  then have v: "unat (load TO_KERNEL (mc_app s) + of_nat (length ips)) \<le> limit crypto app (mc_handled s @ ips) TO_KERNEL"
    using unat_add_le [of "load TO_KERNEL (mc_app s)" "of_nat (length ips)"] unat_of_nat_le [of "length ips"]
      tally_kernel [OF ip, of crypto app TO_KERNEL]
    by (simp add: limit_append del: load.simps)
  have "set_app (mc_app s) (set_worker w phase s) = set_worker w phase s" for phase by (simp add: set_app_def set_worker_def)
  then show ?thesis using tracked_load [OF t streams_after_trans [OF st streams_kernel [OF ip]] _ _ v, of w "[]" None] by (simp del: load.simps)
qed

lemma tracked_store:
  assumes t: "tracked crypto app s" and w: "worker_at s w (Storing c v ms k)"
  shows "tracked crypto app (set_app (store c v (mc_app s)) (set_worker w (Working ms k) s))"
proof -
  have "unat v \<le> limit crypto app (mc_handled s) c" by (rule tracked_storing [OF t w])
  moreover have "unat u \<le> limit crypto app (mc_handled s) d" if "worker_at (set_worker w (Working ms k) s) x (Storing d u ms' k')" for x d u ms' k'
    using that tracked_storing [OF t] unfolding worker_at_set by (auto split: if_split_asm)
  moreover have "streams_after crypto app (mc_handled s) (store c v (mc_app s))" using t by (simp add: tracked_def streams_after_def)
  ultimately show ?thesis using t unfolding tracked_def by simp
qed

lemma tracked_step:
  assumes "mc_step n crypto s s'" and "conserved n s" and "unat n \<le> RTE_MAX_LCORE" and "tracked crypto app s"
  shows "tracked crypto app s'"
  using assms(1)
proof cases
  case (flush i enqueue rss new)
  obtain lost where l: "rss_app rss = (mc_app s)\<lparr> m_errRingFullCnt := m_errRingFullCnt (mc_app s) + of_nat lost \<rparr>"
    "lost = fr_num (rss_queues (mc_rss s) ! i) - length new"
    using conserved_flush(2) [OF assms(2,3) flush(2-6)] by blast
  have "load c (rss_app rss) = load c (mc_app s)" for c by (cases c) (simp_all add: l(1))
  then show ?thesis using assms(4) flush(1) l by (simp add: tracked_def worker_at_def streams_after_def add.assoc del: load.simps)
next
  case (poll w bs rest)
  have "unat v \<le> limit crypto app (mc_handled s) c" if "worker_at s' x (Storing c v ms k)" for x c v ms k
    using that tracked_storing [OF assms(4)] unfolding poll(1) worker_at_other worker_at_set by (auto split: if_split_asm)
  then show ?thesis using assms(4) unfolding tracked_def by (simp add: poll(1))
next
  case (leave w)
  have "unat v \<le> limit crypto app (mc_handled s) c" if "worker_at s' x (Storing c v ms k)" for x c v ms k
    using that tracked_storing [OF assms(4)] unfolding leave(1) worker_at_set by (auto split: if_split_asm)
  then show ?thesis using assms(4) unfolding tracked_def by (simp add: leave(1))
next
  case (handle w m ms k a c)
  show ?thesis unfolding handle(1)
    by (rule tracked_handle [OF assms(4) _ handle(3,4)]) (use phase_of [OF assms(2) handle(2)] in simp)
next
  case (kernel w ips)
  show ?thesis unfolding kernel(1)
    by (rule tracked_kernel [OF assms(4)]) (use phase_of [OF assms(2) kernel(2)] in simp)
next
  case (store w c v ms k)
  show ?thesis unfolding store(1) by (rule tracked_store [OF assms(4) store(2)])
qed (use assms(4) in \<open>simp_all add: tracked_def worker_at_def\<close>)

lemma start_inv:
  assumes "n \<noteq> 0"
  shows "conserved n (mc_start n app)" "tracked crypto app (mc_start n app)"
proof -
  have "queued n (mc_start n app) (\<lambda>_. [])" by (auto simp: queued_def mc_start_def holds_init)
  moreover have "held_by (mc_start n app) w = []" for w by (simp add: held_by_def mc_start_def)
  ultimately show "conserved n (mc_start n app)" by (auto simp: conserved_def shares_def mc_start_def)
  have "load c (MarkRunStarted app) = load c app" for c by (cases c) (simp_all add: MarkRunStarted_def)
  then show "tracked crypto app (mc_start n app)"
    by (auto simp: tracked_def mc_start_def streams_after_def map_filter_simps worker_at_def MarkRunStarted_def limit_def simp del: load.simps)
qed

lemma run_inv:
  assumes "mc_run n crypto (mc_start n app) s" and "n \<noteq> 0" and "unat n \<le> RTE_MAX_LCORE"
  shows "conserved n s \<and> tracked crypto app s"
  using assms(1)
proof (induction "mc_start n app" s rule: mc_run.induct)
  case start
  then show ?case using start_inv [OF assms(2)] by blast
next
  case (step s' s'')
  then show ?case using conserved_step [OF step.hyps(3) _ assms(2,3)] tracked_step [OF step.hyps(3) _ assms(3)] by blast
qed

subsection \<open>The threads can always finish\<close>

lemma mc_run_trans: "mc_run n crypto t u \<Longrightarrow> mc_run n crypto s t \<Longrightarrow> mc_run n crypto s u"
  by (induction rule: mc_run.induct) (auto intro: mc_run.step)

text \<open>Everything but worker \<open>w\<close>, its ring and the application is as before.\<close>

definition else_same :: "nat \<Rightarrow> MultiCore \<Rightarrow> MultiCore \<Rightarrow> bool" where
  "else_same w s s' \<longleftrightarrow> length (mc_workers s') = length (mc_workers s) \<and> length (rss_rings (mc_rss s')) = length (rss_rings (mc_rss s)) \<and>
     (\<forall>v. v \<noteq> w \<longrightarrow> mc_workers s' ! v = mc_workers s ! v \<and> rss_rings (mc_rss s') ! v = rss_rings (mc_rss s) ! v) \<and>
     mc_main s' = mc_main s \<and> mc_doWork s' = mc_doWork s \<and> mc_received s' = mc_received s \<and> mc_lost s' = mc_lost s"

lemma else_same_trans: "else_same w s t \<Longrightarrow> else_same w t u \<Longrightarrow> else_same w s u"
  by (simp add: else_same_def)

text \<open>A frame whose handling returns, whatever the application is.\<close>

definition returns :: "Crypto \<Rightarrow> mbuf \<Rightarrow> bool" where
  "returns crypto m \<longleftrightarrow> (\<forall>app. \<exists>app'. handle crypto m app = Some (Some app'))"

lemma burst_finishes:
  assumes "worker_at s w (Working ms k)" and "\<forall>m \<in> set ms. returns crypto m"
  shows "\<exists>s'. mc_run n crypto s s' \<and> worker_at s' w (Working [] None) \<and> else_same w s s' \<and> rss_rings (mc_rss s') ! w = rss_rings (mc_rss s) ! w"
  using assms
proof (induction ms arbitrary: s)
  case Nil
  show ?case
  proof (cases k)
    case None
    then show ?thesis using Nil by (intro exI [of _ s]) (auto simp: else_same_def intro: mc_run.start)
  next
    case (Some ips)
    let ?s = "(set_worker w (Storing TO_KERNEL (load TO_KERNEL (mc_app s) + of_nat (length ips)) [] None) s)\<lparr> mc_handled := mc_handled s @ ips \<rparr>"
    let ?t = "set_app (store TO_KERNEL (load TO_KERNEL (mc_app s) + of_nat (length ips)) (mc_app ?s)) (set_worker w (Working [] None) ?s)"
    have 1: "mc_step n crypto s ?s" using Nil(1) Some by (intro mc_step.kernel) simp
    have 2: "mc_step n crypto ?s ?t" by (rule mc_step.store) (use Nil(1) in \<open>auto simp: worker_at_set worker_at_def\<close>)
    have "mc_run n crypto s ?t" using 1 2 by (blast intro: mc_run.intros)
    then show ?thesis using Nil(1) by (intro exI [of _ ?t]) (auto simp: else_same_def worker_at_def set_app_def set_worker_def)
  qed
next
  case (Cons m ms)
  obtain a where a: "handle crypto m (mc_app s) = Some (Some a)" using Cons.prems(2) unfolding returns_def by (meson list.set_intros(1))
  let ?c = "outcome crypto (mc_app s) m"
  let ?s = "(set_app (with_streams a (mc_app s)) (set_worker w (Storing ?c (load ?c (mc_app s) + 1) ms k) s))\<lparr> mc_handled := mc_handled s @ [m] \<rparr>"
  let ?t = "set_app (store ?c (load ?c (mc_app s) + 1) (mc_app ?s)) (set_worker w (Working ms k) ?s)"
  have 1: "mc_step n crypto s ?s" by (rule mc_step.handle [OF Cons.prems(1) a refl])
  have 2: "mc_step n crypto ?s ?t" by (rule mc_step.store) (use Cons.prems(1) in \<open>auto simp: worker_at_set worker_at_def\<close>)
  have w: "worker_at ?t w (Working ms k)" "else_same w s ?t" "rss_rings (mc_rss ?t) ! w = rss_rings (mc_rss s) ! w"
    using Cons.prems(1) by (auto simp: else_same_def worker_at_def set_app_def set_worker_def)
  obtain u where u: "mc_run n crypto ?t u" "worker_at u w (Working [] None)" "else_same w ?t u" "rss_rings (mc_rss u) ! w = rss_rings (mc_rss ?t) ! w"
    using Cons.IH [OF w(1)] Cons.prems(2) by auto
  have "mc_run n crypto s ?t" using 1 2 by (blast intro: mc_run.intros)
  from mc_run_trans [OF u(1) this] else_same_trans [OF w(2) u(3)] u(2,4) w(3) show ?case by (intro exI [of _ u]) simp
qed

lemma ring_drains:
  assumes "worker_at s w (Working [] None)" and "mc_doWork s" and "w < length (rss_rings (mc_rss s))"
    and "\<forall>m \<in> set (rss_rings (mc_rss s) ! w). bus_frame m \<longrightarrow> returns crypto m"
  shows "\<exists>s'. mc_run n crypto s s' \<and> worker_at s' w (Working [] None) \<and> else_same w s s' \<and> rss_rings (mc_rss s') ! w = []"
  using assms
proof (induction "length (rss_rings (mc_rss s) ! w)" arbitrary: s rule: less_induct)
  case less
  show ?case
  proof (cases "rss_rings (mc_rss s) ! w = []")
    case True
    then show ?thesis using less.prems(1) by (intro exI [of _ s]) (auto simp: else_same_def intro: mc_run.start)
  next
    case False
    let ?bs = "take RX_BURST_SIZE (rss_rings (mc_rss s) ! w)" and ?rest = "drop RX_BURST_SIZE (rss_rings (mc_rss s) ! w)"
    let ?p = "Working (stage_order ?bs) (Some (filter (in_stage IP) ?bs))"
    let ?s = "set_ring w ?rest (set_worker w ?p s)"
    have 1: "mc_step n crypto s ?s" by (rule mc_step.poll [OF less.prems(1,2)]) (use False in simp_all)
    have ret: "\<forall>m \<in> set (stage_order ?bs). returns crypto m" using less.prems(4) set_stage_order in_set_takeD by metis
    have "worker_at ?s w ?p" using less.prems(1) by (simp add: worker_at_set worker_at_def)
    from burst_finishes [OF this ret] obtain t where t: "mc_run n crypto ?s t" "worker_at t w (Working [] None)" "else_same w ?s t" "rss_rings (mc_rss t) ! w = rss_rings (mc_rss ?s) ! w"
      by blast
    have r: "rss_rings (mc_rss t) ! w = ?rest" using t(4) less.prems(3) by simp
    have same: "else_same w s ?s" by (simp add: else_same_def set_ring_def set_worker_def)
    have "length (rss_rings (mc_rss t) ! w) < length (rss_rings (mc_rss s) ! w)" using r False by simp
    moreover have "mc_doWork t" "w < length (rss_rings (mc_rss t))" using t(3) same less.prems(2,3) by (simp_all add: else_same_def)
    moreover have "\<forall>m \<in> set (rss_rings (mc_rss t) ! w). bus_frame m \<longrightarrow> returns crypto m" using less.prems(4) r in_set_dropD by metis
    ultimately obtain u where u: "mc_run n crypto t u" "worker_at u w (Working [] None)" "else_same w t u" "rss_rings (mc_rss u) ! w = []"
      using less.hyps [of t] t(2) by blast
    have "mc_run n crypto s ?s" using 1 by (blast intro: mc_run.intros)
    from mc_run_trans [OF u(1) mc_run_trans [OF t(1) this]] else_same_trans [OF else_same_trans [OF same t(3)] u(3)] u(2,4)
    show ?thesis by blast
  qed
qed

definition orderly :: "u32 \<Rightarrow> MultiCore \<Rightarrow> bool" where
  "orderly n s \<longleftrightarrow> (\<forall>i. mc_main s = Some i \<longrightarrow> i \<le> unat n) \<and> (mc_doWork s \<longrightarrow> Gone \<notin> set (mc_workers s))"

lemma orderly_step: "mc_step n crypto s s' \<Longrightarrow> orderly n s \<Longrightarrow> orderly n s'"
  by (cases rule: mc_step.cases)
    (auto simp: orderly_def set_app_def set_ring_def set_worker_def dest!: set_update_subset_insert [THEN subsetD])

lemma run_invs:
  assumes "mc_run n crypto s s'" and "conserved n s" and "orderly n s" and "n \<noteq> 0" and "unat n \<le> RTE_MAX_LCORE"
  shows "conserved n s' \<and> orderly n s'"
  using assms(1-3) by (induction rule: mc_run.induct) (use assms(4,5) in \<open>auto intro: conserved_step orderly_step\<close>)

lemma worker_finishes:
  assumes c: "conserved n s" and o: "orderly n s" and d: "mc_doWork s" and w: "w < unat n"
    and r: "\<forall>m \<in> set (mc_received s). bus_frame m \<longrightarrow> returns crypto m"
  shows "\<exists>s'. mc_run n crypto s s' \<and> worker_at s' w (Working [] None) \<and> else_same w s s' \<and> rss_rings (mc_rss s') ! w = []"
proof -
  have len: "w < length (mc_workers s)" "w < length (rss_rings (mc_rss s))" using c w by (auto simp: conserved_def)
  have held: "\<forall>m \<in> set (to_do (mc_workers s ! w)) \<union> set (rss_rings (mc_rss s) ! w). m \<in> set (mc_received s)"
    using c len by (auto simp: conserved_def held_by_def split: if_split_asm)
  have ok: "phase_ok (mc_workers s ! w)" using c len(1) by (simp add: conserved_def)
  have "\<exists>t. mc_run n crypto s t \<and> worker_at t w (Working [] None) \<and> else_same w s t \<and> rss_rings (mc_rss t) ! w = rss_rings (mc_rss s) ! w"
  proof (cases "mc_workers s ! w")
    case (Working ms k)
    then show ?thesis using burst_finishes [of s w ms k] len(1) ok held r by (auto simp: worker_at_def)
  next
    case (Storing e v ms k)
    let ?s = "set_app (store e v (mc_app s)) (set_worker w (Working ms k) s)"
    have 1: "mc_step n crypto s ?s" using Storing len(1) by (intro mc_step.store) (simp add: worker_at_def)
    have 2: "worker_at ?s w (Working ms k)" "else_same w s ?s" "rss_rings (mc_rss ?s) ! w = rss_rings (mc_rss s) ! w"
      using len(1) by (auto simp: worker_at_def else_same_def set_app_def set_worker_def)
    have "\<forall>m \<in> set ms. returns crypto m" using Storing ok held r by auto
    from burst_finishes [OF 2(1) this] obtain t where t: "mc_run n crypto ?s t" "worker_at t w (Working [] None)" "else_same w ?s t"
      "rss_rings (mc_rss t) ! w = rss_rings (mc_rss ?s) ! w" by blast
    have "mc_run n crypto s ?s" using 1 by (blast intro: mc_run.intros)
    from mc_run_trans [OF t(1) this] else_same_trans [OF 2(2) t(3)] t(2,4) 2(3) show ?thesis by (intro exI [of _ t]) simp
  next
    case Gone
    then have "Gone \<in> set (mc_workers s)" using nth_mem [OF len(1)] by simp
    with o d show ?thesis by (simp add: orderly_def)
  qed
  then obtain t where t: "mc_run n crypto s t" "worker_at t w (Working [] None)" "else_same w s t" "rss_rings (mc_rss t) ! w = rss_rings (mc_rss s) ! w" by blast
  have "mc_doWork t" "w < length (rss_rings (mc_rss t))" using t(3) d len(2) by (simp_all add: else_same_def)
  moreover have "\<forall>m \<in> set (rss_rings (mc_rss t) ! w). bus_frame m \<longrightarrow> returns crypto m" using held r t(4) by auto
  ultimately obtain u where u: "mc_run n crypto t u" "worker_at u w (Working [] None)" "else_same w t u" "rss_rings (mc_rss u) ! w = []"
    using ring_drains [OF t(2)] by blast
  from mc_run_trans [OF u(1) t(1)] else_same_trans [OF t(3) u(3)] u(2,4) show ?thesis by blast
qed

lemma workers_finish:
  assumes c: "conserved n s" and o: "orderly n s" and d: "mc_doWork s" and n: "n \<noteq> 0" "unat n \<le> RTE_MAX_LCORE"
    and r: "\<forall>m \<in> set (mc_received s). bus_frame m \<longrightarrow> returns crypto m" and "j \<le> unat n"
  shows "\<exists>s'. mc_run n crypto s s' \<and> mc_main s' = mc_main s \<and> mc_doWork s' \<and> mc_received s' = mc_received s \<and> mc_lost s' = mc_lost s \<and>
    (\<forall>w < j. worker_at s' w (Working [] None) \<and> rss_rings (mc_rss s') ! w = [])"
  using assms(7)
proof (induction j)
  case 0
  then show ?case using d by (intro exI [of _ s]) (auto intro: mc_run.start)
next
  case (Suc j)
  then obtain t where t: "mc_run n crypto s t" "mc_main t = mc_main s" "mc_doWork t" "mc_received t = mc_received s" "mc_lost t = mc_lost s"
    "\<forall>w < j. worker_at t w (Working [] None) \<and> rss_rings (mc_rss t) ! w = []" by auto
  have inv: "conserved n t" "orderly n t" using run_invs [OF t(1) c o n] by auto
  obtain u where u: "mc_run n crypto t u" "worker_at u j (Working [] None)" "else_same j t u" "rss_rings (mc_rss u) ! j = []"
    using worker_finishes [OF inv t(3), of j] Suc.prems r t(4) by auto
  have "worker_at u w (Working [] None) \<and> rss_rings (mc_rss u) ! w = []" if "w < Suc j" for w
    using that u(2-4) t(6) by (cases "w = j") (auto simp: else_same_def worker_at_def less_Suc_eq)
  then show ?case using mc_run_trans [OF u(1) t(1)] u(3) t(2-5) by (intro exI [of _ u]) (auto simp: else_same_def)
qed

lemma main_finishes:
  assumes "conserved n s" and "mc_main s = Some i" and "i \<le> unat n" and n: "n \<noteq> 0" "unat n \<le> RTE_MAX_LCORE"
  shows "\<exists>s'. mc_run n crypto s s' \<and> mc_main s' = None \<and> mc_doWork s' = mc_doWork s \<and> mc_received s' = mc_received s \<and> mc_lost s' = mc_lost s \<and>
    mc_app s' = mc_app s \<and> mc_workers s' = mc_workers s \<and> mc_handled s' = mc_handled s"
  using assms(1-3)
proof (induction "unat n - i" arbitrary: s i)
  case 0
  let ?s = "s\<lparr> mc_main := None \<rparr>"
  have "mc_step n crypto s ?s" using 0 by (intro mc_step.flushed) simp
  then have "mc_run n crypto s ?s" by (blast intro: mc_run.intros)
  then show ?case by (intro exI [of _ ?s]) simp
next
  case (Suc k)
  let ?all = "\<lambda>(r :: mbuf list) ms. (length ms, r @ ms)"
  have i: "i < unat n" using Suc.hyps(2) by simp
  have ring: "ring_contract ?all (\<lambda>r. r)" by (auto simp: ring_contract_def)
  obtain q where q: "queued n s q" using Suc.prems(1) by (auto simp: conserved_def)
  have len: "i < length (rss_queues (mc_rss s))" "i < length (rss_rings (mc_rss s))" using Suc.prems(1) i n(2) by (auto simp: conserved_def)
  have h: "holds (rss_queues (mc_rss s) ! i) (q i)" using q len(1) by (simp add: queued_def)
  then have num: "fr_num (rss_queues (mc_rss s) ! i) = length (q i)" "frame_bufs (rss_queues (mc_rss s) ! i) = Some (q i)"
    by (simp add: holds_def, rule frame_bufs_holds)
  obtain rss where f: "rss_flush ?all i (mc_rss s) = Some (Some rss)" "rss_app rss = mc_app s" "rss_rings rss ! i = rss_rings (mc_rss s) ! i @ q i"
    using len num by (cases "q i") (simp_all add: rss_flush_def Let_def)
  let ?s = "s\<lparr> mc_rss := rss, mc_main := Some (Suc i), mc_taken := mc_taken s @ q i,
      mc_lost := mc_lost s + (fr_num (rss_queues (mc_rss s) ! i) - length (q i)) \<rparr>"
  have 1: "mc_step n crypto s ?s" by (rule mc_step.flush [OF Suc.prems(2) i ring f(1)]) (simp add: f(3))
  have k: "k = unat n - Suc i" "Suc i \<le> unat n" using Suc.hyps(2) by simp_all
  have "conserved n ?s" by (rule conserved_step [OF 1 Suc.prems(1) n])
  from Suc.hyps(1) [OF k(1) this _ k(2)] obtain t where t: "mc_run n crypto ?s t" "mc_main t = None" "mc_doWork t = mc_doWork s" "mc_received t = mc_received s" "mc_lost t = mc_lost s"
    "mc_app t = mc_app s" "mc_workers t = mc_workers s" "mc_handled t = mc_handled s"
    using f(2) num(1) by auto
  have "mc_run n crypto s ?s" using 1 by (blast intro: mc_run.intros)
  from mc_run_trans [OF t(1) this] t(2-8) show ?case by (intro exI [of _ t]) simp
qed

lemma quiet_reachable:
  assumes c: "conserved n s" and o: "orderly n s" and d: "mc_doWork s" and n: "n \<noteq> 0" "unat n \<le> RTE_MAX_LCORE"
    and r: "\<forall>m \<in> set (mc_received s). bus_frame m \<longrightarrow> returns crypto m"
  shows "\<exists>s'. mc_run n crypto s s' \<and> mc_quiet s' \<and> mc_doWork s' \<and> mc_received s' = mc_received s \<and> mc_lost s' = mc_lost s"
proof -
  obtain t where t: "mc_run n crypto s t" "mc_main t = None" "mc_doWork t" "mc_received t = mc_received s" "mc_lost t = mc_lost s"
  proof (cases "mc_main s")
    case None
    then show thesis using that [of s] d by (auto intro: mc_run.start)
  next
    case (Some i)
    then show thesis using that main_finishes [OF c Some _ n, of crypto] o d by (auto simp: orderly_def)
  qed
  have inv: "conserved n t" "orderly n t" using run_invs [OF t(1) c o n] by auto
  obtain u where u: "mc_run n crypto t u" "mc_main u = None" "mc_doWork u" "mc_received u = mc_received s" "mc_lost u = mc_lost s"
    "\<forall>w < unat n. worker_at u w (Working [] None) \<and> rss_rings (mc_rss u) ! w = []"
    using workers_finish [OF inv t(3) n, of crypto "unat n"] r t(2,4,5) by auto
  have "conserved n u" using run_invs [OF u(1) inv n] by simp
  then have "mc_quiet u" using u(2,6) by (auto simp: mc_quiet_def conserved_def worker_at_def in_set_conv_nth)
  with mc_run_trans [OF u(1) t(1)] u(3-5) show ?thesis by blast
qed

lemma can_receive:
  assumes c: "conserved n s" and n: "n \<noteq> 0" "unat n \<le> RTE_MAX_LCORE" and m: "mc_main s = None" "mc_doWork s" and bs: "bs \<noteq> []" "burst_ok bs"
  shows "\<exists>queues. mc_step n crypto s (s\<lparr> mc_rss := (mc_rss s)\<lparr> rss_queues := queues \<rparr>, mc_main := Some 0, mc_received := mc_received s @ bs \<rparr>)"
proof -
  obtain q where q: "queued n s q" using c by (auto simp: conserved_def)
  have cl: "\<forall>m \<in> set bs. classified m" "length bs \<le> RX_BURST_SIZE" using bs(2) buffer_classified by (auto simp: burst_ok_def)
  have len: "length (rss_queues (mc_rss s)) = RTE_MAX_LCORE" using c by (simp add: conserved_def)
  have "q w = []" for w using q m(1) by (simp add: queued_def)
  then have "\<forall>w < length (rss_queues (mc_rss s)). holds (rss_queues (mc_rss s) ! w) []" using q by (simp add: queued_def)
  then obtain queues where "for_each (rss_put n) bs (rss_queues (mc_rss s)) = Some (Some queues)"
    using rss_put_all [OF cl(1) n(1), of "rss_queues (mc_rss s)" "\<lambda>_. []"] cl(2) n(2) len by auto
  from mc_step.receive [OF m bs this] show ?thesis by blast
qed

lemma sv_returns:
  assumes "buffer_ok m" and "\<not> in_stage GOOSE m" "\<not> in_stage R_GOOSE m" and "decrypts_in_place crypto" and "bus_frame m"
  shows "returns crypto m"
  using sv_packet_total [OF assms(1)] r_sv_packet_total [OF assms(1,4)] assms(2,3,5) by (auto simp: returns_def handle_def bus_frame_def)

lemma worker_count_pos: "worker_count_ok n \<Longrightarrow> n \<noteq> 0"
  by (auto simp: worker_count_ok_def)

text \<open>At rest the frames handled are, place by place, the frames received.\<close>

lemma quiet_handled:
  assumes c: "conserved n s" and q: "mc_quiet s" and "mc_lost s = 0"
  shows "filter (\<lambda>m. place n m = p) (mc_handled s) = filter (\<lambda>m. place n m = p) (mc_received s)"
proof -
  have "held_by s w = []" for w
  proof (cases "w < length (mc_workers s)")
    case True
    then have "rss_rings (mc_rss s) ! w \<in> set (rss_rings (mc_rss s))" "mc_workers s ! w \<in> set (mc_workers s)"
      using c by (simp_all add: conserved_def)
    with q have "rss_rings (mc_rss s) ! w = []" "to_do (mc_workers s ! w) = []" unfolding mc_quiet_def by fastforce+
    then show ?thesis by (simp add: held_by_def)
  qed (simp add: held_by_def)
  then have h: "filter (\<lambda>m. place n m = p) (mc_handled s) = filter (\<lambda>m. place n m = p) (mc_taken s)"
    using c by (cases p) (simp add: conserved_def shares_def)
  obtain qs where qs: "queued n s qs" using c by (auto simp: conserved_def)
  have "qs w = []" for w using qs q by (simp add: queued_def mc_quiet_def)
  then have r: "filter (\<lambda>m. rss_key n m = w) (mc_received s) = filter (\<lambda>m. rss_key n m = w) (mc_taken s)" for w
    using qs assms(3) by (simp add: queued_def)
  have "filter (\<lambda>m. place n m = p) ms = filter (\<lambda>m. place n m = p) (filter (\<lambda>m. rss_key n m = snd p) ms)" for ms
    by (auto simp: place_def intro!: filter_cong)
  with r h show ?thesis by metis
qed

subsection \<open>Properties\<close>


text \<open>Two SV frames below the smallest size, for different workers.\<close>

definition runt :: "u16 \<Rightarrow> mbuf" where
  "runt a = \<lparr> mb_data = l2_header mac_zero mac_zero None 0xBA a (replicate 6 0) @ replicate 40 0, mb_len = 60, mb_cksum = IP_CKSUM_UNKNOWN \<rparr>"

lemma runt_type: "get_proto_type (mb_data (runt a)) 0 (mb_len (runt a)) = Some (BUS_PROTO_SV, ucast a)"
  by (simp add: runt_def get_proto_type_def l2_header_def mac_zero_def rd_def get_u16_def be16_put16 put16_def)

lemma runt_stage: "in_stage s (runt a) \<longleftrightarrow> s = SV" "bus_frame (runt a)" "buffer_ok (runt a)" "stage_order [runt a] = [runt a]"
  "rss_key n (runt a) = rss_index n (ucast a)" "place n (runt a) = (SV, rss_index n (ucast a))"
  by (auto simp: in_stage_def bus_frame_def runt_type stage_order_def rss_key_def place_def stage_of_def buffer_ok_def)
    (simp_all add: runt_def length_l2_header)

lemma runt_counted:
  "handle crypto (runt a) app = Some (Some (app\<lparr> m_errSVParserCnt := m_errSVParserCnt app + 1 \<rparr>))" "outcome crypto app (runt a) = ERR_SV"
proof -
  have "parse_sv_packet (mb_data (runt a)) (mb_len (runt a)) SVStreamPassport_init SVStreamState_init = Some (Some (Inl (-1)))"
    by (simp add: runt_def parse_sv_packet_def)
  then show "handle crypto (runt a) app = Some (Some (app\<lparr> m_errSVParserCnt := m_errSVParserCnt app + 1 \<rparr>))" "outcome crypto app (runt a) = ERR_SV"
    by (simp_all add: handle_def runt_stage sv_packet_def outcome_def sv_msg_def sv_reading_def)
qed

text \<open>Two workers, each with one of the frames in its ring.\<close>

lemma runts_distributed:
  "\<exists>s. mc_run 2 crypto (mc_start 2 app) s \<and> conserved 2 s \<and> mc_main s = None \<and> mc_doWork s \<and> mc_received s = [runt 8, runt 9] \<and> mc_lost s = 0 \<and>
    mc_app s = MarkRunStarted app \<and> mc_workers s = [Working [] None, Working [] None] \<and> rss_rings (mc_rss s) = [[runt 8], [runt 9]]"
proof -
  let ?s0 = "mc_start 2 app"
  have n: "(2 :: u32) \<noteq> 0" "unat (2 :: u32) \<le> RTE_MAX_LCORE" by simp_all
  have ok: "burst_ok [runt 8, runt 9]" by (simp add: burst_ok_def runt_stage)
  have s0: "mc_main ?s0 = None" "mc_doWork ?s0" "mc_received ?s0 = []" "mc_lost ?s0 = 0" "mc_handled ?s0 = []" "mc_app ?s0 = MarkRunStarted app"
    "mc_workers ?s0 = [Working [] None, Working [] None]" by (simp_all add: mc_start_def) (simp add: numeral_2_eq_2)
  obtain queues where 1: "mc_step 2 crypto ?s0 (?s0\<lparr> mc_rss := (mc_rss ?s0)\<lparr> rss_queues := queues \<rparr>, mc_main := Some 0, mc_received := mc_received ?s0 @ [runt 8, runt 9] \<rparr>)"
    (is "mc_step 2 crypto ?s0 ?s1") using can_receive [OF start_inv(1) [OF n(1)] n s0(1,2) _ ok] by blast
  have c: "conserved 2 ?s1" by (rule conserved_step [OF 1 start_inv(1) [OF n(1)] n])
  obtain s where s: "mc_run 2 crypto ?s1 s" "mc_main s = None" "mc_doWork s" "mc_received s = [runt 8, runt 9]" "mc_lost s = 0" "mc_app s = MarkRunStarted app"
    "mc_workers s = [Working [] None, Working [] None]" "mc_handled s = []"
    using main_finishes [OF c _ _ n, of 0 crypto] s0 by auto
  have "mc_run 2 crypto ?s0 ?s1" using 1 by (blast intro: mc_run.intros)
  from mc_run_trans [OF s(1) this] have run: "mc_run 2 crypto ?s0 s" .
  have c: "conserved 2 s" using run_inv [OF run n] by blast
  have ring: "rss_rings (mc_rss s) ! w = filter (\<lambda>m. rss_key 2 m = w) (mc_received s)" if w: "w < 2" for w
  proof -
    obtain q where q: "queued 2 s q" using c by (auto simp: conserved_def)
    have h: "held_by s w = rss_rings (mc_rss s) ! w" using w s(7) by (auto simp: held_by_def numeral_2_eq_2 less_Suc_eq)
    have p: "m \<in> set (mc_received s) \<Longrightarrow> place 2 m = (SV, w) \<longleftrightarrow> rss_key 2 m = w" for m using s(4) by (auto simp: runt_stage)
    have "\<forall>m \<in> set (held_by s w). place 2 m = (SV, w)" using c p unfolding conserved_def by blast
    then have "held_by s w = filter (\<lambda>m. place 2 m = (SV, w)) (held_by s w)" by (simp add: filter_id_conv)
    also have "\<dots> = filter (\<lambda>m. place 2 m = (SV, w)) (mc_taken s)" using c s(8) by (simp add: conserved_def shares_def)
    also have "\<dots> = filter (\<lambda>m. rss_key 2 m = w) (mc_taken s)" using c p by (auto simp: conserved_def intro!: filter_cong)
    also have "\<dots> = filter (\<lambda>m. rss_key 2 m = w) (mc_received s)" using q s(2,5) by (simp add: queued_def)
    finally show ?thesis using h by simp
  qed
  have "length (rss_rings (mc_rss s)) = 2" using c by (simp add: conserved_def)
  then obtain r0 r1 where r: "rss_rings (mc_rss s) = [r0, r1]" by (metis length_0_conv length_Suc_conv numeral_2_eq_2)
  have "r0 = [runt 8]" "r1 = [runt 9]" using ring [of 0] ring [of 1] unfolding r s(4) by (simp_all add: runt_stage rss_index_def)
  then have "rss_rings (mc_rss s) = [[runt 8], [runt 9]]" by (simp add: r)
  then show ?thesis using run c s(2-7) by blast
qed

lemma kernel_none:
  assumes "worker_at s w (Working [] (Some []))"
  shows "mc_run n crypto s (set_worker w (Working [] None) s)"
proof -
  let ?t = "set_worker w (Storing TO_KERNEL (load TO_KERNEL (mc_app s)) [] None) s"
  have 1: "mc_step n crypto s ?t" using mc_step.kernel [OF assms] by (simp add: set_worker_def)
  have "set_app (store TO_KERNEL (load TO_KERNEL (mc_app s)) (mc_app ?t)) (set_worker w (Working [] None) ?t) = set_worker w (Working [] None) s"
    by (simp add: set_app_def set_worker_def)
  moreover have "worker_at ?t w (Storing TO_KERNEL (load TO_KERNEL (mc_app s)) [] None)" using assms by (simp add: worker_at_def)
  ultimately have "mc_step n crypto ?t (set_worker w (Working [] None) s)" using mc_step.store by metis
  with 1 show ?thesis by (meson mc_run.intros)
qed

text \<open>Both workers load the counter before either stores it.\<close>

lemma lost_update:
  assumes "worker_at s 0 (Working [] None)" "worker_at s 1 (Working [] None)" "mc_doWork s" "rss_rings (mc_rss s) = [[runt a], [runt b]]" "mc_main s = None"
    and "length (mc_workers s) = 2"
  shows "\<exists>s'. mc_run n crypto s s' \<and> mc_quiet s' \<and> mc_received s' = mc_received s \<and> mc_lost s' = mc_lost s \<and>
    load ERR_SV (mc_app s') = load ERR_SV (mc_app s) + 1"
proof -
  have ip: "filter (in_stage IP) [runt x] = []" for x by (simp add: runt_stage)
  let ?v = "load ERR_SV (mc_app s) + 1" and ?k = "load TO_KERNEL (mc_app s)"
  define s1 where "s1 = set_ring 0 [] (set_worker 0 (Working [runt a] (Some [])) s)"
  define s2 where "s2 = set_ring 1 [] (set_worker 1 (Working [runt b] (Some [])) s1)"
  define s3 where "s3 = (set_worker 0 (Storing ERR_SV ?v [] (Some [])) s2)\<lparr> mc_handled := mc_handled s2 @ [runt a] \<rparr>"
  define s4 where "s4 = (set_worker 1 (Storing ERR_SV ?v [] (Some [])) s3)\<lparr> mc_handled := mc_handled s3 @ [runt b] \<rparr>"
  define s5 where "s5 = set_app (store ERR_SV ?v (mc_app s4)) (set_worker 0 (Working [] (Some [])) s4)"
  define s6 where "s6 = set_app (store ERR_SV ?v (mc_app s5)) (set_worker 1 (Working [] (Some [])) s5)"
  note defs = s1_def s2_def s3_def s4_def s5_def s6_def
  have idle: "with_streams (app\<lparr> m_errSVParserCnt := v \<rparr>) app = app" "mc_app t = app \<Longrightarrow> set_app app t = t" for app v t
    by (simp_all add: with_streams_def set_app_def)
  have 1: "mc_step n crypto s s1" unfolding s1_def using mc_step.poll [OF assms(1,3), of "[runt a]" "[]"] assms(4) by (simp add: runt_stage)
  have 2: "mc_step n crypto s1 s2" unfolding s2_def using mc_step.poll [of s1 1 "[runt b]" "[]"] assms(2-4)
    by (simp add: runt_stage s1_def worker_at_set) (simp add: set_ring_def set_worker_def)
  have 3: "mc_step n crypto s2 s3" unfolding s3_def using mc_step.handle [of s2 0 "runt a" "[]" "Some []", OF _ runt_counted(1) refl] assms(1)
    by (simp add: runt_counted(2) idle s1_def s2_def worker_at_set worker_at_def)
  have 4: "mc_step n crypto s3 s4" unfolding s4_def using mc_step.handle [of s3 1 "runt b" "[]" "Some []", OF _ runt_counted(1) refl] assms(2)
    by (simp add: runt_counted(2) idle s1_def s2_def s3_def worker_at_set worker_at_def)
  have 5: "mc_step n crypto s4 s5" unfolding s5_def by (rule mc_step.store) (use assms(1) in \<open>simp add: defs worker_at_def\<close>)
  have 6: "mc_step n crypto s5 s6" unfolding s6_def by (rule mc_step.store) (use assms(2) in \<open>simp add: defs worker_at_def\<close>)
  have "mc_run n crypto s s6" using 1 2 3 4 5 6 by (meson mc_run.intros)
  moreover have "worker_at s6 0 (Working [] (Some []))" "worker_at (set_worker 0 (Working [] None) s6) 1 (Working [] (Some []))"
    using assms(1,2) by (simp_all add: defs worker_at_def)
  ultimately have run: "mc_run n crypto s (set_worker 1 (Working [] None) (set_worker 0 (Working [] None) s6))" (is "mc_run n crypto s ?t")
    using kernel_none mc_run_trans by metis
  obtain p0 p1 where w: "mc_workers s = [p0, p1]" using assms(6) by (metis length_0_conv length_Suc_conv numeral_2_eq_2)
  have "mc_quiet ?t" using assms(4,5) by (simp add: mc_quiet_def defs w)
  with run show ?thesis by (intro exI [of _ ?t]) (simp add: defs)
qed




text \<open>
  C10: counts can be lost. In some interleaving two workers that reject one frame each leave the counter of rejected SV frames
  only one higher, although the rings lost nothing; a single core counts both frames.
\<close>

theorem multi_core_lost_update:
  "\<exists>s app'. mc_run 2 crypto (mc_start 2 app) s \<and> mc_quiet s \<and> mc_received s = [runt 8, runt 9] \<and> mc_lost s = 0 \<and>
    single_core [[runt 8, runt 9]] app crypto = Some (Some app') \<and>
    load ERR_SV (mc_app s) = load ERR_SV app + 1 \<and> load ERR_SV app' = load ERR_SV app + 2"
proof -
  obtain t where t: "mc_run 2 crypto (mc_start 2 app) t" "mc_main t = None" "mc_doWork t" "mc_received t = [runt 8, runt 9]" "mc_lost t = 0"
    "mc_app t = MarkRunStarted app" "mc_workers t = [Working [] None, Working [] None]" "rss_rings (mc_rss t) = [[runt 8], [runt 9]]"
    using runts_distributed [of crypto app] by metis
  have "worker_at t 0 (Working [] None)" "worker_at t 1 (Working [] None)" "length (mc_workers t) = 2" using t(7) by (simp_all add: worker_at_def)
  from lost_update [OF this(1,2) t(3,8,2) this(3), of 2 crypto] obtain s where s: "mc_run 2 crypto t s" "mc_quiet s" "mc_received s = mc_received t"
    "mc_lost s = mc_lost t" "load ERR_SV (mc_app s) = load ERR_SV (mc_app t) + 1" by blast
  have ok: "burst_ok [runt 8, runt 9]" by (simp add: burst_ok_def runt_stage)
  have "\<exists>a. batch crypto [runt 8, runt 9] (MarkRunStarted app) = Some (Some a)"
    by (simp add: batch_def runt_stage sv_packet_def parse_sv_packet_def) (simp add: runt_def)
  then obtain app' where app': "single_core [[runt 8, runt 9]] app crypto = Some (Some app')"
    using process_burst_batch [OF idle_new ok, of "MarkRunStarted app" crypto] by (auto simp: single_core_def DataMatrix_new_def)
  have "tally crypto app (concat (map full_order [[runt 8, runt 9]])) ERR_SV = 2"
    by (simp add: tally_def full_order_def stage_order_def runt_stage runt_counted)
  then have "load ERR_SV app' = load ERR_SV app + 2" using single_core_run [OF app'] ok by simp
  moreover have "load ERR_SV (mc_app t) = load ERR_SV app" by (simp add: t(6) MarkRunStarted_def)
  ultimately show ?thesis using mc_run_trans [OF s(1) t(1)] s(2-5) t(4,5) app' by (intro exI [of _ s] exI [of _ app']) simp
qed

end
