(* ===== verification/Gen_App.thy ===== *)
theory Gen_App
  imports Tx_Loop R_Traffic_Gen Dpdk_Cpp
begin

text \<open>
  The generator application: \<open>src/bus_generator/gen_application.cpp\<close>, \<open>gen_application.hpp\<close>, the auxiliary
  thread of \<open>main.cpp\<close> and the constants of \<open>src/common/platform/\<close>. The command line is parsed by the
  library cxxopts, so the parsed options are the record \<open>GenOptions\<close>. \<open>Run\<close> is the choice of what is
  sent and all its checks; its value says which generators the loops of \<open>Tx_Loop\<close> are started on. The
  workers of the routable modes share the buffer pool and run interleaved, as a step relation.

  What is printed is the value of the definition that computes it; table layout, thread priorities
  and the wire time of a burst, which is only printed, are left out.
\<close>

subsection \<open>Platforms\<close>

record Platform =
  GENERATOR_MBUF_NUM :: u32
  MEMPOOL_CACHE_SIZE :: u32
  GENERATOR_RX_DESC :: u32
  GENERATOR_TX_DESC :: u32

definition atom :: Platform where
  "atom = \<lparr> GENERATOR_MBUF_NUM = 2 * 512 * 1024, MEMPOOL_CACHE_SIZE = 64, GENERATOR_RX_DESC = 128, GENERATOR_TX_DESC = 64 * 1024 - 1 \<rparr>"
definition arm64 :: Platform where
  "arm64 = \<lparr> GENERATOR_MBUF_NUM = 512 * 1024, MEMPOOL_CACHE_SIZE = 64, GENERATOR_RX_DESC = 128, GENERATOR_TX_DESC = 4096 \<rparr>"
definition orangepi3b :: Platform where
  "orangepi3b = \<lparr> GENERATOR_MBUF_NUM = 128 * 1024, MEMPOOL_CACHE_SIZE = 64, GENERATOR_RX_DESC = 128, GENERATOR_TX_DESC = 32 * 1024 \<rparr>"
definition qemu :: Platform where
  "qemu = \<lparr> GENERATOR_MBUF_NUM = 128 * 1024, MEMPOOL_CACHE_SIZE = 64, GENERATOR_RX_DESC = 128, GENERATOR_TX_DESC = 1024 \<rparr>"

subsection \<open>State and options\<close>

record GenWorkerStat = GenAppStat +
  procStat :: CyclicStat

record GenApplication =
  ga_gooseNum :: u32
  ga_gooseSendFreq :: u32
  ga_sv80Num :: u32
  ga_sv256Num :: u32
  ga_rgooseNum :: u32
  ga_rgooseSendFreq :: u32
  ga_rsv80Num :: u32
  ga_rsv256Num :: u32
  ga_gooseEntries :: u32
  ga_burst :: bool
  ga_rframe :: RFrameConfig
  ga_workerNum :: u32
  ga_stats :: "GenWorkerStat list"
  ga_lastPortStat :: EthStats
  ga_statDisplaySec :: u32
  ga_runTimeSec :: u32
  ga_runStarted :: bool

definition GenApplication_init :: GenApplication where
  "GenApplication_init = \<lparr> ga_gooseNum = 0, ga_gooseSendFreq = 1, ga_sv80Num = 0, ga_sv256Num = 0, ga_rgooseNum = 0,
     ga_rgooseSendFreq = 1, ga_rsv80Num = 0, ga_rsv256Num = 0, ga_gooseEntries = 16, ga_burst = False, ga_rframe = RFrameConfig_init,
     ga_workerNum = 1, ga_stats = [], ga_lastPortStat = EthStats_init, ga_statDisplaySec = 0, ga_runTimeSec = 0, ga_runStarted = False \<rparr>"

record GenOptions =
  go_help :: bool
  go_goose :: "int list option"
  go_sv80 :: "int option"
  go_sv256 :: "int option"
  go_rgoose :: "int list option"
  go_rsv80 :: "int option"
  go_rsv256 :: "int option"
  go_r_mode :: "string option"
  go_dst_ip :: "string option"
  go_src_ip :: "string option"
  go_goose_entries :: "u32 option"
  go_burst :: bool
  go_time :: "u32 option"

text \<open>\<open>rte_exit\<close> after the help text, or the exception thrown.\<close>

datatype GenExit = GenHelp | GenThrow GenError

text \<open>
  An outcome is \<open>None\<close> when C leaves the behaviour undefined or a buffer is left, \<open>Inl\<close> an exception.
\<close>

definition check :: "('e + 'a) option \<Rightarrow> ('a \<Rightarrow> ('e + 'b) option) \<Rightarrow> ('e + 'b) option" where
  "check x f = (case x of None \<Rightarrow> None | Some (Inl e) \<Rightarrow> Some (Inl e) | Some (Inr v) \<Rightarrow> f v)"

text \<open>The options N,M of a GOOSE kind, and an address.\<close>

definition num_and_freq :: "string \<Rightarrow> (u32 \<times> u32) \<Rightarrow> int list option \<Rightarrow> GenExit + u32 \<times> u32" where
  "num_and_freq name def opt = (case opt of None \<Rightarrow> Inr def
     | Some opts \<Rightarrow> if length opts \<noteq> 2 then Inl (GenThrow (InvalidArgument (''The '' @ name @ '' option is invalid, must be: N,M'')))
                    else Inr (of_int (opts ! 0), of_int (opts ! 1)))"

definition ip_option :: "string \<Rightarrow> u32 \<Rightarrow> string option \<Rightarrow> (GenExit + u32) option" where
  "ip_option name def opt = (case opt of None \<Rightarrow> Some (Inr def)
     | Some ip \<Rightarrow> do { r \<leftarrow> parse_ipv4 ip;
         Some (case r of None \<Rightarrow> Inl (GenThrow (InvalidArgument (''Invalid '' @ name @ '': '' @ ip))) | Some a \<Rightarrow> Inr a) })"

definition mode_option :: "SecurityMode \<Rightarrow> string option \<Rightarrow> GenExit + SecurityMode" where
  "mode_option def opt = (case opt of None \<Rightarrow> Inr def
     | Some txt \<Rightarrow> map_sum (\<lambda>e. GenThrow (InvalidArgument e)) id (parse_security_mode txt))"

text \<open>The streams of a routable kind, if no L2 kind is asked for.\<close>

definition r_streams :: "GenApplication \<Rightarrow> u32" where
  "r_streams app =
     (let l2 = (ga_gooseNum app > 0 \<or> ga_sv80Num app > 0 \<or> ga_sv256Num app > 0)
      in if \<not> l2 then (if ga_rgooseNum app \<noteq> 0 then ga_rgooseNum app else if ga_rsv80Num app \<noteq> 0 then ga_rsv80Num app else ga_rsv256Num app)
         else 0)"

definition set_workers :: "u32 \<Rightarrow> u64 \<Rightarrow> GenApplication \<Rightarrow> GenApplication" where
  "set_workers lcore_count hz app =
     (let rNum = r_streams app;
          app = (if rNum > 0 then app\<lparr> ga_workerNum := min lcore_count rNum \<rparr> else app)
      in app\<lparr> ga_stats := replicate (unat (ga_workerNum app)) (GenAppStat.extend GenAppStat_init (GenWorkerStat.fields (CyclicStat_new hz))) \<rparr>)"

definition GenApplication_new :: "u32 \<Rightarrow> u64 \<Rightarrow> GenOptions \<Rightarrow> (GenExit + GenApplication) option" where
  "GenApplication_new lcore_count hz result =
     (if go_help result then Some (Inl GenHelp)
      else check (Some (num_and_freq ''goose'' (0, 1) (go_goose result))) (\<lambda>(gooseNum, gooseFreq).
        let app = GenApplication_init\<lparr> ga_gooseNum := gooseNum, ga_gooseSendFreq := gooseFreq \<rparr>;
            app = given (go_sv80 result) (\<lambda>n. ga_sv80Num_update (\<lambda>_. of_int n)) app;
            app = given (go_sv256 result) (\<lambda>n. ga_sv256Num_update (\<lambda>_. of_int n)) app
        in check (Some (num_and_freq ''rgoose'' (0, 1) (go_rgoose result))) (\<lambda>(rgooseNum, rgooseFreq).
        let app = app\<lparr> ga_rgooseNum := rgooseNum, ga_rgooseSendFreq := rgooseFreq \<rparr>;
            app = given (go_rsv80 result) (\<lambda>n. ga_rsv80Num_update (\<lambda>_. of_int n)) app;
            app = given (go_rsv256 result) (\<lambda>n. ga_rsv256Num_update (\<lambda>_. of_int n)) app
        in check (Some (mode_option (rf_mode (ga_rframe app)) (go_r_mode result))) (\<lambda>mode.
           check (ip_option ''--dst-ip'' (rf_dstIP (ga_rframe app)) (go_dst_ip result)) (\<lambda>dstIP.
        let app = app\<lparr> ga_rframe := (ga_rframe app)\<lparr> rf_mode := mode, rf_dstIP := dstIP \<rparr>, ga_burst := go_burst result \<rparr>;
            app = given (go_time result) (\<lambda>n. ga_runTimeSec_update (\<lambda>_. n)) app;
            app = given (go_goose_entries result) (\<lambda>n. ga_gooseEntries_update (\<lambda>_. n)) app
        in if go_goose_entries result = Some 0 then Some (Inl (GenThrow (InvalidArgument ''--goose-entries must be >= 1'')))
           else check (ip_option ''--src-ip'' (rf_srcIP (ga_rframe app)) (go_src_ip result)) (\<lambda>srcIP.
             Some (Inr (set_workers lcore_count hz (app\<lparr> ga_rframe := (ga_rframe app)\<lparr> rf_srcIP := srcIP \<rparr> \<rparr>)))))))))"

subsection \<open>Statistics and time limit\<close>

definition worker_label :: "nat \<Rightarrow> string" where
  "worker_label i = (if i = 0 then ''Main'' else ''LCore'' @ dec i)"

record GenSample =
  gs_tx_pps :: u64
  gs_tx_bps :: u64
  gs_errSend :: u32

text \<open>\<open>port\<close> is what \<open>rte_eth_stats_get\<close> leaves. An interval of zero is a division by zero.\<close>

definition gen_DisplayStatistic :: "u32 \<Rightarrow> EthStats \<Rightarrow> GenApplication \<Rightarrow> (GenApplication \<times> GenSample) option" where
  "gen_DisplayStatistic interval_sec port app =
     (let start = ga_lastPortStat app;
          app = app\<lparr> ga_lastPortStat := port \<rparr>;
          app = (if ga_runStarted app then app\<lparr> ga_statDisplaySec := ga_statDisplaySec app + interval_sec \<rparr> else app)
      in if interval_sec = 0 then None
         else Some (app, \<lparr> gs_tx_pps = (es_opackets port - es_opackets start) div ucast interval_sec,
           gs_tx_bps = (es_obytes port - es_obytes start) div ucast interval_sec,
           gs_errSend = foldl (\<lambda>n st. n + errSendCnt st) 0 (ga_stats app) \<rparr>))"

record GenResults =
  gr_errSend :: u32
  gr_txPkt :: u64
  gr_busiest :: nat
  gr_burst :: "(u64 \<times> u64) option"

definition gen_DisplayResults :: "GenApplication \<Rightarrow> GenResults" where
  "gen_DisplayResults app =
     (let (errSend, txPkt, busiest) = foldl (\<lambda>(errSend, txPkt, busiest) i.
            (errSend + errSendCnt (ga_stats app ! i), txPkt + txPktCnt (ga_stats app ! i),
             if perc_greater (m_loadPerc (procStat (ga_stats app ! i))) (m_loadPerc (procStat (ga_stats app ! busiest))) then i else busiest))
          (0, 0, 0) [0..<length (ga_stats app)]
      in \<lparr> gr_errSend = errSend, gr_txPkt = txPkt, gr_busiest = busiest,
           gr_burst = (if ga_burst app
             then Some (foldl (\<lambda>(retries, late) st. (retries + txRetryCnt st, late + txLateCnt st)) (0, 0) (ga_stats app)) else None) \<rparr>)"

definition gen_IsTimeExpired :: "GenApplication \<Rightarrow> bool" where
  "gen_IsTimeExpired app \<longleftrightarrow> ga_runTimeSec app > 0 \<and> ga_statDisplaySec app \<ge> ga_runTimeSec app"

definition gen_MarkRunStarted :: "GenApplication \<Rightarrow> GenApplication" where
  "gen_MarkRunStarted app = app\<lparr> ga_runStarted := True \<rparr>"

text \<open>
  A turn of the auxiliary thread after \<open>poll\<close>: whether a signal is there, and the card's statistics if
  the timer has expired. The flag is \<open>g_doWork\<close>; the thread runs while it is set.
\<close>

abbreviation (input) GEN_TIMER_PERIOD_SEC :: u32 where "GEN_TIMER_PERIOD_SEC \<equiv> 3"

type_synonym gen_turn = "bool \<times> EthStats option"

definition gen_auxiliary_step :: "gen_turn \<Rightarrow> GenApplication \<times> bool \<Rightarrow> (GenApplication \<times> bool) option" where
  "gen_auxiliary_step ev s = (case (ev, s) of ((signal, timer), (app, doWork)) \<Rightarrow>
     let doWork = (if signal then False else doWork) in
     (case timer of None \<Rightarrow> Some (app, doWork)
      | Some port \<Rightarrow> do {
          (app, sample) \<leftarrow> gen_DisplayStatistic GEN_TIMER_PERIOD_SEC port app;
          Some (app, if gen_IsTimeExpired app then False else doWork) }))"

fun gen_auxiliary_thread :: "gen_turn list \<Rightarrow> GenApplication \<times> bool \<Rightarrow> (GenApplication \<times> bool) option" where
  "gen_auxiliary_thread evs (app, False) = Some (app, False)"
| "gen_auxiliary_thread [] (app, True) = Some (app, True)"
| "gen_auxiliary_thread (ev # evs) (app, True) = do { s \<leftarrow> gen_auxiliary_step ev (app, True); gen_auxiliary_thread evs s }"

subsection \<open>Checks of the buffer pool\<close>

definition CheckBurstFits :: "Platform \<Rightarrow> nat \<Rightarrow> u32 \<Rightarrow> GenError + unit" where
  "CheckBurstFits platform staged workers =
     (let need = (of_nat staged + ucast workers * ucast (GENERATOR_TX_DESC platform)
                  + ucast workers * ucast (MEMPOOL_CACHE_SIZE platform) :: u64)
      in if need \<ge> ucast (GENERATOR_MBUF_NUM platform)
         then Inl (RuntimeError (''Burst of '' @ dec staged @ '' packets does not fit the mempool: need '' @ dec (unat need)
           @ '' mbufs, have '' @ dec (unat (GENERATOR_MBUF_NUM platform)) @ '' - use a smaller --goose/--rgoose frequency''))
         else Inr ())"

definition isR :: "GenApplication \<Rightarrow> bool" where
  "isR app \<longleftrightarrow> (let l2 = (ga_gooseNum app > 0 \<or> ga_sv80Num app > 0 \<or> ga_sv256Num app > 0)
     in \<not> l2 \<and> (ga_rgooseNum app > 0 \<or> ga_rsv80Num app > 0 \<or> ga_rsv256Num app > 0))"

definition tx_queues :: "GenApplication \<Rightarrow> u16" where
  "tx_queues app = (if isR app then ucast (ga_workerNum app) else 1)"

definition check_tx_queues :: "Platform \<Rightarrow> GenApplication \<Rightarrow> GenError + unit" where
  "check_tx_queues platform app =
     (let txQueues = tx_queues app;
          need = (ucast txQueues * ucast (GENERATOR_TX_DESC platform) + ucast txQueues * ucast (MEMPOOL_CACHE_SIZE platform) + of_nat BURST_SIZE :: u64)
      in if isR app \<and> need \<ge> ucast (GENERATOR_MBUF_NUM platform)
         then Inl (RuntimeError (''Too many TX cores ('' @ dec (unat txQueues) @ '') for the mempool: need '' @ dec (unat need)
           @ '' mbufs, have '' @ dec (unat (GENERATOR_MBUF_NUM platform))))
         else Inr ())"

subsection \<open>Choice of the job\<close>

text \<open>
  What the loops are started on: the generators, the type of an SV kind, and the plans of the burst mode.
  The L2 loops refuse an empty schedule or plan before they start; a worker of a routable kind checks
  its plan in its own thread, and its schedule not at all.
\<close>

datatype GenJob = NothingToSend
  | PacedGoose GooseTrafficGen | PacedSV SV_TYPE SVTrafficGen
  | PacedRGoose "RGooseTrafficGen list" | PacedRSV SV_TYPE "RSVTrafficGen list"
  | BurstGoose GooseTrafficGen "PacketDesc list" | BurstSV SV_TYPE SVTrafficGen "PacketDesc list"
  | BurstRGoose "RGooseTrafficGen list" "PacketDesc list list" | BurstRSV SV_TYPE "RSVTrafficGen list" "PacketDesc list list"

text \<open>The libraries and the hardware of a run.\<close>

record GenEnv =
  ge_platform :: Platform
  ge_lib :: Iec61850
  ge_crypto :: Crypto
  ge_ready :: bool
  ge_pool_ok :: bool
  ge_device :: Device
  ge_dev_start :: "u16 \<Rightarrow> int"
  ge_link :: "nat \<Rightarrow> string + bool"
  ge_descSocketID :: int

text \<open>A constructor as the factory of \<open>make_r_workers\<close>: an outcome \<open>None\<close> is the error \<open>None\<close>.\<close>

definition as_sum :: "('e + 'a) option \<Rightarrow> 'e option + 'a" where
  "as_sum x = (case x of None \<Rightarrow> Inl None | Some (Inl e) \<Rightarrow> Inl (Some e) | Some (Inr v) \<Rightarrow> Inr v)"

definition of_sum :: "'e option + 'a \<Rightarrow> ('e + 'a) option" where
  "of_sum x = (case x of Inl None \<Rightarrow> None | Inl (Some e) \<Rightarrow> Some (Inl e) | Inr v \<Rightarrow> Some (Inr v))"

definition r_goose_workers :: "GenEnv \<Rightarrow> GenApplication \<Rightarrow> (GenError + RGooseTrafficGen list) option" where
  "r_goose_workers env app = of_sum (make_r_workers (ga_workerNum app) (ga_rgooseNum app) (\<lambda>lo count.
     as_sum (RGooseTrafficGen_new (ge_lib env) (ge_crypto env) (ge_ready env) count (ga_rgooseSendFreq app) (ga_gooseEntries app) (ga_rframe app) lo)))"

definition r_sv_workers :: "GenEnv \<Rightarrow> GenApplication \<Rightarrow> u32 \<Rightarrow> SV_TYPE \<Rightarrow> (GenError + RSVTrafficGen list) option" where
  "r_sv_workers env app num type = of_sum (make_r_workers (ga_workerNum app) num (\<lambda>lo count.
     as_sum (RSVTrafficGen_new (ge_lib env) (ge_crypto env) (ge_ready env) count type (ga_rframe app) lo)))"

definition RunBurstCycles :: "GenEnv \<Rightarrow> GenApplication \<Rightarrow> (GenError + GenJob) option" where
  "RunBurstCycles env app =
     (if ga_gooseNum app > 0 then
        check (GooseTrafficGen_new (ge_lib env) (ga_gooseNum app) (ga_gooseSendFreq app) (ga_gooseEntries app)) (\<lambda>gen.
        let plan = make_burst_plan (ga_gooseNum app) (ga_gooseSendFreq app) in
        check (Some (CheckBurstFits (ge_platform env) (length plan) 1)) (\<lambda>_.
        check (Some (tx_burst_worker_entry plan gen {#})) (\<lambda>_. Some (Inr (BurstGoose gen plan)))))
      else if ga_sv80Num app > 0 \<or> ga_sv256Num app > 0 then
        let type = (if ga_sv80Num app > 0 then SV80 else SV256); num = (if ga_sv80Num app > 0 then ga_sv80Num app else ga_sv256Num app) in
        check (SVTrafficGen_new (ge_lib env) num type) (\<lambda>gen.
        let plan = make_burst_plan num (of_nat (length (sg_units gen))) in
        check (Some (CheckBurstFits (ge_platform env) (length plan) 1)) (\<lambda>_.
        check (Some (tx_burst_worker_entry plan gen {#})) (\<lambda>_. Some (Inr (BurstSV type gen plan)))))
      else if ga_rgooseNum app > 0 then
        check (r_goose_workers env app) (\<lambda>gens.
        let plans = make_r_burst_plans rg_units gens (ga_rgooseNum app) in
        check (Some (CheckBurstFits (ge_platform env) (total_burst plans) (ga_workerNum app))) (\<lambda>_. Some (Inr (BurstRGoose gens plans))))
      else if ga_rsv80Num app > 0 \<or> ga_rsv256Num app > 0 then
        let type = (if ga_rsv80Num app > 0 then SV80 else SV256); num = (if ga_rsv80Num app > 0 then ga_rsv80Num app else ga_rsv256Num app) in
        check (r_sv_workers env app num type) (\<lambda>gens.
        let plans = make_r_burst_plans rv_units gens num in
        check (Some (CheckBurstFits (ge_platform env) (total_burst plans) (ga_workerNum app))) (\<lambda>_. Some (Inr (BurstRSV type gens plans))))
      else Some (Inr NothingToSend))"

definition RunPacedCycles :: "GenEnv \<Rightarrow> GenApplication \<Rightarrow> (GenError + GenJob) option" where
  "RunPacedCycles env app =
     (if ga_gooseNum app > 0 then
        check (GooseTrafficGen_new (ge_lib env) (ga_gooseNum app) (ga_gooseSendFreq app) (ga_gooseEntries app)) (\<lambda>gen.
        check (Some (tx_packets_cycle_entry (gt_units gen) gen {#})) (\<lambda>_. Some (Inr (PacedGoose gen))))
      else if ga_sv80Num app > 0 then
        check (SVTrafficGen_new (ge_lib env) (ga_sv80Num app) SV80) (\<lambda>gen.
        check (Some (tx_packets_cycle_entry (sg_units gen) gen {#})) (\<lambda>_. Some (Inr (PacedSV SV80 gen))))
      else if ga_sv256Num app > 0 then
        check (SVTrafficGen_new (ge_lib env) (ga_sv256Num app) SV256) (\<lambda>gen.
        check (Some (tx_packets_cycle_entry (sg_units gen) gen {#})) (\<lambda>_. Some (Inr (PacedSV SV256 gen))))
      else if ga_rgooseNum app > 0 then check (r_goose_workers env app) (\<lambda>gens. Some (Inr (PacedRGoose gens)))
      else if ga_rsv80Num app > 0 then check (r_sv_workers env app (ga_rsv80Num app) SV80) (\<lambda>gens. Some (Inr (PacedRSV SV80 gens)))
      else if ga_rsv256Num app > 0 then check (r_sv_workers env app (ga_rsv256Num app) SV256) (\<lambda>gens. Some (Inr (PacedRSV SV256 gens)))
      else Some (Inr NothingToSend))"

text \<open>The port of a run.\<close>

definition gen_port :: "GenEnv \<Rightarrow> GenApplication \<Rightarrow> PortBuilder" where
  "gen_port env app = SetDescriptorSocketId (ge_descSocketID env)
     (SetDescriptors (ucast (GENERATOR_RX_DESC (ge_platform env))) (ucast (GENERATOR_TX_DESC (ge_platform env)))
     (AdjustQueues 1 (tx_queues app) (SetMemPool (PortBuilder_new 0))))"

definition as_error :: "string + 'a \<Rightarrow> GenError + 'a" where "as_error = map_sum RuntimeError id"

definition gen_Run :: "GenEnv \<Rightarrow> GenApplication \<Rightarrow> (GenError + GenJob \<times> GenApplication) option" where
  "gen_Run env app =
     (if \<not> ge_pool_ok env then Some (Inl (RuntimeError ''Mempool creation failed: bus_gen_pool''))
      else check (Some (check_tx_queues (ge_platform env) app)) (\<lambda>_.
        check (Some (as_error (snd (Build (ge_device env) (gen_port env app))))) (\<lambda>port :: unit Port.
        check (Some (as_error (Port_Start (ge_dev_start env) port))) (\<lambda>port.
        check (Some (as_error (WaitLink (ge_link env) 60))) (\<lambda>up.
        if \<not> up then Some (Inl (RuntimeError ''Link is still down after 60 sec...''))
        else let app = gen_MarkRunStarted app in
          check (if ga_burst app then RunBurstCycles env app else RunPacedCycles env app) (\<lambda>job. Some (Inr (job, app))))))))"

subsection \<open>Workers of the routable modes\<close>

text \<open>
  The workers started by \<open>run_r_workers\<close>, one per worker core and as long as there are workers left;
  worker 0 runs on the main core. All of them wait at a barrier for as many threads as there are workers.
\<close>

primrec launched :: "nat \<Rightarrow> nat \<Rightarrow> nat \<Rightarrow> nat list" where
  "launched workers 0 w = []"
| "launched workers (Suc cores) w = (if w \<ge> workers then [] else w # launched workers cores (Suc w))"

definition run_r_workers :: "nat \<Rightarrow> nat \<Rightarrow> nat list" where
  "run_r_workers lcore_count workers = 0 # launched workers (lcore_count - 1) 1"

definition barrier_passes :: "nat \<Rightarrow> nat list \<Rightarrow> bool" where
  "barrier_passes workers threads \<longleftrightarrow> length threads = workers"

text \<open>
  The workers share the pool: a worker's step is a step of its loop with the free buffers of the pool.
  Each worker sees the stop flag in its own time.
\<close>

record 'g RWorkers =
  rw_free :: "bytes multiset"
  rw_loops :: "'g TxLoop list"

definition workers_start :: "'g list \<Rightarrow> bytes multiset \<Rightarrow> 'g RWorkers" where
  "workers_start gens pool = \<lparr> rw_free = pool, rw_loops = map (\<lambda>g. tx_start g {#}) gens \<rparr>"

inductive workers_step :: "'g amend \<Rightarrow> TxUnit list list \<Rightarrow> 'g RWorkers \<Rightarrow> 'g RWorkers \<Rightarrow> bool" for amend units where
  worker: "workers_step amend units s \<lparr> rw_free = tl_free l, rw_loops = (rw_loops s)[w := l\<lparr> tl_free := {#} \<rparr>] \<rparr>"
    if "w < length (rw_loops s)" and "tx_step amend (units ! w) ((rw_loops s ! w)\<lparr> tl_free := rw_free s \<rparr>) l"

inductive workers_run :: "'g amend \<Rightarrow> TxUnit list list \<Rightarrow> 'g RWorkers \<Rightarrow> 'g RWorkers \<Rightarrow> bool" for amend units s0 where
  start: "workers_run amend units s0 s0"
| step: "workers_run amend units s0 s \<Longrightarrow> workers_step amend units s s' \<Longrightarrow> workers_run amend units s0 s'"

text \<open>The bursts of several workers, in the same way.\<close>

record 'g RBursts =
  rb_free :: "bytes multiset"
  rb_loops :: "'g BurstLoop list"

definition bursts_start :: "'g list \<Rightarrow> bytes multiset \<Rightarrow> 'g RBursts" where
  "bursts_start gens pool = \<lparr> rb_free = pool, rb_loops = map (\<lambda>g. burst_start g {#}) gens \<rparr>"

inductive bursts_step :: "'g amend \<Rightarrow> PacketDesc list list \<Rightarrow> 'g RBursts \<Rightarrow> 'g RBursts \<Rightarrow> bool" for amend plans where
  worker: "bursts_step amend plans s \<lparr> rb_free = bl_free l, rb_loops = (rb_loops s)[w := l\<lparr> bl_free := {#} \<rparr>] \<rparr>"
    if "w < length (rb_loops s)" and "burst_step amend (plans ! w) ((rb_loops s ! w)\<lparr> bl_free := rb_free s \<rparr>) l"

inductive bursts_run :: "'g amend \<Rightarrow> PacketDesc list list \<Rightarrow> 'g RBursts \<Rightarrow> 'g RBursts \<Rightarrow> bool" for amend plans s0 where
  start: "bursts_run amend plans s0 s0"
| step: "bursts_run amend plans s0 s \<Longrightarrow> bursts_step amend plans s s' \<Longrightarrow> bursts_run amend plans s0 s'"

subsection \<open>Pacing\<close>

text \<open>
  The end of a round of the paced loops: the next unit, the start of the current second and the number of
  the next clock reading. A round may read the clock any number of times before.
\<close>

definition pace :: "(nat \<Rightarrow> u64) \<Rightarrow> u64 \<Rightarrow> TxUnit list \<Rightarrow> nat \<times> u64 \<times> nat \<Rightarrow> (nat \<times> u64 \<times> nat) option" where
  "pace clk hz txUnits s = (case s of (txUnitIdx, secStartTick, k) \<Rightarrow>
     let txUnitIdx = (txUnitIdx + 1) mod length txUnits in
     if txUnitIdx = 0 then do {
       (secStartTick, k) \<leftarrow> delay_until_ticks clk (secStartTick + hz) k;
       Some (txUnitIdx, secStartTick, k) }
     else do {
       (_, k) \<leftarrow> delay_until_ticks clk (secStartTick + delay_us_to_ticks hz (offsetUS (txUnits ! txUnitIdx))) k;
       Some (txUnitIdx, secStartTick, k) })"

inductive paced :: "(nat \<Rightarrow> u64) \<Rightarrow> u64 \<Rightarrow> TxUnit list \<Rightarrow> u64 \<Rightarrow> nat \<Rightarrow> nat \<Rightarrow> nat \<times> u64 \<times> nat \<Rightarrow> bool" for clk hz txUnits startTick k0 where
  start: "paced clk hz txUnits startTick k0 0 (0, startTick, k0)"
| round: "paced clk hz txUnits startTick k0 n (txUnitIdx, secStartTick, k) \<Longrightarrow> k \<le> k' \<Longrightarrow>
    pace clk hz txUnits (txUnitIdx, secStartTick, k') = Some s \<Longrightarrow> paced clk hz txUnits startTick k0 (Suc n) s"

subsection \<open>Accounts of the workers\<close>

lemma sum_map_update:
  fixes f :: "'a \<Rightarrow> nat"
  shows "i < length xs \<Longrightarrow> sum_list (map f (xs[i := x])) + f (xs ! i) = sum_list (map f xs) + f x"
  by (induction xs arbitrary: i) (auto split: nat.splits)

lemma counts_of_free [simp]:
  "tx_counts (l\<lparr> tl_free := M \<rparr>) = tx_counts l" "burst_counts plan (bl\<lparr> bl_free := M \<rparr>) = burst_counts plan bl"
  "unsent (bl\<lparr> bl_free := M \<rparr>) = unsent bl"
  by (simp_all add: tx_counts_def burst_counts_def unsent_def)

definition workers_flight :: "'g RWorkers \<Rightarrow> nat" where
  "workers_flight s = sum_list (map (\<lambda>l. size (tl_flight l)) (rw_loops s))"

lemma workers_account:
  assumes "workers_run amend units (workers_start gens M) s"
  shows "length (rw_loops s) = length gens \<and> (\<forall>l \<in> set (rw_loops s). tx_counts l) \<and> size (rw_free s) + workers_flight s = size M"
  using assms
proof induction
  case start
  show ?case by (auto simp: workers_start_def workers_flight_def o_def)
next
  case (step s s')
  from step.hyps(2) show ?case
  proof cases
    case (worker w l)
    have "tx_counts (rw_loops s ! w)" using step.IH worker(2) by simp
    then have l: "tx_counts l" "size (tl_free l) + size (tl_flight l) = size (rw_free s) + size (tl_flight (rw_loops s ! w))"
      using tx_step_counts [OF worker(3)] by simp_all
    have "workers_flight s' + size (tl_flight (rw_loops s ! w)) = workers_flight s + size (tl_flight l)"
      unfolding worker(1) workers_flight_def using sum_map_update [OF worker(2), of "\<lambda>l. size (tl_flight l)" "l\<lparr> tl_free := {#} \<rparr>"] by simp
    then show ?thesis using step.IH l unfolding worker(1) by (auto dest!: set_update_subset_insert [THEN subsetD])
  qed
qed

definition bursts_flight :: "'g RBursts \<Rightarrow> nat" where
  "bursts_flight s = sum_list (map (\<lambda>l. size (bl_flight l)) (rb_loops s))"

definition bursts_staged :: "'g RBursts \<Rightarrow> nat" where
  "bursts_staged s = sum_list (map (\<lambda>l. length (unsent l)) (rb_loops s))"

lemma bursts_account:
  assumes "bursts_run amend plans (bursts_start gens M) s"
  shows "length (rb_loops s) = length gens \<and> (\<forall>w < length gens. burst_counts (plans ! w) (rb_loops s ! w)) \<and>
    size (rb_free s) + bursts_flight s + bursts_staged s = size M"
  using assms
proof induction
  case start
  show ?case by (auto simp: bursts_start_def bursts_flight_def bursts_staged_def o_def)
next
  case (step s s')
  from step.hyps(2) show ?case
  proof cases
    case (worker w l)
    have "burst_counts (plans ! w) (rb_loops s ! w)" using step.IH worker(2) by simp
    then have l: "burst_counts (plans ! w) l"
      "size (bl_free l) + size (bl_flight l) + length (unsent l) = size (rb_free s) + size (bl_flight (rb_loops s ! w)) + length (unsent (rb_loops s ! w))"
      using burst_step_counts [OF worker(3)] by simp_all
    note upd = sum_map_update [OF worker(2), of _ "l\<lparr> bl_free := {#} \<rparr>"]
    have "bursts_flight s' + size (bl_flight (rb_loops s ! w)) = bursts_flight s + size (bl_flight l)"
      "bursts_staged s' + length (unsent (rb_loops s ! w)) = bursts_staged s + length (unsent l)"
      unfolding worker(1) bursts_flight_def bursts_staged_def
      using upd [of "\<lambda>l. size (bl_flight l)"] upd [of "\<lambda>l. length (unsent l)"] by simp_all
    then show ?thesis using step.IH l worker(2) unfolding worker(1) by (auto simp: nth_list_update)
  qed
qed

lemma sum_list_le_const: "(\<forall>x \<in> set xs. f x \<le> (b :: nat)) \<Longrightarrow> sum_list (map f xs) \<le> length xs * b"
  by (induction xs) auto

lemma flight_bounded:
  assumes "\<forall>l \<in> set (rw_loops s). size (tl_flight l) \<le> b"
  shows "workers_flight s \<le> length (rw_loops s) * b"
  using assms unfolding workers_flight_def by (rule sum_list_le_const)

subsection \<open>Well-formed configurations\<close>

text \<open>
  What the constructor guarantees: there is a worker with its statistics, no more of them than cores and,
  for a routable kind, no more than streams; a GOOSE message has an entry.
\<close>

definition gen_app_ok :: "u32 \<Rightarrow> GenApplication \<Rightarrow> bool" where
  "gen_app_ok lcore_count app \<longleftrightarrow> 1 \<le> ga_workerNum app \<and> ga_workerNum app \<le> lcore_count \<and>
     length (ga_stats app) = unat (ga_workerNum app) \<and> (\<forall>st \<in> set (ga_stats app). GenAppStat.truncate st = GenAppStat_init) \<and>
     (isR app \<longrightarrow> ga_workerNum app \<le> r_streams app) \<and> (\<not> isR app \<longrightarrow> ga_workerNum app = 1) \<and>
     1 \<le> ga_gooseEntries app \<and> \<not> ga_runStarted app"

lemma check_Inr: "check x f = Some (Inr r) \<longleftrightarrow> (\<exists>v. x = Some (Inr v) \<and> f v = Some (Inr r))"
  by (auto simp: check_def split: option.splits sum.splits)

lemma isR_iff: "isR app \<longleftrightarrow> r_streams app > 0"
  by (auto simp: isR_def r_streams_def Let_def word_gt_0)

lemma r_streams_upd [simp]:
  "r_streams (app\<lparr> ga_workerNum := n \<rparr>) = r_streams app" "r_streams (app\<lparr> ga_stats := xs \<rparr>) = r_streams app"
  by (simp_all add: r_streams_def)

lemma gt_zero_iff_ge_one: "(0 :: u32) < x \<longleftrightarrow> 1 \<le> x"
  by (simp add: word_less_nat_alt word_le_nat_alt Suc_le_eq)

lemma set_workers_ok:
  assumes "1 \<le> lcore_count" and "ga_workerNum app = 1" and "1 \<le> ga_gooseEntries app" and "\<not> ga_runStarted app"
  shows "gen_app_ok lcore_count (set_workers lcore_count hz app)"
  using assms
  by (auto simp: gen_app_ok_def set_workers_def Let_def isR_iff gt_zero_iff_ge_one GenAppStat.truncate_def GenAppStat.extend_def
      GenAppStat_init_def GenWorkerStat.fields_def min_def)

lemma launched_all: "w \<le> workers \<Longrightarrow> workers - w \<le> cores \<Longrightarrow> launched workers cores w = [w..<workers]"
  by (induction cores arbitrary: w) (auto simp: upt_conv_Cons)

lemma run_r_workers_all: "1 \<le> workers \<Longrightarrow> workers \<le> lcores \<Longrightarrow> run_r_workers lcores workers = [0..<workers]"
  using launched_all [of 1 workers "lcores - 1"] by (simp add: run_r_workers_def upt_conv_Cons)

subsection \<open>Pacing and time limit\<close>

lemma unat_add_small: "unat (a :: u64) + unat b < 2 ^ 64 \<Longrightarrow> unat (a + b) = unat a + unat b"
  by (intro unat_add_lem [THEN iffD1]) simp

lemma unat_delay_ticks:
  assumes "unat us < 1000000" and "unat hz < 2 ^ 43"
  shows "unat (delay_us_to_ticks hz us) = unat us * unat hz div 1000000" and "unat us * unat hz div 1000000 \<le> unat hz"
proof -
  have "unat us * unat hz < 1000000 * 2 ^ 43" using assms by (intro mult_strict_mono) auto
  then have "unat (us * hz) = unat us * unat hz" by (intro unat_mult_lem [THEN iffD1]) simp
  then show "unat (delay_us_to_ticks hz us) = unat us * unat hz div 1000000"
    by (simp add: delay_us_to_ticks_def unat_div_distrib)
  have "unat us * unat hz \<le> 1000000 * unat hz" using assms(1) by (intro mult_right_mono) auto
  then show "unat us * unat hz div 1000000 \<le> unat hz" by (metis div_le_mono nonzero_mult_div_cancel_left zero_neq_numeral)
qed

text \<open>The tick at which a unit of the schedule is due, \<open>n\<close> units after the start.\<close>

definition due :: "u64 \<Rightarrow> TxUnit list \<Rightarrow> u64 \<Rightarrow> nat \<Rightarrow> nat" where
  "due hz units startTick n = unat startTick + n div length units * unat hz + unat (offsetUS (units ! (n mod length units))) * unat hz div 1000000"

lemma pace_step:
  assumes "pace clk hz units (n mod length units, sec, k) = Some s" and "units \<noteq> []" and "unat hz < 2 ^ 43"
    and "\<forall>m. unat (clk m) + 2 * unat hz < 2 ^ 64" and "unat sec + 2 * unat hz < 2 ^ 64"
    and "\<forall>u \<in> set units. offsetUS u < 1000000" and "unat startTick + n div length units * unat hz \<le> unat sec"
    and "offsetUS (units ! 0) = 0"
  obtains sec' m where "s = (Suc n mod length units, sec', Suc m)" and "k \<le> m" and "unat sec' + 2 * unat hz < 2 ^ 64"
    and "unat startTick + Suc n div length units * unat hz \<le> unat sec'" and "due hz units startTick (Suc n) \<le> unat (clk m)"
proof (cases "Suc n mod length units = 0")
  case True
  obtain t m where m: "s = (0, t, Suc m)" "k \<le> m" "t = clk m" "sec + hz \<le> t"
    using assms(1) True by (auto simp: pace_def mod_Suc_eq Let_def bind_eq_Some_conv delay_until_ticks_iff)
  have "Suc n div length units = Suc (n div length units)" using True by (simp add: div_Suc)
  moreover have "unat (sec + hz) = unat sec + unat hz" using assms(5) by (intro unat_add_small) simp
  ultimately have "unat startTick + Suc n div length units * unat hz \<le> unat t" using m(4) assms(7) by (simp add: word_le_nat_alt)
  then show ?thesis using that [of t m] m assms(4,8) True by (simp add: due_def)
next
  case False
  let ?i = "Suc n mod length units"
  have u: "offsetUS (units ! ?i) < 1000000" using assms(2,6) by simp
  note ticks = unat_delay_ticks [OF _ assms(3), of "offsetUS (units ! ?i)"]
  obtain m where m: "s = (?i, sec, Suc m)" "k \<le> m" "sec + delay_us_to_ticks hz (offsetUS (units ! ?i)) \<le> clk m"
    using assms(1) False by (auto simp: pace_def mod_Suc_eq Let_def bind_eq_Some_conv delay_until_ticks_iff)
  have "Suc n div length units = n div length units" using False by (simp add: div_Suc)
  moreover have "unat (sec + delay_us_to_ticks hz (offsetUS (units ! ?i))) = unat sec + unat (offsetUS (units ! ?i)) * unat hz div 1000000"
    using ticks u assms(5) by (subst unat_add_small) (simp_all add: word_less_nat_alt)
  ultimately show ?thesis using that [of sec m] m assms(5,7) by (simp add: due_def word_le_nat_alt)
qed

lemma paced_due:
  assumes "paced clk hz units startTick k0 n s" and "units \<noteq> []" and "unat hz < 2 ^ 43" and "\<forall>m. unat (clk m) + 2 * unat hz < 2 ^ 64"
    and "unat startTick + 2 * unat hz < 2 ^ 64" and "\<forall>u \<in> set units. offsetUS u < 1000000" and "offsetUS (units ! 0) = 0"
  shows "\<exists>sec k. s = (n mod length units, sec, k) \<and> k0 \<le> k \<and> unat sec + 2 * unat hz < 2 ^ 64 \<and>
    unat startTick + n div length units * unat hz \<le> unat sec \<and> (0 < n \<longrightarrow> k0 < k \<and> due hz units startTick n \<le> unat (clk (k - 1)))"
  using assms(1)
proof induction
  case start
  then show ?case using assms(5) by simp
next
  case (round n idx sec k k' s)
  from round.IH have idx: "idx = n mod length units" and inv: "k0 \<le> k" "unat sec + 2 * unat hz < 2 ^ 64"
    "unat startTick + n div length units * unat hz \<le> unat sec" by auto
  obtain sec' m where "s = (Suc n mod length units, sec', Suc m)" "k' \<le> m" "unat sec' + 2 * unat hz < 2 ^ 64"
    "unat startTick + Suc n div length units * unat hz \<le> unat sec'" "due hz units startTick (Suc n) \<le> unat (clk m)"
    using pace_step [OF round.hyps(3) [unfolded idx] assms(2-4) inv(2) assms(6) inv(3) assms(7)] by blast
  then show ?case using inv(1) round.hyps(2) by auto
qed

lemma gen_timer_turn:
  assumes "ga_runStarted app"
  shows "gen_auxiliary_step (False, Some port) (app, w) =
    (let app' = app\<lparr> ga_lastPortStat := port, ga_statDisplaySec := ga_statDisplaySec app + 3 \<rparr>
     in Some (app', if gen_IsTimeExpired app' then False else w))"
  using assms by (simp add: gen_auxiliary_step_def gen_DisplayStatistic_def Let_def)

lemma gen_thread_time:
  assumes "ga_runStarted app" and "unat (ga_runTimeSec app) < 2 ^ 32 - 3"
    and "ga_runTimeSec app = 0 \<or> unat (ga_statDisplaySec app) < unat (ga_runTimeSec app)"
  shows "\<exists>app'. gen_auxiliary_thread (map (\<lambda>p. (False, Some p)) ports) (app, True) =
    Some (app', ga_runTimeSec app = 0 \<or> unat (ga_statDisplaySec app) + 3 * length ports < unat (ga_runTimeSec app))"
  using assms
proof (induction ports arbitrary: app)
  case (Cons p ports)
  let ?app = "app\<lparr> ga_lastPortStat := p, ga_statDisplaySec := ga_statDisplaySec app + 3 \<rparr>"
  note step = gen_timer_turn [OF Cons.prems(1), of p True, unfolded Let_def]
  show ?case
  proof (cases "ga_runTimeSec app = 0")
    case True
    then show ?thesis using Cons.IH [of ?app] Cons.prems step by (simp add: gen_IsTimeExpired_def)
  next
    case False
    then have t: "0 < ga_runTimeSec app" by (simp add: word_gt_0)
    have sum: "unat (ga_statDisplaySec app + 3) = unat (ga_statDisplaySec app) + 3"
      using Cons.prems(2,3) False unat_add_lem [of "ga_statDisplaySec app" 3] by simp
    show ?thesis
    proof (cases "ga_runTimeSec app \<le> ga_statDisplaySec app + 3")
      case True
      then show ?thesis using step t sum by (simp add: gen_IsTimeExpired_def word_le_nat_alt)
    next
      case late: False
      then have "unat (ga_statDisplaySec ?app) < unat (ga_runTimeSec ?app)" by (simp add: word_le_nat_alt)
      then show ?thesis using Cons.IH [of ?app] Cons.prems(1,2) step sum late False by (simp add: gen_IsTimeExpired_def algebra_simps)
    qed
  qed
qed simp

subsection \<open>Pool sizes\<close>

lemma need_nat:
  fixes q :: "'a :: len word" and d c :: u32
  assumes "unat q < 65536" and "n < 2 ^ 63"
  shows "unat (of_nat n + ucast q * ucast d + ucast q * ucast c :: u64) = n + unat q * unat d + unat q * unat c"
proof -
  have d: "unat q * unat d < 65536 * 2 ^ 32" "unat q * unat c < 65536 * 2 ^ 32"
    by (intro mult_strict_mono; use assms(1) unat_u32_less [of d] unat_u32_less [of c] in simp)+
  have u: "unat (ucast q :: u64) = unat q" "unat (ucast d :: u64) = unat d" "unat (ucast c :: u64) = unat c"
    using assms(1) unat_u32_less [of d] unat_u32_less [of c] by (simp_all add: unsigned_ucast_eq take_bit_nat_eq_self_iff)
  have "n + unat q * unat d + unat q * unat c < 2 ^ 64" using d assms(2) by simp
  then have "unat (of_nat (n + unat q * unat d + unat q * unat c) :: u64) = n + unat q * unat d + unat q * unat c"
    by (intro unat_of_nat_small) simp
  moreover have "(of_nat (n + unat q * unat d + unat q * unat c) :: u64) = of_nat n + ucast q * ucast d + ucast q * ucast c"
    using word_of_unat [of "ucast q :: u64"] word_of_unat [of "ucast d :: u64"] word_of_unat [of "ucast c :: u64"] by (simp add: u)
  ultimately show ?thesis by simp
qed

lemma unat_u32_u64 [simp]: "unat (ucast (x :: u32) :: u64) = unat x"
  using unat_u32_less [of x] by (simp add: unsigned_ucast_eq take_bit_nat_eq_self_iff)

lemma total_burst_sum: "total_burst plans = sum_list (map length plans)"
proof -
  have "fold (\<lambda>p n. n + length p) plans k = k + sum_list (map length plans)" for k
    by (induction plans arbitrary: k) auto
  then show ?thesis by (simp add: total_burst_def)
qed

lemma sum_list_slack:
  assumes "length xs = length ys" and "\<forall>i < length xs. xs ! i \<le> (ys ! i :: nat)" and "w < length xs"
  shows "sum_list xs + (ys ! w - xs ! w) \<le> sum_list ys"
  using assms
proof (induction xs ys arbitrary: w rule: list_induct2)
  case (Cons x xs y ys)
  have le: "x \<le> y" "\<forall>i < length xs. xs ! i \<le> ys ! i" using Cons.prems(1) by auto
  have "sum_list xs \<le> sum_list ys" using le(2) Cons.hyps by (metis sum_list_mono2)
  then show ?case using Cons.IH [OF le(2), of "w - 1"] Cons.prems(2) le(1) by (cases w) auto
qed simp

lemma given_keeps: "(\<And>v s. sel (f v s) = sel s) \<Longrightarrow> sel (given x f s) = sel s"
  by (simp add: given_def split: option.split)

lemmas given_gen [simp] = given_keeps [where sel = ga_workerNum] given_keeps [where sel = ga_runStarted] given_keeps [where sel = ga_gooseEntries]

lemma given_entries:
  "x \<noteq> Some 0 \<Longrightarrow> 1 \<le> ga_gooseEntries s \<Longrightarrow> 1 \<le> ga_gooseEntries (given x (\<lambda>n. ga_gooseEntries_update (\<lambda>_. n)) s)"
  by (auto simp: given_def gt_zero_iff_ge_one [symmetric] word_gt_0 split: option.split)

lemma GenApplication_new_ok:
  assumes "GenApplication_new lcore_count hz result = Some (Inr app)"
  obtains app0 where "app = set_workers lcore_count hz app0" "ga_workerNum app0 = 1" "1 \<le> ga_gooseEntries app0" "\<not> ga_runStarted app0"
proof -
  have init: "ga_workerNum GenApplication_init = 1" "ga_gooseEntries GenApplication_init = 16" "\<not> ga_runStarted GenApplication_init"
    by (simp_all add: GenApplication_init_def)
  have "\<exists>app0. app = set_workers lcore_count hz app0 \<and> ga_workerNum app0 = 1 \<and> 1 \<le> ga_gooseEntries app0 \<and> \<not> ga_runStarted app0"
    using assms unfolding GenApplication_new_def
    apply (clarsimp simp: check_Inr Let_def split: if_splits)
    apply (intro exI conjI, rule refl)
    apply (simp_all add: init given_entries)
    done
  then show ?thesis using that by blast
qed

subsection \<open>Properties\<close>

text \<open>
  C32: a configuration that the constructor accepts is well formed (\<open>gen_app_ok\<close>): each worker has its
  statistics, all zero, the number of workers is at least one and at most the number of cores and, for
  a routable kind, of streams. So all workers are started, the barrier they wait at lets them pass, and
  none of them has an empty slice of the streams.
\<close>

theorem gen_config_ok:
  assumes "1 \<le> lcore_count" and "GenApplication_new lcore_count hz result = Some (Inr app)"
  shows "gen_app_ok lcore_count app \<and>
    run_r_workers (unat lcore_count) (unat (ga_workerNum app)) = [0..<unat (ga_workerNum app)] \<and>
    barrier_passes (unat (ga_workerNum app)) (run_r_workers (unat lcore_count) (unat (ga_workerNum app))) \<and>
    (isR app \<longrightarrow> (\<forall>w < unat (ga_workerNum app). case ied_slice (r_streams app) (ga_workerNum app) (of_nat w) of (lo, hi) \<Rightarrow> lo < hi))"
proof -
  obtain app0 where app: "app = set_workers lcore_count hz app0" "ga_workerNum app0 = 1" "1 \<le> ga_gooseEntries app0" "\<not> ga_runStarted app0"
    using assms(2) by (rule GenApplication_new_ok)
  then have ok: "gen_app_ok lcore_count app" using set_workers_ok [OF assms(1)] by simp
  then have w: "1 \<le> unat (ga_workerNum app)" "unat (ga_workerNum app) \<le> unat lcore_count"
    by (simp_all add: gen_app_ok_def word_le_nat_alt)
  have "lo < hi" if "isR app" "w < unat (ga_workerNum app)" "ied_slice (r_streams app) (ga_workerNum app) (of_nat w) = (lo, hi)" for w lo hi
  proof -
    have "unat (ga_workerNum app) \<le> unat (r_streams app)" using ok that(1) by (simp add: gen_app_ok_def word_le_nat_alt)
    then have "0 < unat (r_streams app) div unat (ga_workerNum app)" using w(1) by (simp add: div_greater_zero_iff)
    then have "slice_start (unat (r_streams app)) (unat (ga_workerNum app)) w < slice_start (unat (r_streams app)) (unat (ga_workerNum app)) (Suc w)"
      by (auto simp: slice_start_def min_def)
    then show ?thesis using unat_slice [OF that(2), of "r_streams app"] that(3) by (simp add: word_less_nat_alt)
  qed
  then show ?thesis using ok run_r_workers_all [OF w] w by (auto simp: barrier_passes_def split: prod.splits)
qed

definition sample_options :: GenOptions where
  "sample_options = \<lparr> go_help = False, go_goose = None, go_sv80 = None, go_sv256 = None, go_rgoose = Some [10, 4], go_rsv80 = None,
     go_rsv256 = None, go_r_mode = Some ''hmac'', go_dst_ip = None, go_src_ip = None, go_goose_entries = None, go_burst = False, go_time = Some 60 \<rparr>"

definition sample_app :: GenApplication where
  "sample_app = set_workers 4 1000 (GenApplication_init\<lparr> ga_rgooseNum := 10, ga_rgooseSendFreq := 4,
     ga_rframe := RFrameConfig_init\<lparr> rf_mode := SEC_HMAC \<rparr>, ga_runTimeSec := 60 \<rparr>)"

lemma sample_app_new: "GenApplication_new 4 1000 sample_options = Some (Inr sample_app)"
  by (simp add: GenApplication_new_def sample_options_def sample_app_def check_def num_and_freq_def mode_option_def ip_option_def given_def
      parse_security_mode_def GenApplication_init_def RFrameConfig_init_def)

theorem gen_config_ok_witness: "gen_app_ok 4 sample_app \<and> run_r_workers 4 4 = [0..<4] \<and> barrier_passes 4 (run_r_workers 4 4)"
proof -
  have "ga_workerNum sample_app = 4"
    by (simp add: sample_app_def set_workers_def r_streams_def GenApplication_init_def Let_def min_def)
  then show ?thesis using gen_config_ok [OF _ sample_app_new] by (simp add: barrier_passes_def)
qed





text \<open>
  C35: nothing leaves early. Let the tick counter stay two seconds below its overflow and the timer run
  slower than \<open>2^43\<close> Hz. After any number of rounds of a paced loop, however long each of them took, the
  loop is at the unit that follows in the schedule, and the clock reading that released it is not
  before the tick at which that unit is due: whole seconds since the start plus the unit's offset. Lost
  time is not made up by sending faster.
\<close>

theorem units_never_early:
  assumes "paced clk hz units startTick k0 n (txUnitIdx, secStartTick, k)" and "0 < n" and "units \<noteq> []" and "unat hz < 2 ^ 43"
    and "\<forall>m. unat (clk m) + 2 * unat hz < 2 ^ 64" and "unat startTick + 2 * unat hz < 2 ^ 64"
    and "\<forall>u \<in> set units. offsetUS u < 1000000" and "offsetUS (units ! 0) = 0"
  shows "txUnitIdx = n mod length units \<and> k0 < k \<and>
    unat startTick + n div length units * unat hz + unat (offsetUS (units ! txUnitIdx)) * unat hz div 1000000 \<le> unat (clk (k - 1))"
  using paced_due [OF assms(1,3-8)] assms(2) by (auto simp: due_def)

text \<open>Two units per second, a timer of 1000 Hz whose counter rises by 300 per reading: the second unit.\<close>

definition slow_clock :: "nat \<Rightarrow> u64" where "slow_clock k = of_nat (min (300 * k) 6000)"

lemma slow_clock_units: "GenerateTxUnits 1 2 = [\<lparr> offsetUS = 0, blocks = unit_blocks 32 1 \<rparr>, \<lparr> offsetUS = 500000, blocks = unit_blocks 32 1 \<rparr>]"
  by (simp add: GenerateTxUnits_def upt_rec)

lemma slow_clock_paced: "paced slow_clock 1000 (GenerateTxUnits 1 2) 0 0 1 (1, 0, 3)"
proof -
  have "delay_until_ticks slow_clock 500 0 = Some (600, 3)"
    unfolding delay_until_ticks_iff
  proof (intro exI [of _ 2] conjI allI impI)
    fix m assume "0 \<le> m \<and> m < (2 :: nat)"
    then have "m = 0 \<or> m = 1" by auto
    then show "slow_clock m < 500" by (auto simp: slow_clock_def)
  qed (simp_all add: slow_clock_def)
  then have "pace slow_clock 1000 (GenerateTxUnits 1 2) (0, 0, 0) = Some (1, 0, 3)"
    by (simp add: pace_def slow_clock_units delay_us_to_ticks_def)
  then show ?thesis using paced.round [OF paced.start, of 0 0] by simp
qed

theorem units_never_early_witness: "(0 :: nat) + 1 div 2 * 1000 + 500000 * 1000 div 1000000 \<le> unat (slow_clock 2)"
proof -
  have "\<forall>m. unat (slow_clock m) + 2 * unat (1000 :: u64) < 2 ^ 64"
  proof
    fix m
    have "unat (slow_clock m) = min (300 * m) 6000" unfolding slow_clock_def by (intro unat_of_nat_small) simp
    then show "unat (slow_clock m) + 2 * unat (1000 :: u64) < 2 ^ 64" by simp
  qed
  then show ?thesis using units_never_early [OF slow_clock_paced] by (simp add: slow_clock_units)
qed

text \<open>
  The time limit. With the run started and no signal, the auxiliary thread clears the stop flag at the
  first tick of its three-second timer at which the limit has passed, and never without a limit.
\<close>

theorem gen_time_limit:
  assumes "ga_runStarted app" and "ga_statDisplaySec app = 0" and "unat (ga_runTimeSec app) < 2 ^ 32 - 3"
  shows "\<exists>app'. gen_auxiliary_thread (map (\<lambda>p. (False, Some p)) ports) (app, True) =
    Some (app', ga_runTimeSec app = 0 \<or> 3 * length ports < unat (ga_runTimeSec app))"
  using gen_thread_time [OF assms(1,3), of ports] assms(2) by (simp add: unat_gt_0)

theorem gen_time_limit_witness:
  "\<exists>app'. gen_auxiliary_thread (map (\<lambda>p. (False, Some p)) (replicate 20 EthStats_init)) (gen_MarkRunStarted sample_app, True) = Some (app', False)"
proof -
  have "ga_runTimeSec (gen_MarkRunStarted sample_app) = 60" "ga_statDisplaySec (gen_MarkRunStarted sample_app) = 0" "ga_runStarted (gen_MarkRunStarted sample_app)"
    by (simp_all add: gen_MarkRunStarted_def sample_app_def set_workers_def GenApplication_init_def Let_def)
  then show ?thesis using gen_time_limit [of "gen_MarkRunStarted sample_app" "replicate 20 EthStats_init"] by simp
qed

end
