(* ===== verification/Summary.thy ===== *)
theory Summary
  imports RX_App Gen_App "HOL-Library.Sublist"
begin

text \<open>
  The machine-readable summaries: what \<open>DisplayResults\<close> of \<open>src/bus_processor/rx_application.cpp\<close> and of
  \<open>src/bus_generator/gen_application.cpp\<close> print at the end of a run, and \<open>summary_field\<close> of \<open>deploy/common/result_parser.sh\<close>, which
  reads a value back from the log. A comment in the source asks to keep the two in step; here the reader returns
  every value that the printer wrote, whatever the log says before.
\<close>

section \<open>Summaries of a run and their reader\<close>

subsection \<open>Printing\<close>

abbreviation (input) tab :: string where "tab \<equiv> [CHR 0x09]"
abbreviation (input) newline :: string where "newline \<equiv> [CHR 0x0A]"

definition num :: "'a :: len word \<Rightarrow> string" where "num w = dec (unat w)"

text \<open>A line of the summary: a label and items \<open>key=value\<close>, with tabulators in front of each.\<close>

definition summary_line :: "string \<Rightarrow> (string \<times> string) list \<Rightarrow> string" where
  "summary_line label items = tab @ label @ concat (map (\<lambda>(key, value). tab @ key @ ''='' @ value) items) @ newline"

definition proc_lines :: "RX_Application \<Rightarrow> (string \<times> (string \<times> string) list) list" where
  "proc_lines app = (case DisplayResults app of ((gooseErrSeq, gooseErrSpdu), (svErrSeq, svErrSpdu)) \<Rightarrow>
     [(''Received      '', [(''goose_total'', num (m_rxGoosePktCnt app)), (''sv_total'', num (m_rxSVPktCnt app))]),
      (''Parse errors  '', [(''goose_parse_err'', num (m_errGooseParserCnt app)), (''sv_parse_err'', num (m_errSVParserCnt app))]),
      (''Unknown APPID '', [(''goose_unknown'', num (m_rxUnknownGooseCnt app)), (''sv_unknown'', num (m_rxUnknownSVCnt app))]),
      (''Security      '', [(''auth_fail'', num (m_errAuthCnt app))]),
      (''Stream gaps   '', [(''goose_err_seq'', num gooseErrSeq), (''sv_err_smp'', num svErrSeq)]),
      (''SPDU gaps     '', [(''goose_err_spdu'', num gooseErrSpdu), (''sv_err_spdu'', num svErrSpdu)]),
      (''Worker ring   '', [(''ring_full'', num (m_errRingFullCnt app))]),
      (''NIC counters  '', [(''rx_packets'', num (es_ipackets (m_lastPortStat app))), (''imissed'', num (es_imissed (m_lastPortStat app))),
         (''ierrors'', num (es_ierrors (m_lastPortStat app)))]),
      (''              '', [(''rx_nombuf'', num (es_rx_nombuf (m_lastPortStat app))), (''q_errors'', num (es_q_errors (m_lastPortStat app)))])])"

text \<open>\<open>load\<close> is the busiest worker's load as \<open>{:.3f}\<close> prints it.\<close>

definition gen_lines :: "string \<Rightarrow> GenApplication \<Rightarrow> (string \<times> (string \<times> string) list) list" where
  "gen_lines load app = (let r = gen_DisplayResults app; top = procStat (ga_stats app ! gr_busiest r) in
     [(''Sent          '', [(''tx_packets'', num (gr_txPkt r))]),
      (''TX ring full  '', [(''err_send'', num (gr_errSend r))]),
      (''Busiest loop  '', [(''load_pct'', load), (''min_us'', num (m_minProcUS top)), (''max_us'', num (m_maxProcUS top))])] @
     (case gr_burst r of None \<Rightarrow> [] | Some (retries, late) \<Rightarrow>
       [(''Burst pacing  '', [(''tx_retry'', num retries), (''tx_late'', num late)])]))"

definition summary_text :: "string \<Rightarrow> (string \<times> (string \<times> string) list) list \<Rightarrow> string" where
  "summary_text marker ls = newline @ marker @ newline @ concat (map (\<lambda>(label, items). summary_line label items) ls) @
     ''END_'' @ marker @ newline @ newline"

definition summary_proc :: "RX_Application \<Rightarrow> string" where
  "summary_proc app = summary_text ''SUMMARY_PROC'' (proc_lines app)"

definition summary_gen :: "string \<Rightarrow> GenApplication \<Rightarrow> string" where
  "summary_gen load app = summary_text ''SUMMARY_GEN'' (gen_lines load app)"

subsection \<open>Reading\<close>

text \<open>\<open>awk\<close> reads records up to a newline; the last one may lack it.\<close>

fun records :: "string \<Rightarrow> string \<Rightarrow> string list" where
  "records cur [] = (if cur = [] then [] else [cur])"
| "records cur (c # cs) = (if c = CHR 0x0A then cur # records [] cs else records (cur @ [c]) cs)"

definition blank :: "char \<Rightarrow> bool" where
  "blank c \<longleftrightarrow> c = CHR '' '' \<or> c = CHR 0x09"

text \<open>\<open>split\<close> at \<open>[ \<setminus>t]+\<close>: a run of separators ends a token.\<close>

fun awk_split :: "string \<Rightarrow> bool \<Rightarrow> string \<Rightarrow> string list" where
  "awk_split cur between [] = [cur]"
| "awk_split cur between (c # cs) =
     (if blank c then (if between then awk_split cur True cs else cur # awk_split [] True cs)
      else awk_split (cur @ [c]) False cs)"

record AwkState =
  aw_last :: string
  aw_inblk :: bool
  aw_blk :: string

definition awk_rule :: "AwkState \<Rightarrow> string \<Rightarrow> AwkState" where
  "awk_rule s l =
     (if list_ex (\<lambda>m. prefix m l \<and> length m < length l \<and> blank (l ! length m)) [''SUMMARY_GEN'', ''SUMMARY_PROC''] then s\<lparr> aw_last := l, aw_inblk := False \<rparr>
      else if l = ''SUMMARY_GEN'' \<or> l = ''SUMMARY_PROC'' then s\<lparr> aw_inblk := True, aw_blk := [] \<rparr>
      else if l = ''END_SUMMARY_GEN'' \<or> l = ''END_SUMMARY_PROC''
           then (if aw_inblk s then s\<lparr> aw_last := aw_blk s, aw_inblk := False \<rparr> else s)
      else if aw_inblk s then s\<lparr> aw_blk := aw_blk s @ '' '' @ l \<rparr> else s)"

text \<open>The value of the last matching token of the last summary, or the default.\<close>

definition summary_field :: "string \<Rightarrow> string \<Rightarrow> string \<Rightarrow> string" where
  "summary_field log key dflt =
     (let s = foldl awk_rule \<lparr> aw_last = [], aw_inblk = False, aw_blk = [] \<rparr> (records [] log);
          last = (if aw_inblk s \<and> aw_blk s \<noteq> [] then aw_blk s else aw_last s)
      in case find (prefix (key @ ''='')) (rev (awk_split [] False last)) of
           None \<Rightarrow> dflt
         | Some tok \<Rightarrow> (let value = drop (length key + 1) tok in if value = [] then dflt else value))"

subsection \<open>Records\<close>

lemma records_append: "records cur (pre @ newline @ s) = records cur (pre @ newline) @ records [] s"
  by (induction cur pre rule: records.induct) simp_all

lemma records_line: "CHR 0x0A \<notin> set l \<Longrightarrow> records cur (l @ newline @ s) = (cur @ l) # records [] s"
  by (induction l arbitrary: cur) auto

subsection \<open>Tokens with an equals sign\<close>

text \<open>What \<open>split\<close> finds in \<open>s\<close>, less the tokens without an equals sign.\<close>

definition assigned :: "string \<Rightarrow> string list" where
  "assigned s = filter (\<lambda>t. CHR ''='' \<in> set t) (awk_split [] True s)"

definition blank_led :: "string \<Rightarrow> bool" where
  "blank_led s \<longleftrightarrow> s = [] \<or> blank (hd s)"

lemma split_words:
  assumes "CHR ''='' \<notin> set cur" and "CHR ''='' \<notin> set w" and "b \<Longrightarrow> cur = []" and "blank_led s"
  shows "filter (\<lambda>t. CHR ''='' \<in> set t) (awk_split cur b (w @ s)) = assigned s"
  using assms(1-3)
proof (induction w arbitrary: cur b)
  case Nil
  then show ?case using assms(4) by (cases s) (auto simp: assigned_def blank_led_def)
qed auto

lemma assigned_words: "CHR ''='' \<notin> set w \<Longrightarrow> blank_led s \<Longrightarrow> assigned (w @ s) = assigned s"
  using split_words [of "[]" w True s] by (simp add: assigned_def)

lemma assigned_blank: "blank c \<Longrightarrow> assigned (c # s) = assigned s"
  by (simp add: assigned_def)

lemma split_token: "\<forall>c \<in> set w. \<not> blank c \<Longrightarrow> awk_split cur b (w @ s) = awk_split (cur @ w) (b \<and> w = []) s"
  by (induction w arbitrary: cur b) simp_all

lemma assigned_token:
  assumes "\<forall>c \<in> set w. \<not> blank c" and "CHR ''='' \<in> set w" and "blank_led s"
  shows "assigned (w @ s) = w # assigned s"
proof -
  have "w \<noteq> []" using assms(2) by auto
  then have "awk_split [] True (w @ s) = awk_split w False s" using split_token [OF assms(1)] by simp
  then show ?thesis using assms(2,3) by (cases s) (auto simp: assigned_def blank_led_def)
qed

subsection \<open>The block of a summary\<close>

abbreviation (input) item :: "string \<times> string \<Rightarrow> string" where "item kv \<equiv> fst kv @ ''='' @ snd kv"

definition block_line :: "string \<times> (string \<times> string) list \<Rightarrow> string" where
  "block_line l = tab @ fst l @ concat (map (\<lambda>kv. tab @ item kv) (snd l))"

definition line_ok :: "string \<times> (string \<times> string) list \<Rightarrow> bool" where
  "line_ok l \<longleftrightarrow> CHR ''='' \<notin> set (fst l) \<and> CHR 0x0A \<notin> set (fst l) \<and> (\<forall>kv \<in> set (snd l). CHR ''='' \<notin> set (fst kv) \<and> snd kv \<noteq> [] \<and>
     (\<forall>c \<in> set (fst kv) \<union> set (snd kv). \<not> blank c \<and> c \<noteq> CHR 0x0A))"

definition block_text :: "(string \<times> (string \<times> string) list) list \<Rightarrow> string" where
  "block_text ls = concat (map (\<lambda>l. '' '' @ block_line l) ls)"

lemma blank_facts [simp]: "blank CHR '' ''" "blank CHR 0x09" "\<not> blank CHR ''=''"
  by (simp_all add: blank_def)

lemma assigned_items:
  assumes "\<forall>kv \<in> set items. \<forall>c \<in> set (fst kv) \<union> set (snd kv). \<not> blank c" and "blank_led s"
  shows "assigned (concat (map (\<lambda>kv. tab @ item kv) items) @ s) = map item items @ assigned s"
  using assms(1)
proof (induction items)
  case (Cons kv items)
  let ?r = "concat (map (\<lambda>kv. tab @ item kv) items) @ s"
  have "blank_led ?r" using assms(2) by (cases items) (auto simp: blank_led_def)
  moreover have "\<forall>c \<in> set (item kv). \<not> blank c" using Cons.prems by auto
  ultimately have "assigned (item kv @ ?r) = item kv # assigned ?r" by (intro assigned_token) simp_all
  then show ?case using Cons assigned_blank [of "CHR 0x09" "item kv @ ?r"] by simp
qed simp

lemma assigned_block: "\<forall>l \<in> set ls. line_ok l \<Longrightarrow> assigned (block_text ls) = map item (concat (map snd ls))"
proof (induction ls)
  case Nil
  then show ?case by (simp add: block_text_def assigned_def)
next
  case (Cons l ls)
  let ?i = "concat (map (\<lambda>kv. tab @ item kv) (snd l))"
  have led: "blank_led (block_text ls)" by (cases ls) (simp_all add: block_text_def blank_led_def)
  then have "blank_led (?i @ block_text ls)" by (cases "snd l") (auto simp: blank_led_def)
  then have "assigned (block_text (l # ls)) = assigned (?i @ block_text ls)"
    using Cons.prems assigned_words [of "fst l" "?i @ block_text ls"] assigned_blank [of _ "fst l @ ?i @ block_text ls"]
      assigned_blank [of "CHR '' ''" "CHR 0x09 # fst l @ ?i @ block_text ls"]
    by (simp add: block_text_def block_line_def line_ok_def)
  also have "\<dots> = map item (snd l) @ assigned (block_text ls)"
    by (rule assigned_items [OF _ led]) (use Cons.prems in \<open>auto simp: line_ok_def\<close>)
  finally show ?case using Cons by simp
qed

subsection \<open>A summary is read back\<close>

lemma find_rev_filter: "(\<And>t. P t \<Longrightarrow> Q t) \<Longrightarrow> find P (rev ts) = find P (rev (filter Q ts))"
proof (induction ts rule: rev_induct)
  case (snoc t ts)
  then show ?case by (cases "P t") auto
qed simp

lemma prefix_item:
  assumes "CHR ''='' \<notin> set key" and "CHR ''='' \<notin> set key'"
  shows "prefix (key @ ''='') (key' @ ''='' @ value) \<longleftrightarrow> key = key'"
  using assms
proof (induction key arbitrary: key')
  case Nil
  then show ?case by (cases key') auto
next
  case (Cons c key)
  then show ?case by (cases key') auto
qed

lemma find_item:
  assumes "\<forall>kv \<in> set its. CHR ''='' \<notin> set (fst kv)" and "distinct (map fst its)" and "(key, value) \<in> set its"
  shows "find (prefix (key @ ''='')) (rev (map item its)) = Some (key @ ''='' @ value)"
  using assms
proof (induction its rule: rev_induct)
  case (snoc kv its)
  have k: "CHR ''='' \<notin> set key" "CHR ''='' \<notin> set (fst kv)" using snoc.prems(1,3) by force+
  show ?case
  proof (cases "kv = (key, value)")
    case True
    then show ?thesis using prefix_item [OF k, of "snd kv"] by simp
  next
    case False
    then have "(key, value) \<in> set its" using snoc.prems(3) by auto
    moreover have "fst kv \<notin> fst ` set its" using snoc.prems(2) by simp
    then have "fst kv \<noteq> key" using \<open>(key, value) \<in> set its\<close> by (metis fst_conv image_eqI)
    ultimately show ?thesis using snoc prefix_item [OF k, of "snd kv"] by auto
  qed
qed simp

text \<open>The rules of the script over the lines of a summary.\<close>

lemma line_newline: "line_ok l \<Longrightarrow> CHR 0x0A \<notin> set (block_line l)"
  by (auto simp: line_ok_def block_line_def)

lemma summary_records:
  assumes "\<forall>l \<in> set ls. line_ok l" and "CHR 0x0A \<notin> set marker"
  shows "records [] (marker @ newline @ concat (map (\<lambda>(label, items). summary_line label items) ls) @ ''END_'' @ marker @ newline @ newline) =
    marker # map block_line ls @ [''END_'' @ marker, []]"
proof -
  have "records [] (concat (map (\<lambda>(label, items). summary_line label items) ls) @ s) = map block_line ls @ records [] s" for s
    using assms(1)
  proof (induction ls)
    case (Cons l ls)
    have e: "summary_line (fst l) (snd l) = block_line l @ newline" by (simp add: summary_line_def block_line_def case_prod_unfold)
    have "CHR 0x0A \<notin> set (block_line l)" using Cons.prems line_newline by simp
    from records_line [OF this, of "[]"] Cons show ?case by (simp add: e case_prod_unfold)
  qed simp
  moreover have "CHR 0x0A \<notin> set (''END_'' @ marker)" using assms(2) by simp
  from records_line [OF this, of "[]" newline] have "records [] (''END_'' @ marker @ newline @ newline) = [''END_'' @ marker, []]" by simp
  ultimately show ?thesis using records_line [OF assms(2), of "[]"] by simp
qed

lemma awk_block_line: "aw_inblk s \<Longrightarrow> awk_rule s (block_line l) = s\<lparr> aw_blk := aw_blk s @ '' '' @ block_line l \<rparr>"
  by (simp add: awk_rule_def block_line_def)

lemma awk_block:
  "aw_inblk s \<Longrightarrow> foldl awk_rule s (map block_line ls) = s\<lparr> aw_blk := aw_blk s @ block_text ls \<rparr>"
  by (induction ls arbitrary: s) (simp_all add: awk_block_line block_text_def)

lemma awk_summary:
  assumes "marker = ''SUMMARY_GEN'' \<or> marker = ''SUMMARY_PROC''"
  shows "foldl awk_rule s (marker # map block_line ls @ [''END_'' @ marker, []]) = s\<lparr> aw_last := block_text ls, aw_inblk := False, aw_blk := block_text ls \<rparr>"
proof -
  have "awk_rule s marker = s\<lparr> aw_inblk := True, aw_blk := [] \<rparr>" using assms by (auto simp: awk_rule_def)
  moreover have "awk_rule (s\<lparr> aw_inblk := True, aw_blk := b \<rparr>) (''END_'' @ marker) = s\<lparr> aw_last := b, aw_inblk := False, aw_blk := b \<rparr>" for b
    using assms by (auto simp: awk_rule_def)
  moreover have "awk_rule (s\<lparr> aw_last := b, aw_inblk := False, aw_blk := b \<rparr>) [] = s\<lparr> aw_last := b, aw_inblk := False, aw_blk := b \<rparr>" for b
    by (simp add: awk_rule_def)
  ultimately show ?thesis by (simp add: awk_block)
qed

lemma summary_read_back:
  assumes "marker = ''SUMMARY_GEN'' \<or> marker = ''SUMMARY_PROC''" and ok: "\<forall>l \<in> set ls. line_ok l"
    and "distinct (map fst (concat (map snd ls)))" and "(key, value) \<in> set (concat (map snd ls))"
  shows "summary_field (pre @ summary_text marker ls) key dflt = value"
proof -
  let ?b = "block_text ls" and ?its = "concat (map snd ls)"
  have m: "CHR 0x0A \<notin> set marker" using assms(1) by auto
  have rec: "records [] (pre @ summary_text marker ls) = records [] (pre @ newline) @ marker # map block_line ls @ [''END_'' @ marker, []]"
    unfolding summary_text_def records_append [of "[]" pre "marker @ _"] summary_records [OF ok m] ..
  have led: "blank_led ?b" by (cases ls) (simp_all add: block_text_def blank_led_def)
  have "CHR ''='' \<in> set t" if "prefix (key @ ''='') t" for t using that by (auto elim: prefixE)
  note search = find_rev_filter [of "prefix (key @ ''='')" "\<lambda>t. CHR ''='' \<in> set t" "awk_split [] False ?b", OF this]
  have "filter (\<lambda>t. CHR ''='' \<in> set t) (awk_split [] False ([] @ ?b)) = assigned ?b" by (rule split_words) (simp_all add: led)
  then have tokens: "filter (\<lambda>t. CHR ''='' \<in> set t) (awk_split [] False ?b) = map item ?its" unfolding assigned_block [OF ok] by simp
  have "find (prefix (key @ ''='')) (rev (awk_split [] False ?b)) = find (prefix (key @ ''='')) (rev (map item ?its))"
    by (rule search [unfolded tokens])
  also have "\<dots> = Some (key @ ''='' @ value)" by (rule find_item [OF _ assms(3,4)]) (use ok in \<open>auto simp: line_ok_def\<close>)
  finally have f: "find (prefix (key @ ''='')) (rev (awk_split [] False ?b)) = Some (key @ ''='' @ value)" .
  have "value \<noteq> []" using ok assms(4) by (fastforce simp: line_ok_def)
  then show ?thesis using f by (simp add: summary_field_def rec awk_summary [OF assms(1), simplified] Let_def)
qed

subsection \<open>Properties\<close>

lemma dec_chars: "c \<in> set (dec n) \<Longrightarrow> \<not> blank c \<and> c \<noteq> CHR 0x0A"
proof (induction n rule: dec.induct)
  case (1 n)
  have "\<not> blank (char_of (48 + d :: nat)) \<and> char_of (48 + d) \<noteq> CHR 0x0A" if "d < 10" for d :: nat
  proof -
    have "of_char (char_of (48 + d)) = (48 + d :: nat)" using that by simp
    moreover have "of_char CHR '' '' = (32 :: nat)" "of_char CHR 0x09 = (9 :: nat)" "of_char CHR 0x0A = (10 :: nat)" by simp_all
    ultimately show ?thesis by (auto simp: blank_def simp del: of_char_of)
  qed
  then show ?case using 1 dec.simps [of n] by (auto split: if_split_asm)
qed

lemma dec_not_nil: "dec n \<noteq> []"
  by (subst dec.simps) simp

lemma num_text: "num w \<noteq> []" "CHR '' '' \<notin> set (num w)" "CHR 0x09 \<notin> set (num w)" "CHR 0x0A \<notin> set (num w)"
  using dec_not_nil dec_chars [of _ "unat w"] unfolding num_def by (force simp: blank_def)+

lemma line_ok_iff:
  "line_ok (label, items) \<longleftrightarrow> CHR ''='' \<notin> set label \<and> CHR 0x0A \<notin> set label \<and> list_all (\<lambda>(key, value). CHR ''='' \<notin> set key \<and> value \<noteq> [] \<and>
     CHR '' '' \<notin> set key \<and> CHR 0x09 \<notin> set key \<and> CHR 0x0A \<notin> set key \<and>
     CHR '' '' \<notin> set value \<and> CHR 0x09 \<notin> set value \<and> CHR 0x0A \<notin> set value) items"
  unfolding line_ok_def list_all_iff blank_def by (fastforce split: prod.splits)

lemma summary_read_all:
  assumes "marker = ''SUMMARY_GEN'' \<or> marker = ''SUMMARY_PROC''" and "\<forall>l \<in> set ls. line_ok l" and "distinct (map fst (concat (map snd ls)))"
  shows "map (\<lambda>(key, value). summary_field (pre @ summary_text marker ls) key dflt) (concat (map snd ls)) = map snd (concat (map snd ls))"
proof (intro map_cong refl)
  fix kv assume "kv \<in> set (concat (map snd ls))"
  then show "(case kv of (key, value) \<Rightarrow> summary_field (pre @ summary_text marker ls) key dflt) = snd kv"
    using summary_read_back [OF assms, of "fst kv" "snd kv"] by (simp add: case_prod_unfold)
qed

text \<open>The generator's summary; the printed load is a text without separators.\<close>

lemma gen_summary_roundtrip:
  assumes "load \<noteq> []" and "CHR '' '' \<notin> set load" "CHR 0x09 \<notin> set load" "CHR 0x0A \<notin> set load"
  shows "map (\<lambda>(key, value). summary_field (pre @ summary_gen load app) key dflt) (concat (map snd (gen_lines load app))) =
    map snd (concat (map snd (gen_lines load app)))"
  unfolding summary_gen_def
proof (rule summary_read_all)
  show "\<forall>l \<in> set (gen_lines load app). line_ok l"
    by (cases "gr_burst (gen_DisplayResults app)") (auto simp: gen_lines_def Let_def line_ok_iff num_text assms)
  show "distinct (map fst (concat (map snd (gen_lines load app))))"
    by (cases "gr_burst (gen_DisplayResults app)") (auto simp: gen_lines_def Let_def)
qed simp

text \<open>
  The results of a run survive the log. From the log of the receiver, whatever it holds before the summary and even
  older summaries, the script reads back for each key the number the receiver printed.
\<close>

lemma proc_summary_roundtrip:
  "map (\<lambda>(key, value). summary_field (pre @ summary_proc app) key dflt) (concat (map snd (proc_lines app))) =
   map snd (concat (map snd (proc_lines app)))"
proof -
  obtain a b c d where r: "DisplayResults app = ((a, b), (c, d))" by (metis surj_pair)
  have ok: "\<forall>l \<in> set (proc_lines app). line_ok l" by (simp add: proc_lines_def r line_ok_iff num_text)
  have "distinct (map fst (concat (map snd (proc_lines app))))" by (simp add: proc_lines_def r)
  with ok show ?thesis unfolding summary_proc_def by (intro summary_read_all) simp_all
qed

end
