(* ===== verification/RX_Run.thy ===== *)
theory RX_Run
  imports RX_Multi Summary Tools
begin

text \<open>
  \<open>RX_Application::Run\<close> of \<open>src/bus_processor/rx_application.cpp\<close> around its loops: the port and the number of cores, the start of
  the port, and the summary at the end. The single-core run is followed to the numbers that the evaluation script reads from
  the log.
\<close>

section \<open>A run of the receiver\<close>

text \<open>
  The exceptions of \<open>Run\<close>, in the order in which it can raise them: pool, port, number of cores, start of the port, link.
  \<open>pool\<close> tells whether \<open>rte_pktmbuf_pool_create\<close> succeeded; an \<open>unsigned\<close> descriptor number becomes a \<open>uint16_t\<close>.
\<close>

definition rx_port :: "u32 \<Rightarrow> u32 \<Rightarrow> int \<Rightarrow> RX_Application \<Rightarrow> PortBuilder" where
  "rx_port PROCESSOR_RX_DESC PROCESSOR_TX_DESC descSocketID app =
     (let RX_DESC_NUM = (if m_rxDescNum app > 0 then m_rxDescNum app else PROCESSOR_RX_DESC)
      in SetRxIpCksum True (SetDescriptorSocketId descSocketID
           (SetDescriptors (ucast RX_DESC_NUM) (ucast PROCESSOR_TX_DESC) (AdjustQueues 1 1 (SetMemPool (PortBuilder_new 0))))))"

definition rx_link :: "(u16 \<Rightarrow> int) \<Rightarrow> (nat \<Rightarrow> string + bool) \<Rightarrow> 'f Port \<Rightarrow> string + 'f Port" where
  "rx_link dev_start link port =
     (case Port_Start dev_start port of Inl e \<Rightarrow> Inl e | Inr port \<Rightarrow>
      case WaitLink link 60 of Inl e \<Rightarrow> Inl e | Inr up \<Rightarrow> if up then Inr port else Inl ''Link is still down after 60 sec...'')"

definition Run_start ::
    "u32 \<Rightarrow> u32 \<Rightarrow> int \<Rightarrow> bool \<Rightarrow> Device \<Rightarrow> (u16 \<Rightarrow> int) \<Rightarrow> (nat \<Rightarrow> string + bool) \<Rightarrow> u32 \<Rightarrow> RX_Application \<Rightarrow> string + RunMode \<times> 'f Port" where
  "Run_start PROCESSOR_RX_DESC PROCESSOR_TX_DESC descSocketID pool dev dev_start link lcores app =
     (if \<not> pool then Inl ''Mempool creation failed: bus_proc_pool'' else
      case snd (Build dev (rx_port PROCESSOR_RX_DESC PROCESSOR_TX_DESC descSocketID app) :: 'f DevCall list \<times> (string + 'f Port)) of
        Inl e \<Rightarrow> Inl e
      | Inr eth \<Rightarrow> (case Run_mode lcores of
            Inl e \<Rightarrow> Inl e
          | Inr mode \<Rightarrow> map_sum id (Pair mode) (rx_link dev_start link eth)))"

text \<open>Behind the loops: the last statistics of the card, if they could be read, and the summary.\<close>

definition Run_finish :: "EthStats option \<Rightarrow> RX_Application \<Rightarrow> RX_Application \<times> string" where
  "Run_finish stats app =
     (let app = (case stats of None \<Rightarrow> app | Some st \<Rightarrow> app\<lparr> m_lastPortStat := st \<rparr>) in (app, summary_proc app))"

text \<open>A single-core run, from the bursts to the summary in the log.\<close>

definition Run_single :: "mbuf list list \<Rightarrow> EthStats option \<Rightarrow> Crypto \<Rightarrow> RX_Application \<Rightarrow> (RX_Application \<times> string) option option" where
  "Run_single bursts stats crypto app = and_then (single_core bursts app crypto) (\<lambda>app. Some (Some (Run_finish stats app)))"

subsection \<open>Start-up\<close>

text \<open>A run that starts has its port started, a number of cores the loops can work with, and a worker for every key.\<close>

lemma run_start_ok:
  assumes "Run_start rx tx sock pool dev dev_start link lcores app = Inr (mode, eth)"
  shows "pool \<and> p_isStarted eth \<and> WaitLink link 60 = Inr True \<and>
    (case mode of RUN_SINGLE_CORE \<Rightarrow> lcores = 1 | RUN_MULTI_CORE n \<Rightarrow> n = lcores - 1 \<and> worker_count_ok n \<and> n \<noteq> 1)"
proof -
  obtain port where p: "pool" "Run_mode lcores = Inr mode" "rx_link dev_start link port = Inr eth"
    using assms by (auto simp: Run_start_def map_sum_def split: if_split_asm sum.split_asm)
  have "p_isStarted eth" "WaitLink link 60 = Inr True"
    using p(3) by (auto simp: rx_link_def Port_Start_def split: if_split_asm sum.split_asm)
  moreover have "case mode of RUN_SINGLE_CORE \<Rightarrow> lcores = 1 | RUN_MULTI_CORE n \<Rightarrow> n = lcores - 1 \<and> worker_count_ok n \<and> n \<noteq> 1"
    using p(2) by (auto simp: Run_mode_def Let_def split: if_split_asm)
  ultimately show ?thesis using p(1) by simp
qed

subsection \<open>Properties\<close>

text \<open>The key under which the summary gives a counter; the frames for the kernel are not in it.\<close>

fun counter_key :: "Counter \<Rightarrow> string option" where
  "counter_key RX_GOOSE = Some ''goose_total''"
| "counter_key RX_SV = Some ''sv_total''"
| "counter_key ERR_GOOSE = Some ''goose_parse_err''"
| "counter_key ERR_SV = Some ''sv_parse_err''"
| "counter_key UNKNOWN_GOOSE = Some ''goose_unknown''"
| "counter_key UNKNOWN_SV = Some ''sv_unknown''"
| "counter_key ERR_AUTH = Some ''auth_fail''"
| "counter_key TO_KERNEL = None"

lemma proc_items:
  assumes "counter_key c = Some key"
  shows "(key, num (load c app)) \<in> set (concat (map snd (proc_lines app)))"
proof -
  obtain a b d e where r: "DisplayResults app = ((a, b), (d, e))" by (metis surj_pair)
  show ?thesis using assms by (cases c) (auto simp: proc_lines_def r)
qed

lemma tally_bursts:
  assumes "\<forall>bufs \<in> set bursts. burst_ok bufs"
  shows "tally crypto app (concat (map full_order bursts)) c = tally crypto app (concat bursts) c"
proof (rule tally_place [where n = 1], rule allI)
  fix p
  show "filter (\<lambda>m. place 1 m = p) (concat (map full_order bursts)) = filter (\<lambda>m. place 1 m = p) (concat bursts)"
    using assms by (induction bursts) (auto simp: full_order_stage burst_ok_def buffer_classified)
qed

text \<open>
  C11: what the script reads is what came in. After a single-core run over any bursts, the script finds in the log, under the
  key of a counter, the number of frames that ended in that class (added to the value at the start, modulo the width), and under
  \<open>imissed\<close> the card's own count.
\<close>

theorem run_log_counts:
  assumes "Run_single bursts (Some stats) crypto app = Some (Some (app', log))" and "\<forall>bufs \<in> set bursts. burst_ok bufs"
    and "counter_key c = Some key"
  shows "summary_field (pre @ log) key dflt = num (load c app + of_nat (tally crypto app (concat bursts) c)) \<and>
    summary_field (pre @ log) ''imissed'' dflt = num (es_imissed stats)"
proof -
  obtain a where a: "single_core bursts app crypto = Some (Some a)" "app' = a\<lparr> m_lastPortStat := stats \<rparr>" "log = summary_proc app'"
    using assms(1) by (auto simp: Run_single_def Run_finish_def Let_def and_then_eq_Some)
  obtain x y z w where r: "DisplayResults app' = ((x, y), (z, w))" by (metis surj_pair)
  have ok: "\<forall>l \<in> set (proc_lines app'). line_ok l" "distinct (map fst (concat (map snd (proc_lines app'))))"
    by (simp_all add: proc_lines_def r line_ok_iff num_text)
  have read: "summary_field (pre @ summary_proc app') k dflt = v" if "(k, v) \<in> set (concat (map snd (proc_lines app')))" for k v
    unfolding summary_proc_def by (rule summary_read_back [OF _ ok that]) simp
  have "load c app' = load c a" by (cases c) (simp_all add: a(2))
  then have "load c app' = load c app + of_nat (tally crypto app (concat bursts) c)"
    using single_core_run [OF a(1) assms(2)] tally_bursts [OF assms(2)] by simp
  moreover have "(''imissed'', num (es_imissed stats)) \<in> set (concat (map snd (proc_lines app')))" by (simp add: proc_lines_def r) (simp add: a(2))
  ultimately show ?thesis using read proc_items [OF assms(3), of app'] by (simp add: a(3))
qed

theorem run_log_counts_witness:
  "\<exists>app' log. Run_single [[runt 8], [], [runt 9, runt 8]] (Some (EthStats_init\<lparr> es_imissed := 7 \<rparr>)) xor_crypto RX_Application_init = Some (Some (app', log)) \<and>
    summary_field log ''sv_parse_err'' ''0'' = ''3'' \<and> summary_field log ''imissed'' ''0'' = ''7''"
proof -
  let ?bs = "[[runt 8], [], [runt 9, runt 8]]" and ?st = "EthStats_init\<lparr> es_imissed := 7 \<rparr>"
  have ok: "\<forall>bufs \<in> set ?bs. burst_ok bufs" by (simp add: burst_ok_def runt_stage)
  have "\<exists>a. single_core ?bs RX_Application_init xor_crypto = Some (Some a)"
    by (rule single_core_total) (simp_all add: burst_ok_def sv_only_def runt_stage xor_crypto_works)
  then obtain app' log where run: "Run_single ?bs (Some ?st) xor_crypto RX_Application_init = Some (Some (app', log))"
    by (auto simp: Run_single_def Run_finish_def Let_def)
  have "tally xor_crypto RX_Application_init (concat ?bs) ERR_SV = 3" by (simp add: tally_def runt_counted)
  moreover have "num (3 :: u64) = ''3''" "num (7 :: u64) = ''7''" by (simp_all add: num_def dec.simps char_of_def bit_0)
  moreover have "load ERR_SV RX_Application_init = 0" by (simp add: RX_Application_init_def)
  ultimately show ?thesis using run run_log_counts [OF run ok, of ERR_SV "''sv_parse_err''" "[]" "''0''"] by simp
qed

end
