(* ===== verification/Spec2Isabelle.thy ===== *)
theory Spec2Isabelle
  imports Goose_End_To_End Crypto_Bench RX_Run
begin

text \<open>
  ProcessBus: a traffic generator (\<open>bus_generator\<close>) and a receiver (\<open>bus_processor\<close>) for the IEC 61850
  process bus, both on DPDK. Two families of messages, GOOSE and Sampled Values (SV), travel either in
  Ethernet frames (L2) or, as R-GOOSE and R-SV, in UDP/IPv4 multicast with a session layer that can sign
  (HMAC-SHA256-128) or encrypt (AES-128-GCM) them. Paths below are under \<open>src/\<close>.

  The parts and how they interact

  The generator's application (\<open>bus_generator/gen_application.cpp\<close>) reads the options, builds the traffic
  generators, fills a buffer pool with their skeleton frame and starts the sending loops, one per core.
  A loop walks through a schedule of packet descriptors, has the generator amend a buffer per descriptor
  (\<open>AmendPacket\<close>) and gives the buffers to the card. The receiver's application
  (\<open>bus_processor/rx_application.cpp\<close>) registers the streams it expects, reads bursts from the card, and
  passes them either through the pipeline of one core or through a distributor to several. The pipeline
  classifies a frame, parses it, looks its stream up and checks the message against the stream's counters;
  a timer thread turns the counters into statistics.

  Theories

  \<^item> \<open>PBus_Prelude\<close>: machine words, byte buffers with bounds-checked loads and stores, big-endian numbers,
    \<open>run_loop\<close> and \<open>run_nested\<close> for loops.
  \<^item> \<open>R_Session\<close>: \<open>common/r_session.cpp\<close> and the common half of the crypto class. \<open>build\<close>, \<open>seal\<close>, \<open>parse_session\<close>,
    \<open>unseal\<close>, \<open>parse_payload\<close> on byte buffers. What is built and sealed comes back in all three modes; parsing stays
    inside the PDU for any content; nothing unauthenticated is accepted.
  \<^item> \<open>Crypto_Backends\<close>: \<open>common/r_session_crypto_openssl.cpp\<close>, \<open>r_session_crypto_mbedtls.cpp\<close> and the variants of
    \<open>tools/crypto_bench.cpp\<close>, over the documented behaviour of the libraries. Both backends compute the same
    functions after any history of calls, successful or not.
  \<^item> \<open>Mac_Addr\<close>, \<open>R_Frame\<close>: \<open>common/mac_addr.hpp\<close>, \<open>common/r_frame_builder.cpp\<close>. The 42 octets in front of a session PDU,
    the IPv4 checksum, the multicast address of a group, and the precomputed per-group fields, which
    are shown to be what a rebuild of the prefix would write.
  \<^item> \<open>BER\<close>, \<open>Goose_Parser\<close>, \<open>SV_Parser\<close>, \<open>R_Parser\<close>: \<open>bus_processor/process_bus_parser.cpp\<close>. For each parser, what it
    reports for a frame that an encoder of the standard wrote, and what it does with any other: the SV parsers
    return and stay inside the frame; the GOOSE walk ends unless an item has a negative length, and then it does not.
  \<^item> \<open>Sequence_Tracking\<close>, \<open>Goose_Container\<close>, \<open>SV_Container\<close>, \<open>AppId_Container\<close>: \<open>common/goose_container.hpp\<close>,
    \<open>common/sv_container.hpp\<close>, \<open>bus_processor/appid_container.hpp\<close>. The locale \<open>seq_tracker\<close> is the contract of the
    four trackers, \<open>appid_key\<close> what the container needs of its key, \<open>registry\<close> what the pipeline needs of a container.
  \<^item> \<open>Pipeline\<close>: \<open>bus_processor/pipeline.hpp\<close>, \<open>pipeline_pbus.hpp\<close>. The stage chain over a burst refines an abstract
    step per frame; each frame is counted once; a stream's gap counter is the number of gaps in its messages.
  \<^item> \<open>RX_App\<close>: \<open>bus_processor/rx_application.cpp\<close>. Registration, the single-core loop, the distributor, the statistics.
  \<^item> \<open>RX_Multi\<close>: distributor and workers of the multi-core mode as interleaved threads on one application, with the counters
    loaded and stored in separate steps. The locale \<open>owned_registry\<close> states that frames for one stream come from one stage of
    one worker; so all streams end as in a single-core run, although counters may fall behind.
  \<^item> \<open>Summary\<close>, \<open>RX_Run\<close>: the summaries both programs print, \<open>summary_field\<close> of \<open>deploy/common/result_parser.sh\<close>, which reads them back, and
    \<open>Run\<close> of the receiver from its start to the numbers in the log.
  \<^item> \<open>Tx_Schedule\<close>, \<open>Traffic_Gen\<close>, \<open>R_Traffic_Gen\<close>: \<open>bus_generator/tx_unit.hpp\<close> and the four generators. Schedules send
    each stream once per unit; the slices of the senders partition the streams.
  \<^item> \<open>R_Gen_Frames\<close>, \<open>Goose_Gen_Frames\<close>: what the generators leave in a buffer, whatever older frame it held: exactly the
    frame of the stream with its next numbers. The four generators meet the locale \<open>traffic_gen\<close> of the sending loops.
  \<^item> \<open>Tx_Loop\<close>: the sending loops as step relations; invariants over all reachable states.
  \<^item> \<open>Dpdk_Cpp\<close>: \<open>dpdk_cpp/\<close>, clocks, load statistics, port, external heap.
  \<^item> \<open>Gen_App\<close>: \<open>gen_application.cpp\<close> above the loops: options, checks, workers, pacing, time limit.
  \<^item> \<open>Clean_Link\<close>, \<open>End_To_End\<close>, \<open>Goose_End_To_End\<close>: generator and receiver together. The locale \<open>stream_link\<close> is the
    contract between a family of generators and the receiver; its four instances (SV, R-SV, GOOSE, R-GOOSE) show that a
    run in which nothing was dropped is reported as received in full and without gaps.
  \<^item> \<open>Tools\<close>: the programs of \<open>tools/\<close> beside the generator and the receiver. The redirector as a step relation loses no
    frame; the reports of the delay meter divide the measured delays among them; the receive counter and \<open>rtspin\<close>.
  \<^item> \<open>Crypto_Bench\<close>: \<open>main\<close> of \<open>tools/crypto_bench.cpp\<close>: options, buffers, check and list of measurements; for which sizes
    the check stays inside its buffers.

  Conventions

  A \<open>uintN_t\<close> is an \<open>N word\<close>; indices that cannot wrap are \<open>nat\<close>, with the argument given at the definition.
  A buffer is a list of octets. Loads and stores outside it are \<open>None\<close>, so that a theorem with a \<open>Some\<close> result
  says that the accesses are in bounds. Error codes and exceptions are \<open>Inl\<close>, results \<open>Inr\<close>. A loop that may
  run forever is a \<open>run_loop\<close>, whose outer \<open>None\<close> is a run that does not end: it is not a bound on the number
  of rounds, and no fuel is used anywhere. Loops that run until a signal arrives are inductive step relations or
  take the sequence of what the environment answers as a list. Byte order is that of little-endian hosts.

  Parameters

  Code that is not in the repository is an argument: the crypto libraries (records of functions with the predicates
  \<open>digest_lib\<close>, \<open>cipher_lib\<close>, \<open>mbed_lib\<close>), libiec61850 (\<open>lib\<close>, which makes the skeleton frame), DPDK and
  the kernel (answers to calls). Each property that rests on a hypothesis about one of them has a witness with
  a concrete function.

  Not modelled

  \<^item> Printing: \<open>common/console_tables.hpp\<close>, \<open>dpdk_cpp/dpdk_info_class.hpp\<close> and the stream operators.
  \<^item> System calls without a result the program uses: \<open>common/utils.cpp\<close> (priorities, memory locking, descriptors).
  \<^item> Thin owners of a DPDK object: \<open>dpdk_cpp/dpdk_mempool_class.hpp\<close>; the callback of \<open>dpdk_poolsetter_class.hpp\<close> appears as
    the fact that every buffer of a pool starts as the skeleton.
  \<^item> The variant of \<open>unwrap_r_frame\<close> for the RK3566, the flow rules of \<open>DPDK::Port\<close>, which nothing calls, and
    prefetching.
  \<^item> Memory orders weaker than sequential consistency. The counters of the receiver are not atomic; a race on
    them is modelled as interleaved loads and stores.
  \<^item> Of \<open>tools/\<close>: the printed rates and delays, which are computed in \<open>double\<close>, and the time of a crypto variant, which is a
    parameter. \<open>tests/\<close>, and of \<open>deploy/\<close> all but \<open>summary_field\<close>.
\<close>

end
